(* ===== verification/Prelude.thy ===== *)
theory Prelude
  imports Main "HOL-Library.Word" "HOL-Library.AList" "HOL-Library.Monad_Syntax"
    "HOL-Library.Multiset"
begin

unbundle bit_operations_syntax

text \<open>
  Shared vocabulary of the development: the machine types of the Rust sources, panics as
  the value \<^term>\<open>None\<close> of the option monad, vectors with checked indexing, loops that may
  panic, and the lemma collections the component theories use.

  Conventions. A Rust panic (failed \<^verbatim>\<open>unwrap\<close>/\<^verbatim>\<open>expect\<close>/\<^verbatim>\<open>assert!\<close>, index out of range,
  arithmetic overflow under overflow checks) is \<^term>\<open>None\<close>; an \<^verbatim>\<open>Err\<close> is \<^term>\<open>Inl\<close> of an
  error value. \<^verbatim>\<open>u32\<close> and \<^verbatim>\<open>u64\<close> values whose arithmetic can overflow are machine words;
  \<^verbatim>\<open>i64\<close> times are integers with the checked and saturating operations written out; node
  ids, log indices and sequence counters (\<^verbatim>\<open>u64\<close>/\<^verbatim>\<open>usize\<close> values that are compared, used as an
  index or counted up by one per log entry or message) are natural numbers, with every
  subtraction checked.
\<close>

named_theorems frame \<open>what an operation leaves unchanged\<close>
named_theorems invar \<open>operations preserve the invariants of their component\<close>

subsection \<open>Machine types\<close>

type_synonym u32 = "32 word"
type_synonym u64 = "64 word"
type_synonym node_id = nat

definition u32_inc :: "u32 \<Rightarrow> u32 option" where
  "u32_inc w = (if w = - 1 then None else Some (w + 1))"

lemma u32_inc_Some: "u32_inc w = Some v \<Longrightarrow> w < v"
proof -
  assume "u32_inc w = Some v"
  then have v: "v = w + 1" and "w \<noteq> - 1" by (auto simp: u32_inc_def split: if_splits)
  then have "1 + w \<noteq> 0" by (metis add_eq_0_iff)
  then show "w < v" unfolding v by (simp add: add.commute word_less_nat_alt unatSuc)
qed

definition i64_min :: int where "i64_min = - (2 ^ 63)"
definition i64_max :: int where "i64_max = 2 ^ 63 - 1"

definition is_i64 :: "int \<Rightarrow> bool" where
  "is_i64 x \<longleftrightarrow> i64_min \<le> x \<and> x \<le> i64_max"

text \<open>An \<^verbatim>\<open>i64\<close> result that does not fit is an overflow panic.\<close>

definition i64_check :: "int \<Rightarrow> int option" where
  "i64_check x = (if is_i64 x then Some x else None)"

definition i64_add :: "int \<Rightarrow> int \<Rightarrow> int option" where
  "i64_add a b = i64_check (a + b)"

definition i64_sub :: "int \<Rightarrow> int \<Rightarrow> int option" where
  "i64_sub a b = i64_check (a - b)"

text \<open>The saturating operations clamp to the range instead.\<close>

definition i64_clamp :: "int \<Rightarrow> int" where
  "i64_clamp x = max i64_min (min i64_max x)"

definition i64_saturating_add :: "int \<Rightarrow> int \<Rightarrow> int" where
  "i64_saturating_add a b = i64_clamp (a + b)"

definition i64_saturating_sub :: "int \<Rightarrow> int \<Rightarrow> int" where
  "i64_saturating_sub a b = i64_clamp (a - b)"

definition i64_saturating_mul :: "int \<Rightarrow> int \<Rightarrow> int" where
  "i64_saturating_mul a b = i64_clamp (a * b)"

text \<open>Rust's \<^verbatim>\<open>/\<close> on integers truncates towards zero.\<close>

definition rust_div :: "int \<Rightarrow> int \<Rightarrow> int" where
  "rust_div a b =
     (let q = \<bar>a\<bar> div \<bar>b\<bar> in if (a < 0) = (b < 0) then q else - q)"

lemma i64_check_Some [simp]: "i64_check x = Some y \<longleftrightarrow> is_i64 x \<and> y = x"
  by (auto simp: i64_check_def)

lemma i64_add_Some [simp]: "i64_add a b = Some y \<longleftrightarrow> is_i64 (a + b) \<and> y = a + b"
  by (simp add: i64_add_def)

lemma i64_sub_Some [simp]: "i64_sub a b = Some y \<longleftrightarrow> is_i64 (a - b) \<and> y = a - b"
  by (simp add: i64_sub_def)

lemma i64_clamp_is_i64: "is_i64 (i64_clamp x)"
  by (simp add: is_i64_def i64_clamp_def i64_min_def i64_max_def)

lemma i64_clamp_id: "is_i64 x \<Longrightarrow> i64_clamp x = x"
  by (simp add: is_i64_def i64_clamp_def)

lemma rust_div_nonneg: "0 \<le> a \<Longrightarrow> 0 < b \<Longrightarrow> rust_div a b = a div b"
  by (simp add: rust_div_def)

subsection \<open>Checked subtraction, vectors, loops\<close>

definition checked_sub :: "nat \<Rightarrow> nat \<Rightarrow> nat option" where
  "checked_sub a b = (if b \<le> a then Some (a - b) else None)"

definition vec_get :: "'a list \<Rightarrow> nat \<Rightarrow> 'a option" where
  "vec_get xs i = (if i < length xs then Some (xs ! i) else None)"

definition vec_set :: "'a list \<Rightarrow> nat \<Rightarrow> 'a \<Rightarrow> 'a list option" where
  "vec_set xs i x = (if i < length xs then Some (xs[i := x]) else None)"

text \<open>\<^verbatim>\<open>slice.get(from..to)\<close> followed by \<^verbatim>\<open>unwrap_or(&[])\<close>: empty when the range does not fit.\<close>

definition slice :: "'a list \<Rightarrow> nat \<Rightarrow> nat \<Rightarrow> 'a list" where
  "slice xs from to = (if from \<le> to \<and> to \<le> length xs then take (to - from) (drop from xs) else [])"

text \<open>A \<^verbatim>\<open>for\<close> loop whose body may panic.\<close>

primrec for_each :: "('a \<Rightarrow> 's \<Rightarrow> 's option) \<Rightarrow> 'a list \<Rightarrow> 's \<Rightarrow> 's option" where
  "for_each f [] s = Some s"
| "for_each f (x # xs) s = Option.bind (f x s) (for_each f xs)"

lemma bind_Some [simp]: "Option.bind m f = Some y \<longleftrightarrow> (\<exists>x. m = Some x \<and> f x = Some y)"
  by (cases m) auto

lemma checked_sub_Some [simp]: "checked_sub a b = Some c \<longleftrightarrow> b \<le> a \<and> c = a - b"
  by (auto simp: checked_sub_def)

lemma vec_get_Some [simp]: "vec_get xs i = Some x \<longleftrightarrow> i < length xs \<and> x = xs ! i"
  by (auto simp: vec_get_def)

lemma vec_set_Some [simp]: "vec_set xs i x = Some ys \<longleftrightarrow> i < length xs \<and> ys = xs[i := x]"
  by (auto simp: vec_set_def)

lemma length_slice: "length (slice xs a b) = (if a \<le> b \<and> b \<le> length xs then b - a else 0)"
  by (auto simp: slice_def)

lemma nth_slice: "i < length (slice xs a b) \<Longrightarrow> slice xs a b ! i = xs ! (a + i)"
  by (auto simp: slice_def split: if_splits)

lemma slice_append1: "b \<le> length xs \<Longrightarrow> slice (xs @ ys) a b = slice xs a b"
  by (auto simp: slice_def)

text \<open>What every iteration keeps, the loop keeps; what every iteration makes possible, the loop does.\<close>

lemma for_each_invariant:
  assumes "for_each f xs s = Some t" and "P s"
    and "\<And>x s t. x \<in> set xs \<Longrightarrow> P s \<Longrightarrow> f x s = Some t \<Longrightarrow> P t"
  shows "P t"
  using assms
proof (induction xs arbitrary: s)
  case Nil
  then show ?case by simp
next
  case (Cons x xs)
  from Cons.prems(1) obtain u where u: "f x s = Some u" "for_each f xs u = Some t"
    by auto
  have "P u" using Cons.prems(2,3) u(1) by (metis list.set_intros(1))
  then show ?case using Cons.IH [OF u(2)] Cons.prems(3) by (meson list.set_intros(2))
qed

lemma for_each_frame:
  assumes "for_each f xs s = Some t"
    and "\<And>x s t. x \<in> set xs \<Longrightarrow> f x s = Some t \<Longrightarrow> g t = g s"
  shows "g t = g s"
  using for_each_invariant [of f xs s t "\<lambda>u. g u = g s"] assms by metis

lemma for_each_total:
  assumes "P s"
    and "\<And>x s. x \<in> set xs \<Longrightarrow> P s \<Longrightarrow> \<exists>t. f x s = Some t \<and> P t"
  shows "\<exists>t. for_each f xs s = Some t \<and> P t"
  using assms
proof (induction xs arbitrary: s)
  case Nil
  then show ?case by simp
next
  case (Cons x xs)
  obtain u where u: "f x s = Some u" "P u" using Cons.prems by (metis list.set_intros(1))
  have "\<exists>t. for_each f xs u = Some t \<and> P t"
    using Cons.IH [OF u(2)] Cons.prems(2) by (meson list.set_intros(2))
  with u show ?case by auto
qed

subsection \<open>Orderings as values\<close>

datatype ordering = Less | Equal | Greater

definition cmp :: "'a::linorder \<Rightarrow> 'a \<Rightarrow> ordering" where
  "cmp a b = (if a < b then Less else if a = b then Equal else Greater)"

definition then_cmp :: "ordering \<Rightarrow> ordering \<Rightarrow> ordering" where
  "then_cmp c d = (if c = Equal then d else c)"

text \<open>\<^verbatim>\<open>Iterator::max\<close>: the last of the largest elements.\<close>

fun iter_max :: "('a::ord) list \<Rightarrow> 'a option" where
  "iter_max [] = None"
| "iter_max (x # xs) = Some (fold (\<lambda>y m. if y < m then m else y) xs x)"

end
