(* ===== verification/Unicache.thy ===== *)
theory Unicache
  imports Prelude
begin

text \<open>
  \<^verbatim>\<open>unicache/mod.rs\<close>: what the field caches of UniCache share. A field of an entry is sent
  either as it is or as a short encoding; the encodings of a cache are the successive values
  \<open>default + 1, default + 1 + 1, \<dots>\<close> of a type whose arithmetic is a parameter (\<^verbatim>\<open>Default\<close>,
  \<^verbatim>\<open>num_traits::One\<close>, \<^verbatim>\<open>Add\<close>), with an overflow as \<^term>\<open>None\<close>.
  \<open>keeps_step\<close> is the contract of a cache: an encoder and a decoder that are in step stay in
  step and the decoder returns what was encoded; it lifts to sequences of values.
\<close>

datatype ('a, 'c) maybe_encoded = Encoded 'c | NotEncoded 'a

record 'c encoded_ops =
  enc_default :: 'c
  enc_one :: 'c
  enc_add :: "'c \<Rightarrow> 'c \<Rightarrow> 'c option"

subsection \<open>The encodings a cache hands out\<close>

fun nth_encoding :: "'c encoded_ops \<Rightarrow> nat \<Rightarrow> 'c option" where
  "nth_encoding eo 0 = Some (enc_default eo)"
| "nth_encoding eo (Suc n) = do { c \<leftarrow> nth_encoding eo n; enc_add eo c (enc_one eo) }"

text \<open>A cache of \<open>sz\<close> entries never runs out of encodings and never hands one out twice.\<close>

definition encodings_fresh :: "'c encoded_ops \<Rightarrow> nat \<Rightarrow> bool" where
  "encodings_fresh eo sz \<longleftrightarrow> (\<forall>n \<in> {..sz}. nth_encoding eo n \<noteq> None) \<and>
     inj_on (nth_encoding eo) {1..sz}"

definition used_encodings :: "'c encoded_ops \<Rightarrow> nat \<Rightarrow> 'c set" where
  "used_encodings eo n = {c. \<exists>i \<in> {1..n}. nth_encoding eo i = Some c}"

lemma fresh_next:
  assumes "encodings_fresh eo sz" "n < sz" "nth_encoding eo n = Some c"
  obtains c' where "enc_add eo c (enc_one eo) = Some c'" "nth_encoding eo (Suc n) = Some c'"
    "c' \<notin> used_encodings eo n" "used_encodings eo (Suc n) = insert c' (used_encodings eo n)"
proof -
  have "nth_encoding eo (Suc n) \<noteq> None"
    using assms(1,2) by (auto simp: encodings_fresh_def simp del: nth_encoding.simps)
  then obtain c' where c': "nth_encoding eo (Suc n) = Some c'" by blast
  then have "enc_add eo c (enc_one eo) = Some c'" using assms(3) by simp
  moreover have "c' \<notin> used_encodings eo n"
  proof
    assume "c' \<in> used_encodings eo n"
    then obtain i where i: "1 \<le> i" "i \<le> n" "nth_encoding eo i = Some c'"
      by (auto simp: used_encodings_def)
    have inj: "inj_on (nth_encoding eo) {1..sz}" using assms(1) by (simp add: encodings_fresh_def)
    have "i = Suc n" by (rule inj_onD [OF inj]) (use i c' assms(2) in auto)
    then show False using i(2) by simp
  qed
  moreover have "used_encodings eo (Suc n) = insert c' (used_encodings eo n)"
    using c' by (auto simp: used_encodings_def atLeastAtMostSuc_conv simp del: nth_encoding.simps)
  ultimately show thesis using c' that by blast
qed

lemma used_encodings_0 [simp]: "used_encodings eo 0 = {}"
  by (simp add: used_encodings_def)

subsection \<open>Running a cache over a sequence of values\<close>

fun map_state :: "('a \<Rightarrow> 's \<Rightarrow> ('b \<times> 's) option) \<Rightarrow> 'a list \<Rightarrow> 's \<Rightarrow> ('b list \<times> 's) option" where
  "map_state f [] s = Some ([], s)"
| "map_state f (x # xs) s = do {
     (y, s1) \<leftarrow> f x s;
     (ys, s2) \<leftarrow> map_state f xs s1;
     Some (y # ys, s2)
   }"

lemma map_state_append:
  "map_state f xs s = Some (us, s1) \<Longrightarrow> map_state f ys s1 = Some (vs, s2) \<Longrightarrow>
    map_state f (xs @ ys) s = Some (us @ vs, s2)"
  by (induction xs arbitrary: s us) auto

lemma map_state_fails:
  "map_state f xs s = Some (us, s1) \<Longrightarrow> f y s1 = None \<Longrightarrow> map_state f (xs @ y # ys) s = None"
  by (induction xs arbitrary: s us) auto

definition keeps_step ::
    "('e \<Rightarrow> 'd \<Rightarrow> bool) \<Rightarrow> ('a \<Rightarrow> 'e \<Rightarrow> ('m \<times> 'e) option) \<Rightarrow> ('m \<Rightarrow> 'd \<Rightarrow> ('a \<times> 'd) option) \<Rightarrow> bool" where
  "keeps_step in_step enc dec \<longleftrightarrow> (\<forall>E D x. in_step E D \<longrightarrow>
     (\<exists>m E' D'. enc x E = Some (m, E') \<and> dec m D = Some (x, D') \<and> in_step E' D'))"

lemma keeps_stepD:
  assumes "keeps_step in_step enc dec" "in_step E D"
  obtains m E' D' where "enc x E = Some (m, E')" "dec m D = Some (x, D')" "in_step E' D'"
  using assms unfolding keeps_step_def by blast

lemma keeps_step_run:
  assumes "keeps_step in_step enc dec" "in_step E D"
  shows "\<exists>ms E' D'. map_state enc xs E = Some (ms, E') \<and> map_state dec ms D = Some (xs, D') \<and>
    in_step E' D'"
  using assms(2)
proof (induction xs arbitrary: E D)
  case (Cons x xs)
  obtain m E1 D1 where 1: "enc x E = Some (m, E1)" "dec m D = Some (x, D1)" "in_step E1 D1"
    using keeps_stepD [OF assms(1) Cons.prems] by blast
  obtain ms E2 D2 where "map_state enc xs E1 = Some (ms, E2)" "map_state dec ms D1 = Some (xs, D2)"
    "in_step E2 D2"
    using Cons.IH [OF 1(3)] by blast
  with 1 show ?case by (intro exI [of _ "m # ms"] exI [of _ E2] exI [of _ D2]) simp
qed simp

lemma keeps_step_run2:
  assumes "keeps_step in_step enc dec" "in_step E D"
  shows "\<exists>ms E'. map_state enc xs E = Some (ms, E') \<and> (\<exists>D'. map_state dec ms D = Some (xs, D') \<and> in_step E' D')"
  using keeps_step_run [OF assms, of xs] by blast

end
