(* ===== verification/Lru_Unicache.thy ===== *)
theory Lru_Unicache
  imports Unicache
begin

text \<open>
  \<^verbatim>\<open>unicache/lru_cache.rs\<close>: the field cache that evicts the least recently used value. The
  \<^verbatim>\<open>lru\<close> crate's \<^verbatim>\<open>LruCache\<close> is a parameter, the record \<open>lru_ops\<close>; \<open>lru_laws\<close> states its
  documented behaviour through its own iterator, most recently used entry first.
  The lemmas show that an encoder and a decoder with mirrored contents stay so, that a clone
  mirrors the encoder it was cloned from, and what the serialisation of the wrapped caches
  keeps.
\<close>

subsection \<open>The cache of the lru crate\<close>

record ('k, 'v, 'l) lru_ops =
  lru_new :: "nat \<Rightarrow> 'l"
  lru_cap :: "'l \<Rightarrow> nat"
  lru_get :: "'k \<Rightarrow> 'l \<Rightarrow> 'v option \<times> 'l"
  lru_len :: "'l \<Rightarrow> nat"
  lru_pop_lru :: "'l \<Rightarrow> ('k \<times> 'v) option \<times> 'l"
  lru_push :: "'k \<Rightarrow> 'v \<Rightarrow> 'l \<Rightarrow> 'l"
  lru_iter :: "'l \<Rightarrow> ('k \<times> 'v) list"

definition without :: "'k \<Rightarrow> ('k \<times> 'v) list \<Rightarrow> ('k \<times> 'v) list" where
  "without k xs = filter (\<lambda>p. fst p \<noteq> k) xs"

definition lru_laws :: "('k, 'v, 'l) lru_ops \<Rightarrow> bool" where
  "lru_laws ops \<longleftrightarrow>
     (\<forall>n > 0. lru_iter ops (lru_new ops n) = [] \<and> lru_cap ops (lru_new ops n) = n) \<and>
     (\<forall>l. distinct (map fst (lru_iter ops l)) \<and> lru_len ops l = length (lru_iter ops l)) \<and>
     (\<forall>k l. map_of (lru_iter ops l) k = None \<longrightarrow> lru_get ops k l = (None, l)) \<and>
     (\<forall>k v l. map_of (lru_iter ops l) k = Some v \<longrightarrow>
        (\<exists>l'. lru_get ops k l = (Some v, l') \<and> lru_cap ops l' = lru_cap ops l \<and>
          lru_iter ops l' = (k, v) # without k (lru_iter ops l))) \<and>
     (\<forall>l. lru_iter ops l \<noteq> [] \<longrightarrow>
        (\<exists>l'. lru_pop_lru ops l = (Some (last (lru_iter ops l)), l') \<and>
          lru_cap ops l' = lru_cap ops l \<and> lru_iter ops l' = butlast (lru_iter ops l))) \<and>
     (\<forall>k v l. lru_cap ops (lru_push ops k v l) = lru_cap ops l \<and>
        lru_iter ops (lru_push ops k v l) =
          (if k \<in> fst ` set (lru_iter ops l) then (k, v) # without k (lru_iter ops l)
           else if length (lru_iter ops l) < lru_cap ops l then (k, v) # lru_iter ops l
           else (k, v) # butlast (lru_iter ops l)))"

lemma lru_lawsD:
  assumes "lru_laws ops"
  shows "0 < n \<Longrightarrow> lru_iter ops (lru_new ops n) = []"
    and "0 < n \<Longrightarrow> lru_cap ops (lru_new ops n) = n"
    and "distinct (map fst (lru_iter ops l))"
    and "lru_len ops l = length (lru_iter ops l)"
    and "map_of (lru_iter ops l) k = None \<Longrightarrow> lru_get ops k l = (None, l)"
    and "lru_cap ops (lru_push ops k v l) = lru_cap ops l"
  using assms unfolding lru_laws_def by blast+

lemma lru_get_hit:
  assumes "lru_laws ops" "map_of (lru_iter ops l) k = Some v"
  obtains l' where "lru_get ops k l = (Some v, l')" "lru_cap ops l' = lru_cap ops l"
    "lru_iter ops l' = (k, v) # without k (lru_iter ops l)"
  using assms unfolding lru_laws_def by blast

lemma lru_pop:
  assumes "lru_laws ops" "lru_iter ops l \<noteq> []"
  obtains l' where "lru_pop_lru ops l = (Some (last (lru_iter ops l)), l')"
    "lru_cap ops l' = lru_cap ops l" "lru_iter ops l' = butlast (lru_iter ops l)"
  using assms unfolding lru_laws_def by blast

lemma lru_push_new:
  assumes "lru_laws ops" "k \<notin> fst ` set (lru_iter ops l)" "length (lru_iter ops l) < lru_cap ops l"
  shows "lru_iter ops (lru_push ops k v l) = (k, v) # lru_iter ops l"
  using assms unfolding lru_laws_def by simp

lemma lru_push_all:
  assumes laws: "lru_laws ops" and "distinct (map fst ps)"
    and "fst ` set ps \<inter> fst ` set (lru_iter ops l) = {}"
    and "length (lru_iter ops l) + length ps \<le> lru_cap ops l"
  shows "lru_iter ops (fold (\<lambda>(k, v). lru_push ops k v) ps l) = rev ps @ lru_iter ops l \<and>
    lru_cap ops (fold (\<lambda>(k, v). lru_push ops k v) ps l) = lru_cap ops l"
  using assms(2-)
proof (induction ps arbitrary: l)
  case (Cons p ps)
  obtain k v where p: "p = (k, v)" by (cases p)
  have push: "lru_iter ops (lru_push ops k v l) = (k, v) # lru_iter ops l"
    by (rule lru_push_new [OF laws]) (use Cons.prems p in auto)
  have "lru_cap ops (lru_push ops k v l) = lru_cap ops l" by (rule lru_lawsD(6) [OF laws])
  then show ?case using Cons.IH [of "lru_push ops k v l"] Cons.prems push p by auto
qed simp

subsection \<open>The field cache\<close>

record ('le, 'ld, 'c) lru_unicache =
  lru_cache_encoder :: 'le
  lru_cache_decoder :: 'ld
  lru_encoding :: 'c
  lru_size :: nat

definition lru_unicache_new ::
    "('a, 'c, 'le) lru_ops \<Rightarrow> ('c, 'a, 'ld) lru_ops \<Rightarrow> 'c encoded_ops \<Rightarrow> nat \<Rightarrow>
     ('le, 'ld, 'c) lru_unicache option" where
  "lru_unicache_new oe od eo sz =
     (if sz = 0 then None
      else Some \<lparr>lru_cache_encoder = lru_new oe sz, lru_cache_decoder = lru_new od sz,
                 lru_encoding = enc_default eo, lru_size = sz\<rparr>)"

definition lru_try_encode ::
    "('a, 'c, 'le) lru_ops \<Rightarrow> 'c encoded_ops \<Rightarrow> 'a \<Rightarrow> ('le, 'ld, 'c) lru_unicache \<Rightarrow>
     (('a, 'c) maybe_encoded \<times> ('le, 'ld, 'c) lru_unicache) option" where
  "lru_try_encode oe eo field self =
     (case lru_get oe field (lru_cache_encoder self) of
        (Some encoding, le) \<Rightarrow> Some (Encoded encoding, self\<lparr>lru_cache_encoder := le\<rparr>)
      | (None, le) \<Rightarrow>
          (if lru_len oe le = lru_size self
           then (case lru_pop_lru oe le of
                   (Some (_, popped_encoding), le1) \<Rightarrow>
                     Some (NotEncoded field,
                       self\<lparr>lru_cache_encoder := lru_push oe field popped_encoding le1\<rparr>)
                 | (None, _) \<Rightarrow> None)
           else do {
             added \<leftarrow> enc_add eo (lru_encoding self) (enc_one eo);
             Some (NotEncoded field, self\<lparr>lru_cache_encoder := lru_push oe field added le,
               lru_encoding := added\<rparr>)
           }))"

definition lru_decode ::
    "('c, 'a, 'ld) lru_ops \<Rightarrow> 'c encoded_ops \<Rightarrow> ('a, 'c) maybe_encoded \<Rightarrow>
     ('le, 'ld, 'c) lru_unicache \<Rightarrow> ('a \<times> ('le, 'ld, 'c) lru_unicache) option" where
  "lru_decode od eo result self =
     (case result of
        Encoded encoding \<Rightarrow>
          (case lru_get od encoding (lru_cache_decoder self) of
             (Some field, ld) \<Rightarrow> Some (field, self\<lparr>lru_cache_decoder := ld\<rparr>)
           | (None, _) \<Rightarrow> None)
      | NotEncoded not_encodable \<Rightarrow>
          (if lru_len od (lru_cache_decoder self) = lru_size self
           then (case lru_pop_lru od (lru_cache_decoder self) of
                   (Some (popped_encoded, _), ld) \<Rightarrow>
                     Some (not_encodable,
                       self\<lparr>lru_cache_decoder := lru_push od popped_encoded not_encodable ld\<rparr>)
                 | (None, _) \<Rightarrow> None)
           else do {
             added \<leftarrow> enc_add eo (lru_encoding self) (enc_one eo);
             Some (not_encodable,
               self\<lparr>lru_cache_decoder := lru_push od added not_encodable (lru_cache_decoder self),
                  lru_encoding := added\<rparr>)
           }))"

text \<open>Cloning keeps the decoder only, rebuilt from the encoder; the encoder gets capacity 1.\<close>

definition lru_clone ::
    "('a, 'c, 'le) lru_ops \<Rightarrow> ('c, 'a, 'ld) lru_ops \<Rightarrow> ('le, 'ld, 'c) lru_unicache \<Rightarrow>
     ('le, 'ld, 'c) lru_unicache option" where
  "lru_clone oe od self =
     (if lru_size self = 0 then None
      else Some \<lparr>
        lru_cache_encoder = lru_new oe 1,
        lru_cache_decoder =
          fold (\<lambda>(encodable, encoded). lru_push od encoded encodable)
            (rev (lru_iter oe (lru_cache_encoder self))) (lru_new od (lru_size self)),
        lru_encoding = lru_encoding self,
        lru_size = lru_size self\<rparr>)"

subsection \<open>Encoder and decoder in step\<close>

definition lru_in_step ::
    "('a, 'c, 'le) lru_ops \<Rightarrow> ('c, 'a, 'ld) lru_ops \<Rightarrow> 'c encoded_ops \<Rightarrow> nat \<Rightarrow>
     ('le, 'ld, 'c) lru_unicache \<Rightarrow> ('le, 'ld, 'c) lru_unicache \<Rightarrow> bool" where
  "lru_in_step oe od eo sz E D \<longleftrightarrow>
     0 < sz \<and> lru_size E = sz \<and> lru_size D = sz \<and>
     lru_cap oe (lru_cache_encoder E) = sz \<and> lru_cap od (lru_cache_decoder D) = sz \<and>
     lru_iter od (lru_cache_decoder D) = map prod.swap (lru_iter oe (lru_cache_encoder E)) \<and>
     length (lru_iter oe (lru_cache_encoder E)) \<le> sz \<and>
     nth_encoding eo (length (lru_iter oe (lru_cache_encoder E))) = Some (lru_encoding E) \<and>
     lru_encoding D = lru_encoding E \<and>
     snd ` set (lru_iter oe (lru_cache_encoder E)) =
       used_encodings eo (length (lru_iter oe (lru_cache_encoder E)))"

lemma without_remove1:
  "distinct (map fst es) \<Longrightarrow> (k, v) \<in> set es \<Longrightarrow> without k es = remove1 (k, v) es"
proof (induction es)
  case (Cons p es)
  show ?case
  proof (cases "p = (k, v)")
    case True
    then have "k \<notin> fst ` set es" using Cons.prems(1) by simp
    then have "filter (\<lambda>p. fst p \<noteq> k) es = es" by (auto simp: filter_id_conv)
    then show ?thesis using True by (simp add: without_def)
  next
    case False
    then have mem: "(k, v) \<in> set es" using Cons.prems(2) by simp
    then have "k \<in> fst ` set es" by (rule rev_image_eqI) simp
    then have "fst p \<noteq> k" using Cons.prems(1) by auto
    then show ?thesis using False Cons.IH Cons.prems(1) mem by (simp add: without_def)
  qed
qed simp

lemma map_swap_remove1: "map prod.swap (remove1 (k, v) es) = remove1 (v, k) (map prod.swap es)"
  by (induction es) auto

lemma mset_map_remove1: "p \<in> set es \<Longrightarrow> mset (map f (p # remove1 p es)) = mset (map f es)"
  by (induction es) auto

lemma map_of_swap:
  "distinct (map fst (map prod.swap es)) \<Longrightarrow> (k, v) \<in> set es \<Longrightarrow> map_of (map prod.swap es) v = Some k"
  by (subst map_of_eq_Some_iff) force+

lemma lru_in_stepD:
  assumes "lru_in_step oe od eo sz E D"
  shows "0 < sz" "lru_size E = sz" "lru_size D = sz"
    "lru_cap oe (lru_cache_encoder E) = sz" "lru_cap od (lru_cache_decoder D) = sz"
    "lru_iter od (lru_cache_decoder D) = map prod.swap (lru_iter oe (lru_cache_encoder E))"
    "length (lru_iter oe (lru_cache_encoder E)) \<le> sz"
    "nth_encoding eo (length (lru_iter oe (lru_cache_encoder E))) = Some (lru_encoding E)"
    "lru_encoding D = lru_encoding E"
    "snd ` set (lru_iter oe (lru_cache_encoder E)) =
       used_encodings eo (length (lru_iter oe (lru_cache_encoder E)))"
  using assms by (simp_all add: lru_in_step_def)

text \<open>What a step does to both sides, given the new contents of the encoder.\<close>

lemma lru_in_stepI:
  assumes "lru_in_step oe od eo sz E D" and "mset (map snd es) = mset (map snd (lru_iter oe (lru_cache_encoder E)))"
    and "lru_cap oe le = sz" "lru_iter oe le = es" "lru_cap od ld = sz" "lru_iter od ld = map prod.swap es"
  shows "lru_in_step oe od eo sz (E\<lparr>lru_cache_encoder := le\<rparr>) (D\<lparr>lru_cache_decoder := ld\<rparr>)"
proof -
  have "length es = length (lru_iter oe (lru_cache_encoder E))"
    using assms(2) by (metis length_map mset_eq_length)
  moreover have "snd ` set es = snd ` set (lru_iter oe (lru_cache_encoder E))"
    using assms(2) by (metis list.set_map mset_eq_setD)
  ultimately show ?thesis using lru_in_stepD [OF assms(1)] assms(3-) by (simp add: lru_in_step_def)
qed

lemma lru_step_hit:
  assumes oe: "lru_laws oe" and od: "lru_laws od" and rel: "lru_in_step oe od eo sz E D"
    and hit: "map_of (lru_iter oe (lru_cache_encoder E)) x = Some c"
  shows "\<exists>E' D'. lru_try_encode oe eo x E = Some (Encoded c, E') \<and>
    lru_decode od eo (Encoded c) D = Some (x, D') \<and> lru_in_step oe od eo sz E' D'"
proof -
  let ?es = "lru_iter oe (lru_cache_encoder E)"
  note D = lru_in_stepD [OF rel]
  have dist: "distinct (map fst ?es)" by (rule lru_lawsD(3) [OF oe])
  have dist': "distinct (map fst (map prod.swap ?es))" using lru_lawsD(3) [OF od] D(6) by metis
  have mem: "(x, c) \<in> set ?es" using hit by (rule map_of_SomeD)
  have mem': "(c, x) \<in> set (map prod.swap ?es)" using mem by force
  obtain le where le: "lru_get oe x (lru_cache_encoder E) = (Some c, le)" "lru_cap oe le = sz"
    "lru_iter oe le = (x, c) # remove1 (x, c) ?es"
    using lru_get_hit [OF oe hit] D(4) without_remove1 [OF dist mem] by metis
  have "map_of (lru_iter od (lru_cache_decoder D)) c = Some x"
    using map_of_swap [OF dist' mem] D(6) by simp
  from lru_get_hit [OF od this] obtain ld where ld: "lru_get od c (lru_cache_decoder D) = (Some x, ld)"
    "lru_cap od ld = sz" "lru_iter od ld = (c, x) # remove1 (c, x) (map prod.swap ?es)"
    using D(5,6) without_remove1 [OF dist' mem'] by metis
  have "lru_in_step oe od eo sz (E\<lparr>lru_cache_encoder := le\<rparr>) (D\<lparr>lru_cache_decoder := ld\<rparr>)"
  proof (rule lru_in_stepI [OF rel _ le(2,3) ld(2)])
    show "mset (map snd ((x, c) # remove1 (x, c) ?es)) = mset (map snd ?es)"
      using mem by (rule mset_map_remove1)
    show "lru_iter od ld = map prod.swap ((x, c) # remove1 (x, c) ?es)"
      using ld(3) map_swap_remove1 [of x c ?es] by simp
  qed
  with le(1) ld(1) show ?thesis by (simp add: lru_try_encode_def lru_decode_def)
qed

lemma lru_step_full:
  assumes oe: "lru_laws oe" and od: "lru_laws od" and rel: "lru_in_step oe od eo sz E D"
    and miss: "map_of (lru_iter oe (lru_cache_encoder E)) x = None"
    and full: "length (lru_iter oe (lru_cache_encoder E)) = sz"
  shows "\<exists>E' D'. lru_try_encode oe eo x E = Some (NotEncoded x, E') \<and>
    lru_decode od eo (NotEncoded x) D = Some (x, D') \<and> lru_in_step oe od eo sz E' D'"
proof -
  let ?es = "lru_iter oe (lru_cache_encoder E)"
  note D = lru_in_stepD [OF rel]
  have ne: "?es \<noteq> []" using full D(1) by auto
  obtain k c where kc: "last ?es = (k, c)" by (cases "last ?es")
  have split: "?es = butlast ?es @ [(k, c)]" using ne kc by (metis append_butlast_last_id)
  have dist': "distinct (map fst (map prod.swap ?es))" using lru_lawsD(3) [OF od] D(6) by metis
  have c: "c \<notin> fst ` set (map prod.swap (butlast ?es))"
    using dist' by (subst (asm) split) force
  have x: "x \<notin> fst ` set (butlast ?es)"
    using miss by (auto simp: map_of_eq_None_iff dest: in_set_butlastD)
  obtain le where le: "lru_pop_lru oe (lru_cache_encoder E) = (Some (k, c), le)" "lru_cap oe le = sz"
    "lru_iter oe le = butlast ?es"
    using lru_pop [OF oe ne] kc D(4) by metis
  have ne': "lru_iter od (lru_cache_decoder D) \<noteq> []"
    and last': "last (lru_iter od (lru_cache_decoder D)) = (c, k)"
    and butlast': "butlast (lru_iter od (lru_cache_decoder D)) = map prod.swap (butlast ?es)"
    using ne kc D(6) by (simp_all add: last_map map_butlast)
  obtain ld where ld: "lru_pop_lru od (lru_cache_decoder D) = (Some (c, k), ld)"
    "lru_cap od ld = sz" "lru_iter od ld = map prod.swap (butlast ?es)"
    by (rule lru_pop [OF od ne']) (use last' butlast' D(5) in simp)
  have short: "length (butlast ?es) < sz" using full D(1) by simp
  let ?le = "lru_push oe x c le" and ?ld = "lru_push od c x ld"
  have "lru_in_step oe od eo sz (E\<lparr>lru_cache_encoder := ?le\<rparr>) (D\<lparr>lru_cache_decoder := ?ld\<rparr>)"
  proof (rule lru_in_stepI [OF rel])
    show "mset (map snd ((x, c) # butlast ?es)) = mset (map snd ?es)" by (subst (2) split) simp
    show "lru_cap oe ?le = sz" "lru_cap od ?ld = sz"
      using lru_lawsD(6) [OF oe] lru_lawsD(6) [OF od] le(2) ld(2) by metis+
    show "lru_iter oe ?le = (x, c) # butlast ?es"
      using lru_push_new [OF oe, of x le c] x short le by simp
    show "lru_iter od ?ld = map prod.swap ((x, c) # butlast ?es)"
      using lru_push_new [OF od, of c ld x] c short ld by simp
  qed
  with le(1) ld(1) D(2,3,6) full miss show ?thesis
    by (simp add: lru_try_encode_def lru_decode_def lru_lawsD(5) [OF oe] lru_lawsD(4) [OF oe]
      lru_lawsD(4) [OF od])
qed

lemma lru_step_new:
  assumes oe: "lru_laws oe" and od: "lru_laws od" and fresh: "encodings_fresh eo sz"
    and rel: "lru_in_step oe od eo sz E D"
    and miss: "map_of (lru_iter oe (lru_cache_encoder E)) x = None"
    and room: "length (lru_iter oe (lru_cache_encoder E)) \<noteq> sz"
  shows "\<exists>E' D'. lru_try_encode oe eo x E = Some (NotEncoded x, E') \<and>
    lru_decode od eo (NotEncoded x) D = Some (x, D') \<and> lru_in_step oe od eo sz E' D'"
proof -
  let ?es = "lru_iter oe (lru_cache_encoder E)"
  note D = lru_in_stepD [OF rel]
  have short: "length ?es < sz" using room D(7) by simp
  obtain c where c: "enc_add eo (lru_encoding E) (enc_one eo) = Some c"
    "nth_encoding eo (Suc (length ?es)) = Some c" "c \<notin> used_encodings eo (length ?es)"
    "used_encodings eo (Suc (length ?es)) = insert c (used_encodings eo (length ?es))"
    by (rule fresh_next [OF fresh short D(8)])
  let ?le = "lru_push oe x c (lru_cache_encoder E)" and ?ld = "lru_push od c x (lru_cache_decoder D)"
  have "x \<notin> fst ` set ?es" using miss by (simp add: map_of_eq_None_iff)
  then have le: "lru_iter oe ?le = (x, c) # ?es" using lru_push_new [OF oe] short D(4) by metis
  have "c \<notin> fst ` set (lru_iter od (lru_cache_decoder D))"
    using c(3) D(6,10) by (force simp: image_image)
  then have ld: "lru_iter od ?ld = (c, x) # map prod.swap ?es"
    using lru_push_new [OF od] short D(5,6) by (metis length_map)
  have "lru_in_step oe od eo sz (E\<lparr>lru_cache_encoder := ?le, lru_encoding := c\<rparr>)
      (D\<lparr>lru_cache_decoder := ?ld, lru_encoding := c\<rparr>)"
    using D c(2,4) short le ld lru_lawsD(6) [OF oe] lru_lawsD(6) [OF od]
    by (simp add: lru_in_step_def del: nth_encoding.simps)
  then show ?thesis using c(1) D room miss
    by (simp add: lru_try_encode_def lru_decode_def lru_lawsD(5) [OF oe] lru_lawsD(4) [OF oe]
      lru_lawsD(4) [OF od])
qed

lemma lru_keeps_step:
  assumes "lru_laws oe" "lru_laws od" "encodings_fresh eo sz"
  shows "keeps_step (lru_in_step oe od eo sz) (lru_try_encode oe eo) (lru_decode od eo)"
  unfolding keeps_step_def
proof (intro allI impI)
  fix E D x
  assume rel: "lru_in_step oe od eo sz E D"
  show "\<exists>m E' D'. lru_try_encode oe eo x E = Some (m, E') \<and> lru_decode od eo m D = Some (x, D') \<and>
    lru_in_step oe od eo sz E' D'"
    using lru_step_hit [OF assms(1,2) rel] lru_step_full [OF assms(1,2) rel]
      lru_step_new [OF assms rel] by (metis option.exhaust)
qed

lemma lru_new_in_step:
  assumes "lru_laws oe" "lru_laws od" "lru_unicache_new oe od eo sz = Some E"
  shows "lru_in_step oe od eo sz E E"
  using assms by (auto simp: lru_unicache_new_def lru_in_step_def lru_lawsD split: if_splits)

text \<open>A clone decodes what the cache it was cloned from encodes next.\<close>

lemma lru_clone_in_step:
  assumes oe: "lru_laws oe" and od: "lru_laws od" and rel: "lru_in_step oe od eo sz E D0"
  obtains D where "lru_clone oe od E = Some D" "lru_in_step oe od eo sz E D"
proof -
  let ?es = "lru_iter oe (lru_cache_encoder E)" and ?empty = "lru_new od (lru_size E)"
  note D = lru_in_stepD [OF rel]
  have pushes: "fold (\<lambda>(encodable, encoded). lru_push od encoded encodable) (rev ?es) ?empty =
      fold (\<lambda>(k, v). lru_push od k v) (rev (map prod.swap ?es)) ?empty"
    by (simp add: rev_map fold_map o_def split_def)
  have "distinct (map fst (map prod.swap ?es))" using lru_lawsD(3) [OF od] D(6) by metis
  then have "distinct (map fst (rev (map prod.swap ?es)))" by (simp add: rev_map [symmetric])
  then have "lru_iter od (fold (\<lambda>(k, v). lru_push od k v) (rev (map prod.swap ?es)) ?empty) =
      map prod.swap ?es \<and> lru_cap od (fold (\<lambda>(k, v). lru_push od k v) (rev (map prod.swap ?es)) ?empty) = sz"
    using lru_push_all [OF od, of "rev (map prod.swap ?es)" ?empty] D lru_lawsD(1,2) [OF od, of sz]
    by simp
  then show thesis using D that pushes by (auto simp: lru_clone_def lru_in_step_def)
qed

subsection \<open>Serialisation of the wrapped caches\<close>

text \<open>
  \<^verbatim>\<open>serialize\<close> writes the entries, least recently used first; \<^verbatim>\<open>visit_seq\<close> rebuilds a cache whose
  capacity is the length the deserializer reports (255 when it reports none).
\<close>

definition lru_serialize :: "('k, 'v, 'l) lru_ops \<Rightarrow> 'l \<Rightarrow> ('k \<times> 'v) list" where
  "lru_serialize ops l = rev (lru_iter ops l)"

definition lru_visit_seq :: "('k, 'v, 'l) lru_ops \<Rightarrow> nat option \<Rightarrow> ('k \<times> 'v) list \<Rightarrow> 'l option" where
  "lru_visit_seq ops size_hint seq =
     (let sz = (case size_hint of Some n \<Rightarrow> n | None \<Rightarrow> 255)
      in if sz = 0 then None else Some (fold (\<lambda>(key, val). lru_push ops key val) seq (lru_new ops sz)))"

lemma lru_visit_serialize:
  assumes "lru_laws ops" "sz = (case size_hint of Some n \<Rightarrow> n | None \<Rightarrow> 255)" "0 < sz"
    "length (lru_iter ops l) \<le> sz"
  obtains l' where "lru_visit_seq ops size_hint (lru_serialize ops l) = Some l'"
    "lru_iter ops l' = lru_iter ops l" "lru_cap ops l' = sz"
proof -
  have "distinct (map fst (rev (lru_iter ops l)))"
    using lru_lawsD(3) [OF assms(1)] by (simp add: rev_map [symmetric])
  then show thesis
    using lru_push_all [OF assms(1), of "rev (lru_iter ops l)" "lru_new ops sz"] assms
      lru_lawsD(1,2) [OF assms(1), of sz] that
    by (simp add: lru_visit_seq_def lru_serialize_def Let_def)
qed

subsection \<open>A promoted follower\<close>

text \<open>
  What a node does that encodes with a cache it got as a clone, its encoder holding one entry:
  every miss is given a fresh encoding, for as long as the configured size is not 1.
\<close>

lemma lru_promoted_miss:
  assumes oe: "lru_laws oe" and cap: "lru_cap oe (lru_cache_encoder P) = 1" "lru_size P \<noteq> 1"
    "length (lru_iter oe (lru_cache_encoder P)) \<le> 1" "0 < lru_size P"
    and miss: "map_of (lru_iter oe (lru_cache_encoder P)) x = None"
    and c: "enc_add eo (lru_encoding P) (enc_one eo) = Some c"
  obtains P' where "lru_try_encode oe eo x P = Some (NotEncoded x, P')" "lru_size P' = lru_size P"
    "lru_iter oe (lru_cache_encoder P') = [(x, c)]" "lru_cap oe (lru_cache_encoder P') = 1"
    "lru_encoding P' = c"
proof -
  have push: "lru_iter oe (lru_push oe x c (lru_cache_encoder P)) = [(x, c)]"
    using oe cap(1,3) miss unfolding lru_laws_def
    by (cases "lru_iter oe (lru_cache_encoder P)") (auto split: if_splits)
  have "lru_len oe (lru_cache_encoder P) \<noteq> lru_size P"
    using lru_lawsD(4) [OF oe] cap by (metis One_nat_def le_less less_one not_less_iff_gr_or_eq)
  then have "lru_try_encode oe eo x P = Some (NotEncoded x,
      P\<lparr>lru_cache_encoder := lru_push oe x c (lru_cache_encoder P), lru_encoding := c\<rparr>)"
    using c lru_lawsD(5) [OF oe miss] by (simp add: lru_try_encode_def)
  then show thesis using that push lru_lawsD(6) [OF oe] cap(1) by simp
qed

lemma lru_promoted_run:
  assumes oe: "lru_laws oe" and xs: "distinct xs" "xs \<noteq> []"
    and cap: "lru_cap oe (lru_cache_encoder P) = 1" "1 < lru_size P"
    "length (lru_iter oe (lru_cache_encoder P)) \<le> 1"
    and new: "fst ` set (lru_iter oe (lru_cache_encoder P)) \<inter> set xs = {}"
    and n: "nth_encoding eo n = Some (lru_encoding P)" "\<forall>i \<le> n + length xs. nth_encoding eo i \<noteq> None"
  shows "\<exists>P' c. map_state (lru_try_encode oe eo) xs P = Some (map NotEncoded xs, P') \<and>
    nth_encoding eo (n + length xs) = Some c \<and> lru_iter oe (lru_cache_encoder P') = [(last xs, c)]"
  using xs cap new n
proof (induction xs arbitrary: P n)
  case (Cons x xs)
  have "nth_encoding eo (Suc n) \<noteq> None" using Cons.prems(8) by (auto simp del: nth_encoding.simps)
  then obtain c where c: "enc_add eo (lru_encoding P) (enc_one eo) = Some c"
    "nth_encoding eo (Suc n) = Some c"
    using Cons.prems(7) by auto
  have miss: "map_of (lru_iter oe (lru_cache_encoder P)) x = None"
    using Cons.prems(6) by (auto simp: map_of_eq_None_iff)
  have "lru_size P \<noteq> 1" "0 < lru_size P" using Cons.prems(4) by auto
  then obtain P1 where P1: "lru_try_encode oe eo x P = Some (NotEncoded x, P1)"
    "lru_size P1 = lru_size P" "lru_iter oe (lru_cache_encoder P1) = [(x, c)]"
    "lru_cap oe (lru_cache_encoder P1) = 1" "lru_encoding P1 = c"
    by (rule lru_promoted_miss [OF oe Cons.prems(3) _ Cons.prems(5) _ miss c(1)])
  show ?case
  proof (cases "xs = []")
    case True
    then show ?thesis using P1 c(2) by simp
  next
    case False
    have "\<exists>P' d. map_state (lru_try_encode oe eo) xs P1 = Some (map NotEncoded xs, P') \<and>
      nth_encoding eo (Suc n + length xs) = Some d \<and>
      lru_iter oe (lru_cache_encoder P') = [(last xs, d)]"
      by (rule Cons.IH) (use Cons.prems False P1 c(2) in \<open>auto simp del: nth_encoding.simps\<close>)
    then show ?thesis using P1(1) False by (auto simp del: nth_encoding.simps)
  qed
qed simp

text \<open>A decoder only ever knows the encodings it has handed out itself.\<close>

definition lru_decoder_ok ::
    "('c, 'a, 'ld) lru_ops \<Rightarrow> 'c encoded_ops \<Rightarrow> nat \<Rightarrow> ('le, 'ld, 'c) lru_unicache \<Rightarrow> bool" where
  "lru_decoder_ok od eo sz D \<longleftrightarrow> 0 < sz \<and> lru_size D = sz \<and> lru_cap od (lru_cache_decoder D) = sz \<and>
     length (lru_iter od (lru_cache_decoder D)) \<le> sz \<and>
     nth_encoding eo (length (lru_iter od (lru_cache_decoder D))) = Some (lru_encoding D) \<and>
     fst ` set (lru_iter od (lru_cache_decoder D)) =
       used_encodings eo (length (lru_iter od (lru_cache_decoder D)))"

lemma lru_decode_plain:
  assumes od: "lru_laws od" and fresh: "encodings_fresh eo sz" and ok: "lru_decoder_ok od eo sz D"
  shows "\<exists>D'. lru_decode od eo (NotEncoded x) D = Some (x, D') \<and> lru_decoder_ok od eo sz D'"
proof (cases "length (lru_iter od (lru_cache_decoder D)) = sz")
  case True
  let ?ds = "lru_iter od (lru_cache_decoder D)"
  have ne: "?ds \<noteq> []" using True ok by (auto simp: lru_decoder_ok_def)
  obtain c k where ck: "last ?ds = (c, k)" by (cases "last ?ds")
  have split: "?ds = butlast ?ds @ [(c, k)]" using ne ck by (metis append_butlast_last_id)
  have c: "c \<notin> fst ` set (butlast ?ds)"
    using lru_lawsD(3) [OF od, of "lru_cache_decoder D"] by (subst (asm) split) force
  obtain ld where ld: "lru_pop_lru od (lru_cache_decoder D) = (Some (c, k), ld)"
    "lru_cap od ld = lru_cap od (lru_cache_decoder D)" "lru_iter od ld = butlast ?ds"
    by (rule lru_pop [OF od ne]) (use ck in simp)
  have "length (butlast ?ds) < sz" using True ok by (simp add: lru_decoder_ok_def)
  then have push: "lru_iter od (lru_push od c x ld) = (c, x) # butlast ?ds"
    using lru_push_new [OF od, of c ld x] c ld ok by (simp add: lru_decoder_ok_def)
  have "fst ` set ((c, x) # butlast ?ds) = fst ` set ?ds" by (subst (2) split) auto
  then show ?thesis using ok True ld push lru_lawsD(4,6) [OF od] ne
    by (auto simp: lru_decoder_ok_def lru_decode_def)
next
  case False
  let ?ds = "lru_iter od (lru_cache_decoder D)"
  have short: "length ?ds < sz" using False ok by (simp add: lru_decoder_ok_def)
  have enc: "nth_encoding eo (length ?ds) = Some (lru_encoding D)"
    using ok by (simp add: lru_decoder_ok_def)
  obtain c where c: "enc_add eo (lru_encoding D) (enc_one eo) = Some c"
    "nth_encoding eo (Suc (length ?ds)) = Some c" "c \<notin> used_encodings eo (length ?ds)"
    "used_encodings eo (Suc (length ?ds)) = insert c (used_encodings eo (length ?ds))"
    by (rule fresh_next [OF fresh short enc])
  have "lru_iter od (lru_push od c x (lru_cache_decoder D)) = (c, x) # ?ds"
    by (rule lru_push_new [OF od]) (use c(3) short ok in \<open>auto simp: lru_decoder_ok_def\<close>)
  then have "lru_decoder_ok od eo sz (D\<lparr>lru_cache_decoder := lru_push od c x (lru_cache_decoder D),
      lru_encoding := c\<rparr>)"
    using ok c(2,4) short lru_lawsD(6) [OF od]
    by (simp add: lru_decoder_ok_def del: nth_encoding.simps)
  moreover have "lru_decode od eo (NotEncoded x) D =
      Some (x, D\<lparr>lru_cache_decoder := lru_push od c x (lru_cache_decoder D), lru_encoding := c\<rparr>)"
    using ok False c(1) lru_lawsD(4) [OF od] by (simp add: lru_decode_def lru_decoder_ok_def)
  ultimately show ?thesis by blast
qed

lemma lru_decode_plains:
  assumes "lru_laws od" "encodings_fresh eo sz" "lru_decoder_ok od eo sz D"
  shows "\<exists>D'. map_state (lru_decode od eo) (map NotEncoded xs) D = Some (xs, D') \<and> lru_decoder_ok od eo sz D'"
  using assms(3)
proof (induction xs arbitrary: D)
  case (Cons x xs)
  obtain D1 where "lru_decode od eo (NotEncoded x) D = Some (x, D1)" "lru_decoder_ok od eo sz D1"
    using lru_decode_plain [OF assms(1,2) Cons.prems] by blast
  with Cons.IH [of D1] show ?case by auto
qed simp

lemma lru_decode_unknown:
  assumes "lru_laws od" "lru_decoder_ok od eo sz D" "nth_encoding eo n = Some c" "sz < n"
    "inj_on (nth_encoding eo) {1..n}"
  shows "lru_decode od eo (Encoded c) D = None"
proof -
  have "c \<notin> used_encodings eo (length (lru_iter od (lru_cache_decoder D)))"
  proof
    assume "c \<in> used_encodings eo (length (lru_iter od (lru_cache_decoder D)))"
    then obtain i where i: "1 \<le> i" "i \<le> length (lru_iter od (lru_cache_decoder D))"
      "nth_encoding eo i = Some c"
      by (auto simp: used_encodings_def)
    then have "i \<le> sz" using assms(2) by (simp add: lru_decoder_ok_def)
    moreover have "i = n" by (rule inj_onD [OF assms(5)]) (use i assms(3,4) \<open>i \<le> sz\<close> in auto)
    ultimately show False using assms(4) by simp
  qed
  then have "map_of (lru_iter od (lru_cache_decoder D)) c = None"
    using assms(2) by (simp add: map_of_eq_None_iff lru_decoder_ok_def)
  then show ?thesis using lru_lawsD(5) [OF assms(1)] by (simp add: lru_decode_def)
qed

end
