(* ===== verification/Lfu_Cache.thy ===== *)
theory Lfu_Cache
  imports Unicache
begin

text \<open>
  \<^verbatim>\<open>unicache/lfu/mod.rs\<close> and \<^verbatim>\<open>serialization.rs\<close>: the least-frequently-used cache. A hash map
  is an association list, its iteration order a parameter of the iteration; the
  \<^verbatim>\<open>linked_hash_set\<close> crate is a parameter, the record \<open>lhs_ops\<close> with its documented laws
  \<open>lhs_laws\<close>. \<open>lfu_inv\<close> says that the frequency bins hold exactly the cached keys and that
  the recorded minimum is the least frequency in use; \<open>lfu_bins\<close> is the abstract view (the
  entries of each frequency, oldest first), and every operation is related to an update of it.
\<close>

subsection \<open>The set of the linked_hash_set crate\<close>

record ('k, 's) lhs_ops =
  lhs_default :: 's
  lhs_with_capacity :: "nat \<Rightarrow> 's"
  lhs_insert :: "'k \<Rightarrow> 's \<Rightarrow> 's"
  lhs_remove :: "'k \<Rightarrow> 's \<Rightarrow> 's"
  lhs_pop_front :: "'s \<Rightarrow> 'k option \<times> 's"
  lhs_is_empty :: "'s \<Rightarrow> bool"
  lhs_iter :: "'s \<Rightarrow> 'k list"

definition lhs_laws :: "('k, 's) lhs_ops \<Rightarrow> bool" where
  "lhs_laws ops \<longleftrightarrow>
     lhs_iter ops (lhs_default ops) = [] \<and>
     (\<forall>n. lhs_iter ops (lhs_with_capacity ops n) = []) \<and>
     (\<forall>s. distinct (lhs_iter ops s)) \<and>
     (\<forall>k s. k \<notin> set (lhs_iter ops s) \<longrightarrow> lhs_iter ops (lhs_insert ops k s) = lhs_iter ops s @ [k]) \<and>
     (\<forall>k s. lhs_iter ops (lhs_remove ops k s) = remove1 k (lhs_iter ops s)) \<and>
     (\<forall>s. lhs_iter ops s = [] \<longrightarrow> fst (lhs_pop_front ops s) = None) \<and>
     (\<forall>s k ks. lhs_iter ops s = k # ks \<longrightarrow>
        (\<exists>s'. lhs_pop_front ops s = (Some k, s') \<and> lhs_iter ops s' = ks)) \<and>
     (\<forall>s. lhs_is_empty ops s \<longleftrightarrow> lhs_iter ops s = [])"

lemma lhs_lawsD:
  assumes "lhs_laws ops"
  shows "lhs_iter ops (lhs_default ops) = []"
    and "lhs_iter ops (lhs_with_capacity ops n) = []"
    and "distinct (lhs_iter ops s)"
    and "k \<notin> set (lhs_iter ops s) \<Longrightarrow> lhs_iter ops (lhs_insert ops k s) = lhs_iter ops s @ [k]"
    and "lhs_iter ops (lhs_remove ops k s) = remove1 k (lhs_iter ops s)"
    and "lhs_iter ops s = [] \<Longrightarrow> fst (lhs_pop_front ops s) = None"
    and "lhs_is_empty ops s \<longleftrightarrow> lhs_iter ops s = []"
  using assms unfolding lhs_laws_def by blast+

lemma lhs_pop:
  assumes "lhs_laws ops" "lhs_iter ops s = k # ks"
  obtains s' where "lhs_pop_front ops s = (Some k, s')" "lhs_iter ops s' = ks"
  using assms unfolding lhs_laws_def by blast

subsection \<open>The cache\<close>

record 'v value_counter =
  vc_value :: 'v
  vc_count :: nat

record ('k, 'v, 's) lfu_cache =
  lfu_values :: "('k \<times> 'v value_counter) list"
  frequency_bin :: "nat \<rightharpoonup> 's"
  lfu_capacity :: nat
  min_frequency :: nat

definition vc_inc :: "'v value_counter \<Rightarrow> 'v value_counter" where
  "vc_inc vc = vc\<lparr>vc_count := vc_count vc + 1\<rparr>"

definition with_capacity :: "nat \<Rightarrow> ('k, 'v, 's) lfu_cache option" where
  "with_capacity capacity =
     (if capacity = 0 then None
      else Some \<lparr>lfu_values = [], frequency_bin = Map.empty, lfu_capacity = capacity,
                 min_frequency = 0\<rparr>)"

definition lfu_contains :: "'k \<Rightarrow> ('k, 'v, 's) lfu_cache \<Rightarrow> bool" where
  "lfu_contains key self \<longleftrightarrow> map_of (lfu_values self) key \<noteq> None"

definition lfu_len :: "('k, 'v, 's) lfu_cache \<Rightarrow> nat" where
  "lfu_len self = length (lfu_values self)"

definition lfu_is_empty :: "('k, 'v, 's) lfu_cache \<Rightarrow> bool" where
  "lfu_is_empty self \<longleftrightarrow> lfu_values self = []"

text \<open>\<^verbatim>\<open>entry(count).or_default()\<close>\<close>

definition bin_or_default :: "('k, 's) lhs_ops \<Rightarrow> nat \<Rightarrow> ('k, 'v, 's) lfu_cache \<Rightarrow> 's" where
  "bin_or_default ops n self =
     (case frequency_bin self n of Some s \<Rightarrow> s | None \<Rightarrow> lhs_default ops)"

definition lfu_remove :: "('k, 's) lhs_ops \<Rightarrow> 'k \<Rightarrow> ('k, 'v, 's) lfu_cache \<Rightarrow>
    'v option \<times> ('k, 'v, 's) lfu_cache" where
  "lfu_remove ops key self =
     (case map_of (lfu_values self) key of
        Some vc \<Rightarrow>
          let n = vc_count vc
          in (Some (vc_value vc), self\<lparr>
               frequency_bin := (frequency_bin self)(n \<mapsto> lhs_remove ops key (bin_or_default ops n self)),
               lfu_values := AList.delete key (lfu_values self)\<rparr>)
      | None \<Rightarrow> (None, self))"

definition update_frequency_bin :: "('k, 's) lhs_ops \<Rightarrow> 'k \<Rightarrow> ('k, 'v, 's) lfu_cache \<Rightarrow>
    ('k, 'v, 's) lfu_cache option" where
  "update_frequency_bin ops key self =
     (case map_of (lfu_values self) key of
        None \<Rightarrow> Some self
      | Some vc \<Rightarrow> do {
          bin \<leftarrow> frequency_bin self (vc_count vc);
          let bin' = lhs_remove ops key bin;
          let self1 = self\<lparr>frequency_bin := (frequency_bin self)(vc_count vc \<mapsto> bin'),
                lfu_values := AList.update key (vc_inc vc) (lfu_values self)\<rparr>;
          let self2 = (if vc_count vc = min_frequency self1 \<and> lhs_is_empty ops bin'
                       then self1\<lparr>min_frequency := min_frequency self1 + 1\<rparr> else self1);
          Some (self2\<lparr>frequency_bin := (frequency_bin self2)
            (vc_count vc + 1 \<mapsto> lhs_insert ops key (bin_or_default ops (vc_count vc + 1) self2))\<rparr>)
        })"

definition lfu_get :: "('k, 's) lhs_ops \<Rightarrow> 'k \<Rightarrow> ('k, 'v, 's) lfu_cache \<Rightarrow>
    ('v option \<times> ('k, 'v, 's) lfu_cache) option" where
  "lfu_get ops key self = do {
     self' \<leftarrow> update_frequency_bin ops key self;
     Some (map_option vc_value (map_of (lfu_values self') key), self')
   }"

text \<open>\<^verbatim>\<open>get_mut\<close>, with what the caller writes through the reference.\<close>

definition lfu_get_mut :: "('k, 's) lhs_ops \<Rightarrow> 'k \<Rightarrow> ('v \<Rightarrow> 'v) \<Rightarrow> ('k, 'v, 's) lfu_cache \<Rightarrow>
    ('v option \<times> ('k, 'v, 's) lfu_cache) option" where
  "lfu_get_mut ops key write self = do {
     self' \<leftarrow> update_frequency_bin ops key self;
     case map_of (lfu_values self') key of
       None \<Rightarrow> Some (None, self')
     | Some vc \<Rightarrow> Some (Some (vc_value vc), self'\<lparr>lfu_values :=
         AList.update key (vc\<lparr>vc_value := write (vc_value vc)\<rparr>) (lfu_values self')\<rparr>)
   }"

definition evict :: "('k, 's) lhs_ops \<Rightarrow> ('k, 'v, 's) lfu_cache \<Rightarrow> ('k, 'v, 's) lfu_cache option" where
  "evict ops self = do {
     bin \<leftarrow> frequency_bin self (min_frequency self);
     (case lhs_pop_front ops bin of
        (Some key, bin') \<Rightarrow> Some (self\<lparr>
          frequency_bin := (frequency_bin self)(min_frequency self \<mapsto> bin'),
          lfu_values := AList.delete key (lfu_values self)\<rparr>)
      | (None, _) \<Rightarrow> None)
   }"

definition evict_and_return_key :: "('k, 's) lhs_ops \<Rightarrow> ('k, 'v, 's) lfu_cache \<Rightarrow>
    ('k option \<times> ('k, 'v, 's) lfu_cache) option" where
  "evict_and_return_key ops self =
     (case frequency_bin self (min_frequency self) of
        None \<Rightarrow> Some (None, self)
      | Some bin \<Rightarrow>
          (case lhs_pop_front ops bin of
             (Some key, bin') \<Rightarrow> Some (Some key, self\<lparr>
               frequency_bin := (frequency_bin self)(min_frequency self \<mapsto> bin'),
               lfu_values := AList.delete key (lfu_values self)\<rparr>)
           | (None, _) \<Rightarrow> None))"

definition evict_and_return_value :: "('k, 's) lhs_ops \<Rightarrow> ('k, 'v, 's) lfu_cache \<Rightarrow>
    ('v option \<times> ('k, 'v, 's) lfu_cache) option" where
  "evict_and_return_value ops self =
     (case frequency_bin self (min_frequency self) of
        None \<Rightarrow> Some (None, self)
      | Some bin \<Rightarrow>
          (case lhs_pop_front ops bin of
             (Some key, bin') \<Rightarrow>
               Some (map_option vc_value (map_of (lfu_values self) key), self\<lparr>
                 frequency_bin := (frequency_bin self)(min_frequency self \<mapsto> bin'),
                 lfu_values := AList.delete key (lfu_values self)\<rparr>)
           | (None, _) \<Rightarrow> None))"

text \<open>\<^verbatim>\<open>iter\<close>, for an iteration order of the hash map.\<close>

definition lfu_iter :: "(('k \<times> 'v) list \<Rightarrow> ('k \<times> 'v) list) \<Rightarrow> ('k, 'v, 's) lfu_cache \<Rightarrow>
    ('k \<times> 'v) list" where
  "lfu_iter hm_order self = hm_order (map (\<lambda>(k, vc). (k, vc_value vc)) (lfu_values self))"

definition lfu_into_iter :: "(('k \<times> 'v) list \<Rightarrow> ('k \<times> 'v) list) \<Rightarrow> ('k, 'v, 's) lfu_cache \<Rightarrow>
    ('k \<times> 'v) list" where
  "lfu_into_iter hm_order self = hm_order (map (\<lambda>(k, vc). (k, vc_value vc)) (lfu_values self))"

definition lfu_set :: "('k, 's) lhs_ops \<Rightarrow> 'k \<Rightarrow> 'v \<Rightarrow> ('k, 'v, 's) lfu_cache \<Rightarrow>
    ('k, 'v, 's) lfu_cache option" where
  "lfu_set ops key val self =
     (case map_of (lfu_values self) key of
        Some vc \<Rightarrow> update_frequency_bin ops key
          (self\<lparr>lfu_values := AList.update key (vc\<lparr>vc_value := val\<rparr>) (lfu_values self)\<rparr>)
      | None \<Rightarrow> do {
          self1 \<leftarrow> (if lfu_capacity self \<le> lfu_len self then evict ops self else Some self);
          let self2 = self1\<lparr>lfu_values := AList.update key \<lparr>vc_value = val, vc_count = 1\<rparr>
                (lfu_values self1), min_frequency := 1\<rparr>;
          Some (self2\<lparr>frequency_bin := (frequency_bin self2)
            (min_frequency self2 \<mapsto> lhs_insert ops key (bin_or_default ops (min_frequency self2) self2))\<rparr>)
        })"

definition lfu_index :: "'k \<Rightarrow> ('k, 'v, 's) lfu_cache \<Rightarrow> 'v option" where
  "lfu_index key self = map_option vc_value (map_of (lfu_values self) key)"

text \<open>\<^verbatim>\<open>serialization.rs\<close>: a bin is written in order and rebuilt by insertions.\<close>

definition lhs_serialize :: "('k, 's) lhs_ops \<Rightarrow> 's \<Rightarrow> 'k list" where
  "lhs_serialize ops s = lhs_iter ops s"

definition lhs_visit_seq :: "('k, 's) lhs_ops \<Rightarrow> nat option \<Rightarrow> 'k list \<Rightarrow> 's" where
  "lhs_visit_seq ops size_hint seq =
     fold (lhs_insert ops) seq
       (lhs_with_capacity ops (case size_hint of Some n \<Rightarrow> n | None \<Rightarrow> 255))"

lemma lhs_visit_serialize:
  assumes "lhs_laws ops"
  shows "lhs_iter ops (lhs_visit_seq ops hint (lhs_serialize ops s)) = lhs_iter ops s"
proof -
  have "distinct (lhs_iter ops t @ ks) \<Longrightarrow> lhs_iter ops (fold (lhs_insert ops) ks t) = lhs_iter ops t @ ks"
    for ks t
    by (induction ks arbitrary: t) (auto simp: lhs_lawsD(4) [OF assms])
  then show ?thesis
    using lhs_lawsD(2,3) [OF assms] by (simp add: lhs_visit_seq_def lhs_serialize_def)
qed

subsection \<open>The bins\<close>

definition bin_list :: "('k, 's) lhs_ops \<Rightarrow> ('k, 'v, 's) lfu_cache \<Rightarrow> nat \<Rightarrow> 'k list" where
  "bin_list ops self n = (case frequency_bin self n of Some s \<Rightarrow> lhs_iter ops s | None \<Rightarrow> [])"

definition cached_value :: "('k, 'v, 's) lfu_cache \<Rightarrow> 'k \<Rightarrow> 'v" where
  "cached_value self k = vc_value (the (map_of (lfu_values self) k))"

definition lfu_bins :: "('k, 's) lhs_ops \<Rightarrow> ('k, 'v, 's) lfu_cache \<Rightarrow> nat \<Rightarrow> ('k \<times> 'v) list" where
  "lfu_bins ops self n = map (\<lambda>k. (k, cached_value self k)) (bin_list ops self n)"

text \<open>\<open>lfu_ok\<close> also holds between an eviction and the insertion that follows it.\<close>

definition lfu_ok :: "('k, 's) lhs_ops \<Rightarrow> ('k, 'v, 's) lfu_cache \<Rightarrow> bool" where
  "lfu_ok ops self \<longleftrightarrow>
     distinct (map fst (lfu_values self)) \<and> length (lfu_values self) \<le> lfu_capacity self \<and>
     (\<forall>n k. k \<in> set (bin_list ops self n) \<longleftrightarrow>
        (\<exists>v. map_of (lfu_values self) k = Some \<lparr>vc_value = v, vc_count = n\<rparr>)) \<and>
     bin_list ops self 0 = []"

definition lfu_inv :: "('k, 's) lhs_ops \<Rightarrow> ('k, 'v, 's) lfu_cache \<Rightarrow> bool" where
  "lfu_inv ops self \<longleftrightarrow> lfu_ok ops self \<and>
     (lfu_values self \<noteq> [] \<longrightarrow> bin_list ops self (min_frequency self) \<noteq> [] \<and>
        (\<forall>n. bin_list ops self n \<noteq> [] \<longrightarrow> min_frequency self \<le> n))"

lemma lfu_okD:
  assumes "lfu_ok ops self"
  shows "distinct (map fst (lfu_values self))" "length (lfu_values self) \<le> lfu_capacity self"
    and "k \<in> set (bin_list ops self n) \<longleftrightarrow>
      (\<exists>v. map_of (lfu_values self) k = Some \<lparr>vc_value = v, vc_count = n\<rparr>)"
    and "bin_list ops self 0 = []"
  using assms by (auto simp: lfu_ok_def)

lemma lfu_invD:
  assumes "lfu_inv ops self"
  shows "distinct (map fst (lfu_values self))" "length (lfu_values self) \<le> lfu_capacity self"
    and "k \<in> set (bin_list ops self n) \<longleftrightarrow>
      (\<exists>v. map_of (lfu_values self) k = Some \<lparr>vc_value = v, vc_count = n\<rparr>)"
    and "lfu_values self \<noteq> [] \<Longrightarrow> bin_list ops self (min_frequency self) \<noteq> []"
    and "lfu_values self \<noteq> [] \<Longrightarrow> bin_list ops self n \<noteq> [] \<Longrightarrow> min_frequency self \<le> n"
    and "bin_list ops self 0 = []"
  using assms by (auto simp: lfu_inv_def lfu_ok_def)

lemma bin_list_distinct: "lhs_laws ops \<Longrightarrow> distinct (bin_list ops self n)"
  by (simp add: bin_list_def lhs_lawsD split: option.split)

lemma lfu_bins_mem:
  assumes "lfu_ok ops self"
  shows "(k, v) \<in> set (lfu_bins ops self n) \<longleftrightarrow>
    map_of (lfu_values self) k = Some \<lparr>vc_value = v, vc_count = n\<rparr>"
  using lfu_okD(3) [OF assms] by (auto simp: lfu_bins_def cached_value_def)

lemma lfu_bins_Nil: "lfu_bins ops self n = [] \<longleftrightarrow> bin_list ops self n = []"
  by (simp add: lfu_bins_def)

lemma with_capacity_inv:
  "with_capacity n = Some c \<Longrightarrow>
    lfu_inv ops c \<and> lfu_bins ops c = (\<lambda>_. []) \<and> lfu_capacity c = n \<and> lfu_values c = [] \<and>
      min_frequency c = 0"
  by (auto simp: with_capacity_def lfu_inv_def lfu_ok_def lfu_bins_def bin_list_def split: if_splits)

lemma map_pair_remove1:
  "map (\<lambda>k. (k, f k)) (remove1 k ks) = remove1 (k, f k) (map (\<lambda>k. (k, f k)) ks)"
  by (induction ks) auto

subsubsection \<open>Looking a key up\<close>

lemma update_bin_miss: "map_of (lfu_values self) k = None \<Longrightarrow> update_frequency_bin ops k self = Some self"
  by (simp add: update_frequency_bin_def)

definition bump_min :: "('k, 's) lhs_ops \<Rightarrow> ('k, 'v, 's) lfu_cache \<Rightarrow> 'k \<Rightarrow> nat \<Rightarrow> nat" where
  "bump_min ops self k n =
     (if n = min_frequency self \<and> remove1 k (bin_list ops self n) = [] then n + 1
      else min_frequency self)"

lemma update_bin_hit:
  assumes laws: "lhs_laws ops" and inv: "lfu_inv ops self"
    and hit: "map_of (lfu_values self) k = Some \<lparr>vc_value = v, vc_count = n\<rparr>"
  obtains self' where "update_frequency_bin ops k self = Some self'"
    "lfu_values self' = AList.update k \<lparr>vc_value = v, vc_count = Suc n\<rparr> (lfu_values self)"
    "bin_list ops self' = (bin_list ops self)
       (n := remove1 k (bin_list ops self n), Suc n := bin_list ops self (Suc n) @ [k])"
    "min_frequency self' = bump_min ops self k n" "lfu_capacity self' = lfu_capacity self"
proof -
  have "k \<in> set (bin_list ops self n)" using lfu_invD(3) [OF inv] hit by blast
  then obtain s where s: "frequency_bin self n = Some s" "lhs_iter ops s = bin_list ops self n"
    by (cases "frequency_bin self n") (auto simp: bin_list_def)
  have "k \<notin> set (bin_list ops self (Suc n))" using lfu_invD(3) [OF inv] hit by auto
  then have "k \<notin> set (lhs_iter ops (case frequency_bin self (Suc n) of None \<Rightarrow> lhs_default ops | Some s \<Rightarrow> s))"
    by (auto simp: bin_list_def lhs_lawsD(1) [OF laws] split: option.splits)
  note ins = lhs_lawsD(4) [OF laws this]
  define self' where "self' = self\<lparr>
      frequency_bin := (frequency_bin self)(n \<mapsto> lhs_remove ops k s,
        Suc n \<mapsto> lhs_insert ops k (case frequency_bin self (Suc n) of None \<Rightarrow> lhs_default ops | Some s \<Rightarrow> s)),
      lfu_values := AList.update k \<lparr>vc_value = v, vc_count = Suc n\<rparr> (lfu_values self),
      min_frequency := bump_min ops self k n\<rparr>"
  have "update_frequency_bin ops k self = Some self'"
    using hit s by (auto simp: update_frequency_bin_def self'_def vc_inc_def bin_or_default_def
      bump_min_def Let_def lhs_lawsD(5,7) [OF laws])
  moreover have "bin_list ops self' = (bin_list ops self)
       (n := remove1 k (bin_list ops self n), Suc n := bin_list ops self (Suc n) @ [k])"
    using s ins by (auto simp: fun_eq_iff bin_list_def self'_def lhs_lawsD(1,5) [OF laws]
      split: option.splits)
  ultimately show thesis using that by (simp add: self'_def)
qed

lemma map_of_AList_update: "map_of (AList.update k v xs) = (map_of xs)(k \<mapsto> v)"
  by (rule AList.update_conv')

lemma map_of_AList_delete: "map_of (AList.delete k xs) = (map_of xs)(k := None)"
  by (rule AList.delete_conv')

lemma length_update_mem: "k \<in> fst ` set xs \<Longrightarrow> length (AList.update k v xs) = length xs"
  by (induction xs) auto

lemma length_update_new: "k \<notin> fst ` set xs \<Longrightarrow> length (AList.update k v xs) = Suc (length xs)"
  by (induction xs) auto

lemma length_delete_mem:
  "distinct (map fst xs) \<Longrightarrow> k \<in> fst ` set xs \<Longrightarrow> Suc (length (AList.delete k xs)) = length xs"
proof (induction xs)
  case (Cons p xs)
  then show ?case
    by (cases "fst p = k") (auto simp: AList.delete_idem)
qed simp

lemma lfu_touch:
  assumes laws: "lhs_laws ops" and inv: "lfu_inv ops self"
    and hit: "map_of (lfu_values self) k = Some \<lparr>vc_value = v, vc_count = n\<rparr>"
  obtains self' where "update_frequency_bin ops k self = Some self'" "lfu_inv ops self'"
    "map_of (lfu_values self') = (map_of (lfu_values self))(k \<mapsto> \<lparr>vc_value = v, vc_count = Suc n\<rparr>)"
    "lfu_bins ops self' = (lfu_bins ops self)
       (n := remove1 (k, v) (lfu_bins ops self n), Suc n := lfu_bins ops self (Suc n) @ [(k, v)])"
    "min_frequency self' = (if n = min_frequency self \<and> remove1 (k, v) (lfu_bins ops self n) = []
       then n + 1 else min_frequency self)"
    "length (lfu_values self') = length (lfu_values self)" "lfu_capacity self' = lfu_capacity self"
proof -
  obtain self' where up: "update_frequency_bin ops k self = Some self'"
    "lfu_values self' = AList.update k \<lparr>vc_value = v, vc_count = Suc n\<rparr> (lfu_values self)"
    and bl: "bin_list ops self' = (bin_list ops self)
       (n := remove1 k (bin_list ops self n), Suc n := bin_list ops self (Suc n) @ [k])"
    and mi: "min_frequency self' = bump_min ops self k n" "lfu_capacity self' = lfu_capacity self"
    by (rule update_bin_hit [OF laws inv hit])
  note mem = lfu_invD(3) [OF inv]
  have k: "k \<in> set (bin_list ops self n)" using mem hit by blast
  have mo: "map_of (lfu_values self') = (map_of (lfu_values self))(k \<mapsto> \<lparr>vc_value = v, vc_count = Suc n\<rparr>)"
    using up(2) by (simp add: map_of_AList_update)
  have val: "cached_value self' j = cached_value self j" for j
    using mo hit by (simp add: cached_value_def)
  have "cached_value self k = v" using hit by (simp add: cached_value_def)
  then have bins: "lfu_bins ops self' = (lfu_bins ops self)
       (n := remove1 (k, v) (lfu_bins ops self n), Suc n := lfu_bins ops self (Suc n) @ [(k, v)])"
    using map_pair_remove1 [of "cached_value self" k "bin_list ops self n"]
    by (auto simp: fun_eq_iff lfu_bins_def bl val)
  have nil: "remove1 (k, v) (lfu_bins ops self n) = [] \<longleftrightarrow> remove1 k (bin_list ops self n) = []"
    using map_pair_remove1 [of "cached_value self" k "bin_list ops self n"] \<open>cached_value self k = v\<close>
    by (metis lfu_bins_def map_is_Nil_conv)
  have dk: "k \<in> fst ` set (lfu_values self)" using hit by (metis map_of_eq_None_iff option.distinct(1))
  then have len: "length (lfu_values self') = length (lfu_values self)"
    using up(2) by (simp add: length_update_mem)
  have ne: "lfu_values self \<noteq> []" using hit by auto
  have n0: "n \<noteq> 0" using lfu_invD(6) [OF inv] k by (metis empty_iff list.set(1))
  have "lfu_ok ops self'"
    unfolding lfu_ok_def
  proof (intro conjI allI)
    show "distinct (map fst (lfu_values self'))" using lfu_invD(1) [OF inv] up(2)
      by (simp add: distinct_update)
    show "length (lfu_values self') \<le> lfu_capacity self'" using lfu_invD(2) [OF inv] len mi(2) by simp
    show "j \<in> set (bin_list ops self' m) \<longleftrightarrow>
        (\<exists>v. map_of (lfu_values self') j = Some \<lparr>vc_value = v, vc_count = m\<rparr>)" for m j
      using mem hit bin_list_distinct [OF laws, of self n] by (auto simp: bl mo)
    show "bin_list ops self' 0 = []" using lfu_invD(6) [OF inv] n0 by (simp add: bl)
  qed
  moreover have "bin_list ops self' (min_frequency self') \<noteq> []"
    using lfu_invD(4) [OF inv ne] by (auto simp: bl mi bump_min_def)
  moreover have "min_frequency self' \<le> m" if "bin_list ops self' m \<noteq> []" for m
  proof -
    have "bin_list ops self n \<noteq> []" using k by auto
    then have "min_frequency self \<le> n" by (rule lfu_invD(5) [OF inv ne])
    then show ?thesis using that lfu_invD(5) [OF inv ne, of m]
      by (cases "m = Suc n"; cases "m = n") (auto simp: bl mi bump_min_def)
  qed
  ultimately have "lfu_inv ops self'" by (simp add: lfu_inv_def)
  then show thesis using that up(1) mo bins nil mi len by (simp add: bump_min_def)
qed

subsubsection \<open>Evicting\<close>

definition pop_min :: "('k, 's) lhs_ops \<Rightarrow> ('k, 'v, 's) lfu_cache \<Rightarrow> 's \<Rightarrow> 'k \<Rightarrow> ('k, 'v, 's) lfu_cache" where
  "pop_min ops self bin key = self\<lparr>
     frequency_bin := (frequency_bin self)(min_frequency self \<mapsto> bin),
     lfu_values := AList.delete key (lfu_values self)\<rparr>"

lemma lfu_evict:
  assumes laws: "lhs_laws ops" and inv: "lfu_inv ops self" and ne: "lfu_values self \<noteq> []"
  obtains k v ps self' where "lfu_bins ops self (min_frequency self) = (k, v) # ps"
    "evict ops self = Some self'" "evict_and_return_key ops self = Some (Some k, self')"
    "evict_and_return_value ops self = Some (Some v, self')"
    "lfu_values self' = AList.delete k (lfu_values self)"
    "map_of (lfu_values self) k = Some \<lparr>vc_value = v, vc_count = min_frequency self\<rparr>"
    "lfu_bins ops self' = (lfu_bins ops self)(min_frequency self := ps)"
    "bin_list ops self' = (bin_list ops self)(min_frequency self := map fst ps)"
    "Suc (length (lfu_values self')) = length (lfu_values self)" "lfu_capacity self' = lfu_capacity self"
    "lfu_ok ops self'"
proof -
  let ?m = "min_frequency self"
  obtain k ks where bl: "bin_list ops self ?m = k # ks"
    using lfu_invD(4) [OF inv ne] by (meson neq_Nil_conv)
  then obtain s where s: "frequency_bin self ?m = Some s" "lhs_iter ops s = k # ks"
    by (cases "frequency_bin self ?m") (auto simp: bin_list_def)
  obtain s' where s': "lhs_pop_front ops s = (Some k, s')" "lhs_iter ops s' = ks"
    by (rule lhs_pop [OF laws s(2)])
  have "k \<in> set (bin_list ops self ?m)" using bl by simp
  then obtain v where v: "map_of (lfu_values self) k = Some \<lparr>vc_value = v, vc_count = ?m\<rparr>"
    using lfu_invD(3) [OF inv] by blast
  define self' where "self' = pop_min ops self s' k"
  have vals: "lfu_values self' = AList.delete k (lfu_values self)"
    by (simp add: self'_def pop_min_def)
  have dk: "k \<in> fst ` set (lfu_values self)" using v by (metis map_of_eq_None_iff option.distinct(1))
  have bl': "bin_list ops self' = (bin_list ops self)(?m := ks)"
    using s'(2) by (auto simp: self'_def pop_min_def bin_list_def fun_eq_iff)
  have dist: "k \<notin> set ks" using bin_list_distinct [OF laws, of self ?m] bl by simp
  have val: "cached_value self' j = cached_value self j" if "j \<noteq> k" for j
    using that by (simp add: cached_value_def vals map_of_AList_delete)
  have other: "k \<notin> set (bin_list ops self n)" if "n \<noteq> ?m" for n
    using that v lfu_invD(3) [OF inv] by auto
  have bins: "lfu_bins ops self' n = ((lfu_bins ops self)(?m := map (\<lambda>k. (k, cached_value self k)) ks)) n" for n
  proof (cases "n = ?m")
    case True
    have "j \<in> set ks \<Longrightarrow> cached_value self' j = cached_value self j" for j using dist val by metis
    then show ?thesis using True by (auto simp: lfu_bins_def bl')
  next
    case False
    then have "j \<in> set (bin_list ops self n) \<Longrightarrow> cached_value self' j = cached_value self j" for j
      using other val by metis
    then show ?thesis using False by (auto simp: lfu_bins_def bl')
  qed
  have len: "Suc (length (lfu_values self')) = length (lfu_values self)"
    using length_delete_mem [OF lfu_invD(1) [OF inv] dk] vals by simp
  have "?m \<noteq> 0" using lfu_invD(6) [OF inv] bl by (metis list.distinct(1))
  have cap: "lfu_capacity self' = lfu_capacity self" by (simp add: self'_def pop_min_def)
  have ok: "lfu_ok ops self'"
    unfolding lfu_ok_def
  proof (intro conjI allI)
    show "distinct (map fst (lfu_values self'))" using lfu_invD(1) [OF inv] vals
      by (simp add: distinct_delete)
    show "length (lfu_values self') \<le> lfu_capacity self'" using lfu_invD(2) [OF inv] len cap by simp
    show "bin_list ops self' 0 = []" using lfu_invD(6) [OF inv] \<open>?m \<noteq> 0\<close> by (simp add: bl')
    show "j \<in> set (bin_list ops self' n) \<longleftrightarrow>
        (\<exists>v. map_of (lfu_values self') j = Some \<lparr>vc_value = v, vc_count = n\<rparr>)" for j n
      using lfu_invD(3) [OF inv, of j n] bl dist v by (auto simp: bl' vals map_of_AList_delete)
  qed
  show thesis
  proof (rule that)
    show "lfu_bins ops self ?m = (k, v) # map (\<lambda>k. (k, cached_value self k)) ks"
      using bl v by (simp add: lfu_bins_def cached_value_def)
    show "lfu_bins ops self' = (lfu_bins ops self)(?m := map (\<lambda>k. (k, cached_value self k)) ks)"
      using bins by (simp add: fun_eq_iff)
    show "bin_list ops self' = (bin_list ops self)(?m := map fst (map (\<lambda>k. (k, cached_value self k)) ks))"
      using bl' by (simp add: o_def)
  qed (use s s' v vals len ok in \<open>simp_all add: evict_def evict_and_return_key_def
      evict_and_return_value_def self'_def pop_min_def\<close>)
qed

subsubsection \<open>Inserting\<close>

lemma lfu_insert:
  assumes laws: "lhs_laws ops" and ok: "lfu_ok ops self" and new: "map_of (lfu_values self) k = None"
    and room: "length (lfu_values self) < lfu_capacity self"
  obtains self' where "lfu_set ops k v self = Some self'" "lfu_inv ops self'"
    "lfu_values self' = AList.update k \<lparr>vc_value = v, vc_count = 1\<rparr> (lfu_values self)"
    "lfu_bins ops self' = (lfu_bins ops self)(1 := lfu_bins ops self 1 @ [(k, v)])"
    "min_frequency self' = 1" "length (lfu_values self') = Suc (length (lfu_values self))"
    "lfu_capacity self' = lfu_capacity self"
proof -
  have notin: "k \<notin> set (bin_list ops self 1)" using lfu_okD(3) [OF ok] new by auto
  have ins: "lhs_iter ops (lhs_insert ops k (case frequency_bin self 1 of None \<Rightarrow> lhs_default ops | Some s \<Rightarrow> s)) =
      bin_list ops self 1 @ [k]"
    using notin by (cases "frequency_bin self 1") (auto simp: bin_list_def lhs_lawsD [OF laws])
  define self' where "self' = self\<lparr>
      lfu_values := AList.update k \<lparr>vc_value = v, vc_count = 1\<rparr> (lfu_values self), min_frequency := 1,
      frequency_bin := (frequency_bin self)
        (1 \<mapsto> lhs_insert ops k (case frequency_bin self 1 of None \<Rightarrow> lhs_default ops | Some s \<Rightarrow> s))\<rparr>"
  have "lfu_set ops k v self = Some self'"
    using new room by (simp add: lfu_set_def lfu_len_def bin_or_default_def self'_def Let_def)
  moreover have bl: "bin_list ops self' = (bin_list ops self)(1 := bin_list ops self 1 @ [k])"
    using ins by (auto simp: bin_list_def self'_def fun_eq_iff)
  moreover have vals: "lfu_values self' = AList.update k \<lparr>vc_value = v, vc_count = 1\<rparr> (lfu_values self)"
    by (simp add: self'_def)
  moreover have len: "length (lfu_values self') = Suc (length (lfu_values self))"
    using new by (simp add: vals map_of_eq_None_iff length_update_new)
  moreover have mem: "j \<in> set (bin_list ops self n) \<longleftrightarrow>
      (\<exists>v. map_of (lfu_values self) j = Some \<lparr>vc_value = v, vc_count = n\<rparr>)" for j n
    by (rule lfu_okD(3) [OF ok])
  moreover have ok': "lfu_ok ops self'"
    unfolding lfu_ok_def
  proof (intro conjI allI)
    show "distinct (map fst (lfu_values self'))" using lfu_okD(1) [OF ok] vals
      by (simp add: distinct_update)
    show "length (lfu_values self') \<le> lfu_capacity self'" using room len by (simp add: self'_def)
    show "bin_list ops self' 0 = []" using lfu_okD(4) [OF ok] by (simp add: bl)
    show "j \<in> set (bin_list ops self' n) \<longleftrightarrow>
        (\<exists>v. map_of (lfu_values self') j = Some \<lparr>vc_value = v, vc_count = n\<rparr>)" for j n
      using mem [of j n] new by (auto simp: bl vals map_of_AList_update)
  qed
  moreover have "lfu_inv ops self'"
  proof -
    have "1 \<le> n" if "bin_list ops self' n \<noteq> []" for n
      using that ok' by (cases n) (auto simp: lfu_ok_def)
    moreover have "min_frequency self' = 1" by (simp add: self'_def)
    ultimately show ?thesis using ok' by (auto simp: lfu_inv_def bl)
  qed
  moreover have "lfu_bins ops self' = (lfu_bins ops self)(1 := lfu_bins ops self 1 @ [(k, v)])"
  proof -
    have "cached_value self' k = v" by (simp add: cached_value_def vals map_of_AList_update)
    moreover have "cached_value self' j = cached_value self j" if "j \<in> set (bin_list ops self n)" for j n
      using that mem new by (auto simp: cached_value_def vals map_of_AList_update)
    ultimately show ?thesis by (auto simp: fun_eq_iff lfu_bins_def bl)
  qed
  ultimately show thesis using that by (simp add: self'_def)
qed

subsection \<open>Lookups and insertions keep the invariant\<close>

lemma lfu_get_ok:
  assumes laws: "lhs_laws ops" and inv: "lfu_inv ops c"
  obtains c' where "lfu_get ops k c = Some (map_option vc_value (map_of (lfu_values c) k), c')" "lfu_inv ops c'"
    "map_of (lfu_values c') = (case map_of (lfu_values c) k of None \<Rightarrow> map_of (lfu_values c)
      | Some vc \<Rightarrow> (map_of (lfu_values c))(k \<mapsto> vc_inc vc))"
proof (cases "map_of (lfu_values c) k")
  case None
  then have "lfu_get ops k c = Some (map_option vc_value (map_of (lfu_values c) k), c)"
    by (simp add: lfu_get_def update_bin_miss)
  then show thesis by (rule that) (use inv None in simp_all)
next
  case (Some vc)
  have vc: "vc = \<lparr>vc_value = vc_value vc, vc_count = vc_count vc\<rparr>" by simp
  have hit: "map_of (lfu_values c) k = Some \<lparr>vc_value = vc_value vc, vc_count = vc_count vc\<rparr>" using Some by simp
  obtain c' where c': "update_frequency_bin ops k c = Some c'" "lfu_inv ops c'"
    "map_of (lfu_values c') = (map_of (lfu_values c))(k \<mapsto> \<lparr>vc_value = vc_value vc, vc_count = Suc (vc_count vc)\<rparr>)"
    by (rule lfu_touch [OF laws inv hit])
  have "vc_inc vc = \<lparr>vc_value = vc_value vc, vc_count = Suc (vc_count vc)\<rparr>" by (simp add: vc_inc_def)
  then show thesis using that c' Some by (simp add: lfu_get_def)
qed

text \<open>Overwriting a value leaves the bins alone.\<close>

lemma lfu_overwrite:
  assumes inv: "lfu_inv ops c" and vc: "map_of (lfu_values c) k = Some vc"
  shows "lfu_inv ops (c\<lparr>lfu_values := AList.update k (vc\<lparr>vc_value := v\<rparr>) (lfu_values c)\<rparr>)"
proof -
  let ?c = "c\<lparr>lfu_values := AList.update k (vc\<lparr>vc_value := v\<rparr>) (lfu_values c)\<rparr>"
  have dk: "k \<in> fst ` set (lfu_values c)" using vc by (metis map_of_eq_None_iff option.distinct(1))
  have bins: "bin_list ops ?c = bin_list ops c" by (simp add: bin_list_def fun_eq_iff)
  have mem: "(\<exists>v'. map_of (lfu_values ?c) j = Some \<lparr>vc_value = v', vc_count = n\<rparr>) \<longleftrightarrow>
      (\<exists>v'. map_of (lfu_values c) j = Some \<lparr>vc_value = v', vc_count = n\<rparr>)" for j n
    using vc by (cases vc) (auto simp: map_of_AList_update)
  have "lfu_ok ops ?c"
    unfolding lfu_ok_def bins mem
    using inv dk by (simp add: lfu_inv_def lfu_ok_def distinct_update length_update_mem)
  moreover have "lfu_values c \<noteq> []" using vc by auto
  ultimately show ?thesis using inv by (simp add: lfu_inv_def bins)
qed

lemma lfu_set_evicting:
  assumes "evict ops c = Some c1" "map_of (lfu_values c) k = None" "length (lfu_values c) = lfu_capacity c"
    and "map_of (lfu_values c1) k = None" "length (lfu_values c1) < lfu_capacity c1"
  shows "lfu_set ops k v c = lfu_set ops k v c1"
  using assms by (simp add: lfu_set_def lfu_len_def)

lemma lfu_set_full:
  assumes laws: "lhs_laws ops" and inv: "lfu_inv ops c" and cap: "0 < lfu_capacity c"
    and miss: "map_of (lfu_values c) k = None" and full: "length (lfu_values c) = lfu_capacity c"
  obtains q w ps c' where "lfu_set ops k v c = Some c'" "lfu_inv ops c'"
    "lfu_bins ops c (min_frequency c) = (q, w) # ps"
    "map_of (lfu_values c') = (map_of (lfu_values c))(q := None, k \<mapsto> \<lparr>vc_value = v, vc_count = 1\<rparr>)"
proof -
  have "lfu_values c \<noteq> []" using cap full by auto
  then obtain q w ps c1 where c1: "lfu_bins ops c (min_frequency c) = (q, w) # ps" "evict ops c = Some c1"
    "lfu_values c1 = AList.delete q (lfu_values c)"
    "Suc (length (lfu_values c1)) = length (lfu_values c)" "lfu_capacity c1 = lfu_capacity c" "lfu_ok ops c1"
    using lfu_evict [OF laws inv] by metis
  have miss1: "map_of (lfu_values c1) k = None" using c1(3) miss by (simp add: map_of_AList_delete)
  have room: "length (lfu_values c1) < lfu_capacity c1" using c1(4,5) full by simp
  from lfu_insert [OF laws c1(6) miss1 room, of v] obtain c' where c': "lfu_set ops k v c1 = Some c'" "lfu_inv ops c'"
    "lfu_values c' = AList.update k \<lparr>vc_value = v, vc_count = 1\<rparr> (lfu_values c1)" by metis
  show thesis
    by (rule that [OF _ c'(2) c1(1)])
      (use lfu_set_evicting [OF c1(2) miss full miss1 room] c' c1(3) in
        \<open>simp_all add: map_of_AList_update map_of_AList_delete\<close>)
qed

lemma lfu_set_ok:
  assumes laws: "lhs_laws ops" and inv: "lfu_inv ops c" and cap: "0 < lfu_capacity c"
  obtains c' where "lfu_set ops k v c = Some c'" "lfu_inv ops c'" "map_option vc_value (map_of (lfu_values c') k) = Some v"
proof (cases "map_of (lfu_values c) k")
  case None
  show thesis
  proof (cases "length (lfu_values c) = lfu_capacity c")
    case True
    show thesis by (rule lfu_set_full [OF laws inv cap None True, of v]) (auto intro: that)
  next
    case False
    then have room: "length (lfu_values c) < lfu_capacity c" using lfu_invD(2) [OF inv] by simp
    have ok: "lfu_ok ops c" using inv by (simp add: lfu_inv_def)
    from lfu_insert [OF laws ok None room, of v] obtain c' where "lfu_set ops k v c = Some c'" "lfu_inv ops c'"
      "lfu_values c' = AList.update k \<lparr>vc_value = v, vc_count = 1\<rparr> (lfu_values c)" by metis
    then show thesis using that by (simp add: map_of_AList_update)
  qed
next
  case (Some vc)
  let ?c = "c\<lparr>lfu_values := AList.update k (vc\<lparr>vc_value := v\<rparr>) (lfu_values c)\<rparr>"
  have hit: "map_of (lfu_values ?c) k = Some \<lparr>vc_value = v, vc_count = vc_count vc\<rparr>"
    by (simp add: map_of_AList_update)
  obtain c' where "update_frequency_bin ops k ?c = Some c'" "lfu_inv ops c'"
    "map_of (lfu_values c') = (map_of (lfu_values ?c))(k \<mapsto> \<lparr>vc_value = v, vc_count = Suc (vc_count vc)\<rparr>)"
    by (rule lfu_touch [OF laws lfu_overwrite [OF inv Some] hit])
  then show thesis using that Some by (simp add: lfu_set_def)
qed

subsection \<open>Removal leaves the recorded minimum behind\<close>

text \<open>Once the only entry of the least frequency is removed, the next eviction panics.\<close>

lemma evict_after_remove:
  assumes laws: "lhs_laws ops" and inv: "lfu_inv ops self"
    and last: "bin_list ops self (min_frequency self) = [k]"
  shows "evict ops (snd (lfu_remove ops k self)) = None \<and>
    evict_and_return_key ops (snd (lfu_remove ops k self)) = None"
proof -
  have "k \<in> set (bin_list ops self (min_frequency self))" using last by simp
  then obtain v where v: "map_of (lfu_values self) k = Some \<lparr>vc_value = v, vc_count = min_frequency self\<rparr>"
    using lfu_invD(3) [OF inv] by blast
  obtain s where s: "frequency_bin self (min_frequency self) = Some s" "lhs_iter ops s = [k]"
    using last by (auto simp: bin_list_def split: option.splits)
  have "lhs_iter ops (lhs_remove ops k s) = []" using s(2) by (simp add: lhs_lawsD(5) [OF laws])
  then have "fst (lhs_pop_front ops (lhs_remove ops k s)) = None" by (rule lhs_lawsD(6) [OF laws])
  then show ?thesis using v s(1)
    by (cases "lhs_pop_front ops (lhs_remove ops k s)")
      (simp add: lfu_remove_def Let_def bin_or_default_def evict_def evict_and_return_key_def)
qed

end
