(* ===== verification/Lfu_Unicache.thy ===== *)
theory Lfu_Unicache
  imports Lfu_Cache
begin

text \<open>
  \<^verbatim>\<open>unicache/lfu_cache.rs\<close>: the field cache that evicts the least frequently used value. An
  encoder and a decoder are in step when the frequency bins of the decoder mirror those of the
  encoder; every step keeps them so. A clone does not: it forgets the frequencies.
\<close>

record ('a, 'c, 'se, 'sd) lfu_unicache =
  lfu_cache_encoder :: "('a, 'c, 'se) lfu_cache"
  lfu_cache_decoder :: "('c, 'a, 'sd) lfu_cache"
  lfu_encoding :: 'c
  lfu_size :: nat

definition lfu_unicache_new :: "'c encoded_ops \<Rightarrow> nat \<Rightarrow> ('a, 'c, 'se, 'sd) lfu_unicache option" where
  "lfu_unicache_new eo sz = do {
     encoder \<leftarrow> with_capacity sz;
     decoder \<leftarrow> with_capacity sz;
     Some \<lparr>lfu_cache_encoder = encoder, lfu_cache_decoder = decoder,
           lfu_encoding = enc_default eo, lfu_size = sz\<rparr>
   }"

definition lfu_try_encode ::
    "('a, 'se) lhs_ops \<Rightarrow> 'c encoded_ops \<Rightarrow> 'a \<Rightarrow> ('a, 'c, 'se, 'sd) lfu_unicache \<Rightarrow>
     (('a, 'c) maybe_encoded \<times> ('a, 'c, 'se, 'sd) lfu_unicache) option" where
  "lfu_try_encode oe eo field self = do {
     (found, encoder) \<leftarrow> lfu_get oe field (lfu_cache_encoder self);
     (case found of
        Some encoding \<Rightarrow> Some (Encoded encoding, self\<lparr>lfu_cache_encoder := encoder\<rparr>)
      | None \<Rightarrow>
          if lfu_len encoder = lfu_size self then do {
            (popped, encoder1) \<leftarrow> evict_and_return_value oe encoder;
            popped_encoding \<leftarrow> popped;
            encoder2 \<leftarrow> lfu_set oe field popped_encoding encoder1;
            Some (NotEncoded field, self\<lparr>lfu_cache_encoder := encoder2\<rparr>)
          } else do {
            added \<leftarrow> enc_add eo (lfu_encoding self) (enc_one eo);
            encoder1 \<leftarrow> lfu_set oe field added encoder;
            Some (NotEncoded field, self\<lparr>lfu_cache_encoder := encoder1, lfu_encoding := added\<rparr>)
          })
   }"

definition lfu_decode ::
    "('c, 'sd) lhs_ops \<Rightarrow> 'c encoded_ops \<Rightarrow> ('a, 'c) maybe_encoded \<Rightarrow> ('a, 'c, 'se, 'sd) lfu_unicache \<Rightarrow>
     ('a \<times> ('a, 'c, 'se, 'sd) lfu_unicache) option" where
  "lfu_decode od eo result self =
     (case result of
        Encoded encoding \<Rightarrow> do {
          (found, decoder) \<leftarrow> lfu_get od encoding (lfu_cache_decoder self);
          field \<leftarrow> found;
          Some (field, self\<lparr>lfu_cache_decoder := decoder\<rparr>)
        }
      | NotEncoded not_encodable \<Rightarrow>
          if lfu_len (lfu_cache_decoder self) = lfu_size self then do {
            (popped, decoder1) \<leftarrow> evict_and_return_key od (lfu_cache_decoder self);
            popped_encoded \<leftarrow> popped;
            decoder2 \<leftarrow> lfu_set od popped_encoded not_encodable decoder1;
            Some (not_encodable, self\<lparr>lfu_cache_decoder := decoder2\<rparr>)
          } else do {
            added \<leftarrow> enc_add eo (lfu_encoding self) (enc_one eo);
            decoder1 \<leftarrow> lfu_set od added not_encodable (lfu_cache_decoder self);
            Some (not_encodable, self\<lparr>lfu_cache_decoder := decoder1, lfu_encoding := added\<rparr>)
          })"

definition lfu_clone ::
    "('c, 'sd) lhs_ops \<Rightarrow> (('a \<times> 'c) list \<Rightarrow> ('a \<times> 'c) list) \<Rightarrow> ('a, 'c, 'se, 'sd) lfu_unicache \<Rightarrow>
     ('a, 'c, 'se, 'sd) lfu_unicache option" where
  "lfu_clone od hm_order self = do {
     decoder \<leftarrow> with_capacity (lfu_size self);
     decoder1 \<leftarrow> for_each (\<lambda>(encodable, encoded) d. lfu_set od encoded encodable d)
       (lfu_iter hm_order (lfu_cache_encoder self)) decoder;
     encoder \<leftarrow> with_capacity 1;
     Some \<lparr>lfu_cache_encoder = encoder, lfu_cache_decoder = decoder1,
           lfu_encoding = lfu_encoding self, lfu_size = lfu_size self\<rparr>
   }"

subsection \<open>Encoder and decoder in step\<close>

definition lfu_mirrors :: "('a, 'se) lhs_ops \<Rightarrow> ('c, 'sd) lhs_ops \<Rightarrow> 'c encoded_ops \<Rightarrow> nat \<Rightarrow>
    ('a, 'c, 'se) lfu_cache \<Rightarrow> ('c, 'a, 'sd) lfu_cache \<Rightarrow> bool" where
  "lfu_mirrors oe od eo sz e d \<longleftrightarrow>
     lfu_inv oe e \<and> lfu_inv od d \<and> lfu_capacity e = sz \<and> lfu_capacity d = sz \<and>
     (\<forall>n. lfu_bins od d n = map prod.swap (lfu_bins oe e n)) \<and>
     min_frequency d = min_frequency e \<and> length (lfu_values d) = length (lfu_values e) \<and>
     {c. \<exists>k n. (k, c) \<in> set (lfu_bins oe e n)} = used_encodings eo (length (lfu_values e))"

definition lfu_in_step :: "('a, 'se) lhs_ops \<Rightarrow> ('c, 'sd) lhs_ops \<Rightarrow> 'c encoded_ops \<Rightarrow> nat \<Rightarrow>
    ('a, 'c, 'se, 'sd) lfu_unicache \<Rightarrow> ('a, 'c, 'se, 'sd) lfu_unicache \<Rightarrow> bool" where
  "lfu_in_step oe od eo sz E D \<longleftrightarrow> 0 < sz \<and> lfu_size E = sz \<and> lfu_size D = sz \<and>
     lfu_mirrors oe od eo sz (lfu_cache_encoder E) (lfu_cache_decoder D) \<and>
     nth_encoding eo (length (lfu_values (lfu_cache_encoder E))) = Some (lfu_encoding E) \<and>
     lfu_encoding D = lfu_encoding E"

lemma lfu_mirrorsD:
  assumes "lfu_mirrors oe od eo sz e d"
  shows "lfu_inv oe e" "lfu_inv od d" "lfu_capacity e = sz" "lfu_capacity d = sz"
    "lfu_bins od d n = map prod.swap (lfu_bins oe e n)"
    "min_frequency d = min_frequency e" "length (lfu_values d) = length (lfu_values e)"
    "{c. \<exists>k n. (k, c) \<in> set (lfu_bins oe e n)} = used_encodings eo (length (lfu_values e))"
  using assms by (simp_all add: lfu_mirrors_def)

lemma lfu_inv_ok: "lfu_inv ops c \<Longrightarrow> lfu_ok ops c"
  by (simp add: lfu_inv_def)

lemma lfu_get_hit:
  assumes laws: "lhs_laws ops" and inv: "lfu_inv ops c" and hit: "(k, v) \<in> set (lfu_bins ops c n)"
  obtains c' where "lfu_get ops k c = Some (Some v, c')" "lfu_inv ops c'"
    "lfu_bins ops c' = (lfu_bins ops c)
       (n := remove1 (k, v) (lfu_bins ops c n), Suc n := lfu_bins ops c (Suc n) @ [(k, v)])"
    "min_frequency c' = (if n = min_frequency c \<and> remove1 (k, v) (lfu_bins ops c n) = []
       then n + 1 else min_frequency c)"
    "length (lfu_values c') = length (lfu_values c)" "lfu_capacity c' = lfu_capacity c"
proof -
  have "map_of (lfu_values c) k = Some \<lparr>vc_value = v, vc_count = n\<rparr>"
    using hit lfu_bins_mem [OF lfu_inv_ok [OF inv]] by metis
  then obtain c' where c': "update_frequency_bin ops k c = Some c'" "lfu_inv ops c'"
    "map_of (lfu_values c') = (map_of (lfu_values c))(k \<mapsto> \<lparr>vc_value = v, vc_count = Suc n\<rparr>)"
    "lfu_bins ops c' = (lfu_bins ops c)
       (n := remove1 (k, v) (lfu_bins ops c n), Suc n := lfu_bins ops c (Suc n) @ [(k, v)])"
    "min_frequency c' = (if n = min_frequency c \<and> remove1 (k, v) (lfu_bins ops c n) = []
       then n + 1 else min_frequency c)"
    "length (lfu_values c') = length (lfu_values c)" "lfu_capacity c' = lfu_capacity c"
    by (rule lfu_touch [OF laws inv])
  show thesis by (rule that [OF _ c'(2,4-7)]) (simp add: lfu_get_def c'(1,3))
qed

lemma lfu_get_miss:
  "map_of (lfu_values c) k = None \<Longrightarrow> lfu_get ops k c = Some (None, c)"
  by (simp add: lfu_get_def update_bin_miss)

lemma map_swap_remove1': "remove1 (v, k) (map prod.swap es) = map prod.swap (remove1 (k, v) es)"
  by (induction es) auto

lemma mirrors_hit:
  assumes oe: "lhs_laws oe" and od: "lhs_laws od" and rel: "lfu_mirrors oe od eo sz e d"
    and hit: "(x, c) \<in> set (lfu_bins oe e n)"
  obtains e' d' where "lfu_get oe x e = Some (Some c, e')" "lfu_get od c d = Some (Some x, d')"
    "lfu_mirrors oe od eo sz e' d'" "length (lfu_values e') = length (lfu_values e)"
proof -
  note R = lfu_mirrorsD [OF rel]
  have hit': "(c, x) \<in> set (lfu_bins od d n)" using hit R(5) by force
  obtain e' where e: "lfu_get oe x e = Some (Some c, e')" "lfu_inv oe e'"
    "lfu_bins oe e' = (lfu_bins oe e)
       (n := remove1 (x, c) (lfu_bins oe e n), Suc n := lfu_bins oe e (Suc n) @ [(x, c)])"
    "min_frequency e' = (if n = min_frequency e \<and> remove1 (x, c) (lfu_bins oe e n) = []
       then n + 1 else min_frequency e)"
    "length (lfu_values e') = length (lfu_values e)" "lfu_capacity e' = lfu_capacity e"
    by (rule lfu_get_hit [OF oe R(1) hit])
  obtain d' where d: "lfu_get od c d = Some (Some x, d')" "lfu_inv od d'"
    "lfu_bins od d' = (lfu_bins od d)
       (n := remove1 (c, x) (lfu_bins od d n), Suc n := lfu_bins od d (Suc n) @ [(c, x)])"
    "min_frequency d' = (if n = min_frequency d \<and> remove1 (c, x) (lfu_bins od d n) = []
       then n + 1 else min_frequency d)"
    "length (lfu_values d') = length (lfu_values d)" "lfu_capacity d' = lfu_capacity d"
    by (rule lfu_get_hit [OF od R(2) hit'])
  have "{c. \<exists>k m. (k, c) \<in> set (lfu_bins oe e' m)} = {c. \<exists>k m. (k, c) \<in> set (lfu_bins oe e m)}"
  proof (intro Collect_cong iffI; elim exE)
    fix b k m assume "(k, b) \<in> set (lfu_bins oe e' m)"
    then show "\<exists>k m. (k, b) \<in> set (lfu_bins oe e m)"
      using hit by (auto simp: e(3) split: if_splits dest: notin_set_remove1 set_remove1_subset [THEN subsetD])
  next
    fix b k m assume *: "(k, b) \<in> set (lfu_bins oe e m)"
    show "\<exists>k m. (k, b) \<in> set (lfu_bins oe e' m)"
    proof (cases "(k, b) = (x, c)")
      case True
      then have "(k, b) \<in> set (lfu_bins oe e' (Suc n))" by (simp add: e(3))
      then show ?thesis by blast
    next
      case False
      then have "(k, b) \<in> set (lfu_bins oe e' m)" using * by (auto simp: e(3))
      then show ?thesis by blast
    qed
  qed
  then have "{c. \<exists>k m. (k, c) \<in> set (lfu_bins oe e' m)} = used_encodings eo (length (lfu_values e'))"
    using R(8) e(5) by simp
  moreover have "lfu_bins od d' m = map prod.swap (lfu_bins oe e' m)" for m
    by (simp add: d(3) e(3) R(5) map_swap_remove1')
  moreover have "min_frequency d' = min_frequency e'"
    unfolding d(4) e(4) R(5,6) map_swap_remove1' by simp
  ultimately have "lfu_mirrors oe od eo sz e' d'"
    using R(3,4,7) e(2,5,6) d(2,5,6) by (simp add: lfu_mirrors_def)
  then show thesis using that e(1,5) d(1) by blast
qed

lemma lfu_step_hit:
  assumes "lhs_laws oe" "lhs_laws od" and rel: "lfu_in_step oe od eo sz E D"
    and hit: "(x, c) \<in> set (lfu_bins oe (lfu_cache_encoder E) n)"
  shows "\<exists>E' D'. lfu_try_encode oe eo x E = Some (Encoded c, E') \<and>
    lfu_decode od eo (Encoded c) D = Some (x, D') \<and> lfu_in_step oe od eo sz E' D'"
proof -
  have "lfu_mirrors oe od eo sz (lfu_cache_encoder E) (lfu_cache_decoder D)"
    using rel by (simp add: lfu_in_step_def)
  then obtain e' d' where ed: "lfu_get oe x (lfu_cache_encoder E) = Some (Some c, e')"
      "lfu_get od c (lfu_cache_decoder D) = Some (Some x, d')" "lfu_mirrors oe od eo sz e' d'"
      "length (lfu_values e') = length (lfu_values (lfu_cache_encoder E))"
    by (rule mirrors_hit [OF assms(1,2) _ hit])
  then have "lfu_in_step oe od eo sz (E\<lparr>lfu_cache_encoder := e'\<rparr>) (D\<lparr>lfu_cache_decoder := d'\<rparr>)"
    using rel by (simp add: lfu_in_step_def)
  then show ?thesis using ed(1,2) by (simp add: lfu_try_encode_def lfu_decode_def)
qed

lemma lfu_bins_keys:
  assumes "lfu_ok ops c"
  shows "map_of (lfu_values c) k = None \<longleftrightarrow> (\<forall>v n. (k, v) \<notin> set (lfu_bins ops c n))"
proof
  assume "\<forall>v n. (k, v) \<notin> set (lfu_bins ops c n)"
  then have "map_of (lfu_values c) k \<noteq> Some \<lparr>vc_value = v, vc_count = n\<rparr>" for v n
    using lfu_bins_mem [OF assms] by metis
  then show "map_of (lfu_values c) k = None" by (metis option.exhaust value_counter.surjective unit.exhaust)
qed (simp add: lfu_bins_mem [OF assms])

text \<open>Both sides insert the same pair.\<close>

lemma mirrors_insert:
  assumes oe: "lhs_laws oe" and od: "lhs_laws od"
    and ok: "lfu_ok oe e" "lfu_ok od d" "lfu_capacity e = sz" "lfu_capacity d = sz"
    and bins: "\<And>n. lfu_bins od d n = map prod.swap (lfu_bins oe e n)"
    and len: "length (lfu_values d) = length (lfu_values e)" "length (lfu_values e) < sz"
    and new: "map_of (lfu_values e) x = None" "\<And>k n. (k, c) \<notin> set (lfu_bins oe e n)"
    and used: "insert c {c. \<exists>k n. (k, c) \<in> set (lfu_bins oe e n)} =
      used_encodings eo (Suc (length (lfu_values e)))"
  obtains e' d' where "lfu_set oe x c e = Some e'" "lfu_set od c x d = Some d'"
    "lfu_mirrors oe od eo sz e' d'" "length (lfu_values e') = Suc (length (lfu_values e))"
proof -
  have "(c, k) \<notin> set (lfu_bins od d n)" for k n using new(2) [of k n] bins by auto
  then have newd: "map_of (lfu_values d) c = None" using lfu_bins_keys [OF ok(2)] by metis
  have room: "length (lfu_values e) < lfu_capacity e" "length (lfu_values d) < lfu_capacity d"
    using ok len by simp_all
  obtain e' where e: "lfu_set oe x c e = Some e'" "lfu_inv oe e'"
    "lfu_values e' = AList.update x \<lparr>vc_value = c, vc_count = 1\<rparr> (lfu_values e)"
    "lfu_bins oe e' = (lfu_bins oe e)(1 := lfu_bins oe e 1 @ [(x, c)])" "min_frequency e' = 1"
    "length (lfu_values e') = Suc (length (lfu_values e))" "lfu_capacity e' = lfu_capacity e"
    by (rule lfu_insert [OF oe ok(1) new(1) room(1)])
  obtain d' where d: "lfu_set od c x d = Some d'" "lfu_inv od d'"
    "lfu_values d' = AList.update c \<lparr>vc_value = x, vc_count = 1\<rparr> (lfu_values d)"
    "lfu_bins od d' = (lfu_bins od d)(1 := lfu_bins od d 1 @ [(c, x)])" "min_frequency d' = 1"
    "length (lfu_values d') = Suc (length (lfu_values d))" "lfu_capacity d' = lfu_capacity d"
    by (rule lfu_insert [OF od ok(2) newd room(2)])
  have "(\<exists>k n. (k, b) \<in> set (lfu_bins oe e' n)) \<longleftrightarrow> b = c \<or> (\<exists>k n. (k, b) \<in> set (lfu_bins oe e n))" for b
  proof
    assume "\<exists>k n. (k, b) \<in> set (lfu_bins oe e' n)"
    then show "b = c \<or> (\<exists>k n. (k, b) \<in> set (lfu_bins oe e n))" by (auto simp: e(4) split: if_splits)
  next
    assume "b = c \<or> (\<exists>k n. (k, b) \<in> set (lfu_bins oe e n))"
    then consider "b = c" | k n where "(k, b) \<in> set (lfu_bins oe e n)" by blast
    then show "\<exists>k n. (k, b) \<in> set (lfu_bins oe e' n)"
    proof cases
      case 1
      then have "(x, b) \<in> set (lfu_bins oe e' 1)" by (simp add: e(4))
      then show ?thesis by blast
    next
      case 2
      then have "(k, b) \<in> set (lfu_bins oe e' n)" by (cases "n = 1") (auto simp: e(4))
      then show ?thesis by blast
    qed
  qed
  then have "{c. \<exists>k n. (k, c) \<in> set (lfu_bins oe e' n)} = used_encodings eo (length (lfu_values e'))"
    using used e(6) by auto
  moreover have "lfu_bins od d' n = map prod.swap (lfu_bins oe e' n)" for n
    by (simp add: d(4) e(4) bins)
  ultimately have "lfu_mirrors oe od eo sz e' d'"
    using e(2,5,6,7) d(2,5,6,7) ok(3,4) len(1) by (simp add: lfu_mirrors_def)
  then show thesis using that e(1,6) d(1) by blast
qed

lemma lfu_step_full:
  assumes oe: "lhs_laws oe" and od: "lhs_laws od" and rel: "lfu_in_step oe od eo sz E D"
    and miss: "map_of (lfu_values (lfu_cache_encoder E)) x = None"
    and full: "length (lfu_values (lfu_cache_encoder E)) = sz"
  shows "\<exists>E' D'. lfu_try_encode oe eo x E = Some (NotEncoded x, E') \<and>
    lfu_decode od eo (NotEncoded x) D = Some (x, D') \<and> lfu_in_step oe od eo sz E' D'"
proof -
  let ?e = "lfu_cache_encoder E" and ?d = "lfu_cache_decoder D"
  have sz: "0 < sz" "lfu_size E = sz" "lfu_size D = sz" and mir: "lfu_mirrors oe od eo sz ?e ?d"
    using rel by (simp_all add: lfu_in_step_def)
  note R = lfu_mirrorsD [OF mir]
  have ne: "lfu_values ?e \<noteq> []" "lfu_values ?d \<noteq> []" using full sz(1) R(7) by auto
  obtain k c ps e1 where e1: "lfu_bins oe ?e (min_frequency ?e) = (k, c) # ps"
    "evict_and_return_value oe ?e = Some (Some c, e1)"
    "lfu_values e1 = AList.delete k (lfu_values ?e)"
    "map_of (lfu_values ?e) k = Some \<lparr>vc_value = c, vc_count = min_frequency ?e\<rparr>"
    "lfu_bins oe e1 = (lfu_bins oe ?e)(min_frequency ?e := ps)"
    "Suc (length (lfu_values e1)) = length (lfu_values ?e)" "lfu_capacity e1 = lfu_capacity ?e"
    "lfu_ok oe e1"
    by (rule lfu_evict [OF oe R(1) ne(1)])
  obtain c' k' qs d1 where d1: "lfu_bins od ?d (min_frequency ?d) = (c', k') # qs"
    "evict_and_return_key od ?d = Some (Some c', d1)"
    "lfu_bins od d1 = (lfu_bins od ?d)(min_frequency ?d := qs)"
    "Suc (length (lfu_values d1)) = length (lfu_values ?d)" "lfu_capacity d1 = lfu_capacity ?d"
    "lfu_ok od d1" "map_of (lfu_values d1) c' = None"
    by (rule lfu_evict [OF od R(2) ne(2)]) (auto simp: map_of_AList_delete)
  have eq: "c' = c" "qs = map prod.swap ps" using d1(1) e1(1) R(5) [of "min_frequency ?e"] R(6) by auto
  have bins1: "lfu_bins od d1 n = map prod.swap (lfu_bins oe e1 n)" for n
    using R(5,6) eq by (simp add: d1(3) e1(5))
  have gone: "(b, c) \<notin> set (lfu_bins oe e1 n)" for b n
  proof
    assume "(b, c) \<in> set (lfu_bins oe e1 n)"
    then have "(c, b) \<in> set (lfu_bins od d1 n)" using bins1 by force
    then show False using lfu_bins_keys [OF d1(6)] d1(7) eq(1) by metis
  qed
  have "insert c {b. \<exists>j n. (j, b) \<in> set (lfu_bins oe e1 n)} = {b. \<exists>j n. (j, b) \<in> set (lfu_bins oe ?e n)}"
  proof (intro equalityI subsetI)
    fix b assume "b \<in> insert c {b. \<exists>j n. (j, b) \<in> set (lfu_bins oe e1 n)}"
    then show "b \<in> {b. \<exists>j n. (j, b) \<in> set (lfu_bins oe ?e n)}"
    proof (elim insertE CollectE exE)
      assume "b = c"
      then have "(k, b) \<in> set (lfu_bins oe ?e (min_frequency ?e))" using e1(1) by simp
      then show ?thesis by blast
    next
      fix j n assume "(j, b) \<in> set (lfu_bins oe e1 n)"
      then have "(j, b) \<in> set (lfu_bins oe ?e n)" using e1(1) by (auto simp: e1(5) split: if_splits)
      then show ?thesis by blast
    qed
  next
    fix b assume "b \<in> {b. \<exists>j n. (j, b) \<in> set (lfu_bins oe ?e n)}"
    then obtain j n where "(j, b) \<in> set (lfu_bins oe ?e n)" by blast
    then have "b = c \<or> (j, b) \<in> set (lfu_bins oe e1 n)" using e1(1) by (auto simp: e1(5))
    then show "b \<in> insert c {b. \<exists>j n. (j, b) \<in> set (lfu_bins oe e1 n)}" by blast
  qed
  then have used: "insert c {b. \<exists>j n. (j, b) \<in> set (lfu_bins oe e1 n)} =
      used_encodings eo (Suc (length (lfu_values e1)))"
    using R(8) e1(6) by simp
  have "map_of (lfu_values e1) x = None" using miss by (simp add: e1(3) map_of_AList_delete)
  moreover have "length (lfu_values d1) = length (lfu_values e1)" "length (lfu_values e1) < sz"
    using R(7) e1(6) d1(4) full by simp_all
  ultimately obtain e2 d2 where e2: "lfu_set oe x c e1 = Some e2" "lfu_set od c x d1 = Some d2"
    "lfu_mirrors oe od eo sz e2 d2" "length (lfu_values e2) = Suc (length (lfu_values e1))"
    using mirrors_insert [OF oe od e1(8) d1(6) _ _ bins1 _ _ _ gone used] e1(7) d1(5) R(3,4) by metis
  have "lfu_in_step oe od eo sz (E\<lparr>lfu_cache_encoder := e2\<rparr>) (D\<lparr>lfu_cache_decoder := d2\<rparr>)"
    using rel e2(3,4) e1(6) by (simp add: lfu_in_step_def)
  moreover have "lfu_try_encode oe eo x E = Some (NotEncoded x, E\<lparr>lfu_cache_encoder := e2\<rparr>)"
    using lfu_get_miss [OF miss] full sz e1(2) e2(1) by (simp add: lfu_try_encode_def lfu_len_def)
  moreover have "lfu_decode od eo (NotEncoded x) D = Some (x, D\<lparr>lfu_cache_decoder := d2\<rparr>)"
    using full sz d1(2) e2(2) R(7) eq(1) by (simp add: lfu_decode_def lfu_len_def)
  ultimately show ?thesis by blast
qed

lemma lfu_step_new:
  assumes oe: "lhs_laws oe" and od: "lhs_laws od" and fresh: "encodings_fresh eo sz"
    and rel: "lfu_in_step oe od eo sz E D"
    and miss: "map_of (lfu_values (lfu_cache_encoder E)) x = None"
    and room: "length (lfu_values (lfu_cache_encoder E)) \<noteq> sz"
  shows "\<exists>E' D'. lfu_try_encode oe eo x E = Some (NotEncoded x, E') \<and>
    lfu_decode od eo (NotEncoded x) D = Some (x, D') \<and> lfu_in_step oe od eo sz E' D'"
proof -
  let ?e = "lfu_cache_encoder E" and ?d = "lfu_cache_decoder D"
  have sz: "0 < sz" "lfu_size E = sz" "lfu_size D = sz" and mir: "lfu_mirrors oe od eo sz ?e ?d"
    and enc: "nth_encoding eo (length (lfu_values ?e)) = Some (lfu_encoding E)"
      "lfu_encoding D = lfu_encoding E"
    using rel by (simp_all add: lfu_in_step_def)
  note R = lfu_mirrorsD [OF mir]
  have short: "length (lfu_values ?e) < sz" using lfu_invD(2) [OF R(1)] R(3) room by simp
  obtain c where c: "enc_add eo (lfu_encoding E) (enc_one eo) = Some c"
    "nth_encoding eo (Suc (length (lfu_values ?e))) = Some c"
    "c \<notin> used_encodings eo (length (lfu_values ?e))"
    "used_encodings eo (Suc (length (lfu_values ?e))) =
      insert c (used_encodings eo (length (lfu_values ?e)))"
    by (rule fresh_next [OF fresh short enc(1)])
  have new: "(k, c) \<notin> set (lfu_bins oe ?e n)" for k n using c(3) R(8) by blast
  have used: "insert c {b. \<exists>j n. (j, b) \<in> set (lfu_bins oe ?e n)} =
      used_encodings eo (Suc (length (lfu_values ?e)))"
    using R(8) c(4) by simp
  obtain e' d' where e: "lfu_set oe x c ?e = Some e'" "lfu_set od c x ?d = Some d'"
    "lfu_mirrors oe od eo sz e' d'" "length (lfu_values e') = Suc (length (lfu_values ?e))"
    by (rule mirrors_insert [OF oe od lfu_inv_ok [OF R(1)] lfu_inv_ok [OF R(2)] R(3,4,5,7) short miss new used])
  have "lfu_in_step oe od eo sz (E\<lparr>lfu_cache_encoder := e', lfu_encoding := c\<rparr>)
      (D\<lparr>lfu_cache_decoder := d', lfu_encoding := c\<rparr>)"
    using sz e(3,4) c(2) by (simp add: lfu_in_step_def del: nth_encoding.simps)
  moreover have "lfu_try_encode oe eo x E =
      Some (NotEncoded x, E\<lparr>lfu_cache_encoder := e', lfu_encoding := c\<rparr>)"
    using lfu_get_miss [OF miss] room sz c(1) e(1) by (simp add: lfu_try_encode_def lfu_len_def)
  moreover have "lfu_decode od eo (NotEncoded x) D =
      Some (x, D\<lparr>lfu_cache_decoder := d', lfu_encoding := c\<rparr>)"
    using room sz c(1) e(2) R(7) enc(2) by (simp add: lfu_decode_def lfu_len_def)
  ultimately show ?thesis by blast
qed

lemma lfu_keeps_step:
  assumes "lhs_laws oe" "lhs_laws od" "encodings_fresh eo sz"
  shows "keeps_step (lfu_in_step oe od eo sz) (lfu_try_encode oe eo) (lfu_decode od eo)"
  unfolding keeps_step_def
proof (intro allI impI)
  fix E D x
  assume rel: "lfu_in_step oe od eo sz E D"
  let ?e = "lfu_cache_encoder E"
  have ok: "lfu_ok oe ?e" using rel by (simp add: lfu_in_step_def lfu_mirrors_def lfu_inv_def)
  show "\<exists>m E' D'. lfu_try_encode oe eo x E = Some (m, E') \<and> lfu_decode od eo m D = Some (x, D') \<and>
    lfu_in_step oe od eo sz E' D'"
  proof (cases "map_of (lfu_values ?e) x = None")
    case True
    then show ?thesis using lfu_step_full [OF assms(1,2) rel True] lfu_step_new [OF assms rel True] by blast
  next
    case False
    then obtain c n where "(x, c) \<in> set (lfu_bins oe ?e n)" using lfu_bins_keys [OF ok] by metis
    from lfu_step_hit [OF assms(1,2) rel this] show ?thesis by blast
  qed
qed

lemma lfu_new_in_step:
  assumes "lfu_unicache_new eo sz = Some E"
  shows "lfu_in_step oe od eo sz E E"
proof -
  obtain e d where e: "with_capacity sz = Some e" "with_capacity sz = Some d" and "0 < sz"
    and E: "E = \<lparr>lfu_cache_encoder = e, lfu_cache_decoder = d, lfu_encoding = enc_default eo, lfu_size = sz\<rparr>"
    using assms by (auto simp: lfu_unicache_new_def with_capacity_def split: if_splits)
  have "lfu_mirrors oe od eo sz e d"
    using with_capacity_inv [OF e(1), of oe] with_capacity_inv [OF e(2), of od]
    by (simp add: lfu_mirrors_def)
  then show ?thesis using E \<open>0 < sz\<close> with_capacity_inv [OF e(1), of oe] by (simp add: lfu_in_step_def)
qed

subsection \<open>A clone forgets the frequencies\<close>

text \<open>A cache in terms of its bins, and the effect of the operations on them.\<close>

definition lfu_state :: "('k, 's) lhs_ops \<Rightarrow> ('k, 'v, 's) lfu_cache \<Rightarrow> (nat \<Rightarrow> ('k \<times> 'v) list) \<Rightarrow>
    nat \<Rightarrow> nat \<Rightarrow> bool" where
  "lfu_state ops c bins cap n \<longleftrightarrow> lfu_inv ops c \<and> lfu_bins ops c = bins \<and> lfu_capacity c = cap \<and>
     length (lfu_values c) = n"

lemma lfu_stateD:
  assumes "lfu_state ops c bins cap n"
  shows "lfu_inv ops c" "lfu_bins ops c = bins" "lfu_capacity c = cap" "length (lfu_values c) = n"
  using assms by (simp_all add: lfu_state_def)

abbreviation empty_lfu :: "nat \<Rightarrow> ('k, 'v, 's) lfu_cache" where
  "empty_lfu n \<equiv> \<lparr>lfu_values = [], frequency_bin = Map.empty, lfu_capacity = n, min_frequency = 0\<rparr>"

lemma empty_lfu: "0 < n \<Longrightarrow> with_capacity n = Some (empty_lfu n)"
  by (simp add: with_capacity_def)

lemma empty_state: "lfu_state ops (empty_lfu n) (\<lambda>_. []) n 0"
  by (simp add: lfu_state_def lfu_inv_def lfu_ok_def lfu_bins_def bin_list_def fun_eq_iff)

lemma state_miss: "lfu_state ops c B cap n \<Longrightarrow> (\<And>v i. (k, v) \<notin> set (B i)) \<Longrightarrow> map_of (lfu_values c) k = None"
  using lfu_bins_keys [OF lfu_inv_ok, of ops c k] by (auto simp: lfu_state_def)

lemma state_insert:
  assumes "lhs_laws ops" and st: "lfu_state ops c B cap n" and "n < cap"
    and new: "\<And>v i. (k, v) \<notin> set (B i)"
  obtains c' where "lfu_set ops k v c = Some c'" "lfu_state ops c' (B(1 := B 1 @ [(k, v)])) cap (Suc n)"
    "min_frequency c' = 1"
  using lfu_insert [OF assms(1) lfu_inv_ok [OF lfu_stateD(1) [OF st]] state_miss [OF st new]]
    assms(3) lfu_stateD [OF st] unfolding lfu_state_def by metis

lemma state_hit:
  assumes "lhs_laws ops" and st: "lfu_state ops c B cap n" and "(k, v) \<in> set (B i)"
  obtains c' where "lfu_get ops k c = Some (Some v, c')"
    "lfu_state ops c' (B(i := remove1 (k, v) (B i), Suc i := B (Suc i) @ [(k, v)])) cap n"
    "min_frequency c' = (if i = min_frequency c \<and> remove1 (k, v) (B i) = [] then i + 1 else min_frequency c)"
  using lfu_get_hit [OF assms(1) lfu_stateD(1) [OF st], of k v i] assms(3) lfu_stateD [OF st]
  unfolding lfu_state_def by metis

lemma state_evict:
  assumes laws: "lhs_laws ops" and st: "lfu_state ops c B cap cap" and "0 < cap"
    and first: "B (min_frequency c) = (k, v) # ps"
  obtains c' where "evict_and_return_key ops c = Some (Some k, c')"
    "evict_and_return_value ops c = Some (Some v, c')" "lfu_ok ops c'" "lfu_capacity c' = cap"
    "length (lfu_values c') = cap - 1" "lfu_bins ops c' = B(min_frequency c := ps)"
proof -
  have "lfu_values c \<noteq> []" using lfu_stateD(4) [OF st] assms(3) by auto
  from lfu_evict [OF laws lfu_stateD(1) [OF st] this] obtain k' v' ps' c' where c':
    "lfu_bins ops c (min_frequency c) = (k', v') # ps'"
    "evict_and_return_key ops c = Some (Some k', c')" "evict_and_return_value ops c = Some (Some v', c')"
    "lfu_bins ops c' = (lfu_bins ops c)(min_frequency c := ps')"
    "Suc (length (lfu_values c')) = length (lfu_values c)" "lfu_capacity c' = lfu_capacity c" "lfu_ok ops c'"
    by metis
  then show thesis using that first lfu_stateD [OF st] by auto
qed

lemma ok_insert:
  assumes "lhs_laws ops" "lfu_ok ops c" "lfu_capacity c = cap" "length (lfu_values c) = n" "n < cap"
    and "lfu_bins ops c = B" and new: "\<And>v i. (k, v) \<notin> set (B i)"
  obtains c' where "lfu_set ops k v c = Some c'" "lfu_state ops c' (B(1 := B 1 @ [(k, v)])) cap (Suc n)"
    "min_frequency c' = 1"
proof -
  have miss: "map_of (lfu_values c) k = None" using lfu_bins_keys [OF assms(2)] assms(6) new by metis
  have room: "length (lfu_values c) < lfu_capacity c" using assms(3-5) by simp
  from lfu_insert [OF assms(1,2) miss room, of v] obtain c' where
    "lfu_set ops k v c = Some c'" "lfu_inv ops c'"
    "lfu_bins ops c' = (lfu_bins ops c)(1 := lfu_bins ops c 1 @ [(k, v)])" "min_frequency c' = 1"
    "length (lfu_values c') = Suc (length (lfu_values c))" "lfu_capacity c' = lfu_capacity c" by metis
  then show thesis using that assms(3,4,6) by (simp add: lfu_state_def)
qed

lemma lfu_iter_bins:
  assumes st: "lfu_state ops c B cap n" and order: "mset (hm_order xs) = mset xs"
    and "xs = map (\<lambda>(k, vc). (k, vc_value vc)) (lfu_values c)"
  shows "set (lfu_iter hm_order c) = {(k, v). \<exists>i. (k, v) \<in> set (B i)}" "length (lfu_iter hm_order c) = n"
proof -
  have ok: "lfu_ok ops c" using lfu_stateD(1) [OF st] by (rule lfu_inv_ok)
  have "(k, v) \<in> set xs \<longleftrightarrow> (\<exists>i. (k, v) \<in> set (B i))" for k v
  proof -
    have "(k, v) \<in> set xs \<longleftrightarrow> (\<exists>i. (k, \<lparr>vc_value = v, vc_count = i\<rparr>) \<in> set (lfu_values c))"
    proof
      assume "(k, v) \<in> set xs"
      then obtain vc where vc: "(k, vc) \<in> set (lfu_values c)" "v = vc_value vc" using assms(3) by auto
      then have "vc = \<lparr>vc_value = v, vc_count = vc_count vc\<rparr>" by simp
      with vc(1) show "\<exists>i. (k, \<lparr>vc_value = v, vc_count = i\<rparr>) \<in> set (lfu_values c)" by metis
    qed (use assms(3) in force)
    also have "\<dots> \<longleftrightarrow> (\<exists>i. map_of (lfu_values c) k = Some \<lparr>vc_value = v, vc_count = i\<rparr>)"
      using lfu_okD(1) [OF ok] by simp
    also have "\<dots> \<longleftrightarrow> (\<exists>i. (k, v) \<in> set (B i))"
      using lfu_bins_mem [OF ok] lfu_stateD(2) [OF st] by metis
    finally show ?thesis .
  qed
  then have "set xs = {(k, v). \<exists>i. (k, v) \<in> set (B i)}" by auto
  then show "set (lfu_iter hm_order c) = {(k, v). \<exists>i. (k, v) \<in> set (B i)}"
    using mset_eq_setD [OF order] by (simp add: lfu_iter_def assms(3) [symmetric])
  show "length (lfu_iter hm_order c) = n"
    using mset_eq_length [OF order] assms(3) lfu_stateD(4) [OF st] by (simp add: lfu_iter_def)
qed

lemma two_element_list:
  assumes "set xs = {p, q}" "length xs = 2" "p \<noteq> q" "hd xs = p"
  shows "xs = [p, q]"
proof -
  obtain a b where "xs = [a, b]" using assms(2) by (auto simp: length_Suc_conv numeral_2_eq_2)
  then show ?thesis using assms by (auto simp: doubleton_eq_iff)
qed

text \<open>An encoder of size 2 after two values and a hit on one of them.\<close>

lemma lfu_encoder_after_hit:
  assumes laws: "lhs_laws oe" and fresh: "encodings_fresh eo 2" and new: "lfu_unicache_new eo 2 = Some E0"
    and xy: "x \<noteq> y" and w: "(w, u) = (x, y) \<or> (w, u) = (y, x)"
  obtains ns E cw cu where "map_state (lfu_try_encode oe eo) [x, y, w] E0 = Some (ns, E)"
    "lfu_state oe (lfu_cache_encoder E) ((\<lambda>_. [])(1 := [(u, cu)], 2 := [(w, cw)])) 2 2"
    "min_frequency (lfu_cache_encoder E) = 1" "cw \<noteq> cu" "lfu_size E = 2"
proof -
  have E0: "lfu_cache_encoder E0 = empty_lfu 2" "lfu_size E0 = 2" "lfu_encoding E0 = enc_default eo"
    using new by (auto simp: lfu_unicache_new_def with_capacity_def)
  have miss0: "map_of (lfu_values (lfu_cache_encoder E0)) x = None" using E0 by simp
  obtain c1 where c1: "enc_add eo (enc_default eo) (enc_one eo) = Some c1" "nth_encoding eo (Suc 0) = Some c1"
    and used: "used_encodings eo (Suc 0) = {c1}"
    by (rule fresh_next [OF fresh, of 0 "enc_default eo"]) auto
  obtain c2 where c2: "enc_add eo c1 (enc_one eo) = Some c2" "c2 \<notin> used_encodings eo (Suc 0)"
    by (rule fresh_next [OF fresh _ c1(2)]) auto
  obtain e1 where e1: "lfu_set oe x c1 (empty_lfu 2) = Some e1"
    "lfu_state oe e1 ((\<lambda>_. [])(1 := [(x, c1)])) 2 1" "min_frequency e1 = 1"
    by (rule state_insert [OF laws empty_state, of 2 x c1]) auto
  have E1: "lfu_try_encode oe eo x E0 = Some (NotEncoded x, E0\<lparr>lfu_cache_encoder := e1, lfu_encoding := c1\<rparr>)"
    using lfu_get_miss [OF miss0] E0 c1(1) e1(1) by (simp add: lfu_try_encode_def lfu_len_def)
  have missy: "map_of (lfu_values e1) y = None" by (rule state_miss [OF e1(2)]) (use xy in auto)
  obtain e2 where e2: "lfu_set oe y c2 e1 = Some e2"
    "lfu_state oe e2 ((\<lambda>_. [])(1 := [(x, c1), (y, c2)])) 2 2" "min_frequency e2 = 1"
    by (rule state_insert [OF laws e1(2), of y c2]) (use xy in \<open>auto simp: numeral_2_eq_2\<close>)
  have E2: "lfu_try_encode oe eo y (E0\<lparr>lfu_cache_encoder := e1, lfu_encoding := c1\<rparr>) =
      Some (NotEncoded y, E0\<lparr>lfu_cache_encoder := e2, lfu_encoding := c2\<rparr>)"
    using lfu_get_miss [OF missy] E0(2) c2(1) e2(1) lfu_stateD(4) [OF e1(2)]
    by (simp add: lfu_try_encode_def lfu_len_def)
  define cw where "cw = (if w = x then c1 else c2)"
  define cu where "cu = (if w = x then c2 else c1)"
  have cwu: "(w, cw) \<in> set [(x, c1), (y, c2)]" "remove1 (w, cw) [(x, c1), (y, c2)] = [(u, cu)]"
    using w xy by (auto simp: cw_def cu_def)
  let ?B = "(\<lambda>_::nat. [])(1 := [(x, c1), (y, c2)])"
  have B1: "?B 1 = [(x, c1), (y, c2)]" by simp
  have B: "?B(1 := remove1 (w, cw) (?B 1), Suc 1 := ?B (Suc 1) @ [(w, cw)]) =
      (\<lambda>_. [])(1 := [(u, cu)], 2 := [(w, cw)])"
    unfolding B1 cwu(2) by (simp add: fun_eq_iff numeral_2_eq_2)
  have "(w, cw) \<in> set (?B 1)" unfolding B1 by (rule cwu(1))
  then obtain e3 where e3: "lfu_get oe w e2 = Some (Some cw, e3)"
    "lfu_state oe e3 (?B(1 := remove1 (w, cw) (?B 1), Suc 1 := ?B (Suc 1) @ [(w, cw)])) 2 2"
    "min_frequency e3 = (if 1 = min_frequency e2 \<and> remove1 (w, cw) (?B 1) = [] then 1 + 1 else min_frequency e2)"
    by (rule state_hit [OF laws e2(2)])
  have min3: "min_frequency e3 = 1" unfolding e3(3) B1 cwu(2) using e2(3) by simp
  note e3 = e3(1) e3(2) [unfolded B] min3
  have "lfu_try_encode oe eo w (E0\<lparr>lfu_cache_encoder := e2, lfu_encoding := c2\<rparr>) =
      Some (Encoded cw, E0\<lparr>lfu_cache_encoder := e3, lfu_encoding := c2\<rparr>)"
    using e3(1) by (simp add: lfu_try_encode_def)
  then have run: "map_state (lfu_try_encode oe eo) [x, y, w] E0 =
      Some ([NotEncoded x, NotEncoded y, Encoded cw], E0\<lparr>lfu_cache_encoder := e3, lfu_encoding := c2\<rparr>)"
    using E1 E2 by simp
  have "cw \<noteq> cu" using c2(2) used by (simp add: cw_def cu_def)
  then show thesis by (rule that [OF run _ _ _ _, rotated 2]) (use e3 E0(2) in simp_all)
qed

text \<open>The clone inserts the values anew, all with frequency 1, in iteration order.\<close>

lemma lfu_clone_two:
  assumes laws: "lhs_laws od" and sz: "lfu_size E = 2"
    and it: "lfu_iter hm_order (lfu_cache_encoder E) = [(w, cw), (u, cu)]" and ne: "cw \<noteq> cu"
  obtains F where "lfu_clone od hm_order E = Some F" "lfu_size F = 2"
    "lfu_state od (lfu_cache_decoder F) ((\<lambda>_. [])(1 := [(cw, w), (cu, u)])) 2 2"
    "min_frequency (lfu_cache_decoder F) = 1"
proof -
  obtain d1 where d1: "lfu_set od cw w (empty_lfu 2) = Some d1"
    "lfu_state od d1 ((\<lambda>_. [])(1 := [(cw, w)])) 2 1" "min_frequency d1 = 1"
    by (rule state_insert [OF laws empty_state, of 2 cw w]) auto
  obtain d2 where d2: "lfu_set od cu u d1 = Some d2"
    "lfu_state od d2 ((\<lambda>_. [])(1 := [(cw, w), (cu, u)])) 2 2" "min_frequency d2 = 1"
    by (rule state_insert [OF laws d1(2), of cu u]) (use ne in \<open>auto simp: numeral_2_eq_2\<close>)
  have "lfu_clone od hm_order E = Some \<lparr>lfu_cache_encoder = empty_lfu 1, lfu_cache_decoder = d2,
      lfu_encoding = lfu_encoding E, lfu_size = 2\<rparr>"
    using sz it d1(1) d2(1) by (simp add: lfu_clone_def empty_lfu)
  then show thesis by (rule that) (use d2 in simp_all)
qed

lemma lfu_clone_diverges:
  assumes oe: "lhs_laws oe" and od: "lhs_laws od"
    and e: "lfu_state oe (lfu_cache_encoder E) ((\<lambda>_. [])(1 := [(u, cu)], 2 := [(w, cw)])) 2 2"
      "min_frequency (lfu_cache_encoder E) = 1" "lfu_size E = 2"
    and d: "lfu_state od (lfu_cache_decoder F) ((\<lambda>_. [])(1 := [(cw, w), (cu, u)])) 2 2"
      "min_frequency (lfu_cache_decoder F) = 1" "lfu_size F = 2"
    and ne: "cw \<noteq> cu" "z \<noteq> w" "z \<noteq> u" "w \<noteq> u"
  obtains E' F' where "map_state (lfu_try_encode oe eo) [z, w] E = Some ([NotEncoded z, Encoded cw], E')"
    "map_state (lfu_decode od eo) [NotEncoded z, Encoded cw] F = Some ([z, z], F')"
proof -
  let ?e = "lfu_cache_encoder E" and ?d = "lfu_cache_decoder F"
  let ?B = "(\<lambda>_::nat. [])(1 := [(u, cu)], 2 := [(w, cw)])"
  let ?C = "(\<lambda>_::nat. [])(1 := [(cw, w), (cu, u)])"
  have missz: "map_of (lfu_values ?e) z = None" by (rule state_miss [OF e(1)]) (use ne in \<open>auto split: if_splits\<close>)
  obtain e1 where e1: "evict_and_return_value oe ?e = Some (Some cu, e1)" "lfu_ok oe e1"
    "lfu_capacity e1 = 2" "length (lfu_values e1) = 1" "lfu_bins oe e1 = ?B(min_frequency ?e := [])"
    by (rule state_evict [OF oe e(1), of u cu "[]"]) (use e(2) in auto)
  have e1': "lfu_bins oe e1 = (\<lambda>_. [])(2 := [(w, cw)])"
    using e1(5) e(2) by (auto simp: fun_eq_iff)
  obtain e2 where e2: "lfu_set oe z cu e1 = Some e2"
    "lfu_state oe e2 ((\<lambda>_. [])(2 := [(w, cw)], 1 := [(z, cu)])) 2 2"
    by (rule ok_insert [OF oe e1(2,3,4) _ e1', of z cu])
      (use ne in \<open>auto simp: numeral_2_eq_2 split: if_splits\<close>)
  have "(w, cw) \<in> set (((\<lambda>_::nat. [])(2 := [(w, cw)], 1 := [(z, cu)])) 2)" by simp
  then obtain e3 where e3: "lfu_get oe w e2 = Some (Some cw, e3)"
    by (rule state_hit [OF oe e2(2)])
  have enc: "map_state (lfu_try_encode oe eo) [z, w] E =
      Some ([NotEncoded z, Encoded cw], E\<lparr>lfu_cache_encoder := e3\<rparr>)"
    using lfu_get_miss [OF missz] e(3) e1(1) e2(1) e3 lfu_stateD(4) [OF e(1)]
    by (simp add: lfu_try_encode_def lfu_len_def)
  obtain d1 where d1: "evict_and_return_key od ?d = Some (Some cw, d1)" "lfu_ok od d1"
    "lfu_capacity d1 = 2" "length (lfu_values d1) = 1" "lfu_bins od d1 = ?C(min_frequency ?d := [(cu, u)])"
    by (rule state_evict [OF od d(1), of cw w "[(cu, u)]"]) (use d(2) in auto)
  have d1': "lfu_bins od d1 = (\<lambda>_. [])(1 := [(cu, u)])"
    using d1(5) d(2) by (auto simp: fun_eq_iff)
  obtain d2 where d2: "lfu_set od cw z d1 = Some d2"
    "lfu_state od d2 ((\<lambda>_. [])(1 := [(cu, u), (cw, z)])) 2 2"
    by (rule ok_insert [OF od d1(2,3,4) _ d1', of cw z])
      (use ne in \<open>auto simp: numeral_2_eq_2 split: if_splits\<close>)
  have "(cw, z) \<in> set (((\<lambda>_::nat. [])(1 := [(cu, u), (cw, z)])) 1)" by simp
  then obtain d3 where d3: "lfu_get od cw d2 = Some (Some z, d3)"
    by (rule state_hit [OF od d2(2)])
  have "map_state (lfu_decode od eo) [NotEncoded z, Encoded cw] F =
      Some ([z, z], F\<lparr>lfu_cache_decoder := d3\<rparr>)"
    using d(3) d1(1) d2(1) d3 lfu_stateD(4) [OF d(1)] by (simp add: lfu_decode_def lfu_len_def)
  with enc show thesis by (rule that)
qed

end
