(* ===== verification/Derive_Entry.thy ===== *)
theory Derive_Entry
  imports Lru_Unicache Lfu_Unicache
begin

text \<open>
  \<^verbatim>\<open>omnipaxos_macros/src/lib.rs\<close>: the derive macros. The first part is what the macro computes
  from the fields and attributes of a struct (parsed by the \<^verbatim>\<open>syn\<close> crate: an attribute is the
  list of its nested items, a malformed one a value of its own, on which the macro panics); the
  second is the code it generates, the cache of an entry with one field cache per annotated
  field, as functions of the computed lists. A struct value maps field names to values.
\<close>

subsection \<open>What the macro computes\<close>

datatype cache_kind = LRUniCache | LFUniCache

datatype meta_item = MetaSize nat | MetaCache string | MetaEncoding string | MetaOther string | Malformed

record struct_field =
  fld_ident :: "string option"
  fld_ty :: string
  fld_unicache :: "meta_item list option"

datatype cache_size = CacheSize nat | U8Max

datatype encode_result_ty = MaybeEncodedTy string string | PlainTy string

record derived =
  field_names :: "string list"
  encodable_field_names :: "string list"
  encodable_field_types :: "string list"
  encodable_field_attr_types :: "string list"
  encode_result :: "encode_result_ty list"
  non_encodable_field_names :: "string list"
  non_encodable_field_types :: "string list"
  cache_fields :: "(string \<times> cache_kind \<times> string \<times> string) list"
  cache_sizes :: "cache_size list"
  cache_types :: "cache_kind list"
  cache_type :: "cache_kind option"

text \<open>The closure given to \<^verbatim>\<open>parse_nested_meta\<close>, on (cache size, cache type, encoding type).\<close>

fun parse_meta :: "meta_item \<Rightarrow> cache_size option \<times> cache_kind option \<times> string option \<Rightarrow>
    (cache_size option \<times> cache_kind option \<times> string option) option" where
  "parse_meta (MetaSize n) (sz, ct, et) = Some (Some (CacheSize n), ct, et)"
| "parse_meta (MetaCache ty) (sz, ct, et) =
     (if ty = ''lru'' then Some (sz, Some LRUniCache, et)
      else if ty = ''lfu'' then Some (sz, Some LFUniCache, et)
      else None)"
| "parse_meta (MetaEncoding ty) (sz, ct, et) = Some (sz, ct, Some ty)"
| "parse_meta (MetaOther p) _ = None"
| "parse_meta Malformed _ = None"

text \<open>One round of the loop over the fields. \<open>cache_type\<close> is declared outside the loop.\<close>

definition derive_field :: "struct_field \<Rightarrow> derived \<Rightarrow> derived option" where
  "derive_field field g = do {
     name \<leftarrow> fld_ident field;
     let ty = fld_ty field;
     let g1 = g\<lparr>field_names := field_names g @ [name]\<rparr>;
     (case fld_unicache field of
        Some attr \<Rightarrow> do {
          (cache_size, ctype, encoding_type) \<leftarrow> for_each parse_meta attr (None, cache_type g, None);
          let encoding = (case encoding_type of Some e \<Rightarrow> e | None \<Rightarrow> ''u8'');
          let csize = (case cache_size of Some n \<Rightarrow> n | None \<Rightarrow> U8Max);
          let kind = (case ctype of Some k \<Rightarrow> k | None \<Rightarrow> LRUniCache);
          Some (g1\<lparr>
            cache_type := Some kind,
            encodable_field_names := encodable_field_names g @ [name],
            encodable_field_attr_types := encodable_field_attr_types g @ [encoding],
            encodable_field_types := encodable_field_types g @ [ty],
            encode_result := encode_result g @ [MaybeEncodedTy ty encoding],
            cache_fields := cache_fields g @ [(name, kind, ty, encoding)],
            cache_sizes := cache_sizes g @ [csize],
            cache_types := cache_types g @ [kind]\<rparr>)
        }
      | None \<Rightarrow> Some (g1\<lparr>
          non_encodable_field_names := non_encodable_field_names g @ [name],
          non_encodable_field_types := non_encodable_field_types g @ [ty],
          encode_result := encode_result g @ [PlainTy ty]\<rparr>))
   }"

definition derived_empty :: derived where
  "derived_empty = \<lparr>field_names = [], encodable_field_names = [], encodable_field_types = [],
     encodable_field_attr_types = [], encode_result = [], non_encodable_field_names = [],
     non_encodable_field_types = [], cache_fields = [], cache_sizes = [], cache_types = [],
     cache_type = None\<rparr>"

datatype data = Struct "struct_field list" | EnumData | UnionData

definition unicache_entry_derive :: "data \<Rightarrow> derived option" where
  "unicache_entry_derive ast =
     (case ast of
        Struct fs \<Rightarrow> for_each derive_field fs derived_empty
      | EnumData \<Rightarrow> None
      | UnionData \<Rightarrow> None)"

text \<open>\<^verbatim>\<open>suffix\<close> and \<^verbatim>\<open>get_snapshot_type\<close>; an attribute is its path and its parsed argument.\<close>

definition suffix_ident :: "string \<Rightarrow> string \<Rightarrow> string" where
  "suffix_ident ident name = ident @ name"

fun get_snapshot_type :: "(string \<times> string option) list \<Rightarrow> string option" where
  "get_snapshot_type [] = Some ''::omnipaxos::storage::NoSnapshot''"
| "get_snapshot_type ((path, arg) # attrs) =
     (if path = ''snapshot'' then arg else get_snapshot_type attrs)"

definition entry_derive :: "string \<Rightarrow> (string \<times> string option) list \<Rightarrow> (string \<times> string) option" where
  "entry_derive name attrs = map_option (\<lambda>t. (name, t)) (get_snapshot_type attrs)"

subsection \<open>The generated cache\<close>

datatype ('a, 'c) encoded_field = MaybeField "('a, 'c) maybe_encoded" | PlainField 'a

text \<open>\<^verbatim>\<open>new\<close>: one cache per annotated field, of the field's kind and size.\<close>

definition size_of_cache :: "cache_size \<Rightarrow> nat" where
  "size_of_cache s = (case s of CacheSize n \<Rightarrow> n | U8Max \<Rightarrow> 255)"

definition insert_cache :: "(cache_kind \<Rightarrow> nat \<Rightarrow> 'fc option) \<Rightarrow> string \<times> cache_kind \<times> cache_size \<Rightarrow>
    (string \<rightharpoonup> 'fc) \<Rightarrow> (string \<rightharpoonup> 'fc) option" where
  "insert_cache mk f caches =
     (case f of (name, kind, s) \<Rightarrow> do { c \<leftarrow> mk kind (size_of_cache s); Some (caches(name \<mapsto> c)) })"

definition generated_new :: "(cache_kind \<Rightarrow> nat \<Rightarrow> 'fc option) \<Rightarrow> derived \<Rightarrow> (string \<rightharpoonup> 'fc) option" where
  "generated_new mk g =
     for_each (insert_cache mk)
       (zip (encodable_field_names g) (zip (cache_types g) (cache_sizes g))) Map.empty"

fun encode_fields :: "('a \<Rightarrow> 'fc \<Rightarrow> (('a, 'c) maybe_encoded \<times> 'fc) option) \<Rightarrow> string list \<Rightarrow> (string \<rightharpoonup> 'a) \<Rightarrow>
    (string \<rightharpoonup> 'fc) \<Rightarrow> ((string \<rightharpoonup> ('a, 'c) maybe_encoded) \<times> (string \<rightharpoonup> 'fc)) option" where
  "encode_fields enc [] entry caches = Some (Map.empty, caches)"
| "encode_fields enc (n # ns) entry caches = do {
     v \<leftarrow> entry n;
     c \<leftarrow> caches n;
     (m, c') \<leftarrow> enc v c;
     (ms, caches') \<leftarrow> encode_fields enc ns entry (caches(n \<mapsto> c'));
     Some (if n \<in> set ns then ms else ms(n \<mapsto> m), caches')
   }"

fun tuple_of :: "string list \<Rightarrow> (string \<rightharpoonup> ('a, 'c) maybe_encoded) \<Rightarrow> (string \<rightharpoonup> 'a) \<Rightarrow>
    ('a, 'c) encoded_field list option" where
  "tuple_of [] ms entry = Some []"
| "tuple_of (n # ns) ms entry = do {
     x \<leftarrow> (case ms n of Some m \<Rightarrow> Some (MaybeField m) | None \<Rightarrow> map_option PlainField (entry n));
     xs \<leftarrow> tuple_of ns ms entry;
     Some (x # xs)
   }"

definition generated_try_encode :: "('a \<Rightarrow> 'fc \<Rightarrow> (('a, 'c) maybe_encoded \<times> 'fc) option) \<Rightarrow> derived \<Rightarrow>
    (string \<rightharpoonup> 'a) \<Rightarrow> (string \<rightharpoonup> 'fc) \<Rightarrow> (('a, 'c) encoded_field list \<times> (string \<rightharpoonup> 'fc)) option" where
  "generated_try_encode enc g entry caches = do {
     (ms, caches') \<leftarrow> encode_fields enc (encodable_field_names g) entry caches;
     tuple \<leftarrow> tuple_of (field_names g) ms entry;
     Some (tuple, caches')
   }"

fun decode_fields :: "(('a, 'c) maybe_encoded \<Rightarrow> 'fc \<Rightarrow> ('a \<times> 'fc) option) \<Rightarrow> string list \<Rightarrow>
    (string \<rightharpoonup> ('a, 'c) encoded_field) \<Rightarrow> (string \<rightharpoonup> 'fc) \<Rightarrow> ((string \<rightharpoonup> 'a) \<times> (string \<rightharpoonup> 'fc)) option" where
  "decode_fields dec [] vars caches = Some (Map.empty, caches)"
| "decode_fields dec (n # ns) vars caches = do {
     x \<leftarrow> vars n;
     c \<leftarrow> caches n;
     (v, c') \<leftarrow> (case x of MaybeField m \<Rightarrow> dec m c | PlainField v \<Rightarrow> None);
     (entry, caches') \<leftarrow> decode_fields dec ns vars (caches(n \<mapsto> c'));
     Some (entry(n \<mapsto> v), caches')
   }"

fun plain_fields :: "string list \<Rightarrow> (string \<rightharpoonup> ('a, 'c) encoded_field) \<Rightarrow> (string \<rightharpoonup> 'a) option" where
  "plain_fields [] vars = Some Map.empty"
| "plain_fields (n # ns) vars = do {
     x \<leftarrow> vars n;
     v \<leftarrow> (case x of MaybeField m \<Rightarrow> None | PlainField v \<Rightarrow> Some v);
     entry \<leftarrow> plain_fields ns vars;
     Some (entry(n \<mapsto> v))
   }"

definition generated_decode :: "(('a, 'c) maybe_encoded \<Rightarrow> 'fc \<Rightarrow> ('a \<times> 'fc) option) \<Rightarrow> derived \<Rightarrow>
    ('a, 'c) encoded_field list \<Rightarrow> (string \<rightharpoonup> 'fc) \<Rightarrow> ((string \<rightharpoonup> 'a) \<times> (string \<rightharpoonup> 'fc)) option" where
  "generated_decode dec g tuple caches = do {
     let vars = map_of (zip (field_names g) tuple);
     (encodables, caches') \<leftarrow> decode_fields dec (encodable_field_names g) vars caches;
     plain \<leftarrow> plain_fields (non_encodable_field_names g) vars;
     Some (encodables ++ plain, caches')
   }"

subsection \<open>The computed lists\<close>

definition meta_cache :: "meta_item list \<Rightarrow> cache_kind option" where
  "meta_cache attr = fold (\<lambda>m c. case m of
     MetaCache ty \<Rightarrow> Some (if ty = ''lru'' then LRUniCache else LFUniCache) | _ \<Rightarrow> c) attr None"

lemma fold_meta_cache:
  "fold (\<lambda>m c. case m of MetaCache ty \<Rightarrow> Some (if ty = ''lru'' then LRUniCache else LFUniCache) | _ \<Rightarrow> c)
     attr c = (case meta_cache attr of Some k \<Rightarrow> Some k | None \<Rightarrow> c)"
  unfolding meta_cache_def
  by (induction attr rule: rev_induct) (auto split: meta_item.split option.split)

lemma parse_meta_cache:
  assumes "for_each parse_meta attr (sz, ct, et) = Some (sz', ct', et')"
  shows "ct' = (case meta_cache attr of Some k \<Rightarrow> Some k | None \<Rightarrow> ct)"
proof -
  have "ct' = fold (\<lambda>m c. case m of
      MetaCache ty \<Rightarrow> Some (if ty = ''lru'' then LRUniCache else LFUniCache) | _ \<Rightarrow> c) attr ct"
    using assms
  proof (induction attr arbitrary: sz ct et)
    case (Cons m attr)
    then show ?case by (cases m) (auto split: if_splits)
  qed simp
  then show ?thesis by (simp only: fold_meta_cache)
qed

text \<open>The kind of every annotated field, a field without \<^verbatim>\<open>cache\<close> taking the previous one's.\<close>

fun carried :: "cache_kind option \<Rightarrow> struct_field list \<Rightarrow> cache_kind list" where
  "carried ct [] = []"
| "carried ct (f # fs) =
     (case fld_unicache f of
        None \<Rightarrow> carried ct fs
      | Some attr \<Rightarrow>
          let k = (case meta_cache attr of Some k \<Rightarrow> k | None \<Rightarrow> (case ct of Some k \<Rightarrow> k | None \<Rightarrow> LRUniCache))
          in k # carried (Some k) fs)"

lemma derive_field_Some:
  assumes "derive_field f g = Some g'"
  obtains name where "fld_ident f = Some name" "field_names g' = field_names g @ [name]"
    "fld_unicache f = None \<Longrightarrow> cache_type g' = cache_type g \<and> cache_types g' = cache_types g \<and>
       cache_sizes g' = cache_sizes g \<and>
       encodable_field_names g' = encodable_field_names g \<and>
       non_encodable_field_names g' = non_encodable_field_names g @ [name]"
    "\<And>attr. fld_unicache f = Some attr \<Longrightarrow> \<exists>k csz.
       k = (case meta_cache attr of Some k \<Rightarrow> k | None \<Rightarrow> (case cache_type g of Some k \<Rightarrow> k | None \<Rightarrow> LRUniCache)) \<and>
       cache_type g' = Some k \<and> cache_types g' = cache_types g @ [k] \<and>
       cache_sizes g' = cache_sizes g @ [csz] \<and>
       encodable_field_names g' = encodable_field_names g @ [name] \<and>
       non_encodable_field_names g' = non_encodable_field_names g"
proof (cases "fld_unicache f")
  case None
  then show thesis using assms that by (auto simp: derive_field_def Let_def)
next
  case (Some attr)
  then obtain name sz ct et where run: "fld_ident f = Some name"
    "for_each parse_meta attr (None, cache_type g, None) = Some (sz, ct, et)"
    using assms by (auto simp: derive_field_def Let_def)
  have ct: "ct = (case meta_cache attr of Some k \<Rightarrow> Some k | None \<Rightarrow> cache_type g)"
    by (rule parse_meta_cache [OF run(2)])
  show thesis by (rule that [OF run(1)])
    (use assms run Some ct in \<open>auto simp: derive_field_def Let_def split: option.splits\<close>)
qed

lemma derive_cache_types:
  "for_each derive_field fs g = Some g' \<Longrightarrow> cache_types g' = cache_types g @ carried (cache_type g) fs"
proof (induction fs arbitrary: g)
  case (Cons f fs)
  then obtain g1 where g1: "derive_field f g = Some g1" "for_each derive_field fs g1 = Some g'" by auto
  note IH = Cons.IH [OF g1(2)]
  from g1(1) show ?case
    by (rule derive_field_Some) (cases "fld_unicache f"; use IH in \<open>auto simp: Let_def\<close>)
qed simp

text \<open>The names of a struct are those of its fields, split into annotated and other ones.\<close>

definition names_ok :: "derived \<Rightarrow> bool" where
  "names_ok g \<longleftrightarrow> distinct (field_names g) \<and>
     set (field_names g) = set (encodable_field_names g) \<union> set (non_encodable_field_names g) \<and>
     set (encodable_field_names g) \<inter> set (non_encodable_field_names g) = {} \<and>
     distinct (encodable_field_names g) \<and>
     length (cache_types g) = length (encodable_field_names g) \<and>
     length (cache_sizes g) = length (encodable_field_names g)"

lemma derive_field_names_ok:
  assumes "derive_field f g = Some g'" "names_ok g" "\<And>n. fld_ident f = Some n \<Longrightarrow> n \<notin> set (field_names g)"
  shows "names_ok g'"
  using assms(1)
proof (rule derive_field_Some)
  fix name
  assume "fld_ident f = Some name" "field_names g' = field_names g @ [name]"
    "fld_unicache f = None \<Longrightarrow> cache_type g' = cache_type g \<and> cache_types g' = cache_types g \<and>
       cache_sizes g' = cache_sizes g \<and> encodable_field_names g' = encodable_field_names g \<and>
       non_encodable_field_names g' = non_encodable_field_names g @ [name]"
    "\<And>attr. fld_unicache f = Some attr \<Longrightarrow> \<exists>k csz.
       k = (case meta_cache attr of Some k \<Rightarrow> k | None \<Rightarrow> (case cache_type g of Some k \<Rightarrow> k | None \<Rightarrow> LRUniCache)) \<and>
       cache_type g' = Some k \<and> cache_types g' = cache_types g @ [k] \<and>
       cache_sizes g' = cache_sizes g @ [csz] \<and>
       encodable_field_names g' = encodable_field_names g @ [name] \<and>
       non_encodable_field_names g' = non_encodable_field_names g"
  then show ?thesis using assms(2,3) by (cases "fld_unicache f") (auto simp: names_ok_def)
qed

lemma derive_names_ok:
  "for_each derive_field fs g = Some g' \<Longrightarrow> names_ok g \<Longrightarrow> distinct (map fld_ident fs) \<Longrightarrow>
    (\<And>f n. f \<in> set fs \<Longrightarrow> fld_ident f = Some n \<Longrightarrow> n \<notin> set (field_names g)) \<Longrightarrow> names_ok g'"
proof (induction fs arbitrary: g)
  case (Cons f fs)
  then obtain g1 where g1: "derive_field f g = Some g1" "for_each derive_field fs g1 = Some g'" by auto
  have "names_ok g1" by (rule derive_field_names_ok [OF g1(1)]) (use Cons.prems in auto)
  moreover have "n \<notin> set (field_names g1)" if "f' \<in> set fs" "fld_ident f' = Some n" for f' n
    using g1(1)
  proof (rule derive_field_Some)
    fix name assume "fld_ident f = Some name" "field_names g1 = field_names g @ [name]"
    then show ?thesis using Cons.prems(3,4) that by (auto simp: image_iff)
  qed
  ultimately show ?case using Cons.IH [OF g1(2)] Cons.prems(3) by auto
qed simp

lemma derived_names_ok:
  "unicache_entry_derive (Struct fs) = Some g \<Longrightarrow> distinct (map fld_ident fs) \<Longrightarrow> names_ok g"
  using derive_names_ok [of fs derived_empty g]
  by (simp add: unicache_entry_derive_def names_ok_def derived_empty_def)

subsection \<open>Entries come back\<close>

definition caches_in_step :: "('fc \<Rightarrow> 'fc \<Rightarrow> bool) \<Rightarrow> string set \<Rightarrow> (string \<rightharpoonup> 'fc) \<Rightarrow> (string \<rightharpoonup> 'fc) \<Rightarrow> bool" where
  "caches_in_step R ns E D \<longleftrightarrow> (\<forall>n \<in> ns. \<exists>c d. E n = Some c \<and> D n = Some d \<and> R c d)"

lemma caches_in_step_upd:
  "caches_in_step R ns E D \<Longrightarrow> R c d \<Longrightarrow> caches_in_step R ns (E(n \<mapsto> c)) (D(n \<mapsto> d))"
  by (auto simp: caches_in_step_def)

lemma fields_come_back:
  assumes step: "keeps_step R enc dec" and "distinct ns" and "set ns \<subseteq> ds" and "caches_in_step R ds E D"
    and "\<forall>n \<in> set ns. entry n \<noteq> None"
  shows "\<exists>ms E'. encode_fields enc ns entry E = Some (ms, E') \<and> dom ms = set ns \<and>
    (\<forall>vars. (\<forall>n \<in> set ns. vars n = map_option MaybeField (ms n)) \<longrightarrow>
      (\<exists>D'. decode_fields dec ns vars D = Some (entry |` set ns, D') \<and> caches_in_step R ds E' D'))"
  using assms(2-)
proof (induction ns arbitrary: E D)
  case Nil
  then show ?case by (auto simp: restrict_map_def)
next
  case (Cons n ns)
  obtain v where v: "entry n = Some v" using Cons.prems(4) by auto
  obtain c d where cd: "E n = Some c" "D n = Some d" "R c d"
    using Cons.prems(2,3) by (auto simp: caches_in_step_def)
  obtain m c' d' where m: "enc v c = Some (m, c')" "dec m d = Some (v, d')" "R c' d'"
    using keeps_stepD [OF step cd(3)] by blast
  have step: "caches_in_step R ds (E(n \<mapsto> c')) (D(n \<mapsto> d'))"
    by (rule caches_in_step_upd [OF Cons.prems(3) m(3)])
  have rest: "distinct ns" "set ns \<subseteq> ds" "\<forall>j \<in> set ns. entry j \<noteq> None" using Cons.prems by simp_all
  obtain ms E' where ih: "encode_fields enc ns entry (E(n \<mapsto> c')) = Some (ms, E')" "dom ms = set ns"
    "\<And>vars. (\<forall>n \<in> set ns. vars n = map_option MaybeField (ms n)) \<Longrightarrow>
      (\<exists>D'. decode_fields dec ns vars (D(n \<mapsto> d')) = Some (entry |` set ns, D') \<and> caches_in_step R ds E' D')"
    using Cons.IH [OF rest(1,2) step rest(3)] by blast
  have fresh: "n \<notin> set ns" using Cons.prems(1) by simp
  have enc: "encode_fields enc (n # ns) entry E = Some (ms(n \<mapsto> m), E')"
    using v cd m ih(1) fresh by simp
  show ?case
  proof (rule exI [of _ "ms(n \<mapsto> m)"], rule exI [of _ E'], rule conjI [OF enc], rule conjI)
    show "dom (ms(n \<mapsto> m)) = set (n # ns)" using ih(2) by auto
    show "\<forall>vars. (\<forall>j \<in> set (n # ns). vars j = map_option MaybeField ((ms(n \<mapsto> m)) j)) \<longrightarrow>
      (\<exists>D'. decode_fields dec (n # ns) vars D = Some (entry |` set (n # ns), D') \<and> caches_in_step R ds E' D')"
    proof (intro allI impI)
      fix vars
      assume vars: "\<forall>j \<in> set (n # ns). vars j = map_option MaybeField ((ms(n \<mapsto> m)) j)"
      then have "\<forall>j \<in> set ns. vars j = map_option MaybeField (ms j)" using fresh by auto
      from ih(3) [OF this] obtain D' where D':
        "decode_fields dec ns vars (D(n \<mapsto> d')) = Some (entry |` set ns, D')" "caches_in_step R ds E' D'"
        by blast
      have "(entry |` set ns)(n \<mapsto> v) = entry |` set (n # ns)"
        using v by (auto simp: fun_eq_iff restrict_map_def)
      then show "\<exists>D'. decode_fields dec (n # ns) vars D = Some (entry |` set (n # ns), D') \<and>
          caches_in_step R ds E' D'"
        using vars cd m D' by auto
    qed
  qed
qed

lemma tuple_of_total:
  assumes "\<And>n. n \<in> set ns \<Longrightarrow> ms n = None \<Longrightarrow> entry n \<noteq> None" and "distinct ns"
  shows "\<exists>t. tuple_of ns ms entry = Some t \<and> length t = length ns \<and> (\<forall>n \<in> set ns. map_of (zip ns t) n =
      (case ms n of Some m \<Rightarrow> Some (MaybeField m) | None \<Rightarrow> map_option PlainField (entry n)))"
  using assms
proof (induction ns)
  case (Cons n ns)
  obtain t where "tuple_of ns ms entry = Some t" "length t = length ns"
    "\<forall>n \<in> set ns. map_of (zip ns t) n =
      (case ms n of Some m \<Rightarrow> Some (MaybeField m) | None \<Rightarrow> map_option PlainField (entry n))"
    using Cons by auto
  moreover obtain x where
    "(case ms n of Some m \<Rightarrow> Some (MaybeField m) | None \<Rightarrow> map_option PlainField (entry n)) = Some x"
    using Cons.prems(1) [of n] by (cases "ms n") auto
  ultimately show ?case using Cons.prems(2) by (intro exI [of _ "x # t"]) auto
qed simp

lemma plain_fields_entry:
  "(\<forall>n \<in> set ns. vars n = map_option PlainField (entry n) \<and> entry n \<noteq> None) \<Longrightarrow>
    plain_fields ns vars = Some (entry |` set ns)"
proof (induction ns)
  case (Cons n ns)
  then obtain v where v: "entry n = Some v" by auto
  then have "(entry |` set ns)(n \<mapsto> v) = entry |` set (n # ns)"
    by (auto simp: fun_eq_iff restrict_map_def)
  then show ?case using Cons v by simp
qed (simp add: restrict_map_def)

lemma entry_comes_back:
  assumes step: "keeps_step R enc dec" and ok: "names_ok g"
    and caches: "caches_in_step R (set (encodable_field_names g)) E D"
    and entry: "dom entry = set (field_names g)"
  shows "\<exists>t E' D'. generated_try_encode enc g entry E = Some (t, E') \<and>
    generated_decode dec g t D = Some (entry, D') \<and> caches_in_step R (set (encodable_field_names g)) E' D'"
proof -
  let ?ns = "encodable_field_names g" and ?ps = "non_encodable_field_names g"
  have names: "distinct (field_names g)" "set (field_names g) = set ?ns \<union> set ?ps"
    "set ?ns \<inter> set ?ps = {}" "distinct ?ns" using ok by (simp_all add: names_ok_def)
  have full: "\<forall>n \<in> set ?ns. entry n \<noteq> None" "\<forall>n \<in> set ?ps. entry n \<noteq> None"
    using entry names(2) by auto
  obtain ms E' where ms: "encode_fields enc ?ns entry E = Some (ms, E')" "dom ms = set ?ns"
    "\<And>vars. (\<forall>n \<in> set ?ns. vars n = map_option MaybeField (ms n)) \<Longrightarrow>
      (\<exists>D'. decode_fields dec ?ns vars D = Some (entry |` set ?ns, D') \<and> caches_in_step R (set ?ns) E' D')"
    using fields_come_back [OF step names(4) subset_refl caches full(1)] by blast
  have "\<exists>t. tuple_of (field_names g) ms entry = Some t \<and> length t = length (field_names g) \<and>
    (\<forall>n \<in> set (field_names g). map_of (zip (field_names g) t) n =
      (case ms n of Some m \<Rightarrow> Some (MaybeField m) | None \<Rightarrow> map_option PlainField (entry n)))"
    by (rule tuple_of_total) (use entry names in auto)
  then obtain t where t: "tuple_of (field_names g) ms entry = Some t"
    "\<forall>n \<in> set (field_names g). map_of (zip (field_names g) t) n =
      (case ms n of Some m \<Rightarrow> Some (MaybeField m) | None \<Rightarrow> map_option PlainField (entry n))"
    by blast
  let ?vars = "map_of (zip (field_names g) t)"
  have "\<forall>n \<in> set ?ns. ?vars n = map_option MaybeField (ms n)"
  proof
    fix n assume n: "n \<in> set ?ns"
    then obtain m where "ms n = Some m" using ms(2) by auto
    then show "?vars n = map_option MaybeField (ms n)" using t(2) names(2) n by simp
  qed
  from ms(3) [OF this] obtain D' where D': "decode_fields dec ?ns ?vars D = Some (entry |` set ?ns, D')"
    "caches_in_step R (set ?ns) E' D'" by blast
  have "ms n = None" if "n \<in> set ?ps" for n using that ms(2) names(3) by (metis disjoint_iff domIff)
  then have "\<forall>n \<in> set ?ps. ?vars n = map_option PlainField (entry n) \<and> entry n \<noteq> None"
    using t(2) names(2) full(2) by simp
  then have plain: "plain_fields ?ps ?vars = Some (entry |` set ?ps)" by (rule plain_fields_entry)
  have "(entry |` set ?ns) ++ (entry |` set ?ps) = entry"
  proof
    fix n
    show "((entry |` set ?ns) ++ (entry |` set ?ps)) n = entry n"
      using entry names(2) by (cases "entry n") (auto simp: map_add_def restrict_map_def split: option.split)
  qed
  then have "generated_decode dec g t D = Some (entry, D')"
    using D'(1) plain by (simp add: generated_decode_def)
  moreover have "generated_try_encode enc g entry E = Some (t, E')"
    using ms(1) t(1) by (simp add: generated_try_encode_def)
  ultimately show ?thesis using D'(2) by blast
qed

subsection \<open>The two kinds of field caches\<close>

datatype ('lru, 'lfu) field_cache = LruField 'lru | LfuField 'lfu

record ('a, 'c, 'le, 'ld, 'se, 'sd) cache_ops =
  co_lru_encoder :: "('a, 'c, 'le) lru_ops"
  co_lru_decoder :: "('c, 'a, 'ld) lru_ops"
  co_set_encoder :: "('a, 'se) lhs_ops"
  co_set_decoder :: "('c, 'sd) lhs_ops"
  co_encoded :: "'c encoded_ops"

type_synonym ('a, 'c, 'le, 'ld, 'se, 'sd) any_cache =
  "(('le, 'ld, 'c) lru_unicache, ('a, 'c, 'se, 'sd) lfu_unicache) field_cache"

definition field_new :: "('a, 'c, 'le, 'ld, 'se, 'sd) cache_ops \<Rightarrow> cache_kind \<Rightarrow> nat \<Rightarrow>
    ('a, 'c, 'le, 'ld, 'se, 'sd) any_cache option" where
  "field_new co kind sz =
     (case kind of
        LRUniCache \<Rightarrow> map_option LruField
          (lru_unicache_new (co_lru_encoder co) (co_lru_decoder co) (co_encoded co) sz)
      | LFUniCache \<Rightarrow> map_option LfuField (lfu_unicache_new (co_encoded co) sz))"

definition field_encode :: "('a, 'c, 'le, 'ld, 'se, 'sd) cache_ops \<Rightarrow> 'a \<Rightarrow>
    ('a, 'c, 'le, 'ld, 'se, 'sd) any_cache \<Rightarrow>
    (('a, 'c) maybe_encoded \<times> ('a, 'c, 'le, 'ld, 'se, 'sd) any_cache) option" where
  "field_encode co v c =
     (case c of
        LruField l \<Rightarrow> map_option (map_prod id LruField) (lru_try_encode (co_lru_encoder co) (co_encoded co) v l)
      | LfuField l \<Rightarrow> map_option (map_prod id LfuField) (lfu_try_encode (co_set_encoder co) (co_encoded co) v l))"

definition field_decode :: "('a, 'c, 'le, 'ld, 'se, 'sd) cache_ops \<Rightarrow> ('a, 'c) maybe_encoded \<Rightarrow>
    ('a, 'c, 'le, 'ld, 'se, 'sd) any_cache \<Rightarrow> ('a \<times> ('a, 'c, 'le, 'ld, 'se, 'sd) any_cache) option" where
  "field_decode co m c =
     (case c of
        LruField l \<Rightarrow> map_option (map_prod id LruField) (lru_decode (co_lru_decoder co) (co_encoded co) m l)
      | LfuField l \<Rightarrow> map_option (map_prod id LfuField) (lfu_decode (co_set_decoder co) (co_encoded co) m l))"

definition cache_laws :: "('a, 'c, 'le, 'ld, 'se, 'sd) cache_ops \<Rightarrow> bool" where
  "cache_laws co \<longleftrightarrow> lru_laws (co_lru_encoder co) \<and> lru_laws (co_lru_decoder co) \<and>
     lhs_laws (co_set_encoder co) \<and> lhs_laws (co_set_decoder co)"

definition field_in_step :: "('a, 'c, 'le, 'ld, 'se, 'sd) cache_ops \<Rightarrow>
    ('a, 'c, 'le, 'ld, 'se, 'sd) any_cache \<Rightarrow> ('a, 'c, 'le, 'ld, 'se, 'sd) any_cache \<Rightarrow> bool" where
  "field_in_step co c d \<longleftrightarrow> (\<exists>sz. encodings_fresh (co_encoded co) sz \<and>
     (case (c, d) of
        (LruField e, LruField f) \<Rightarrow> lru_in_step (co_lru_encoder co) (co_lru_decoder co) (co_encoded co) sz e f
      | (LfuField e, LfuField f) \<Rightarrow> lfu_in_step (co_set_encoder co) (co_set_decoder co) (co_encoded co) sz e f
      | _ \<Rightarrow> False))"

lemma field_keeps_step:
  assumes "cache_laws co"
  shows "keeps_step (field_in_step co) (field_encode co) (field_decode co)"
  unfolding keeps_step_def
proof (intro allI impI)
  fix c d x
  assume "field_in_step co c d"
  then obtain sz where fresh: "encodings_fresh (co_encoded co) sz" and rel:
     "case (c, d) of
        (LruField e, LruField f) \<Rightarrow> lru_in_step (co_lru_encoder co) (co_lru_decoder co) (co_encoded co) sz e f
      | (LfuField e, LfuField f) \<Rightarrow> lfu_in_step (co_set_encoder co) (co_set_decoder co) (co_encoded co) sz e f
      | _ \<Rightarrow> False"
    by (auto simp: field_in_step_def)
  consider e f where "c = LruField e" "d = LruField f"
      "lru_in_step (co_lru_encoder co) (co_lru_decoder co) (co_encoded co) sz e f"
    | e f where "c = LfuField e" "d = LfuField f"
      "lfu_in_step (co_set_encoder co) (co_set_decoder co) (co_encoded co) sz e f"
    using rel by (auto split: field_cache.splits)
  then show "\<exists>m c' d'. field_encode co x c = Some (m, c') \<and> field_decode co m d = Some (x, d') \<and>
      field_in_step co c' d'"
  proof cases
    case 1
    then obtain m e' f' where
      "lru_try_encode (co_lru_encoder co) (co_encoded co) x e = Some (m, e')"
      "lru_decode (co_lru_decoder co) (co_encoded co) m f = Some (x, f')"
      "lru_in_step (co_lru_encoder co) (co_lru_decoder co) (co_encoded co) sz e' f'"
      using keeps_stepD [OF lru_keeps_step [OF _ _ fresh]] assms by (metis cache_laws_def)
    then show ?thesis using 1(1,2) fresh
      by (intro exI [of _ m] exI [of _ "LruField e'"] exI [of _ "LruField f'"])
        (auto simp: field_encode_def field_decode_def field_in_step_def)
  next
    case 2
    then obtain m e' f' where
      "lfu_try_encode (co_set_encoder co) (co_encoded co) x e = Some (m, e')"
      "lfu_decode (co_set_decoder co) (co_encoded co) m f = Some (x, f')"
      "lfu_in_step (co_set_encoder co) (co_set_decoder co) (co_encoded co) sz e' f'"
      using keeps_stepD [OF lfu_keeps_step [OF _ _ fresh]] assms by (metis cache_laws_def)
    then show ?thesis using 2(1,2) fresh
      by (intro exI [of _ m] exI [of _ "LfuField e'"] exI [of _ "LfuField f'"])
        (auto simp: field_encode_def field_decode_def field_in_step_def)
  qed
qed

lemma field_new_in_step:
  assumes "cache_laws co" "encodings_fresh (co_encoded co) sz" "0 < sz"
  shows "\<exists>c. field_new co kind sz = Some c \<and> field_in_step co c c"
proof (cases kind)
  case LRUniCache
  obtain e where e: "lru_unicache_new (co_lru_encoder co) (co_lru_decoder co) (co_encoded co) sz = Some e"
    using assms(3) by (simp add: lru_unicache_new_def)
  from lru_new_in_step [OF _ _ e] show ?thesis using assms LRUniCache e
    by (auto simp: field_new_def field_in_step_def cache_laws_def)
next
  case LFUniCache
  let ?e = "\<lparr>lfu_cache_encoder = empty_lfu sz, lfu_cache_decoder = empty_lfu sz,
    lfu_encoding = enc_default (co_encoded co), lfu_size = sz\<rparr>"
  have new: "lfu_unicache_new (co_encoded co) sz = Some ?e"
    using assms(3) by (simp add: lfu_unicache_new_def with_capacity_def)
  show ?thesis
  proof (intro exI conjI)
    show "field_new co kind sz = Some (LfuField ?e)" using new LFUniCache by (simp add: field_new_def)
    show "field_in_step co (LfuField ?e) (LfuField ?e)"
      using lfu_new_in_step [OF new] assms(2) by (auto simp: field_in_step_def)
  qed
qed

subsection \<open>Sequences of entries\<close>

lemma new_fields_in_step:
  assumes "\<And>n k s. (n, k, s) \<in> set xs \<Longrightarrow> \<exists>c. mk k (size_of_cache s) = Some c \<and> R c c"
    and "caches_in_step R ns m m"
  shows "\<exists>caches. for_each (insert_cache mk) xs m = Some caches \<and> caches_in_step R (ns \<union> fst ` set xs) caches caches"
  using assms
proof (induction xs arbitrary: ns m)
  case (Cons x xs)
  obtain n k s where x: "x = (n, k, s)" by (cases x)
  then obtain c where c: "mk k (size_of_cache s) = Some c" "R c c" using Cons.prems(1) [of n k s] by auto
  have step: "insert_cache mk x m = Some (m(n \<mapsto> c))" using x c(1) by (simp add: insert_cache_def)
  have "caches_in_step R (insert n ns) (m(n \<mapsto> c)) (m(n \<mapsto> c))"
    using Cons.prems(2) c(2) by (auto simp: caches_in_step_def)
  moreover have "\<exists>c. mk k (size_of_cache s) = Some c \<and> R c c" if "(n, k, s) \<in> set xs" for n k s
    using that Cons.prems(1) by auto
  ultimately obtain caches where "for_each (insert_cache mk) xs (m(n \<mapsto> c)) = Some caches"
    "caches_in_step R (insert n ns \<union> fst ` set xs) caches caches"
    using Cons.IH by blast
  then show ?case using x step by (intro exI [of _ caches]) auto
qed simp

lemma generated_new_in_step:
  assumes co: "cache_laws co" and ok: "names_ok g"
    and sizes: "\<And>s. s \<in> set (cache_sizes g) \<Longrightarrow> 0 < size_of_cache s \<and> encodings_fresh (co_encoded co) (size_of_cache s)"
  obtains caches where "generated_new (field_new co) g = Some caches"
    "caches_in_step (field_in_step co) (set (encodable_field_names g)) caches caches"
proof -
  let ?xs = "zip (encodable_field_names g) (zip (cache_types g) (cache_sizes g))"
  have new: "\<exists>c. field_new co k (size_of_cache s) = Some c \<and> field_in_step co c c"
    if "(n, k, s) \<in> set ?xs" for n k s
    using that sizes [of s] field_new_in_step [OF co] by (auto dest!: set_zip_rightD)
  have names: "fst ` set ?xs = set (encodable_field_names g)"
    using ok by (simp add: names_ok_def flip: set_map)
  have "generated_new (field_new co) g = for_each (insert_cache (field_new co)) ?xs Map.empty"
    by (simp add: generated_new_def)
  moreover have "caches_in_step (field_in_step co) {} Map.empty Map.empty" by (simp add: caches_in_step_def)
  ultimately show thesis
    using new_fields_in_step [of ?xs "field_new co" "field_in_step co" "{}" Map.empty] new names that by auto
qed

lemma entries_come_back:
  assumes step: "keeps_step R enc dec" and ok: "names_ok g"
    and caches: "caches_in_step R (set (encodable_field_names g)) E D"
    and entries: "\<forall>entry \<in> set es. dom entry = set (field_names g)"
  shows "\<exists>ts E' D'. map_state (generated_try_encode enc g) es E = Some (ts, E') \<and>
    map_state (generated_decode dec g) ts D = Some (es, D') \<and>
    caches_in_step R (set (encodable_field_names g)) E' D'"
  using caches entries
proof (induction es arbitrary: E D)
  case (Cons entry es)
  obtain t E1 D1 where 1: "generated_try_encode enc g entry E = Some (t, E1)"
    "generated_decode dec g t D = Some (entry, D1)" "caches_in_step R (set (encodable_field_names g)) E1 D1"
    using entry_comes_back [OF step ok Cons.prems(1), of entry] Cons.prems(2) by auto
  obtain ts E2 D2 where "map_state (generated_try_encode enc g) es E1 = Some (ts, E2)"
    "map_state (generated_decode dec g) ts D1 = Some (es, D2)"
    "caches_in_step R (set (encodable_field_names g)) E2 D2"
    using Cons.IH [OF 1(3)] Cons.prems(2) by auto
  with 1 show ?case by (intro exI [of _ "t # ts"] exI [of _ E2] exI [of _ D2]) simp
qed simp

end
