(* ===== verification/Dom_Hash.thy ===== *)
theory Dom_Hash
  imports Prelude
begin

text \<open>
  The 64-bit hashes of the fast path (\<^verbatim>\<open>util.rs\<close>, \<^verbatim>\<open>DOMHash\<close>): exclusive-or chains over the
  hashes of log entries. The interface \<open>hash_chain\<close> holds the algebra the protocol relies
  on; it is interpreted on the code's exclusive or.
\<close>

type_synonym dom_hash = u64

definition default_hash :: dom_hash where
  "default_hash = 0"

definition extend_hash :: "dom_hash \<Rightarrow> dom_hash \<Rightarrow> dom_hash" where
  "extend_hash self other = self XOR other"

definition remove_hash :: "dom_hash \<Rightarrow> dom_hash \<Rightarrow> dom_hash" where
  "remove_hash self other = extend_hash self other"

definition hash_of_list :: "dom_hash list \<Rightarrow> dom_hash" where
  "hash_of_list hs = foldl extend_hash default_hash hs"

locale hash_chain =
  fixes extend :: "'h \<Rightarrow> 'h \<Rightarrow> 'h" and zero :: 'h
  assumes extend_assoc: "extend (extend a b) c = extend a (extend b c)"
    and extend_comm: "extend a b = extend b a"
    and extend_zero: "extend zero a = a"
    and extend_self: "extend a a = zero"
begin

lemma extend_zero_right: "extend a zero = a"
  using extend_comm extend_zero by simp

lemma extend_cancel: "extend (extend a b) b = a"
  by (simp add: extend_assoc extend_self extend_zero_right)

lemma extend_inject: "extend a b = extend a c \<longleftrightarrow> b = c"
  by (metis extend_cancel extend_comm)

lemma extend_left_comm: "extend a (extend b c) = extend b (extend a c)"
  by (metis extend_assoc extend_comm)

lemma chain_start: "foldl extend a hs = extend a (foldl extend zero hs)"
proof (induction hs arbitrary: a)
  case Nil
  then show ?case by (simp add: extend_zero_right)
next
  case (Cons h hs)
  have "foldl extend (extend a h) hs = extend a (extend h (foldl extend zero hs))"
    using Cons [of "extend a h"] by (simp add: extend_assoc)
  also have "extend h (foldl extend zero hs) = foldl extend (extend zero h) hs"
    using Cons [of h] by (simp add: extend_zero)
  finally show ?case by simp
qed

lemma chain_append: "foldl extend zero (xs @ ys) = extend (foldl extend zero xs) (foldl extend zero ys)"
  using chain_start [of "foldl extend zero xs" ys] by simp

lemma chain_Cons: "foldl extend zero (x # xs) = extend x (foldl extend zero xs)"
  using chain_start [of x xs] by (simp add: extend_zero)

lemma chain_perm: "mset xs = mset ys \<Longrightarrow> foldl extend zero xs = foldl extend zero ys"
proof (induction xs arbitrary: ys)
  case Nil
  then show ?case by simp
next
  case (Cons x xs)
  then have "x \<in> set ys" by (metis list.set_intros(1) set_mset_mset)
  then obtain as bs where ys: "ys = as @ x # bs" by (meson split_list)
  with Cons.prems have "mset xs = mset (as @ bs)" by simp
  then have "foldl extend zero xs = foldl extend zero (as @ bs)" by (rule Cons.IH)
  then show ?case
    unfolding ys chain_Cons chain_append by (simp add: extend_left_comm)
qed

end

interpretation dom_xor: hash_chain extend_hash default_hash
  by unfold_locales
    (simp_all add: extend_hash_def default_hash_def ac_simps)

lemma extend_hash_default [simp]: "extend_hash default_hash h = h" "extend_hash h default_hash = h"
  by (rule dom_xor.extend_zero, rule dom_xor.extend_zero_right)

lemma hash_of_list_Nil [simp]: "hash_of_list [] = default_hash"
  by (simp add: hash_of_list_def)

lemma hash_of_list_Cons: "hash_of_list (h # hs) = extend_hash h (hash_of_list hs)"
  unfolding hash_of_list_def by (rule dom_xor.chain_Cons)

lemma hash_of_list_append: "hash_of_list (xs @ ys) = extend_hash (hash_of_list xs) (hash_of_list ys)"
  unfolding hash_of_list_def by (rule dom_xor.chain_append)

lemma hash_of_list_snoc: "hash_of_list (xs @ [h]) = extend_hash (hash_of_list xs) h"
  by (simp add: hash_of_list_append hash_of_list_Cons)

end
