(* ===== verification/Ballots.thy ===== *)
theory Ballots
  imports Prelude
begin

text \<open>
  Ballots (\<^verbatim>\<open>ballot_leader_election.rs\<close>, \<^verbatim>\<open>Ballot\<close> and its \<^verbatim>\<open>Ord\<close>), client entry ids and
  sequence numbers (\<^verbatim>\<open>messages.rs\<close>, \<^verbatim>\<open>util.rs\<close>). The order of ballots ignores the
  configuration id while equality does not, so ballots form a total preorder and no
  linear order; entry ids and sequence numbers are linearly ordered.
\<close>

subsection \<open>Ballots\<close>

datatype ballot = Ballot
  (ballot_config_id: u32) (ballot_n: u32) (ballot_priority: u32) (ballot_pid: node_id)

definition default_ballot :: ballot where
  "default_ballot = Ballot 0 0 0 0"

text \<open>\<^verbatim>\<open>impl Ord for Ballot\<close>: lexicographic in \<^verbatim>\<open>n\<close>, \<^verbatim>\<open>priority\<close>, \<^verbatim>\<open>pid\<close>.\<close>

definition ballot_cmp :: "ballot \<Rightarrow> ballot \<Rightarrow> ordering" where
  "ballot_cmp a b =
     then_cmp (cmp (ballot_n a) (ballot_n b))
       (then_cmp (cmp (ballot_priority a) (ballot_priority b))
         (cmp (ballot_pid a) (ballot_pid b)))"

lemma ballot_cmp_Less:
  "ballot_cmp a b = Less \<longleftrightarrow>
     ballot_n a < ballot_n b \<or> ballot_n a = ballot_n b \<and>
       (ballot_priority a < ballot_priority b \<or> ballot_priority a = ballot_priority b \<and>
         ballot_pid a < ballot_pid b)"
  by (auto simp: ballot_cmp_def then_cmp_def cmp_def)

lemma ballot_cmp_Greater: "ballot_cmp a b = Greater \<longleftrightarrow> ballot_cmp b a = Less"
  by (auto simp: ballot_cmp_def then_cmp_def cmp_def)

lemma ballot_cmp_Equal:
  "ballot_cmp a b = Equal \<longleftrightarrow>
     ballot_n a = ballot_n b \<and> ballot_priority a = ballot_priority b \<and> ballot_pid a = ballot_pid b"
  by (auto simp: ballot_cmp_def then_cmp_def cmp_def)

lemma ballot_cmp_not_Greater:
  "ballot_cmp a b \<noteq> Greater \<longleftrightarrow> ballot_cmp a b = Less \<or> ballot_cmp a b = Equal"
  by (cases "ballot_cmp a b") auto

lemma ballot_cmp_trans_Less:
  "ballot_cmp a b = Less \<Longrightarrow> ballot_cmp b c \<noteq> Greater \<Longrightarrow> ballot_cmp a c = Less"
  by (auto simp: ballot_cmp_not_Greater ballot_cmp_Less ballot_cmp_Equal)

lemma ballot_cmp_trans:
  "ballot_cmp a b \<noteq> Greater \<Longrightarrow> ballot_cmp b c \<noteq> Greater \<Longrightarrow> ballot_cmp a c \<noteq> Greater"
  by (auto simp: ballot_cmp_not_Greater ballot_cmp_Less ballot_cmp_Equal)

instantiation ballot :: preorder
begin

definition less_eq_ballot :: "ballot \<Rightarrow> ballot \<Rightarrow> bool" where
  "less_eq_ballot a b \<longleftrightarrow> ballot_cmp a b \<noteq> Greater"

definition less_ballot :: "ballot \<Rightarrow> ballot \<Rightarrow> bool" where
  "less_ballot a b \<longleftrightarrow> ballot_cmp a b = Less"

instance
proof
  fix a b c :: ballot
  show "a < b \<longleftrightarrow> a \<le> b \<and> \<not> b \<le> a"
    by (auto simp: less_eq_ballot_def less_ballot_def ballot_cmp_Greater ballot_cmp_Less)
  show "a \<le> a"
    by (simp add: less_eq_ballot_def ballot_cmp_Greater ballot_cmp_Less)
  show "a \<le> b \<Longrightarrow> b \<le> c \<Longrightarrow> a \<le> c"
    unfolding less_eq_ballot_def by (rule ballot_cmp_trans)
qed

end

lemma ballot_not_less [simp]: "\<not> a < b \<longleftrightarrow> b \<le> (a :: ballot)"
  unfolding less_ballot_def less_eq_ballot_def using ballot_cmp_Greater [of b a] by simp

lemma ballot_not_le [simp]: "\<not> a \<le> b \<longleftrightarrow> b < (a :: ballot)"
  by (simp add: less_ballot_def less_eq_ballot_def ballot_cmp_Greater)

lemma ballot_linear: "a \<le> b \<or> b \<le> (a :: ballot)"
  by (meson ballot_not_le less_le_not_le)

lemma ballot_less_n: "ballot_n a < ballot_n b \<Longrightarrow> a < b"
  by (simp add: less_ballot_def ballot_cmp_Less)

lemma ballot_cmp_le: "ballot_cmp a b = Equal \<Longrightarrow> a \<le> b \<and> b \<le> a"
  by (auto simp: less_eq_ballot_def ballot_cmp_Greater ballot_cmp_Less ballot_cmp_Equal)

lemma ballot_le_cases: "a \<le> b \<Longrightarrow> ballot_cmp a b = Less \<or> ballot_cmp a b = Equal"
  by (simp add: less_eq_ballot_def ballot_cmp_not_Greater)

text \<open>\<^const>\<open>iter_max\<close> over ballots is an upper bound taken from the list.\<close>

lemma fold_max_ballot:
  fixes x :: ballot and xs :: "ballot list"
  defines "m \<equiv> fold (\<lambda>y m. if y < m then m else y) xs x"
  shows "m \<in> insert x (set xs)" and "\<And>y. y \<in> insert x (set xs) \<Longrightarrow> y \<le> m"
proof -
  have "m \<in> insert x (set xs) \<and> (\<forall>y \<in> insert x (set xs). y \<le> m)"
    unfolding m_def
  proof (induction xs arbitrary: x)
    case Nil
    then show ?case by simp
  next
    case (Cons z zs)
    define s where "s = (if z < x then x else z)"
    have s: "s \<in> {x, z}" "x \<le> s" "z \<le> s"
      unfolding s_def by (cases "z < x"; auto intro: less_imp_le)+
    have step: "fold (\<lambda>y m. if y < m then m else y) (z # zs) x
        = fold (\<lambda>y m. if y < m then m else y) zs s"
      by (simp add: s_def)
    show ?case unfolding step using Cons.IH [of s] s by (auto intro: order_trans)
  qed
  then show "m \<in> insert x (set xs)" and "\<And>y. y \<in> insert x (set xs) \<Longrightarrow> y \<le> m" by auto
qed

lemma iter_max_ballot:
  fixes m :: ballot
  shows "iter_max xs = Some m \<Longrightarrow> m \<in> set xs \<and> (\<forall>y \<in> set xs. y \<le> m)"
proof (cases xs)
  case (Cons x ys)
  assume "iter_max xs = Some m"
  then have "m = fold (\<lambda>y m. if y < m then m else y) ys x" using Cons by simp
  then show ?thesis using fold_max_ballot(1) [of ys x] fold_max_ballot(2) [where x = x and xs = ys] Cons by simp
qed simp

lemma iter_max_None [simp]: "iter_max xs = None \<longleftrightarrow> xs = []"
  by (cases xs) auto

subsection \<open>Entry ids\<close>

datatype entry_id = EntryId (client_id: node_id) (command_id: nat)

instantiation entry_id :: linorder
begin

definition less_eq_entry_id :: "entry_id \<Rightarrow> entry_id \<Rightarrow> bool" where
  "less_eq_entry_id a b \<longleftrightarrow>
     client_id a < client_id b \<or> client_id a = client_id b \<and> command_id a \<le> command_id b"

definition less_entry_id :: "entry_id \<Rightarrow> entry_id \<Rightarrow> bool" where
  "less_entry_id a b \<longleftrightarrow>
     client_id a < client_id b \<or> client_id a = client_id b \<and> command_id a < command_id b"

instance
  by standard (auto simp: less_eq_entry_id_def less_entry_id_def entry_id.expand)

end

subsection \<open>Sequence numbers\<close>

text \<open>
  \<^verbatim>\<open>SequenceNumber\<close> orders the messages of a leader-to-follower session; its derived order
  is lexicographic.
\<close>

datatype sequence_number = SequenceNumber (session: nat) (counter: nat)

definition default_seq_num :: sequence_number where
  "default_seq_num = SequenceNumber 0 0"

instantiation sequence_number :: linorder
begin

definition less_eq_sequence_number :: "sequence_number \<Rightarrow> sequence_number \<Rightarrow> bool" where
  "less_eq_sequence_number a b \<longleftrightarrow>
     session a < session b \<or> session a = session b \<and> counter a \<le> counter b"

definition less_sequence_number :: "sequence_number \<Rightarrow> sequence_number \<Rightarrow> bool" where
  "less_sequence_number a b \<longleftrightarrow>
     session a < session b \<or> session a = session b \<and> counter a < counter b"

instance
  by standard (auto simp: less_eq_sequence_number_def less_sequence_number_def
      sequence_number.expand)

end

datatype message_status = Expected | DroppedPreceding | Outdated

text \<open>\<^verbatim>\<open>SequenceNumber::check_msg_status\<close>.\<close>

definition check_msg_status :: "sequence_number \<Rightarrow> sequence_number \<Rightarrow> message_status" where
  "check_msg_status self msg_seq_num =
     (if session msg_seq_num = session self \<and> counter msg_seq_num = counter self + 1 then Expected
      else if msg_seq_num \<le> self then Outdated
      else DroppedPreceding)"

lemma check_msg_status_Expected:
  "check_msg_status s m = Expected \<longleftrightarrow> m = SequenceNumber (session s) (Suc (counter s))"
  by (cases m) (auto simp: check_msg_status_def)

lemma check_msg_status_Outdated: "check_msg_status s m = Outdated \<longleftrightarrow> m \<le> s"
  by (auto simp: check_msg_status_def less_eq_sequence_number_def)

lemma check_msg_status_DroppedPreceding:
  "check_msg_status s m = DroppedPreceding \<longleftrightarrow>
     s < m \<and> m \<noteq> SequenceNumber (session s) (Suc (counter s))"
  by (cases "check_msg_status s m")
    (use check_msg_status_Expected [of s m] check_msg_status_Outdated [of s m] in auto)

end
