(* ===== verification/Quorums.thy ===== *)
theory Quorums
  imports Ballots
begin

text \<open>
  Cluster configurations and their validation (\<^verbatim>\<open>omni_paxos.rs\<close>, \<^verbatim>\<open>errors.rs\<close>), quorums
  (\<^verbatim>\<open>util.rs\<close>) and the fast-path thresholds of CA-OP (\<^verbatim>\<open>sequence_paxos/leader.rs\<close>). The
  interface \<open>quorum_system\<close> states what the protocol needs of the sizes: a prepare quorum
  meets every accept quorum, meets every fast quorum in at least the recovery threshold,
  and the nodes outside a fast quorum stay below that threshold. It is interpreted on the
  sizes the code computes for every configuration that \<^verbatim>\<open>validate\<close> accepts.
\<close>

subsection \<open>Configurations\<close>

datatype config_error = InvalidConfig string

record flexible_quorum =
  read_quorum_size :: nat
  write_quorum_size :: nat

record cluster_config =
  configuration_id :: u32
  nodes :: "node_id list"
  flexible_quorum :: "flexible_quorum option"

text \<open>\<^verbatim>\<open>valid_config!\<close>: the first failing check is the error returned.\<close>

definition valid_config :: "bool \<Rightarrow> string \<Rightarrow> config_error + 'a \<Rightarrow> config_error + 'a" where
  "valid_config p err rest = (if p then rest else Inl (InvalidConfig err))"

lemma valid_config_Inr [simp]: "valid_config p err r = Inr x \<longleftrightarrow> p \<and> r = Inr x"
  by (simp add: valid_config_def)

text \<open>\<^verbatim>\<open>usize\<close> addition with overflow checks.\<close>

definition usize_add :: "nat \<Rightarrow> nat \<Rightarrow> nat option" where
  "usize_add a b = (if a + b < 2 ^ 64 then Some (a + b) else None)"

lemma usize_add_Some [simp]: "usize_add a b = Some c \<longleftrightarrow> a + b < 2 ^ 64 \<and> c = a + b"
  by (auto simp: usize_add_def)

text \<open>\<^verbatim>\<open>ClusterConfig::validate\<close>; \<^term>\<open>None\<close> when the sum of the quorum sizes overflows.\<close>

definition cluster_config_validate :: "cluster_config \<Rightarrow> (config_error + unit) option" where
  "cluster_config_validate c =
     (let num_nodes = length (nodes c);
          fq = flexible_quorum c
      in if \<not> 1 < num_nodes then Some (Inl (InvalidConfig ''Need more than 1 node''))
         else if configuration_id c = 0
           then Some (Inl (InvalidConfig ''Configuration ID cannot be 0''))
         else case fq of
           None \<Rightarrow> Some (Inr ())
         | Some q \<Rightarrow> do {
             total \<leftarrow> usize_add (read_quorum_size q) (write_quorum_size q);
             Some (valid_config (num_nodes < total)
               ''The quorums must overlap i.e., the sum of their sizes must exceed the # of nodes''
              (valid_config (2 \<le> read_quorum_size q \<and> read_quorum_size q \<le> num_nodes)
               ''Read quorum must be in range 2 to # of nodes in the cluster''
              (valid_config (2 \<le> write_quorum_size q \<and> write_quorum_size q \<le> num_nodes)
               ''Write quorum must be in range 2 to # of nodes in the cluster''
              (valid_config (write_quorum_size q \<le> read_quorum_size q)
               ''Read quorum size must be >= the write quorum size.''
               (Inr ())))))
           })"

definition valid_cluster :: "cluster_config \<Rightarrow> bool" where
  "valid_cluster c \<longleftrightarrow> cluster_config_validate c = Some (Inr ())"

lemma valid_cluster_iff:
  "valid_cluster c \<longleftrightarrow> 1 < length (nodes c) \<and> configuration_id c \<noteq> 0 \<and>
     (\<forall>q. flexible_quorum c = Some q \<longrightarrow>
        read_quorum_size q + write_quorum_size q < 2 ^ 64 \<and>
        length (nodes c) < read_quorum_size q + write_quorum_size q \<and>
        2 \<le> read_quorum_size q \<and> read_quorum_size q \<le> length (nodes c) \<and>
        2 \<le> write_quorum_size q \<and> write_quorum_size q \<le> length (nodes c) \<and>
        write_quorum_size q \<le> read_quorum_size q)"
  by (cases "flexible_quorum c")
    (auto simp: valid_cluster_def cluster_config_validate_def Let_def split: if_splits)

text \<open>The peers of a server, from the configuration: its nodes without itself.\<close>

definition peers_of :: "cluster_config \<Rightarrow> node_id \<Rightarrow> node_id list" where
  "peers_of c pid = filter (\<lambda>x. x \<noteq> pid) (nodes c)"

definition num_nodes_of :: "node_id list \<Rightarrow> nat" where
  "num_nodes_of peers = length peers + 1"

subsection \<open>Quorums\<close>

datatype quorum = Majority nat | Flexible flexible_quorum

definition quorum_with :: "flexible_quorum option \<Rightarrow> nat \<Rightarrow> quorum" where
  "quorum_with cfg num_nodes =
     (case cfg of
        Some q \<Rightarrow> Flexible \<lparr>read_quorum_size = read_quorum_size q,
                            write_quorum_size = write_quorum_size q\<rparr>
      | None \<Rightarrow> Majority (num_nodes div 2 + 1))"

fun is_prepare_quorum :: "quorum \<Rightarrow> nat \<Rightarrow> bool" where
  "is_prepare_quorum (Majority majority) num_nodes \<longleftrightarrow> majority \<le> num_nodes"
| "is_prepare_quorum (Flexible q) num_nodes \<longleftrightarrow> read_quorum_size q \<le> num_nodes"

fun is_accept_quorum :: "quorum \<Rightarrow> nat \<Rightarrow> bool" where
  "is_accept_quorum (Majority majority) num_nodes \<longleftrightarrow> majority \<le> num_nodes"
| "is_accept_quorum (Flexible q) num_nodes \<longleftrightarrow> write_quorum_size q \<le> num_nodes"

lemma is_prepare_quorum_mono: "is_prepare_quorum q a \<Longrightarrow> a \<le> b \<Longrightarrow> is_prepare_quorum q b"
  by (cases q) auto

lemma is_accept_quorum_mono: "is_accept_quorum q a \<Longrightarrow> a \<le> b \<Longrightarrow> is_accept_quorum q b"
  by (cases q) auto

text \<open>
  The thresholds of the fast path, with \<open>f = num_nodes / 2\<close>: \<^verbatim>\<open>try_fast_decide_idx\<close> decides
  on \<open>f + ceil (f / 2) + 1\<close> votes, \<^verbatim>\<open>handle_majority_promises\<close> recovers an entry that
  \<open>ceil (f / 2) + 1\<close> promises report.
\<close>

definition fast_quorum :: "nat \<Rightarrow> nat" where
  "fast_quorum num_nodes = (let f = num_nodes div 2 in f + (f + 1) div 2 + 1)"

definition recover_threshold :: "nat \<Rightarrow> nat" where
  "recover_threshold num_nodes = (let f = num_nodes div 2 in (f + 1) div 2 + 1)"

subsection \<open>What the protocol needs of the sizes\<close>

locale quorum_system =
  fixes valid :: "'c \<Rightarrow> bool"
    and members :: "'c \<Rightarrow> node_id set"
    and prepare :: "'c \<Rightarrow> nat \<Rightarrow> bool"
    and accept :: "'c \<Rightarrow> nat \<Rightarrow> bool"
  assumes finite_members: "valid c \<Longrightarrow> finite (members c)"
    and overlap: "valid c \<Longrightarrow> prepare c a \<Longrightarrow> accept c b \<Longrightarrow> card (members c) < a + b"
begin

lemma quorums_meet:
  assumes "valid c" "P \<subseteq> members c" "A \<subseteq> members c" "prepare c (card P)" "accept c (card A)"
  shows "P \<inter> A \<noteq> {}"
proof
  assume "P \<inter> A = {}"
  have fin: "finite P" "finite A"
    using finite_members [OF assms(1)] assms(2,3) finite_subset by blast+
  have "card P + card A = card (P \<union> A)"
    using \<open>P \<inter> A = {}\<close> fin by (simp add: card_Un_disjoint)
  also have "\<dots> \<le> card (members c)"
    using assms finite_members by (intro card_mono) auto
  finally show False using overlap [OF assms(1,4,5)] by simp
qed

end

locale fast_quorum_system = quorum_system valid members prepare accept
  for valid :: "'c \<Rightarrow> bool" and members :: "'c \<Rightarrow> node_id set"
    and prepare :: "'c \<Rightarrow> nat \<Rightarrow> bool" and accept :: "'c \<Rightarrow> nat \<Rightarrow> bool" +
  fixes fast :: "'c \<Rightarrow> nat" and threshold :: "'c \<Rightarrow> nat"
  assumes fast_overlap: "valid c \<Longrightarrow> prepare c a \<Longrightarrow> card (members c) + threshold c \<le> a + fast c"
    and rivals_few: "valid c \<Longrightarrow> card (members c) < fast c + threshold c"
begin

lemma fast_votes_recovered:
  assumes "valid c" "P \<subseteq> members c" "F \<subseteq> members c" "prepare c (card P)" "fast c \<le> card F"
  shows "threshold c \<le> card (P \<inter> F)"
proof -
  have fin: "finite P" "finite F"
    using finite_members [OF assms(1)] assms(2,3) finite_subset by blast+
  have "card P + card F = card (P \<union> F) + card (P \<inter> F)"
    using card_Un_Int [OF fin] .
  moreover have "card (P \<union> F) \<le> card (members c)"
    using assms finite_members by (intro card_mono) auto
  moreover have "card (members c) + threshold c \<le> card P + fast c"
    using fast_overlap [OF assms(1,4)] .
  ultimately show ?thesis using assms(5) by linarith
qed

lemma rivals_below_threshold:
  assumes "valid c" "F \<subseteq> members c" "R \<subseteq> members c" "R \<inter> F = {}" "fast c \<le> card F"
  shows "card R < threshold c"
proof -
  have fin: "finite R" "finite F"
    using finite_members [OF assms(1)] assms(2,3) finite_subset by blast+
  have "card R + card F = card (R \<union> F)"
    using assms(4) fin by (simp add: card_Un_disjoint)
  also have "\<dots> \<le> card (members c)"
    using assms finite_members by (intro card_mono) auto
  finally show ?thesis using rivals_few [OF assms(1)] assms(5) by linarith
qed

end

text \<open>
  The provider: a configuration accepted by \<^verbatim>\<open>validate\<close> together with the pid of one of its
  nodes, with the quorum and thresholds that server computes. Node lists with repeated ids
  are covered: the number of nodes a server counts is never below the number of members.
\<close>

definition valid_server :: "cluster_config \<times> node_id \<Rightarrow> bool" where
  "valid_server = (\<lambda>(c, pid). valid_cluster c \<and> pid \<in> set (nodes c))"

definition server_quorum :: "cluster_config \<times> node_id \<Rightarrow> quorum" where
  "server_quorum = (\<lambda>(c, pid). quorum_with (flexible_quorum c) (num_nodes_of (peers_of c pid)))"

definition server_members :: "cluster_config \<times> node_id \<Rightarrow> node_id set" where
  "server_members = (\<lambda>(c, pid). set (nodes c))"

definition server_num_nodes :: "cluster_config \<times> node_id \<Rightarrow> nat" where
  "server_num_nodes = (\<lambda>(c, pid). num_nodes_of (peers_of c pid))"

lemma members_le_num_nodes: "card (set xs) \<le> length (filter (\<lambda>x. x \<noteq> pid) xs) + 1"
proof -
  have "set xs \<subseteq> insert pid (set (filter (\<lambda>x. x \<noteq> pid) xs))" by auto
  then have "card (set xs) \<le> card (insert pid (set (filter (\<lambda>x. x \<noteq> pid) xs)))"
    by (intro card_mono) auto
  also have "\<dots> \<le> Suc (card (set (filter (\<lambda>x. x \<noteq> pid) xs)))"
    by (simp add: card_insert_le_m1 card_insert_if)
  also have "\<dots> \<le> length (filter (\<lambda>x. x \<noteq> pid) xs) + 1"
    using card_length [of "filter (\<lambda>x. x \<noteq> pid) xs"] by linarith
  finally show ?thesis .
qed

lemma num_nodes_le_length: "pid \<in> set xs \<Longrightarrow> length (filter (\<lambda>x. x \<noteq> pid) xs) + 1 \<le> length xs"
  by (induction xs) auto

lemma server_num_nodes_bounds:
  assumes "valid_server cp"
  shows "card (server_members cp) \<le> server_num_nodes cp"
    and "server_num_nodes cp \<le> length (nodes (fst cp))"
  using assms members_le_num_nodes num_nodes_le_length
  by (auto simp: server_members_def server_num_nodes_def num_nodes_of_def peers_of_def
      valid_server_def split: prod.splits)

lemma server_prepare_bound:
  assumes "valid_server cp" "is_prepare_quorum (server_quorum cp) a"
  shows "server_num_nodes cp div 2 + 1 \<le> a"
proof (cases "flexible_quorum (fst cp)")
  case None
  with assms show ?thesis
    by (auto simp: server_quorum_def quorum_with_def server_num_nodes_def split: prod.splits)
next
  case (Some q)
  have "read_quorum_size q \<le> a"
    using assms(2) Some by (auto simp: server_quorum_def quorum_with_def split: prod.splits)
  moreover have "length (nodes (fst cp)) < 2 * read_quorum_size q"
    using assms(1) Some by (auto simp: valid_server_def valid_cluster_iff split: prod.splits)
  ultimately show ?thesis using server_num_nodes_bounds(2) [OF assms(1)] by linarith
qed

interpretation server_quorums: fast_quorum_system
  valid_server server_members
  "\<lambda>cp. is_prepare_quorum (server_quorum cp)" "\<lambda>cp. is_accept_quorum (server_quorum cp)"
  "\<lambda>cp. fast_quorum (server_num_nodes cp)" "\<lambda>cp. recover_threshold (server_num_nodes cp)"
proof unfold_locales
  fix cp a b
  assume v: "valid_server cp"
  show "finite (server_members cp)"
    by (simp add: server_members_def split: prod.splits)
  have n: "card (server_members cp) \<le> server_num_nodes cp"
    "server_num_nodes cp \<le> length (nodes (fst cp))"
    using server_num_nodes_bounds [OF v] .
  show "card (server_members cp) < fast_quorum (server_num_nodes cp) +
      recover_threshold (server_num_nodes cp)"
    unfolding fast_quorum_def recover_threshold_def Let_def using n(1) by linarith
  assume p: "is_prepare_quorum (server_quorum cp) a"
  have a: "server_num_nodes cp div 2 + 1 \<le> a" using server_prepare_bound [OF v p] .
  show "card (server_members cp) + recover_threshold (server_num_nodes cp) \<le>
      a + fast_quorum (server_num_nodes cp)"
    unfolding fast_quorum_def recover_threshold_def Let_def using n(1) a by linarith
  assume q: "is_accept_quorum (server_quorum cp) b"
  show "card (server_members cp) < a + b"
  proof (cases "flexible_quorum (fst cp)")
    case None
    then have "server_num_nodes cp div 2 + 1 \<le> b"
      using q by (auto simp: server_quorum_def quorum_with_def server_num_nodes_def split: prod.splits)
    with a n(1) show ?thesis by linarith
  next
    case (Some r)
    then have "read_quorum_size r \<le> a" "write_quorum_size r \<le> b"
      "length (nodes (fst cp)) < read_quorum_size r + write_quorum_size r"
      using p q v by (auto simp: server_quorum_def quorum_with_def valid_server_def
          valid_cluster_iff split: prod.splits)
    with n show ?thesis by linarith
  qed
qed

end
