(* ===== verification/Messages.thy ===== *)
theory Messages
  imports Dom_Hash Quorums
begin

text \<open>
  The data that travels between servers (\<^verbatim>\<open>messages.rs\<close>), the log synchronisation and
  fast-path records (\<^verbatim>\<open>util.rs\<close>), stop signs, snapshots and storage operations
  (\<^verbatim>\<open>storage/mod.rs\<close>). A log entry has type \<^typ>\<open>'e\<close>, its snapshot type is \<^typ>\<open>'s\<close>.
  Each Rust struct is a record with a prefix of its name on the fields.
\<close>

subsection \<open>Stop signs, snapshots, log synchronisation\<close>

record stop_sign =
  next_config :: cluster_config
  metadata :: "8 word list option"

definition stop_sign_with :: "cluster_config \<Rightarrow> 8 word list option \<Rightarrow> stop_sign" where
  "stop_sign_with c m = \<lparr>next_config = c, metadata = m\<rparr>"

datatype 's snapshot_type = Complete 's | Delta 's

record ('e, 's) log_sync =
  ls_decided_snapshot :: "'s snapshot_type option"
  ls_suffix :: "'e list"
  ls_sync_idx :: nat
  ls_stopsign :: "stop_sign option"

text \<open>
  A log entry a follower accepted on the fast path. \<^verbatim>\<open>HashMap<usize, UnsyncedLogEntry>\<close> is an
  association list with distinct keys.
\<close>

record 'e unsynced_log_entry =
  ule_entry :: 'e
  ule_entry_id :: entry_id
  ule_deadline :: int
  ule_entry_hash :: dom_hash
  ule_prefix_hash :: dom_hash

type_synonym 'e unsynced_map = "(nat \<times> 'e unsynced_log_entry) list"

text \<open>
  What the library takes from its user and from the platform: the snapshot functions of the
  entry type (\<^verbatim>\<open>trait Snapshot\<close>; \<open>None\<close> is a panic, as in \<^verbatim>\<open>NoSnapshot\<close>), the hash of an entry
  id with a deadline (\<^verbatim>\<open>DOMHash::with\<close> over \<^verbatim>\<open>DefaultHasher\<close>, whose function is unspecified)
  and the iteration order of the hash map of unsynced entries (unspecified as well).
\<close>

record ('e, 's) env =
  snap_create :: "'e list \<Rightarrow> 's option"
  snap_merge :: "'s \<Rightarrow> 's \<Rightarrow> 's option"
  use_snapshots :: bool
  hash_with :: "entry_id \<Rightarrow> int \<Rightarrow> dom_hash"
  map_iter :: "'e unsynced_map \<Rightarrow> 'e unsynced_map"

text \<open>\<^verbatim>\<open>NoSnapshot\<close>, the snapshot type of entries without snapshots.\<close>

datatype no_snapshot = NoSnapshot

definition no_snapshot_create :: "'e list \<Rightarrow> no_snapshot option" where
  "no_snapshot_create entries = None"

definition no_snapshot_merge :: "no_snapshot \<Rightarrow> no_snapshot \<Rightarrow> no_snapshot option" where
  "no_snapshot_merge self delta = None"

subsection \<open>The state of a replica\<close>

text \<open>\<^verbatim>\<open>Role\<close> and \<^verbatim>\<open>Phase\<close> of \<^verbatim>\<open>sequence_paxos/mod.rs\<close>.\<close>

datatype role = FollowerRole | LeaderRole

datatype phase = PhasePrepare | PhaseAccept | PhaseRecover | PhaseNone

subsection \<open>Sequence Paxos messages\<close>

record prepare_req =
  pr_n :: ballot

record prepare =
  prep_n :: ballot
  prep_decided_idx :: nat
  prep_n_accepted :: ballot
  prep_accepted_idx :: nat

record ('e, 's) promise =
  prom_n :: ballot
  prom_n_accepted :: ballot
  prom_decided_idx :: nat
  prom_accepted_idx :: nat
  prom_log_sync :: "('e, 's) log_sync option"
  prom_log_unsync :: "'e unsynced_map option"
  prom_log_prefix_hash :: dom_hash

record ('e, 's) accept_sync =
  as_n :: ballot
  as_seq_num :: sequence_number
  as_decided_idx :: nat
  as_log_sync :: "('e, 's) log_sync"
  as_log_prefix_hash :: dom_hash

record accepted_entry_meta =
  aem_entry_id :: entry_id
  aem_deadline :: int

record 'e accept_decide =
  ad_n :: ballot
  ad_seq_num :: sequence_number
  ad_decided_idx :: nat
  ad_entries :: "'e list"
  ad_entry_meta :: "accepted_entry_meta list"
  ad_log_prefix_hash :: dom_hash

record accepted =
  acc_n :: ballot
  acc_accepted_idx :: nat

record fast_accepted =
  fa_n :: ballot
  fa_idx :: nat
  fa_entry_hash :: dom_hash
  fa_prefix_hash :: dom_hash

record decide =
  dec_n :: ballot
  dec_seq_num :: sequence_number
  dec_decided_idx :: nat

record accept_stop_sign =
  ass_n :: ballot
  ass_seq_num :: sequence_number
  ass_ss :: stop_sign

record not_accepted =
  na_n :: ballot

type_synonym clock_timestamp = "int \<times> int"

record 'e dom_propose =
  dp_entry_id :: entry_id
  dp_sender :: node_id
  dp_sent_time :: clock_timestamp
  dp_deadline :: int
  dp_entry :: 'e

record dom_ack =
  da_sender :: node_id
  da_estimated_owd :: int

datatype compaction = CompactTrim nat | CompactSnapshot "nat option"

datatype ('e, 's) paxos_msg =
    PrepareReq prepare_req
  | Prepare prepare
  | Promise "('e, 's) promise"
  | AcceptSync "('e, 's) accept_sync"
  | AcceptDecide "'e accept_decide"
  | Accepted accepted
  | FastAccepted fast_accepted
  | NotAccepted not_accepted
  | Decide decide
  | Compaction compaction
  | AcceptStopSign accept_stop_sign
  | ForwardStopSign stop_sign
  | DomPropose "'e dom_propose"
  | DomAck dom_ack

record ('e, 's) paxos_message =
  pm_from :: node_id
  pm_to :: node_id
  pm_msg :: "('e, 's) paxos_msg"

subsection \<open>Ballot leader election messages\<close>

record heartbeat_request =
  hreq_round :: u32

record heartbeat_reply =
  hrep_round :: u32
  hrep_ballot :: ballot
  hrep_leader :: ballot
  hrep_happy :: bool

datatype heartbeat_msg = Request heartbeat_request | Reply heartbeat_reply

record ble_message =
  bm_from :: node_id
  bm_to :: node_id
  bm_msg :: heartbeat_msg

datatype ('e, 's) message =
    SequencePaxos "('e, 's) paxos_message"
  | BLE ble_message

fun get_sender :: "('e, 's) message \<Rightarrow> node_id" where
  "get_sender (SequencePaxos p) = pm_from p"
| "get_sender (BLE b) = bm_from b"

fun get_receiver :: "('e, 's) message \<Rightarrow> node_id" where
  "get_receiver (SequencePaxos p) = pm_to p"
| "get_receiver (BLE b) = bm_to b"

subsection \<open>Errors returned to the user\<close>

datatype compaction_err =
    UndecidedIndex nat
  | TrimmedIndex nat
  | NotAllDecided nat
  | NotCurrentLeader node_id

datatype 'e propose_err =
    PendingReconfigEntry 'e
  | PendingReconfigConfig cluster_config "8 word list option"
  | ConfigError config_error cluster_config "8 word list option"

end
