(* ===== verification/Memory_Storage.thy ===== *)
theory Memory_Storage
  imports Messages
begin

text \<open>
  The storage backend: the write operations of \<^verbatim>\<open>trait Storage\<close> (\<^verbatim>\<open>storage/mod.rs\<close>) and the
  in-memory implementation \<^verbatim>\<open>MemoryStorage\<close> (\<^verbatim>\<open>omnipaxos_storage/src/memory_storage.rs\<close>).
  The interface \<open>log_storage\<close> states what the log operations of a backend promise over an
  abstract view (the first retained index and the retained entries), and derives what its
  clients use; it is interpreted on \<^verbatim>\<open>MemoryStorage\<close>. A range that starts before the trimmed
  index underflows and panics.
\<close>

datatype ('e, 's) storage_op =
    AppendEntry 'e
  | AppendEntries "'e list"
  | AppendOnPrefix nat "'e list"
  | SetPromise ballot
  | SetDecidedIndex nat
  | SetAcceptedRound ballot
  | SetCompactedIdx nat
  | Trim nat
  | SetStopsign "stop_sign option"
  | SetSnapshot "'s option"

record ('e, 's) memory_storage =
  ms_log :: "'e list"
  ms_n_prom :: "ballot option"
  ms_acc_round :: "ballot option"
  ms_ld :: nat
  ms_trimmed_idx :: nat
  ms_compacted_idx :: nat
  ms_snapshot :: "'s option"
  ms_stopsign :: "stop_sign option"

definition ms_default :: "('e, 's) memory_storage" where
  "ms_default = \<lparr>ms_log = [], ms_n_prom = None, ms_acc_round = None, ms_ld = 0,
     ms_trimmed_idx = 0, ms_compacted_idx = 0, ms_snapshot = None, ms_stopsign = None\<rparr>"

definition ms_append_entry :: "'e \<Rightarrow> ('e, 's) memory_storage \<Rightarrow> ('e, 's) memory_storage" where
  "ms_append_entry entry st = st\<lparr>ms_log := ms_log st @ [entry]\<rparr>"

definition ms_append_entries :: "'e list \<Rightarrow> ('e, 's) memory_storage \<Rightarrow> ('e, 's) memory_storage" where
  "ms_append_entries entries st = st\<lparr>ms_log := ms_log st @ entries\<rparr>"

definition ms_append_on_prefix ::
    "nat \<Rightarrow> 'e list \<Rightarrow> ('e, 's) memory_storage \<Rightarrow> ('e, 's) memory_storage option" where
  "ms_append_on_prefix from_idx entries st = do {
     k \<leftarrow> checked_sub from_idx (ms_trimmed_idx st);
     Some (ms_append_entries entries (st\<lparr>ms_log := take k (ms_log st)\<rparr>))
   }"

definition ms_set_promise :: "ballot \<Rightarrow> ('e, 's) memory_storage \<Rightarrow> ('e, 's) memory_storage" where
  "ms_set_promise n_prom st = st\<lparr>ms_n_prom := Some n_prom\<rparr>"

definition ms_set_decided_idx :: "nat \<Rightarrow> ('e, 's) memory_storage \<Rightarrow> ('e, 's) memory_storage" where
  "ms_set_decided_idx ld st = st\<lparr>ms_ld := ld\<rparr>"

definition ms_set_accepted_round :: "ballot \<Rightarrow> ('e, 's) memory_storage \<Rightarrow> ('e, 's) memory_storage" where
  "ms_set_accepted_round na st = st\<lparr>ms_acc_round := Some na\<rparr>"

definition ms_get_entries :: "nat \<Rightarrow> nat \<Rightarrow> ('e, 's) memory_storage \<Rightarrow> 'e list option" where
  "ms_get_entries from to st = do {
     from' \<leftarrow> checked_sub from (ms_trimmed_idx st);
     to' \<leftarrow> checked_sub to (ms_trimmed_idx st);
     Some (slice (ms_log st) from' to')
   }"

definition ms_get_log_len :: "('e, 's) memory_storage \<Rightarrow> nat" where
  "ms_get_log_len st = length (ms_log st)"

definition ms_get_suffix :: "nat \<Rightarrow> ('e, 's) memory_storage \<Rightarrow> 'e list option" where
  "ms_get_suffix from st = do {
     from' \<leftarrow> checked_sub from (ms_trimmed_idx st);
     Some (drop from' (ms_log st))
   }"

definition ms_set_stopsign ::
    "stop_sign option \<Rightarrow> ('e, 's) memory_storage \<Rightarrow> ('e, 's) memory_storage" where
  "ms_set_stopsign s st = st\<lparr>ms_stopsign := s\<rparr>"

definition ms_trim :: "nat \<Rightarrow> ('e, 's) memory_storage \<Rightarrow> ('e, 's) memory_storage option" where
  "ms_trim trimmed_idx st = do {
     k \<leftarrow> checked_sub trimmed_idx (ms_trimmed_idx st);
     let to_trim = min k (length (ms_log st));
     Some (st\<lparr>ms_log := drop to_trim (ms_log st), ms_trimmed_idx := trimmed_idx\<rparr>)
   }"

definition ms_set_compacted_idx :: "nat \<Rightarrow> ('e, 's) memory_storage \<Rightarrow> ('e, 's) memory_storage" where
  "ms_set_compacted_idx compact_idx st = st\<lparr>ms_compacted_idx := compact_idx\<rparr>"

definition ms_set_snapshot ::
    "'s option \<Rightarrow> ('e, 's) memory_storage \<Rightarrow> ('e, 's) memory_storage" where
  "ms_set_snapshot snapshot st = st\<lparr>ms_snapshot := snapshot\<rparr>"

text \<open>One operation of \<^verbatim>\<open>write_atomically\<close>, and the loop over them.\<close>

fun ms_apply_op :: "('e, 's) storage_op \<Rightarrow> ('e, 's) memory_storage \<Rightarrow>
    ('e, 's) memory_storage option" where
  "ms_apply_op (AppendEntry entry) st = Some (ms_append_entry entry st)"
| "ms_apply_op (AppendEntries entries) st = Some (ms_append_entries entries st)"
| "ms_apply_op (AppendOnPrefix from_idx entries) st = ms_append_on_prefix from_idx entries st"
| "ms_apply_op (SetPromise bal) st = Some (ms_set_promise bal st)"
| "ms_apply_op (SetDecidedIndex idx) st = Some (ms_set_decided_idx idx st)"
| "ms_apply_op (SetAcceptedRound bal) st = Some (ms_set_accepted_round bal st)"
| "ms_apply_op (SetCompactedIdx idx) st = Some (ms_set_compacted_idx idx st)"
| "ms_apply_op (Trim idx) st = ms_trim idx st"
| "ms_apply_op (SetStopsign ss) st = Some (ms_set_stopsign ss st)"
| "ms_apply_op (SetSnapshot snap) st = Some (ms_set_snapshot snap st)"

definition ms_write_atomically :: "('e, 's) storage_op list \<Rightarrow> ('e, 's) memory_storage \<Rightarrow>
    ('e, 's) memory_storage option" where
  "ms_write_atomically ops st = for_each ms_apply_op ops st"

subsection \<open>The interface of a log backend\<close>

locale log_storage =
  fixes start :: "'st \<Rightarrow> nat"
    and entries :: "'st \<Rightarrow> 'e list"
    and append :: "'e list \<Rightarrow> 'st \<Rightarrow> 'st option"
    and append_on_prefix :: "nat \<Rightarrow> 'e list \<Rightarrow> 'st \<Rightarrow> 'st option"
    and trim :: "nat \<Rightarrow> 'st \<Rightarrow> 'st option"
    and get_entries :: "nat \<Rightarrow> nat \<Rightarrow> 'st \<Rightarrow> 'e list option"
    and get_suffix :: "nat \<Rightarrow> 'st \<Rightarrow> 'e list option"
  assumes append_law: "\<exists>st'. append es st = Some st' \<and>
      entries st' = entries st @ es \<and> start st' = start st"
    and append_on_prefix_law: "start st \<le> i \<Longrightarrow> i \<le> start st + length (entries st) \<Longrightarrow>
      \<exists>st'. append_on_prefix i es st = Some st' \<and>
        entries st' = take (i - start st) (entries st) @ es \<and> start st' = start st"
    and trim_law: "start st \<le> i \<Longrightarrow> i \<le> start st + length (entries st) \<Longrightarrow>
      \<exists>st'. trim i st = Some st' \<and> entries st' = drop (i - start st) (entries st) \<and> start st' = i"
    and get_entries_law: "start st \<le> i \<Longrightarrow> i \<le> j \<Longrightarrow> j \<le> start st + length (entries st) \<Longrightarrow>
      get_entries i j st = Some (take (j - i) (drop (i - start st) (entries st)))"
    and get_suffix_law: "start st \<le> i \<Longrightarrow>
      get_suffix i st = Some (drop (i - start st) (entries st))"
begin

lemma append_keeps_reads:
  assumes "append es st = Some st'" "start st \<le> i" "i \<le> j" "j \<le> start st + length (entries st)"
  shows "get_entries i j st' = get_entries i j st"
proof -
  from append_law [of es st] assms(1)
  have st': "entries st' = entries st @ es" "start st' = start st" by auto
  then show ?thesis using assms(2-4) by (simp add: get_entries_law)
qed

lemma append_then_suffix:
  assumes "append es st = Some st'"
  shows "get_suffix (start st + length (entries st)) st' = Some es"
  using append_law [of es st] assms by (auto simp: get_suffix_law)

lemma append_append:
  assumes "append xs st = Some st1" "append ys st1 = Some st2"
  shows "entries st2 = entries st @ xs @ ys"
  using append_law [of xs st] append_law [of ys st1] assms by auto

lemma trim_keeps_reads:
  assumes "trim k st = Some st'" "start st \<le> k" "k \<le> i" "i \<le> j"
    "j \<le> start st + length (entries st)"
  shows "get_entries i j st' = get_entries i j st"
proof -
  from trim_law [of st k] assms
  have st': "entries st' = drop (k - start st) (entries st)" "start st' = k" by auto
  have "i - k + (k - start st) = i - start st" using assms(2,3) by simp
  then show ?thesis using assms(2-5) st' by (simp add: get_entries_law)
qed

lemma sync_suffix:
  assumes "start st \<le> i" "i \<le> start st + length (entries st)"
    and "append_on_prefix i es st = Some st'"
  shows "get_suffix i st' = Some es"
  using append_on_prefix_law [OF assms(1,2), of es] assms(1,2,3)
  by (auto simp: get_suffix_law)

lemma resync_own_suffix:
  assumes "start st \<le> i" "i \<le> start st + length (entries st)"
    and "get_suffix i st = Some es" "append_on_prefix i es st = Some st'"
  shows "entries st' = entries st"
  using append_on_prefix_law [OF assms(1,2), of es] assms
  by (auto simp: get_suffix_law)

end

interpretation memory_storage: log_storage ms_trimmed_idx ms_log
  "\<lambda>es st. Some (ms_append_entries es st)" ms_append_on_prefix ms_trim
  ms_get_entries ms_get_suffix
  by unfold_locales
    (auto simp: ms_append_entries_def ms_append_on_prefix_def ms_trim_def ms_get_entries_def
      ms_get_suffix_def slice_def checked_sub_def Let_def)

lemmas ms_defs = ms_append_entry_def ms_append_entries_def ms_append_on_prefix_def
  ms_set_promise_def ms_set_decided_idx_def ms_set_accepted_round_def ms_get_entries_def
  ms_get_log_len_def ms_get_suffix_def ms_set_stopsign_def ms_trim_def
  ms_set_compacted_idx_def ms_set_snapshot_def ms_write_atomically_def

end
