(* ===== verification/Byte_Keys.thy ===== *)
theory Byte_Keys
  imports Prelude "HOL-Library.List_Lexorder"
begin

text \<open>
  \<^verbatim>\<open>usize::to_be_bytes\<close> and \<^verbatim>\<open>from_be_bytes\<close> (standard library), the log keys of
  \<^verbatim>\<open>omnipaxos_storage/src/persistent_storage.rs\<close>: eight bytes, most significant first. Byte
  strings are ordered lexicographically, as RocksDB orders its keys, and the encoding keeps
  the order of the indexes.
\<close>

type_synonym bytes = "8 word list"

primrec be_digits :: "nat \<Rightarrow> nat \<Rightarrow> bytes" where
  "be_digits 0 n = []"
| "be_digits (Suc k) n = word_of_nat (n div 256 ^ k) # be_digits k n"

definition to_be_bytes :: "nat \<Rightarrow> bytes" where
  "to_be_bytes n = be_digits 8 n"

definition from_be_bytes :: "bytes \<Rightarrow> nat" where
  "from_be_bytes bs = foldl (\<lambda>a b. a * 256 + unat b) 0 bs"

lemma length_be_digits [simp]: "length (be_digits k n) = k"
  by (induction k) auto

lemma length_to_be_bytes [simp]: "length (to_be_bytes n) = 8"
  by (simp add: to_be_bytes_def)

lemma unat_byte: "unat (word_of_nat n :: 8 word) = n mod 256"
  by (simp add: unat_of_nat)

lemma byte_mod: "word_of_nat (n mod 256) = (word_of_nat n :: 8 word)"
  by (simp add: word_unat_eq_iff unat_byte)

lemma be_digits_mod: "be_digits k (n mod 256 ^ k) = be_digits k n"
proof -
  have "be_digits k (n mod 256 ^ j) = be_digits k n" if "k \<le> j" for j
    using that
  proof (induction k)
    case (Suc k)
    have "n mod 256 ^ j div 256 ^ k mod 256 = n div 256 ^ k mod 256"
    proof -
      have "j = k + (j - k)" using Suc.prems by simp
      then have "(256::nat) ^ j = 256 ^ k * 256 ^ (j - k)" by (metis power_add)
      then have "n mod 256 ^ j div 256 ^ k = n div 256 ^ k mod 256 ^ (j - k)"
        by (simp add: mod_mult2_eq)
      moreover have "256 dvd (256::nat) ^ (j - k)" using Suc.prems by (intro dvd_power) simp
      ultimately show ?thesis by (simp add: mod_mod_cancel)
    qed
    then have "word_of_nat (n mod 256 ^ j div 256 ^ k) = (word_of_nat (n div 256 ^ k) :: 8 word)"
      by (metis byte_mod)
    then show ?case using Suc by simp
  qed simp
  then show ?thesis by simp
qed

lemma be_digits_less:
  "m < 256 ^ k \<Longrightarrow> n < 256 ^ k \<Longrightarrow> be_digits k m < be_digits k n \<longleftrightarrow> m < n"
proof (induction k arbitrary: m n)
  case (Suc k)
  let ?a = "m div 256 ^ k" and ?b = "n div 256 ^ k"
  have lt: "?a < 256" "?b < 256"
    using Suc.prems by (simp_all add: less_mult_imp_div_less mult.commute)
  have word: "(word_of_nat ?a :: 8 word) < word_of_nat ?b \<longleftrightarrow> ?a < ?b"
    "(word_of_nat ?a :: 8 word) = word_of_nat ?b \<longleftrightarrow> ?a = ?b"
    using lt by (simp_all add: word_less_nat_alt word_unat_eq_iff unat_byte)
  have rest: "be_digits k m < be_digits k n \<longleftrightarrow> m mod 256 ^ k < n mod 256 ^ k"
    using Suc.IH [of "m mod 256 ^ k" "n mod 256 ^ k"] by (simp add: be_digits_mod)
  have "m < n \<longleftrightarrow> ?a < ?b \<or> ?a = ?b \<and> m mod 256 ^ k < n mod 256 ^ k"
  proof -
    have m: "m = ?a * 256 ^ k + m mod 256 ^ k" and n: "n = ?b * 256 ^ k + n mod 256 ^ k"
      by (rule div_mult_mod_eq [symmetric])+
    consider "?a < ?b" | "?a = ?b" | "?b < ?a" by linarith
    then show ?thesis
    proof cases
      case 1
      then have "m < n" by (metis div_le_mono leD le_less_linear)
      then show ?thesis using 1 by simp
    next
      case 2
      then show ?thesis using m n by (metis add_less_cancel_left less_irrefl)
    next
      case 3
      then have "n < m" by (metis div_le_mono leD le_less_linear)
      then show ?thesis using 3 by simp
    qed
  qed
  then show ?case using word rest by auto
qed simp

lemma be_less: "m < 2 ^ 64 \<Longrightarrow> n < 2 ^ 64 \<Longrightarrow> to_be_bytes m < to_be_bytes n \<longleftrightarrow> m < n"
  using be_digits_less [of m 8 n] by (simp add: to_be_bytes_def)

lemma be_inject: "m < 2 ^ 64 \<Longrightarrow> n < 2 ^ 64 \<Longrightarrow> to_be_bytes m = to_be_bytes n \<longleftrightarrow> m = n"
  using be_less [of m n] be_less [of n m] by (metis less_irrefl linorder_neqE_nat)

lemma be_le: "m < 2 ^ 64 \<Longrightarrow> n < 2 ^ 64 \<Longrightarrow> to_be_bytes m \<le> to_be_bytes n \<longleftrightarrow> m \<le> n"
  using be_less [of n m] by (simp add: linorder_not_less [symmetric])

lemma foldl_be: "foldl (\<lambda>a b. a * 256 + unat b) a (be_digits k n) = a * 256 ^ k + n mod 256 ^ k"
proof (induction k arbitrary: a)
  case (Suc k)
  have "n mod 256 ^ Suc k = n div 256 ^ k mod 256 * 256 ^ k + n mod 256 ^ k"
    using mod_mult2_eq [of n "256 ^ k" 256] by (simp add: mult.commute)
  then show ?case using Suc by (simp add: unat_byte algebra_simps)
qed simp

lemma from_to_be_bytes: "n < 2 ^ 64 \<Longrightarrow> from_be_bytes (to_be_bytes n) = n"
  using foldl_be [of 0 8 n] by (simp add: from_be_bytes_def to_be_bytes_def)

end
