(* ===== verification/Persistent_Storage.thy ===== *)
theory Persistent_Storage
  imports Memory_Storage Byte_Keys
begin

text \<open>
  \<^verbatim>\<open>omnipaxos_storage/src/persistent_storage.rs\<close>: the storage backend over RocksDB. RocksDB
  and the serialisers (\<^verbatim>\<open>bincode\<close>, \<^verbatim>\<open>zerocopy\<close>) are parameters: the records \<open>rocksdb\<close>
  and \<open>codec\<close> hold the calls the code makes, \<open>rocksdb_laws\<close> and \<open>codec_laws\<close> their
  documented behaviour over the contents of the database (\<open>views\<close>). A call that fails leaves
  the database as it was. An \<^verbatim>\<open>Err\<close> is \<open>Inl\<close>, returned with the state it leaves behind;
  \<^term>\<open>None\<close> is a panic.
\<close>

subsection \<open>The database and the serialisers\<close>

record ('db, 'wb, 'it, 'err) rocksdb =
  db_get :: "bytes \<Rightarrow> 'db \<Rightarrow> 'err + bytes option"
  db_put :: "bytes \<Rightarrow> bytes \<Rightarrow> 'db \<Rightarrow> 'err + 'db"
  db_put_log :: "bytes \<Rightarrow> bytes \<Rightarrow> 'db \<Rightarrow> 'err + 'db"
  db_delete_range_log :: "bytes \<Rightarrow> bytes \<Rightarrow> 'db \<Rightarrow> 'err + 'db"
  db_write :: "'wb \<Rightarrow> 'db \<Rightarrow> 'err + 'db"
  wb_default :: 'wb
  wb_put :: "bytes \<Rightarrow> bytes \<Rightarrow> 'wb \<Rightarrow> 'wb"
  wb_put_log :: "bytes \<Rightarrow> bytes \<Rightarrow> 'wb \<Rightarrow> 'wb"
  wb_delete_range_log :: "bytes \<Rightarrow> bytes \<Rightarrow> 'wb \<Rightarrow> 'wb"
  it_log :: "'db \<Rightarrow> 'it"
  it_seek :: "bytes \<Rightarrow> 'it \<Rightarrow> 'it"
  it_seek_to_last :: "'it \<Rightarrow> 'it"
  it_next :: "'it \<Rightarrow> 'it"
  it_valid :: "'it \<Rightarrow> bool"
  it_key :: "'it \<Rightarrow> bytes option"
  it_value :: "'it \<Rightarrow> bytes option"

record ('e, 's, 'err) codec =
  ser_entry :: "'e \<Rightarrow> 'err + bytes"
  de_entry :: "bytes \<Rightarrow> 'err + 'e"
  ser_ballot :: "ballot \<Rightarrow> 'err + bytes"
  de_ballot :: "bytes \<Rightarrow> 'err + ballot"
  ser_stopsign :: "stop_sign option \<Rightarrow> 'err + bytes"
  de_stopsign :: "bytes \<Rightarrow> 'err + stop_sign option"
  ser_snapshot :: "'s option \<Rightarrow> 'err + bytes"
  de_snapshot :: "bytes \<Rightarrow> 'err + 's option"
  usize_as_bytes :: "nat \<Rightarrow> bytes"
  usize_read_from :: "bytes \<Rightarrow> nat option"

text \<open>A boxed error: one of the libraries', or the storage's own.\<close>

datatype 'err storage_err = Foreign 'err | ErrHelper

definition ascii :: "string \<Rightarrow> bytes" where
  "ascii s = map (\<lambda>c. word_of_nat (of_char c)) s"

definition NPROM :: bytes where "NPROM = ascii ''NPROM''"
definition ACC :: bytes where "ACC = ascii ''ACC''"
definition DECIDE :: bytes where "DECIDE = ascii ''DECIDE''"
definition TRIM :: bytes where "TRIM = ascii ''TRIM''"
definition STOPSIGN :: bytes where "STOPSIGN = ascii ''STOPSIGN''"
definition SNAPSHOT :: bytes where "SNAPSHOT = ascii ''SNAPSHOT''"

record 'o persistent_storage_config =
  psc_path :: string
  psc_rocksdb_options :: 'o
  psc_log_options :: 'o

text \<open>The options of RocksDB are a parameter, with the two switches \<^verbatim>\<open>with_path\<close> turns on.\<close>

record 'o rocksdb_options =
  opt_default :: 'o
  opt_create_missing_column_families :: "bool \<Rightarrow> 'o \<Rightarrow> 'o"
  opt_create_if_missing :: "bool \<Rightarrow> 'o \<Rightarrow> 'o"

definition psc_set_path :: "string \<Rightarrow> 'o persistent_storage_config \<Rightarrow> 'o persistent_storage_config" where
  "psc_set_path path self = self\<lparr>psc_path := path\<rparr>"

definition psc_set_log_options :: "'o \<Rightarrow> 'o persistent_storage_config \<Rightarrow> 'o persistent_storage_config" where
  "psc_set_log_options log_opts self = self\<lparr>psc_log_options := log_opts\<rparr>"

definition psc_set_database_options :: "'o \<Rightarrow> 'o persistent_storage_config \<Rightarrow> 'o persistent_storage_config" where
  "psc_set_database_options opts self = self\<lparr>psc_rocksdb_options := opts\<rparr>"

definition psc_with :: "string \<Rightarrow> 'o \<Rightarrow> 'o \<Rightarrow> 'o persistent_storage_config" where
  "psc_with path log_options db_options =
     \<lparr>psc_path = path, psc_rocksdb_options = db_options, psc_log_options = log_options\<rparr>"

definition psc_with_path :: "'o rocksdb_options \<Rightarrow> string \<Rightarrow> 'o persistent_storage_config" where
  "psc_with_path opts path =
     \<lparr>psc_path = path,
      psc_rocksdb_options = opt_create_if_missing opts True
        (opt_create_missing_column_families opts True (opt_default opts)),
      psc_log_options = opt_default opts\<rparr>"

definition psc_default :: "'o rocksdb_options \<Rightarrow> 'o persistent_storage_config" where
  "psc_default opts =
     \<lparr>psc_path = ''/default_storage/'',
      psc_rocksdb_options = opt_create_if_missing opts True
        (opt_create_missing_column_families opts True (opt_default opts)),
      psc_log_options = opt_default opts\<rparr>"

subsection \<open>The storage\<close>

record ('db, 'wb) persistent_storage =
  ps_db :: 'db
  ps_write_batch :: 'wb
  ps_next_log_key :: nat

text \<open>\<^verbatim>\<open>open\<close> on the database that RocksDB finds at the path.\<close>

definition ps_recover :: "('db, 'wb, 'it, 'err) rocksdb \<Rightarrow> ('e, 's, 'err) codec \<Rightarrow> 'db \<Rightarrow>
    ('db, 'wb) persistent_storage option" where
  "ps_recover R C db =
     (let log_iter = it_seek_to_last R (it_log R db)
      in do {
        next_log_key \<leftarrow>
          (if it_valid R log_iter then do {
             key \<leftarrow> it_key R log_iter;
             if length key = 8 then Some (from_be_bytes key + 1) else None
           } else
             (case db_get R TRIM db of
                Inl _ \<Rightarrow> None
              | Inr (Some bs) \<Rightarrow> usize_read_from C bs
              | Inr None \<Rightarrow> Some 0));
        Some \<lparr>ps_db = db, ps_write_batch = wb_default R, ps_next_log_key = next_log_key\<rparr>
      })"

definition ps_open :: "('o persistent_storage_config \<Rightarrow> 'err + 'db) \<Rightarrow> ('db, 'wb, 'it, 'err) rocksdb \<Rightarrow>
    ('e, 's, 'err) codec \<Rightarrow> 'o persistent_storage_config \<Rightarrow> ('db, 'wb) persistent_storage option" where
  "ps_open open_db R C cfg =
     (case open_db cfg of Inl _ \<Rightarrow> None | Inr db \<Rightarrow> ps_recover R C db)"

definition ps_new :: "(string \<Rightarrow> bool) \<Rightarrow> ('o persistent_storage_config \<Rightarrow> 'err + 'db) \<Rightarrow>
    ('db, 'wb, 'it, 'err) rocksdb \<Rightarrow> ('e, 's, 'err) codec \<Rightarrow> 'o persistent_storage_config \<Rightarrow>
    ('db, 'wb) persistent_storage option" where
  "ps_new path_exists open_db R C cfg =
     (if path_exists (psc_path cfg) then None else ps_open open_db R C cfg)"

subsubsection \<open>Batched operations\<close>

type_synonym ('db, 'wb, 'err) ps_result =
  "('err storage_err + unit) \<times> ('db, 'wb) persistent_storage"

fun batch_append_entries :: "('db, 'wb, 'it, 'err) rocksdb \<Rightarrow> ('e, 's, 'err) codec \<Rightarrow> 'e list \<Rightarrow>
    ('db, 'wb) persistent_storage \<Rightarrow> ('db, 'wb, 'err) ps_result" where
  "batch_append_entries R C [] self = (Inr (), self)"
| "batch_append_entries R C (entry # entries) self =
     (case ser_entry C entry of
        Inl e \<Rightarrow> (Inl (Foreign e), self)
      | Inr bs \<Rightarrow> batch_append_entries R C entries (self\<lparr>
          ps_write_batch := wb_put_log R (to_be_bytes (ps_next_log_key self)) bs (ps_write_batch self),
          ps_next_log_key := ps_next_log_key self + 1\<rparr>))"

definition batch_append_entry :: "('db, 'wb, 'it, 'err) rocksdb \<Rightarrow> ('e, 's, 'err) codec \<Rightarrow> 'e \<Rightarrow>
    ('db, 'wb) persistent_storage \<Rightarrow> ('db, 'wb, 'err) ps_result" where
  "batch_append_entry R C entry self =
     (case ser_entry C entry of
        Inl e \<Rightarrow> (Inl (Foreign e), self)
      | Inr bs \<Rightarrow> (Inr (), self\<lparr>
          ps_write_batch := wb_put_log R (to_be_bytes (ps_next_log_key self)) bs (ps_write_batch self),
          ps_next_log_key := ps_next_log_key self + 1\<rparr>))"

definition batch_append_on_prefix :: "('db, 'wb, 'it, 'err) rocksdb \<Rightarrow> ('e, 's, 'err) codec \<Rightarrow> nat \<Rightarrow>
    'e list \<Rightarrow> ('db, 'wb) persistent_storage \<Rightarrow> ('db, 'wb, 'err) ps_result" where
  "batch_append_on_prefix R C from_idx entries self =
     (let delete_idx = from_idx + length entries;
          self1 = (if delete_idx < ps_next_log_key self
            then self\<lparr>ps_write_batch := wb_delete_range_log R (to_be_bytes delete_idx)
                   (to_be_bytes (ps_next_log_key self)) (ps_write_batch self)\<rparr>
            else self)
      in batch_append_entries R C entries (self1\<lparr>ps_next_log_key := from_idx\<rparr>))"

text \<open>A serialised value put under a key of the default column family.\<close>

definition batch_put :: "('db, 'wb, 'it, 'err) rocksdb \<Rightarrow> bytes \<Rightarrow> 'err + bytes \<Rightarrow>
    ('db, 'wb) persistent_storage \<Rightarrow> ('db, 'wb, 'err) ps_result" where
  "batch_put R key ser self =
     (case ser of
        Inl e \<Rightarrow> (Inl (Foreign e), self)
      | Inr bs \<Rightarrow> (Inr (), self\<lparr>ps_write_batch := wb_put R key bs (ps_write_batch self)\<rparr>))"

definition batch_set_promise :: "('db, 'wb, 'it, 'err) rocksdb \<Rightarrow> ('e, 's, 'err) codec \<Rightarrow> ballot \<Rightarrow>
    ('db, 'wb) persistent_storage \<Rightarrow> ('db, 'wb, 'err) ps_result" where
  "batch_set_promise R C n_prom = batch_put R NPROM (ser_ballot C n_prom)"

definition batch_set_decided_idx :: "('db, 'wb, 'it, 'err) rocksdb \<Rightarrow> ('e, 's, 'err) codec \<Rightarrow> nat \<Rightarrow>
    ('db, 'wb) persistent_storage \<Rightarrow> ('db, 'wb, 'err) ps_result" where
  "batch_set_decided_idx R C ld = batch_put R DECIDE (Inr (usize_as_bytes C ld))"

definition batch_set_accepted_round :: "('db, 'wb, 'it, 'err) rocksdb \<Rightarrow> ('e, 's, 'err) codec \<Rightarrow> ballot \<Rightarrow>
    ('db, 'wb) persistent_storage \<Rightarrow> ('db, 'wb, 'err) ps_result" where
  "batch_set_accepted_round R C na = batch_put R ACC (ser_ballot C na)"

definition batch_set_compacted_idx :: "('db, 'wb, 'it, 'err) rocksdb \<Rightarrow> ('e, 's, 'err) codec \<Rightarrow> nat \<Rightarrow>
    ('db, 'wb) persistent_storage \<Rightarrow> ('db, 'wb, 'err) ps_result" where
  "batch_set_compacted_idx R C trimmed_idx = batch_put R TRIM (Inr (usize_as_bytes C trimmed_idx))"

definition batch_trim :: "('db, 'wb, 'it, 'err) rocksdb \<Rightarrow> nat \<Rightarrow> ('db, 'wb) persistent_storage \<Rightarrow>
    ('db, 'wb, 'err) ps_result" where
  "batch_trim R trimmed_idx self = (Inr (), self\<lparr>ps_write_batch :=
     wb_delete_range_log R (to_be_bytes 0) (to_be_bytes trimmed_idx) (ps_write_batch self)\<rparr>)"

definition batch_set_stopsign :: "('db, 'wb, 'it, 'err) rocksdb \<Rightarrow> ('e, 's, 'err) codec \<Rightarrow>
    stop_sign option \<Rightarrow> ('db, 'wb) persistent_storage \<Rightarrow> ('db, 'wb, 'err) ps_result" where
  "batch_set_stopsign R C ss = batch_put R STOPSIGN (ser_stopsign C ss)"

definition batch_set_snapshot :: "('db, 'wb, 'it, 'err) rocksdb \<Rightarrow> ('e, 's, 'err) codec \<Rightarrow>
    's option \<Rightarrow> ('db, 'wb) persistent_storage \<Rightarrow> ('db, 'wb, 'err) ps_result" where
  "batch_set_snapshot R C snapshot = batch_put R SNAPSHOT (ser_snapshot C snapshot)"

fun batch_op :: "('db, 'wb, 'it, 'err) rocksdb \<Rightarrow> ('e, 's, 'err) codec \<Rightarrow> ('e, 's) storage_op \<Rightarrow>
    ('db, 'wb) persistent_storage \<Rightarrow> ('db, 'wb, 'err) ps_result" where
  "batch_op R C (AppendEntry entry) = batch_append_entry R C entry"
| "batch_op R C (AppendEntries entries) = batch_append_entries R C entries"
| "batch_op R C (AppendOnPrefix from_idx entries) = batch_append_on_prefix R C from_idx entries"
| "batch_op R C (SetPromise bal) = batch_set_promise R C bal"
| "batch_op R C (SetDecidedIndex idx) = batch_set_decided_idx R C idx"
| "batch_op R C (SetAcceptedRound bal) = batch_set_accepted_round R C bal"
| "batch_op R C (SetCompactedIdx idx) = batch_set_compacted_idx R C idx"
| "batch_op R C (Trim idx) = batch_trim R idx"
| "batch_op R C (SetStopsign ss) = batch_set_stopsign R C ss"
| "batch_op R C (SetSnapshot snap) = batch_set_snapshot R C snap"

fun batch_ops :: "('db, 'wb, 'it, 'err) rocksdb \<Rightarrow> ('e, 's, 'err) codec \<Rightarrow> ('e, 's) storage_op list \<Rightarrow>
    ('db, 'wb) persistent_storage \<Rightarrow> ('db, 'wb, 'err) ps_result" where
  "batch_ops R C [] self = (Inr (), self)"
| "batch_ops R C (op # ops) self =
     (case batch_op R C op self of
        (Inl e, self') \<Rightarrow> (Inl e, self')
      | (Inr _, self') \<Rightarrow> batch_ops R C ops self')"

definition ps_write_atomically :: "('db, 'wb, 'it, 'err) rocksdb \<Rightarrow> ('e, 's, 'err) codec \<Rightarrow>
    ('e, 's) storage_op list \<Rightarrow> ('db, 'wb) persistent_storage \<Rightarrow> ('db, 'wb, 'err) ps_result" where
  "ps_write_atomically R C ops self =
     (case batch_ops R C ops self of
        (Inl e, self') \<Rightarrow> (Inl e, self')
      | (Inr _, self') \<Rightarrow>
          (let self1 = self'\<lparr>ps_write_batch := wb_default R\<rparr>
           in case db_write R (ps_write_batch self') (ps_db self') of
                Inl e \<Rightarrow> (Inl (Foreign e), self1)
              | Inr db \<Rightarrow> (Inr (), self1\<lparr>ps_db := db\<rparr>)))"

subsubsection \<open>Direct operations\<close>

definition ps_append_entry :: "('db, 'wb, 'it, 'err) rocksdb \<Rightarrow> ('e, 's, 'err) codec \<Rightarrow> 'e \<Rightarrow>
    ('db, 'wb) persistent_storage \<Rightarrow> ('db, 'wb, 'err) ps_result" where
  "ps_append_entry R C entry self =
     (case ser_entry C entry of
        Inl e \<Rightarrow> (Inl (Foreign e), self)
      | Inr bs \<Rightarrow>
          (case db_put_log R (to_be_bytes (ps_next_log_key self)) bs (ps_db self) of
             Inl e \<Rightarrow> (Inl (Foreign e), self)
           | Inr db \<Rightarrow> (Inr (), self\<lparr>ps_db := db, ps_next_log_key := ps_next_log_key self + 1\<rparr>)))"

text \<open>The loop of \<^verbatim>\<open>append_entries\<close> over its own batch: the new key, and the batch or an error.\<close>

fun collect_entries :: "('db, 'wb, 'it, 'err) rocksdb \<Rightarrow> ('e, 's, 'err) codec \<Rightarrow> 'e list \<Rightarrow> 'wb \<Rightarrow>
    nat \<Rightarrow> ('err + 'wb) \<times> nat" where
  "collect_entries R C [] batch key = (Inr batch, key)"
| "collect_entries R C (entry # entries) batch key =
     (case ser_entry C entry of
        Inl e \<Rightarrow> (Inl e, key)
      | Inr bs \<Rightarrow> collect_entries R C entries (wb_put_log R (to_be_bytes key) bs batch) (key + 1))"

definition ps_append_entries :: "('db, 'wb, 'it, 'err) rocksdb \<Rightarrow> ('e, 's, 'err) codec \<Rightarrow> 'e list \<Rightarrow>
    ('db, 'wb) persistent_storage \<Rightarrow> ('db, 'wb, 'err) ps_result" where
  "ps_append_entries R C entries self =
     (case collect_entries R C entries (wb_default R) (ps_next_log_key self) of
        (Inl e, key) \<Rightarrow> (Inl (Foreign e), self\<lparr>ps_next_log_key := key\<rparr>)
      | (Inr batch, key) \<Rightarrow>
          (case db_write R batch (ps_db self) of
             Inl e \<Rightarrow> (Inl (Foreign e), self\<lparr>ps_next_log_key := key\<rparr>)
           | Inr db \<Rightarrow> (Inr (), self\<lparr>ps_db := db, ps_next_log_key := key\<rparr>)))"

definition ps_append_on_prefix :: "('db, 'wb, 'it, 'err) rocksdb \<Rightarrow> ('e, 's, 'err) codec \<Rightarrow> nat \<Rightarrow>
    'e list \<Rightarrow> ('db, 'wb) persistent_storage \<Rightarrow> ('db, 'wb, 'err) ps_result" where
  "ps_append_on_prefix R C from_idx entries self =
     (let delete_idx = from_idx + length entries
      in case (if delete_idx < ps_next_log_key self
               then db_delete_range_log R (to_be_bytes delete_idx)
                 (to_be_bytes (ps_next_log_key self)) (ps_db self)
               else Inr (ps_db self)) of
           Inl e \<Rightarrow> (Inl (Foreign e), self)
         | Inr db \<Rightarrow> ps_append_entries R C entries (self\<lparr>ps_db := db, ps_next_log_key := from_idx\<rparr>))"

definition ps_put :: "('db, 'wb, 'it, 'err) rocksdb \<Rightarrow> bytes \<Rightarrow> 'err + bytes \<Rightarrow>
    ('db, 'wb) persistent_storage \<Rightarrow> ('db, 'wb, 'err) ps_result" where
  "ps_put R key ser self =
     (case ser of
        Inl e \<Rightarrow> (Inl (Foreign e), self)
      | Inr bs \<Rightarrow> (case db_put R key bs (ps_db self) of
          Inl e \<Rightarrow> (Inl (Foreign e), self)
        | Inr db \<Rightarrow> (Inr (), self\<lparr>ps_db := db\<rparr>)))"

definition ps_set_promise :: "('db, 'wb, 'it, 'err) rocksdb \<Rightarrow> ('e, 's, 'err) codec \<Rightarrow> ballot \<Rightarrow>
    ('db, 'wb) persistent_storage \<Rightarrow> ('db, 'wb, 'err) ps_result" where
  "ps_set_promise R C n_prom = ps_put R NPROM (ser_ballot C n_prom)"

definition ps_set_decided_idx :: "('db, 'wb, 'it, 'err) rocksdb \<Rightarrow> ('e, 's, 'err) codec \<Rightarrow> nat \<Rightarrow>
    ('db, 'wb) persistent_storage \<Rightarrow> ('db, 'wb, 'err) ps_result" where
  "ps_set_decided_idx R C ld = ps_put R DECIDE (Inr (usize_as_bytes C ld))"

definition ps_set_accepted_round :: "('db, 'wb, 'it, 'err) rocksdb \<Rightarrow> ('e, 's, 'err) codec \<Rightarrow> ballot \<Rightarrow>
    ('db, 'wb) persistent_storage \<Rightarrow> ('db, 'wb, 'err) ps_result" where
  "ps_set_accepted_round R C na = ps_put R ACC (ser_ballot C na)"

definition ps_set_compacted_idx :: "('db, 'wb, 'it, 'err) rocksdb \<Rightarrow> ('e, 's, 'err) codec \<Rightarrow> nat \<Rightarrow>
    ('db, 'wb) persistent_storage \<Rightarrow> ('db, 'wb, 'err) ps_result" where
  "ps_set_compacted_idx R C trimmed_idx = ps_put R TRIM (Inr (usize_as_bytes C trimmed_idx))"

definition ps_set_stopsign :: "('db, 'wb, 'it, 'err) rocksdb \<Rightarrow> ('e, 's, 'err) codec \<Rightarrow>
    stop_sign option \<Rightarrow> ('db, 'wb) persistent_storage \<Rightarrow> ('db, 'wb, 'err) ps_result" where
  "ps_set_stopsign R C s = ps_put R STOPSIGN (ser_stopsign C s)"

definition ps_set_snapshot :: "('db, 'wb, 'it, 'err) rocksdb \<Rightarrow> ('e, 's, 'err) codec \<Rightarrow>
    's option \<Rightarrow> ('db, 'wb) persistent_storage \<Rightarrow> ('db, 'wb, 'err) ps_result" where
  "ps_set_snapshot R C snapshot = ps_put R SNAPSHOT (ser_snapshot C snapshot)"

definition ps_trim :: "('db, 'wb, 'it, 'err) rocksdb \<Rightarrow> nat \<Rightarrow> ('db, 'wb) persistent_storage \<Rightarrow>
    ('db, 'wb, 'err) ps_result" where
  "ps_trim R trimmed_idx self =
     (case db_delete_range_log R (to_be_bytes 0) (to_be_bytes trimmed_idx) (ps_db self) of
        Inl e \<Rightarrow> (Inl (Foreign e), self)
      | Inr db \<Rightarrow> (Inr (), self\<lparr>ps_db := db\<rparr>))"

subsubsection \<open>Reads\<close>

fun read_entries :: "('db, 'wb, 'it, 'err) rocksdb \<Rightarrow> ('e, 's, 'err) codec \<Rightarrow> nat \<Rightarrow> 'it \<Rightarrow>
    'err storage_err + 'e list" where
  "read_entries R C 0 iter = Inr []"
| "read_entries R C (Suc n) iter =
     (case it_value R iter of
        None \<Rightarrow> Inl ErrHelper
      | Some bs \<Rightarrow>
          (case de_entry C bs of
             Inl e \<Rightarrow> Inl (Foreign e)
           | Inr entry \<Rightarrow> map_sum id ((#) entry) (read_entries R C n (it_next R iter))))"

definition ps_get_entries :: "('db, 'wb, 'it, 'err) rocksdb \<Rightarrow> ('e, 's, 'err) codec \<Rightarrow> nat \<Rightarrow> nat \<Rightarrow>
    ('db, 'wb) persistent_storage \<Rightarrow> 'err storage_err + 'e list" where
  "ps_get_entries R C from to self =
     (if ps_next_log_key self < to \<or> to \<le> from then Inr []
      else read_entries R C (to - from) (it_seek R (to_be_bytes from) (it_log R (ps_db self))))"

definition ps_get_suffix :: "('db, 'wb, 'it, 'err) rocksdb \<Rightarrow> ('e, 's, 'err) codec \<Rightarrow> nat \<Rightarrow>
    ('db, 'wb) persistent_storage \<Rightarrow> 'err storage_err + 'e list" where
  "ps_get_suffix R C from self = ps_get_entries R C from (ps_next_log_key self) self"

text \<open>A value of the default column family: absent, or deserialised.\<close>

definition ps_read :: "('db, 'wb, 'it, 'err) rocksdb \<Rightarrow> bytes \<Rightarrow> 'a \<Rightarrow> (bytes \<Rightarrow> 'err storage_err + 'a) \<Rightarrow>
    ('db, 'wb) persistent_storage \<Rightarrow> 'err storage_err + 'a" where
  "ps_read R key absent de self =
     (case db_get R key (ps_db self) of
        Inl e \<Rightarrow> Inl (Foreign e)
      | Inr None \<Rightarrow> Inr absent
      | Inr (Some bs) \<Rightarrow> de bs)"

definition read_usize :: "('e, 's, 'err) codec \<Rightarrow> bytes \<Rightarrow> 'err storage_err + nat" where
  "read_usize C bs = (case usize_read_from C bs of None \<Rightarrow> Inl ErrHelper | Some n \<Rightarrow> Inr n)"

definition ps_get_promise :: "('db, 'wb, 'it, 'err) rocksdb \<Rightarrow> ('e, 's, 'err) codec \<Rightarrow>
    ('db, 'wb) persistent_storage \<Rightarrow> 'err storage_err + ballot option" where
  "ps_get_promise R C = ps_read R NPROM None (\<lambda>bs. map_sum Foreign Some (de_ballot C bs))"

definition ps_get_decided_idx :: "('db, 'wb, 'it, 'err) rocksdb \<Rightarrow> ('e, 's, 'err) codec \<Rightarrow>
    ('db, 'wb) persistent_storage \<Rightarrow> 'err storage_err + nat" where
  "ps_get_decided_idx R C = ps_read R DECIDE 0 (read_usize C)"

definition ps_get_accepted_round :: "('db, 'wb, 'it, 'err) rocksdb \<Rightarrow> ('e, 's, 'err) codec \<Rightarrow>
    ('db, 'wb) persistent_storage \<Rightarrow> 'err storage_err + ballot option" where
  "ps_get_accepted_round R C = ps_read R ACC None (\<lambda>bs. map_sum Foreign Some (de_ballot C bs))"

definition ps_get_compacted_idx :: "('db, 'wb, 'it, 'err) rocksdb \<Rightarrow> ('e, 's, 'err) codec \<Rightarrow>
    ('db, 'wb) persistent_storage \<Rightarrow> 'err storage_err + nat" where
  "ps_get_compacted_idx R C = ps_read R TRIM 0 (read_usize C)"

definition ps_get_stopsign :: "('db, 'wb, 'it, 'err) rocksdb \<Rightarrow> ('e, 's, 'err) codec \<Rightarrow>
    ('db, 'wb) persistent_storage \<Rightarrow> 'err storage_err + stop_sign option" where
  "ps_get_stopsign R C = ps_read R STOPSIGN None (\<lambda>bs. map_sum Foreign id (de_stopsign C bs))"

definition ps_get_snapshot :: "('db, 'wb, 'it, 'err) rocksdb \<Rightarrow> ('e, 's, 'err) codec \<Rightarrow>
    ('db, 'wb) persistent_storage \<Rightarrow> 'err storage_err + 's option" where
  "ps_get_snapshot R C = ps_read R SNAPSHOT None (\<lambda>bs. map_sum Foreign id (de_snapshot C bs))"

definition ps_get_log_len :: "('db, 'wb, 'it, 'err) rocksdb \<Rightarrow> ('e, 's, 'err) codec \<Rightarrow>
    ('db, 'wb) persistent_storage \<Rightarrow> ('err storage_err + nat) option" where
  "ps_get_log_len R C self =
     (case ps_get_compacted_idx R C self of
        Inl e \<Rightarrow> Some (Inl e)
      | Inr compacted_idx \<Rightarrow> map_option Inr (checked_sub (ps_next_log_key self) compacted_idx))"

subsection \<open>What is documented of the libraries\<close>

text \<open>
  The contents of a database (default column family, log column family in key order), the
  effect of a batch on them, and the entries an iterator is over and those it has left.
\<close>

type_synonym contents = "(bytes \<rightharpoonup> bytes) \<times> (bytes \<rightharpoonup> bytes)"

record ('db, 'wb, 'it) views =
  v_default :: "'db \<Rightarrow> bytes \<rightharpoonup> bytes"
  v_log :: "'db \<Rightarrow> (bytes \<times> bytes) list"
  v_batch :: "'wb \<Rightarrow> contents \<Rightarrow> contents"
  v_all :: "'it \<Rightarrow> (bytes \<times> bytes) list"
  v_left :: "'it \<Rightarrow> (bytes \<times> bytes) list"

definition delete_range :: "bytes \<Rightarrow> bytes \<Rightarrow> (bytes \<rightharpoonup> bytes) \<Rightarrow> (bytes \<rightharpoonup> bytes)" where
  "delete_range a b m = (\<lambda>k. if a \<le> k \<and> k < b then None else m k)"

definition contents_of :: "('db, 'wb, 'it) views \<Rightarrow> 'db \<Rightarrow> contents" where
  "contents_of V db = (v_default V db, map_of (v_log V db))"

definition rocksdb_laws :: "('db, 'wb, 'it, 'err) rocksdb \<Rightarrow> ('db, 'wb, 'it) views \<Rightarrow> bool" where
  "rocksdb_laws R V \<longleftrightarrow>
     (\<forall>db. sorted_wrt (<) (map fst (v_log V db))) \<and>
     (\<forall>k db r. db_get R k db = Inr r \<longrightarrow> r = v_default V db k) \<and>
     (\<forall>k v db db'. db_put R k v db = Inr db' \<longrightarrow>
        contents_of V db' = ((v_default V db)(k \<mapsto> v), map_of (v_log V db))) \<and>
     (\<forall>k v db db'. db_put_log R k v db = Inr db' \<longrightarrow>
        contents_of V db' = (v_default V db, (map_of (v_log V db))(k \<mapsto> v))) \<and>
     (\<forall>a b db db'. db_delete_range_log R a b db = Inr db' \<longrightarrow>
        contents_of V db' = (v_default V db, delete_range a b (map_of (v_log V db)))) \<and>
     (\<forall>wb db db'. db_write R wb db = Inr db' \<longrightarrow> contents_of V db' = v_batch V wb (contents_of V db)) \<and>
     (\<forall>s. v_batch V (wb_default R) s = s) \<and>
     (\<forall>k v wb s. v_batch V (wb_put R k v wb) s =
        ((fst (v_batch V wb s))(k \<mapsto> v), snd (v_batch V wb s))) \<and>
     (\<forall>k v wb s. v_batch V (wb_put_log R k v wb) s =
        (fst (v_batch V wb s), (snd (v_batch V wb s))(k \<mapsto> v))) \<and>
     (\<forall>a b wb s. v_batch V (wb_delete_range_log R a b wb) s =
        (fst (v_batch V wb s), delete_range a b (snd (v_batch V wb s)))) \<and>
     (\<forall>db. v_all V (it_log R db) = v_log V db) \<and>
     (\<forall>k it. v_all V (it_seek R k it) = v_all V it \<and>
        v_left V (it_seek R k it) = filter (\<lambda>p. k \<le> fst p) (v_all V it)) \<and>
     (\<forall>it. v_left V (it_seek_to_last R it) = (if v_all V it = [] then [] else [last (v_all V it)])) \<and>
     (\<forall>it. v_left V (it_next R it) = tl (v_left V it)) \<and>
     (\<forall>it. it_valid R it \<longleftrightarrow> v_left V it \<noteq> []) \<and>
     (\<forall>it. it_key R it = (if v_left V it = [] then None else Some (fst (hd (v_left V it))))) \<and>
     (\<forall>it. it_value R it = (if v_left V it = [] then None else Some (snd (hd (v_left V it)))))"

definition codec_laws :: "('e, 's, 'err) codec \<Rightarrow> bool" where
  "codec_laws C \<longleftrightarrow>
     (\<forall>x bs. ser_entry C x = Inr bs \<longrightarrow> de_entry C bs = Inr x) \<and>
     (\<forall>x bs. ser_ballot C x = Inr bs \<longrightarrow> de_ballot C bs = Inr x) \<and>
     (\<forall>x bs. ser_stopsign C x = Inr bs \<longrightarrow> de_stopsign C bs = Inr x) \<and>
     (\<forall>x bs. ser_snapshot C x = Inr bs \<longrightarrow> de_snapshot C bs = Inr x) \<and>
     (\<forall>n < 2 ^ 64. usize_read_from C (usize_as_bytes C n) = Some n)"

end
