(* ===== verification/Internal_Storage.thy ===== *)
theory Internal_Storage
  imports Memory_Storage
begin

text \<open>
  \<^verbatim>\<open>storage/state_cache.rs\<close> and \<^verbatim>\<open>storage/internal_storage.rs\<close>: the cached state values, the
  batching of appended entries and the operations Sequence Paxos uses on its log, over the
  in-memory backend. \<open>storage_wf\<close> says that the cache agrees with the backend; every
  operation preserves it. \<open>pending_log\<close> (stored entries followed by batched ones) is the log
  as the protocol sees it; batching refines appending to it.
\<close>

subsection \<open>Errors\<close>

text \<open>
  A computation that may panic or return a compaction error; the \<^verbatim>\<open>?\<close> operator and
  \<^verbatim>\<open>expect\<close>.
\<close>

type_synonym 'a result = "(compaction_err + 'a) option"

definition try_res :: "'a result \<Rightarrow> ('a \<Rightarrow> 'b result) \<Rightarrow> 'b result" where
  "try_res m f = do { r \<leftarrow> m; case r of Inl e \<Rightarrow> Some (Inl e) | Inr x \<Rightarrow> f x }"

definition expect :: "'a result \<Rightarrow> 'a option" where
  "expect m = do { r \<leftarrow> m; case r of Inl e \<Rightarrow> None | Inr x \<Rightarrow> Some x }"

lemma try_res_Inr [simp]:
  "try_res m f = Some (Inr y) \<longleftrightarrow> (\<exists>x. m = Some (Inr x) \<and> f x = Some (Inr y))"
  by (auto simp: try_res_def split: sum.split_asm)

lemma expect_Some [simp]: "expect m = Some x \<longleftrightarrow> m = Some (Inr x)"
  by (auto simp: expect_def split: sum.split_asm)

subsection \<open>The state cache\<close>

record 'e state_cache =
  sc_batch_size :: nat
  sc_batched_entries :: "'e list"
  sc_promise :: ballot
  sc_accepted_round :: ballot
  sc_decided_idx :: nat
  sc_accepted_idx :: nat
  sc_compacted_idx :: nat
  sc_stopsign :: "stop_sign option"

definition sc_new :: "nat \<Rightarrow> 'e state_cache" where
  "sc_new batch_size = \<lparr>sc_batch_size = batch_size, sc_batched_entries = [],
     sc_promise = default_ballot, sc_accepted_round = default_ballot, sc_decided_idx = 0,
     sc_accepted_idx = 0, sc_compacted_idx = 0, sc_stopsign = None\<rparr>"

definition sc_take_batched_entries :: "'e state_cache \<Rightarrow> 'e list \<times> 'e state_cache" where
  "sc_take_batched_entries sc = (sc_batched_entries sc, sc\<lparr>sc_batched_entries := []\<rparr>)"

definition sc_take_entries_if_batch_is_full ::
    "'e state_cache \<Rightarrow> 'e list option \<times> 'e state_cache" where
  "sc_take_entries_if_batch_is_full sc =
     (if sc_batch_size sc \<le> length (sc_batched_entries sc)
      then (case sc_take_batched_entries sc of (es, sc') \<Rightarrow> (Some es, sc'))
      else (None, sc))"

definition sc_append_entry :: "'e \<Rightarrow> 'e state_cache \<Rightarrow> 'e list option \<times> 'e state_cache" where
  "sc_append_entry entry sc =
     sc_take_entries_if_batch_is_full (sc\<lparr>sc_batched_entries := sc_batched_entries sc @ [entry]\<rparr>)"

definition sc_append_entries :: "'e list \<Rightarrow> 'e state_cache \<Rightarrow> 'e list option \<times> 'e state_cache" where
  "sc_append_entries entries sc =
     sc_take_entries_if_batch_is_full (sc\<lparr>sc_batched_entries := sc_batched_entries sc @ entries\<rparr>)"

definition sc_append_stopsign ::
    "stop_sign \<Rightarrow> 'e state_cache \<Rightarrow> 'e list option \<times> 'e state_cache" where
  "sc_append_stopsign ss sc =
     (let sc1 = sc\<lparr>sc_stopsign := Some ss\<rparr>
      in if sc_batched_entries sc1 = [] then (None, sc1)
         else (case sc_take_batched_entries sc1 of (es, sc2) \<Rightarrow> (Some es, sc2)))"

definition sc_stopsign_is_decided :: "'e state_cache \<Rightarrow> bool" where
  "sc_stopsign_is_decided sc \<longleftrightarrow> sc_stopsign sc \<noteq> None \<and> sc_decided_idx sc = sc_accepted_idx sc"

subsection \<open>Internal storage\<close>

record ('e, 's) internal_storage =
  is_storage :: "('e, 's) memory_storage"
  is_cache :: "'e state_cache"

record 'e accepted_meta_data =
  amd_accepted_idx :: nat
  amd_entries :: "'e list"

datatype ('e, 's) log_entry =
    Decided 'e
  | Undecided 'e
  | Trimmed nat
  | Snapshotted nat 's
  | StopSign stop_sign bool

datatype index_entry = EntryI | CompactedI | StopSignI stop_sign

datatype bound = Included nat | Excluded nat | Unbounded

definition get_decided_idx :: "('e, 's) internal_storage \<Rightarrow> nat" where
  "get_decided_idx self = sc_decided_idx (is_cache self)"

definition get_accepted_idx :: "('e, 's) internal_storage \<Rightarrow> nat" where
  "get_accepted_idx self = sc_accepted_idx (is_cache self)"

definition get_compacted_idx :: "('e, 's) internal_storage \<Rightarrow> nat" where
  "get_compacted_idx self = sc_compacted_idx (is_cache self)"

definition get_accepted_round :: "('e, 's) internal_storage \<Rightarrow> ballot" where
  "get_accepted_round self = sc_accepted_round (is_cache self)"

definition get_promise :: "('e, 's) internal_storage \<Rightarrow> ballot" where
  "get_promise self = sc_promise (is_cache self)"

definition get_stopsign :: "('e, 's) internal_storage \<Rightarrow> stop_sign option" where
  "get_stopsign self = sc_stopsign (is_cache self)"

definition stopsign_is_decided :: "('e, 's) internal_storage \<Rightarrow> bool" where
  "stopsign_is_decided self = sc_stopsign_is_decided (is_cache self)"

definition get_entries :: "nat \<Rightarrow> nat \<Rightarrow> ('e, 's) internal_storage \<Rightarrow> 'e list option" where
  "get_entries from to self = ms_get_entries from to (is_storage self)"

definition get_suffix :: "nat \<Rightarrow> ('e, 's) internal_storage \<Rightarrow> 'e list option" where
  "get_suffix from self = ms_get_suffix from (is_storage self)"

definition get_decided_idx_without_stopsign :: "('e, 's) internal_storage \<Rightarrow> nat option" where
  "get_decided_idx_without_stopsign self =
     (if stopsign_is_decided self then checked_sub (get_decided_idx self) 1
      else Some (get_decided_idx self))"

definition load_cache :: "('e, 's) internal_storage \<Rightarrow> ('e, 's) internal_storage" where
  "load_cache self =
     (let st = is_storage self; c = is_cache self
      in self\<lparr>is_cache := c\<lparr>
           sc_promise := (case ms_n_prom st of None \<Rightarrow> default_ballot | Some b \<Rightarrow> b),
           sc_decided_idx := ms_ld st,
           sc_accepted_round := (case ms_acc_round st of None \<Rightarrow> default_ballot | Some b \<Rightarrow> b),
           sc_compacted_idx := ms_compacted_idx st,
           sc_stopsign := ms_stopsign st,
           sc_accepted_idx := ms_get_log_len st + ms_compacted_idx st +
             (if ms_stopsign st \<noteq> None then 1 else 0)\<rparr>\<rparr>)"

definition internal_storage_with :: "('e, 's) memory_storage \<Rightarrow> nat \<Rightarrow> ('e, 's) internal_storage" where
  "internal_storage_with storage batch_size =
     load_cache \<lparr>is_storage = storage, is_cache = sc_new batch_size\<rparr>"

subsubsection \<open>Reading\<close>

definition get_entry_type ::
    "nat \<Rightarrow> nat \<Rightarrow> nat \<Rightarrow> ('e, 's) internal_storage \<Rightarrow> index_entry option" where
  "get_entry_type idx compacted_idx accepted_idx self =
     (if idx < compacted_idx then Some CompactedI
      else if idx + 1 < accepted_idx then Some EntryI
      else if idx + 1 = accepted_idx then
        (case get_stopsign self of Some ss \<Rightarrow> Some (StopSignI ss) | None \<Rightarrow> Some EntryI)
      else None)"

definition create_read_log_entries ::
    "nat \<Rightarrow> nat \<Rightarrow> ('e, 's) internal_storage \<Rightarrow> ('e, 's) log_entry list option" where
  "create_read_log_entries from to self = do {
     let decided_idx = get_decided_idx self;
     es \<leftarrow> get_entries from to self;
     Some (map (\<lambda>(idx, e). if idx + from < decided_idx then Decided e else Undecided e)
       (enumerate 0 es))
   }"

definition create_compacted_entry :: "nat \<Rightarrow> ('e, 's) internal_storage \<Rightarrow> ('e, 's) log_entry" where
  "create_compacted_entry compacted_idx self =
     (case ms_snapshot (is_storage self) of
        Some s \<Rightarrow> Snapshotted compacted_idx s
      | None \<Rightarrow> Trimmed compacted_idx)"

text \<open>\<^verbatim>\<open>read\<close>: the outer option is a panic, the inner one the \<^verbatim>\<open>None\<close> of an out-of-bounds range.\<close>

definition read_range :: "nat \<Rightarrow> nat \<Rightarrow> ('e, 's) internal_storage \<Rightarrow>
    ('e, 's) log_entry list option option" where
  "read_range from_idx to_idx self =
     (if to_idx = 0 then Some None
      else
        let compacted_idx = get_compacted_idx self; accepted_idx = get_accepted_idx self
        in case get_entry_type (to_idx - 1) compacted_idx accepted_idx self of
             None \<Rightarrow> Some None
           | Some CompactedI \<Rightarrow> Some (Some [create_compacted_entry compacted_idx self])
           | Some to_type \<Rightarrow>
             (case get_entry_type from_idx compacted_idx accepted_idx self of
                None \<Rightarrow> Some None
              | Some from_type \<Rightarrow>
                (case (from_type, to_type) of
                   (EntryI, EntryI) \<Rightarrow> do {
                     es \<leftarrow> create_read_log_entries from_idx to_idx self;
                     Some (Some es) }
                 | (EntryI, StopSignI ss) \<Rightarrow> do {
                     es \<leftarrow> create_read_log_entries from_idx (to_idx - 1) self;
                     Some (Some (es @ [StopSign ss (stopsign_is_decided self)])) }
                 | (CompactedI, EntryI) \<Rightarrow> do {
                     es \<leftarrow> create_read_log_entries compacted_idx to_idx self;
                     Some (Some (create_compacted_entry compacted_idx self # es)) }
                 | (CompactedI, StopSignI ss) \<Rightarrow> do {
                     es \<leftarrow> create_read_log_entries compacted_idx (to_idx - 1) self;
                     Some (Some (create_compacted_entry compacted_idx self # es @
                       [StopSign ss (stopsign_is_decided self)])) }
                 | (StopSignI ss, StopSignI _) \<Rightarrow>
                     Some (Some [StopSign ss (stopsign_is_decided self)])
                 | _ \<Rightarrow> None)))"

definition read :: "bound \<Rightarrow> bound \<Rightarrow> ('e, 's) internal_storage \<Rightarrow>
    ('e, 's) log_entry list option option" where
  "read start_bound end_bound self =
     read_range
       (case start_bound of Included i \<Rightarrow> i | Excluded e \<Rightarrow> e + 1 | Unbounded \<Rightarrow> 0)
       (case end_bound of Included i \<Rightarrow> i + 1 | Excluded e \<Rightarrow> e | Unbounded \<Rightarrow> get_accepted_idx self)
       self"

definition read_decided_suffix :: "nat \<Rightarrow> ('e, 's) internal_storage \<Rightarrow>
    ('e, 's) log_entry list option option" where
  "read_decided_suffix from_idx self =
     (let decided_idx = get_decided_idx self
      in if from_idx < decided_idx then read (Included from_idx) (Excluded decided_idx) self
         else Some None)"

subsubsection \<open>Appending and flushing\<close>

definition append_entries_without_batching ::
    "'e list \<Rightarrow> ('e, 's) internal_storage \<Rightarrow> nat \<times> ('e, 's) internal_storage" where
  "append_entries_without_batching es self =
     (let num_new_entries = length es;
          c = is_cache self;
          self' = self\<lparr>is_storage := ms_append_entries es (is_storage self),
                   is_cache := c\<lparr>sc_accepted_idx := sc_accepted_idx c + num_new_entries\<rparr>\<rparr>
      in (get_accepted_idx self', self'))"

definition flush_if_full_batch :: "'e list option \<Rightarrow> ('e, 's) internal_storage \<Rightarrow>
    'e accepted_meta_data option \<times> ('e, 's) internal_storage" where
  "flush_if_full_batch append_res self =
     (case append_res of
        Some flushed_entries \<Rightarrow>
          (case append_entries_without_batching flushed_entries self of (accepted_idx, self') \<Rightarrow>
             (Some \<lparr>amd_accepted_idx = accepted_idx, amd_entries = flushed_entries\<rparr>, self'))
      | None \<Rightarrow> (None, self))"

definition append_entry_with_batching :: "'e \<Rightarrow> ('e, 's) internal_storage \<Rightarrow>
    'e accepted_meta_data option \<times> ('e, 's) internal_storage" where
  "append_entry_with_batching entry self =
     (case sc_append_entry entry (is_cache self) of (append_res, c) \<Rightarrow>
        flush_if_full_batch append_res (self\<lparr>is_cache := c\<rparr>))"

definition append_entries_with_batching :: "'e list \<Rightarrow> ('e, 's) internal_storage \<Rightarrow>
    'e accepted_meta_data option \<times> ('e, 's) internal_storage" where
  "append_entries_with_batching entries self =
     (case sc_append_entries entries (is_cache self) of (append_res, c) \<Rightarrow>
        flush_if_full_batch append_res (self\<lparr>is_cache := c\<rparr>))"

definition append_stopsign :: "stop_sign \<Rightarrow> ('e, 's) internal_storage \<Rightarrow>
    'e accepted_meta_data option \<times> ('e, 's) internal_storage" where
  "append_stopsign ss self =
     (case sc_append_stopsign ss (is_cache self) of (append_res, c) \<Rightarrow>
        (case flush_if_full_batch append_res (self\<lparr>is_cache := c\<rparr>) of (meta, is1) \<Rightarrow>
           let c1 = is_cache is1
           in (meta, is1\<lparr>is_storage := ms_set_stopsign (Some ss) (is_storage is1),
                         is_cache := c1\<lparr>sc_accepted_idx := sc_accepted_idx c1 + 1\<rparr>\<rparr>)))"

definition append_entries_and_get_accepted_idx :: "'e list \<Rightarrow> ('e, 's) internal_storage \<Rightarrow>
    nat option \<times> ('e, 's) internal_storage" where
  "append_entries_and_get_accepted_idx entries self =
     (case sc_append_entries entries (is_cache self) of (append_res, c) \<Rightarrow>
        (case append_res of
           Some flushed_entries \<Rightarrow>
             (case append_entries_without_batching flushed_entries (self\<lparr>is_cache := c\<rparr>) of
                (accepted_idx, self') \<Rightarrow> (Some accepted_idx, self'))
         | None \<Rightarrow> (None, self\<lparr>is_cache := c\<rparr>)))"

definition flush_batch :: "('e, 's) internal_storage \<Rightarrow> nat \<times> ('e, 's) internal_storage" where
  "flush_batch self =
     (case sc_take_batched_entries (is_cache self) of (flushed_entries, c) \<Rightarrow>
        append_entries_without_batching flushed_entries (self\<lparr>is_cache := c\<rparr>))"

definition flush_batch_and_get_entries :: "('e, 's) internal_storage \<Rightarrow>
    'e accepted_meta_data option \<times> ('e, 's) internal_storage" where
  "flush_batch_and_get_entries self =
     (if sc_batched_entries (is_cache self) \<noteq> []
      then (case sc_take_batched_entries (is_cache self) of (es, c) \<Rightarrow>
              flush_if_full_batch (Some es) (self\<lparr>is_cache := c\<rparr>))
      else flush_if_full_batch None self)"

subsubsection \<open>State values\<close>

definition set_promise :: "ballot \<Rightarrow> ('e, 's) internal_storage \<Rightarrow> ('e, 's) internal_storage" where
  "set_promise n_prom self =
     self\<lparr>is_cache := (is_cache self)\<lparr>sc_promise := n_prom\<rparr>,
        is_storage := ms_set_promise n_prom (is_storage self)\<rparr>"

definition set_decided_idx :: "nat \<Rightarrow> ('e, 's) internal_storage \<Rightarrow> ('e, 's) internal_storage" where
  "set_decided_idx idx self =
     self\<lparr>is_cache := (is_cache self)\<lparr>sc_decided_idx := idx\<rparr>,
        is_storage := ms_set_decided_idx idx (is_storage self)\<rparr>"

definition set_stopsign :: "stop_sign option \<Rightarrow> ('e, 's) internal_storage \<Rightarrow>
    (nat \<times> ('e, 's) internal_storage) option" where
  "set_stopsign ss self = do {
     let c = is_cache self;
     accepted_idx \<leftarrow>
       (if ss \<noteq> None \<and> sc_stopsign c = None then Some (sc_accepted_idx c + 1)
        else if ss = None \<and> sc_stopsign c \<noteq> None then checked_sub (sc_accepted_idx c) 1
        else Some (sc_accepted_idx c));
     Some (accepted_idx,
       self\<lparr>is_cache := c\<lparr>sc_accepted_idx := accepted_idx, sc_stopsign := ss\<rparr>,
          is_storage := ms_set_stopsign ss (is_storage self)\<rparr>)
   }"

subsubsection \<open>Snapshots and compaction\<close>

definition create_snapshot :: "('e, 's) env \<Rightarrow> nat \<Rightarrow> ('e, 's) internal_storage \<Rightarrow> 's result" where
  "create_snapshot env compact_idx self =
     (let current_compacted_idx = get_compacted_idx self
      in if compact_idx < current_compacted_idx
         then Some (Inl (TrimmedIndex current_compacted_idx))
         else do {
           es \<leftarrow> ms_get_entries current_compacted_idx compact_idx (is_storage self);
           delta \<leftarrow> snap_create env es;
           case ms_snapshot (is_storage self) of
             Some s \<Rightarrow> do { s' \<leftarrow> snap_merge env s delta; Some (Inr s') }
           | None \<Rightarrow> Some (Inr delta)
         })"

definition create_decided_snapshot :: "('e, 's) env \<Rightarrow> ('e, 's) internal_storage \<Rightarrow> 's result" where
  "create_decided_snapshot env self = do {
     log_decided_idx \<leftarrow> get_decided_idx_without_stopsign self;
     create_snapshot env log_decided_idx self
   }"

definition create_diff_snapshot :: "('e, 's) env \<Rightarrow> nat \<Rightarrow> ('e, 's) internal_storage \<Rightarrow>
    ('s snapshot_type option \<times> nat) result" where
  "create_diff_snapshot env from_idx self = do {
     log_decided_idx \<leftarrow> get_decided_idx_without_stopsign self;
     let compacted_idx = get_compacted_idx self;
     if from_idx \<le> compacted_idx then
       (if compacted_idx < log_decided_idx
        then try_res (create_snapshot env log_decided_idx self)
               (\<lambda>s. Some (Inr (Some (Complete s), log_decided_idx)))
        else Some (Inr (map_option Complete (ms_snapshot (is_storage self)), log_decided_idx)))
     else do {
       diff_entries \<leftarrow> get_entries from_idx log_decided_idx self;
       d \<leftarrow> snap_create env diff_entries;
       Some (Inr (Some (Delta d), log_decided_idx))
     }
   }"

definition try_trim :: "nat \<Rightarrow> ('e, 's) internal_storage \<Rightarrow> ('e, 's) internal_storage result" where
  "try_trim idx self = do {
     let decided_idx = get_decided_idx self;
     log_decided_idx \<leftarrow> get_decided_idx_without_stopsign self;
     if decided_idx < idx then Some (Inl (UndecidedIndex decided_idx))
     else do {
       let new_compacted_idx = (if idx = decided_idx then log_decided_idx else idx);
       if get_compacted_idx self < new_compacted_idx then do {
         st \<leftarrow> ms_write_atomically [Trim new_compacted_idx, SetCompactedIdx new_compacted_idx]
                (is_storage self);
         Some (Inr (self\<lparr>is_storage := st,
           is_cache := (is_cache self)\<lparr>sc_compacted_idx := new_compacted_idx\<rparr>\<rparr>))
       } else Some (Inr self)
     }
   }"

definition try_snapshot :: "('e, 's) env \<Rightarrow> nat option \<Rightarrow> ('e, 's) internal_storage \<Rightarrow>
    ('e, 's) internal_storage result" where
  "try_snapshot env snapshot_idx self = do {
     let decided_idx = get_decided_idx self;
     log_decided_idx \<leftarrow> get_decided_idx_without_stopsign self;
     case (case snapshot_idx of
             Some i \<Rightarrow> if decided_idx < i then Inl (UndecidedIndex decided_idx)
                       else if i = decided_idx then Inr log_decided_idx else Inr i
           | None \<Rightarrow> Inr log_decided_idx) of
       Inl e \<Rightarrow> Some (Inl e)
     | Inr new_compacted_idx \<Rightarrow>
         if get_compacted_idx self < new_compacted_idx then
           try_res (create_snapshot env new_compacted_idx self) (\<lambda>snapshot. do {
             st \<leftarrow> ms_write_atomically [Trim new_compacted_idx, SetCompactedIdx new_compacted_idx,
                    SetSnapshot (Some snapshot)] (is_storage self);
             Some (Inr (self\<lparr>is_storage := st,
               is_cache := (is_cache self)\<lparr>sc_compacted_idx := new_compacted_idx\<rparr>\<rparr>))
           })
         else Some (Inr self)
   }"

subsubsection \<open>Log synchronisation\<close>

text \<open>
  The snapshot part of \<^verbatim>\<open>sync_log\<close>: the operations it adds to the transaction and the new
  compacted index. A delta is merged into a snapshot of the local decided log.
\<close>

definition sync_snapshot :: "('e, 's) env \<Rightarrow> ('e, 's) log_sync \<Rightarrow> ('e, 's) internal_storage \<Rightarrow>
    (('e, 's) storage_op list \<times> nat) result" where
  "sync_snapshot env sync self =
     (case ls_decided_snapshot sync of
        Some (Complete c) \<Rightarrow>
          Some (Inr ([Trim (ls_sync_idx sync), SetCompactedIdx (ls_sync_idx sync),
                      SetSnapshot (Some c)], ls_sync_idx sync))
      | Some (Delta d) \<Rightarrow>
          try_res (create_decided_snapshot env self) (\<lambda>snapshot. do {
            merged \<leftarrow> snap_merge env snapshot d;
            Some (Inr ([Trim (ls_sync_idx sync), SetCompactedIdx (ls_sync_idx sync),
                        SetSnapshot (Some merged)], ls_sync_idx sync))
          })
      | None \<Rightarrow> Some (Inr ([], get_compacted_idx self)))"

definition sync_log :: "('e, 's) env \<Rightarrow> ballot \<Rightarrow> nat \<Rightarrow> ('e, 's) log_sync option \<Rightarrow>
    ('e, 's) internal_storage \<Rightarrow> (nat \<times> ('e, 's) internal_storage) result" where
  "sync_log env accepted_round decided_idx log_sync self =
     (let c1 = (is_cache self)\<lparr>sc_accepted_round := accepted_round, sc_decided_idx := decided_idx\<rparr>;
          is1 = self\<lparr>is_cache := c1\<rparr>;
          txn1 = [SetAcceptedRound accepted_round, SetDecidedIndex decided_idx]
      in case log_sync of
           None \<Rightarrow> do {
             st \<leftarrow> ms_write_atomically txn1 (is_storage is1);
             Some (Inr (sc_accepted_idx c1, is1\<lparr>is_storage := st\<rparr>))
           }
         | Some sync \<Rightarrow>
             try_res (sync_snapshot env sync is1) (\<lambda>(snap_ops, compacted_idx). do {
               let c2 = c1\<lparr>sc_compacted_idx := compacted_idx,
                           sc_accepted_idx := ls_sync_idx sync + length (ls_suffix sync)\<rparr>;
               let (ss_ops, c3) =
                 (case ls_stopsign sync of
                    Some ss \<Rightarrow> ([SetStopsign (Some ss)],
                                c2\<lparr>sc_stopsign := Some ss, sc_accepted_idx := sc_accepted_idx c2 + 1\<rparr>)
                  | None \<Rightarrow> (if sc_stopsign c2 \<noteq> None
                             then ([SetStopsign None], c2\<lparr>sc_stopsign := None\<rparr>)
                             else ([], c2)));
               st \<leftarrow> ms_write_atomically
                      (txn1 @ snap_ops @ [AppendOnPrefix (ls_sync_idx sync) (ls_suffix sync)] @ ss_ops)
                      (is_storage is1);
               Some (Inr (sc_accepted_idx c3, is1\<lparr>is_storage := st, is_cache := c3\<rparr>))
             }))"

subsection \<open>The cache agrees with the backend\<close>

definition storage_wf :: "('e, 's) internal_storage \<Rightarrow> bool" where
  "storage_wf self \<longleftrightarrow>
     (let st = is_storage self; c = is_cache self
      in sc_promise c = (case ms_n_prom st of None \<Rightarrow> default_ballot | Some b \<Rightarrow> b) \<and>
         sc_accepted_round c = (case ms_acc_round st of None \<Rightarrow> default_ballot | Some b \<Rightarrow> b) \<and>
         sc_decided_idx c = ms_ld st \<and>
         sc_compacted_idx c = ms_compacted_idx st \<and>
         ms_trimmed_idx st = ms_compacted_idx st \<and>
         sc_stopsign c = ms_stopsign st \<and>
         sc_accepted_idx c = ms_compacted_idx st + length (ms_log st) +
           (if ms_stopsign st \<noteq> None then 1 else 0))"

lemmas get_defs = get_decided_idx_def get_accepted_idx_def get_compacted_idx_def
  get_accepted_round_def get_promise_def get_stopsign_def stopsign_is_decided_def
  sc_stopsign_is_decided_def get_entries_def get_suffix_def

lemmas append_defs = append_entry_with_batching_def append_entries_with_batching_def
  append_entries_and_get_accepted_idx_def flush_batch_def flush_batch_and_get_entries_def
  flush_if_full_batch_def append_entries_without_batching_def sc_append_entry_def
  sc_append_entries_def sc_take_entries_if_batch_is_full_def sc_take_batched_entries_def

lemma internal_storage_with_wf:
  "ms_trimmed_idx st = ms_compacted_idx st \<Longrightarrow> storage_wf (internal_storage_with st n)"
  by (auto simp: storage_wf_def internal_storage_with_def load_cache_def Let_def ms_get_log_len_def)

lemma append_entry_with_batching_wf:
  "storage_wf self \<Longrightarrow> storage_wf (snd (append_entry_with_batching e self))"
  by (simp add: storage_wf_def append_defs Let_def ms_append_entries_def)

lemma append_entries_with_batching_wf:
  "storage_wf self \<Longrightarrow> storage_wf (snd (append_entries_with_batching es self))"
  by (simp add: storage_wf_def append_defs Let_def ms_append_entries_def)

lemma append_entries_and_get_accepted_idx_wf:
  "storage_wf self \<Longrightarrow> storage_wf (snd (append_entries_and_get_accepted_idx es self))"
  by (simp add: storage_wf_def append_defs Let_def ms_append_entries_def)

lemma append_entries_without_batching_wf:
  "storage_wf self \<Longrightarrow> storage_wf (snd (append_entries_without_batching es self))"
  by (simp add: storage_wf_def append_defs Let_def ms_append_entries_def)

lemma flush_batch_wf: "storage_wf self \<Longrightarrow> storage_wf (snd (flush_batch self))"
  by (simp add: storage_wf_def append_defs Let_def ms_append_entries_def)

lemma flush_batch_and_get_entries_wf:
  "storage_wf self \<Longrightarrow> storage_wf (snd (flush_batch_and_get_entries self))"
  by (simp add: storage_wf_def append_defs Let_def ms_append_entries_def)

lemma append_stopsign_wf:
  "storage_wf self \<Longrightarrow> get_stopsign self = None \<Longrightarrow> storage_wf (snd (append_stopsign ss self))"
  by (simp add: storage_wf_def append_defs append_stopsign_def sc_append_stopsign_def get_defs
      Let_def ms_append_entries_def ms_set_stopsign_def)

lemma set_promise_wf: "storage_wf self \<Longrightarrow> storage_wf (set_promise b self)"
  by (simp add: storage_wf_def set_promise_def Let_def ms_set_promise_def)

lemma set_decided_idx_wf: "storage_wf self \<Longrightarrow> storage_wf (set_decided_idx i self)"
  by (simp add: storage_wf_def set_decided_idx_def Let_def ms_set_decided_idx_def)

lemma set_stopsign_wf:
  "storage_wf self \<Longrightarrow> set_stopsign ss self = Some (i, self') \<Longrightarrow> storage_wf self'"
  by (auto simp: storage_wf_def set_stopsign_def Let_def ms_set_stopsign_def split: if_splits)

lemma set_stopsign_total: "storage_wf self \<Longrightarrow> \<exists>i self'. set_stopsign ss self = Some (i, self')"
  by (auto simp: storage_wf_def set_stopsign_def Let_def checked_sub_def)

lemma get_decided_idx_without_stopsign_total:
  "storage_wf self \<Longrightarrow> \<exists>i. get_decided_idx_without_stopsign self = Some i"
  by (auto simp: storage_wf_def get_decided_idx_without_stopsign_def get_defs Let_def checked_sub_def)


text \<open>
  The invariant of a running replica's log: the cache agrees with the backend and
  compacted index, decided index and accepted index are in this order. With a decided
  stop sign the decided log ends one index earlier; it always lies inside the stored log.
\<close>

definition log_inv :: "('e, 's) internal_storage \<Rightarrow> bool" where
  "log_inv self \<longleftrightarrow> storage_wf self \<and> get_compacted_idx self \<le> get_decided_idx self \<and>
     get_decided_idx self \<le> get_accepted_idx self"

definition log_end :: "('e, 's) internal_storage \<Rightarrow> nat" where
  "log_end self = get_compacted_idx self + length (ms_log (is_storage self))"

lemma log_inv_wf [dest]: "log_inv self \<Longrightarrow> storage_wf self"
  by (simp add: log_inv_def)

lemma accepted_log_end:
  "storage_wf self \<Longrightarrow> get_accepted_idx self = log_end self + (if get_stopsign self \<noteq> None then 1 else 0)"
  by (auto simp: storage_wf_def log_end_def get_defs Let_def)

lemma trimmed_compacted: "storage_wf self \<Longrightarrow> ms_trimmed_idx (is_storage self) = get_compacted_idx self"
  by (auto simp: storage_wf_def get_defs Let_def)

lemma decided_log_end:
  assumes "log_inv self" "get_decided_idx_without_stopsign self = Some k"
  shows "k \<le> log_end self" and "k \<le> get_decided_idx self" and "get_decided_idx self \<le> k + 1"
  using assms accepted_log_end [OF log_inv_wf [OF assms(1)]]
  by (auto simp: log_inv_def get_decided_idx_without_stopsign_def get_defs split: if_splits)

lemma decided_without_stopsign:
  assumes "log_inv self"
  shows "\<exists>k. get_decided_idx_without_stopsign self = Some k \<and> k \<le> log_end self \<and>
    k \<le> get_decided_idx self \<and> get_decided_idx self \<le> k + 1"
  using get_decided_idx_without_stopsign_total [OF log_inv_wf [OF assms]] decided_log_end [OF assms]
  by metis

text \<open>Batching: what has been appended is stored or batched, in order.\<close>

definition pending_log :: "('e, 's) internal_storage \<Rightarrow> 'e list" where
  "pending_log self = ms_log (is_storage self) @ sc_batched_entries (is_cache self)"

lemma append_entry_pending:
  "pending_log (snd (append_entry_with_batching e self)) = pending_log self @ [e]"
  by (simp add: pending_log_def append_defs Let_def ms_append_entries_def)

lemma append_entries_pending:
  "pending_log (snd (append_entries_with_batching es self)) = pending_log self @ es"
  "pending_log (snd (append_entries_and_get_accepted_idx es self)) = pending_log self @ es"
  by (simp_all add: pending_log_def append_defs Let_def ms_append_entries_def)

lemma flush_pending:
  "pending_log (snd (flush_batch self)) = pending_log self"
  "sc_batched_entries (is_cache (snd (flush_batch self))) = []"
  "ms_log (is_storage (snd (flush_batch self))) = pending_log self"
  by (simp_all add: pending_log_def append_defs Let_def ms_append_entries_def)

lemma fold_append_pending:
  "pending_log (fold (\<lambda>e s. snd (append_entry_with_batching e s)) es self) = pending_log self @ es"
  by (induction es arbitrary: self) (simp_all add: append_entry_pending)

lemma batched_appends_flushed:
  "ms_log (is_storage (snd (flush_batch
     (fold (\<lambda>e s. snd (append_entry_with_batching e s)) es self)))) = pending_log self @ es"
  by (simp add: flush_pending fold_append_pending)

text \<open>Batched appends followed by a flush are appends without batching.\<close>

lemma append_flush_one:
  "snd (flush_batch (snd (append_entry_with_batching e self))) =
   snd (append_entries_without_batching [e] (snd (flush_batch self)))"
  by (cases "is_cache self", cases "is_storage self")
    (simp add: append_defs Let_def ms_append_entries_def)

lemma append_without_batching_append:
  "snd (append_entries_without_batching ys (snd (append_entries_without_batching xs self))) =
   snd (append_entries_without_batching (xs @ ys) self)"
  by (simp add: append_defs Let_def ms_append_entries_def)

lemma append_flush:
  "snd (flush_batch (fold (\<lambda>e s. snd (append_entry_with_batching e s)) es self)) =
   snd (append_entries_without_batching es (snd (flush_batch self)))"
proof (induction es rule: rev_induct)
  case Nil
  then show ?case by (simp add: append_defs Let_def ms_append_entries_def)
next
  case (snoc e es)
  then show ?case by (simp add: append_flush_one append_without_batching_append)
qed

lemma batch_below_size:
  assumes "0 < sc_batch_size (is_cache self)" "length (sc_batched_entries (is_cache self)) < sc_batch_size (is_cache self)"
  shows "length (sc_batched_entries (is_cache (snd (append_entry_with_batching e self))))
    < sc_batch_size (is_cache (snd (append_entry_with_batching e self)))"
  using assms by (auto simp: append_defs Let_def)

lemma append_meta:
  assumes "append_entry_with_batching e self = (Some m, self')" "storage_wf self" "get_stopsign self = None"
  shows "amd_accepted_idx m = log_end self'" and "sc_batched_entries (is_cache self') = []"
    and "ms_log (is_storage self') = ms_log (is_storage self) @ amd_entries m"
  using assms
  by (auto simp: append_defs Let_def ms_append_entries_def log_end_def storage_wf_def get_defs
      split: if_splits)

lemma try_trim_undecided:
  assumes "storage_wf self" "get_decided_idx self < idx"
  shows "try_trim idx self = Some (Inl (UndecidedIndex (get_decided_idx self)))"
proof -
  obtain k where "get_decided_idx_without_stopsign self = Some k"
    using get_decided_idx_without_stopsign_total [OF assms(1)] by blast
  with assms(2) show ?thesis by (simp add: try_trim_def Let_def)
qed

lemma trim_write:
  assumes "storage_wf self" "get_compacted_idx self \<le> k" "k \<le> log_end self"
  shows "\<exists>st. ms_write_atomically [Trim k, SetCompactedIdx k] (is_storage self) = Some st \<and>
    st = (is_storage self)\<lparr>ms_log := drop (k - get_compacted_idx self) (ms_log (is_storage self)),
      ms_trimmed_idx := k, ms_compacted_idx := k\<rparr>"
  using assms trimmed_compacted [OF assms(1)]
  by (auto simp: ms_defs Let_def checked_sub_def log_end_def min_def)

definition compact_to :: "nat \<Rightarrow> ('e, 's) internal_storage \<Rightarrow> ('e, 's) internal_storage" where
  "compact_to k self = self\<lparr>
     is_storage := (is_storage self)\<lparr>ms_log := drop (k - get_compacted_idx self) (ms_log (is_storage self)),
       ms_trimmed_idx := k, ms_compacted_idx := k\<rparr>,
     is_cache := (is_cache self)\<lparr>sc_compacted_idx := k\<rparr>\<rparr>"

lemma compact_to_props:
  assumes "log_inv self" "get_compacted_idx self \<le> k" "k \<le> log_end self" "k \<le> get_decided_idx self"
  shows "log_inv (compact_to k self)"
    and "get_accepted_idx (compact_to k self) = get_accepted_idx self"
    and "get_decided_idx (compact_to k self) = get_decided_idx self"
    and "get_compacted_idx (compact_to k self) = k"
    and "k \<le> i \<Longrightarrow> i \<le> j \<Longrightarrow> j \<le> log_end self \<Longrightarrow>
      get_entries i j (compact_to k self) = get_entries i j self"
proof -
  show "log_inv (compact_to k self)"
    "get_accepted_idx (compact_to k self) = get_accepted_idx self"
    "get_decided_idx (compact_to k self) = get_decided_idx self"
    "get_compacted_idx (compact_to k self) = k"
    using assms by (auto simp: compact_to_def log_inv_def storage_wf_def get_defs Let_def log_end_def)
  assume "k \<le> i" "i \<le> j" "j \<le> log_end self"
  moreover have "ms_trim k (is_storage self) = Some ((is_storage self)\<lparr>
      ms_log := drop (k - get_compacted_idx self) (ms_log (is_storage self)), ms_trimmed_idx := k\<rparr>)"
    using assms trimmed_compacted [of self]
    by (auto simp: ms_trim_def checked_sub_def Let_def min_def log_end_def)
  ultimately have "ms_get_entries i j ((is_storage self)\<lparr>
      ms_log := drop (k - get_compacted_idx self) (ms_log (is_storage self)), ms_trimmed_idx := k\<rparr>)
    = ms_get_entries i j (is_storage self)"
    using assms trimmed_compacted [of self] memory_storage.trim_keeps_reads
    by (metis log_end_def log_inv_wf)
  then show "get_entries i j (compact_to k self) = get_entries i j self"
    by (simp add: compact_to_def get_entries_def ms_get_entries_def)
qed

definition compact_target :: "nat \<Rightarrow> ('e, 's) internal_storage \<Rightarrow> nat" where
  "compact_target idx self =
     (if idx = get_decided_idx self then the (get_decided_idx_without_stopsign self) else idx)"

lemma compact_target_bounds:
  assumes "log_inv self" "idx \<le> get_decided_idx self"
  shows "compact_target idx self \<le> log_end self" "compact_target idx self \<le> get_decided_idx self"
  using decided_without_stopsign [OF assms(1)] assms(2) by (auto simp: compact_target_def)

lemma try_trim_decided:
  assumes "log_inv self" "idx \<le> get_decided_idx self"
  shows "try_trim idx self = Some (Inr
    (if get_compacted_idx self < compact_target idx self then compact_to (compact_target idx self) self
     else self))"
proof -
  obtain d where d: "get_decided_idx_without_stopsign self = Some d"
    using decided_without_stopsign [OF assms(1)] by metis
  let ?k = "compact_target idx self"
  have k: "(if idx = get_decided_idx self then d else idx) = ?k"
    using d by (simp add: compact_target_def)
  show ?thesis
  proof (cases "get_compacted_idx self < ?k")
    case True
    with trim_write [of self ?k] compact_target_bounds [OF assms] assms(1)
    have "ms_write_atomically [Trim ?k, SetCompactedIdx ?k] (is_storage self) =
      Some (is_storage (compact_to ?k self))" by (auto simp: compact_to_def)
    then show ?thesis using True d assms(2) k
      by (simp add: try_trim_def Let_def compact_to_def)
  next
    case False
    then show ?thesis using d assms(2) k by (simp add: try_trim_def Let_def)
  qed
qed

lemma get_entries_wf:
  assumes "storage_wf self" "get_compacted_idx self \<le> i" "i \<le> j" "j \<le> log_end self"
  shows "get_entries i j self =
    Some (take (j - i) (drop (i - get_compacted_idx self) (ms_log (is_storage self))))"
  using memory_storage.get_entries_law [of "is_storage self" i j] assms trimmed_compacted [OF assms(1)]
  by (simp add: get_entries_def log_end_def)

lemma get_suffix_wf:
  assumes "storage_wf self" "get_compacted_idx self \<le> i"
  shows "get_suffix i self = Some (drop (i - get_compacted_idx self) (ms_log (is_storage self)))"
  using memory_storage.get_suffix_law [of "is_storage self" i] assms trimmed_compacted [OF assms(1)]
  by (simp add: get_suffix_def)

lemma create_snapshot_wf:
  assumes "storage_wf self" "get_compacted_idx self \<le> k" "k \<le> log_end self"
  shows "create_snapshot env k self = do {
     delta \<leftarrow> snap_create env (take (k - get_compacted_idx self) (ms_log (is_storage self)));
     case ms_snapshot (is_storage self) of
       Some s \<Rightarrow> do { s' \<leftarrow> snap_merge env s delta; Some (Inr s') }
     | None \<Rightarrow> Some (Inr delta) }"
  using get_entries_wf [OF assms(1) order_refl assms(2,3)] assms(2)
  by (simp add: create_snapshot_def Let_def get_entries_def)

lemma try_snapshot_undecided:
  assumes "storage_wf self" "get_decided_idx self < idx"
  shows "try_snapshot env (Some idx) self = Some (Inl (UndecidedIndex (get_decided_idx self)))"
proof -
  obtain k where "get_decided_idx_without_stopsign self = Some k"
    using get_decided_idx_without_stopsign_total [OF assms(1)] by blast
  with assms(2) show ?thesis by (simp add: try_snapshot_def Let_def)
qed

definition set_snapshot :: "'s \<Rightarrow> ('e, 's) internal_storage \<Rightarrow> ('e, 's) internal_storage" where
  "set_snapshot snap self = self\<lparr>is_storage := ms_set_snapshot (Some snap) (is_storage self)\<rparr>"

lemma try_snapshot_decided:
  assumes "log_inv self" "idx \<le> get_decided_idx self"
    and "get_compacted_idx self < compact_target idx self"
    and "create_snapshot env (compact_target idx self) self = Some (Inr snap)"
  shows "try_snapshot env (Some idx) self =
    Some (Inr (set_snapshot snap (compact_to (compact_target idx self) self)))"
proof -
  obtain d where d: "get_decided_idx_without_stopsign self = Some d"
    using decided_without_stopsign [OF assms(1)] by metis
  let ?k = "compact_target idx self"
  have k: "(if idx = get_decided_idx self then d else idx) = ?k"
    using d by (simp add: compact_target_def)
  from trim_write [of self ?k] compact_target_bounds [OF assms(1,2)] assms(1,3)
  have "ms_write_atomically [Trim ?k, SetCompactedIdx ?k] (is_storage self) =
    Some (is_storage (compact_to ?k self))" by (auto simp: compact_to_def)
  then have "ms_write_atomically [Trim ?k, SetCompactedIdx ?k, SetSnapshot (Some snap)] (is_storage self)
    = Some (is_storage (set_snapshot snap (compact_to ?k self)))"
    by (auto simp: ms_write_atomically_def set_snapshot_def)
  then show ?thesis using d assms(2-4) k
    by (auto simp: try_snapshot_def Let_def try_res_def compact_to_def set_snapshot_def)
qed

lemma set_snapshot_frame [simp]:
  "log_inv (set_snapshot snap self) = log_inv self"
  "get_entries i j (set_snapshot snap self) = get_entries i j self"
  "get_decided_idx (set_snapshot snap self) = get_decided_idx self"
  "get_accepted_idx (set_snapshot snap self) = get_accepted_idx self"
  "get_compacted_idx (set_snapshot snap self) = get_compacted_idx self"
  "ms_snapshot (is_storage (set_snapshot snap self)) = Some snap"
  by (simp_all add: set_snapshot_def log_inv_def storage_wf_def get_defs Let_def
      ms_set_snapshot_def ms_get_entries_def)

lemma try_snapshot_None:
  "try_snapshot env None a = try_snapshot env (Some (get_decided_idx a)) a"
  by (simp add: try_snapshot_def Let_def)

text \<open>A successful snapshot changes nothing or compacts the log up to some decided index.\<close>

lemma try_snapshot_cases:
  assumes "try_snapshot env i self = Some (Inr t)" "log_inv self"
  obtains "t = self"
    | k snap where "get_compacted_idx self < k" "k \<le> log_end self" "k \<le> get_decided_idx self"
      "create_snapshot env k self = Some (Inr snap)" "t = set_snapshot snap (compact_to k self)"
proof -
  obtain j where j: "try_snapshot env (Some j) self = Some (Inr t)"
    using assms(1) try_snapshot_None [of env self] by (cases i) auto
  have i: "j \<le> get_decided_idx self"
    using j try_snapshot_undecided [OF log_inv_wf [OF assms(2)], of j env] by (cases "get_decided_idx self < j") auto
  obtain d where d: "get_decided_idx_without_stopsign self = Some d"
    using decided_without_stopsign [OF assms(2)] by metis
  let ?k = "compact_target j self"
  have k: "(if j = get_decided_idx self then d else j) = ?k" using d by (simp add: compact_target_def)
  show thesis
  proof (cases "get_compacted_idx self < ?k")
    case True
    then obtain snap where s: "create_snapshot env ?k self = Some (Inr snap)"
      using j d i k by (auto simp: try_snapshot_def Let_def split: if_splits)
    have "t = set_snapshot snap (compact_to ?k self)"
      using try_snapshot_decided [OF assms(2) i True s] j by simp
    with that(2) [OF True compact_target_bounds [OF assms(2) i] s] show thesis .
  next
    case False
    then have "t = self" using j d i k by (auto simp: try_snapshot_def Let_def split: if_splits)
    with that(1) show thesis .
  qed
qed

subsubsection \<open>Synchronisation\<close>

text \<open>A synchronised log is the common prefix followed by the received suffix.\<close>

lemma sync_log_suffix:
  assumes wf: "storage_wf self" and sync: "ls_decided_snapshot sync = None"
    and idx: "get_compacted_idx self \<le> ls_sync_idx sync" "ls_sync_idx sync \<le> log_end self"
  shows "\<exists>self'. sync_log env n d (Some sync) self = Some (Inr (get_accepted_idx self', self')) \<and>
    storage_wf self' \<and>
    ms_log (is_storage self') =
      take (ls_sync_idx sync - get_compacted_idx self) (ms_log (is_storage self)) @ ls_suffix sync \<and>
    get_compacted_idx self' = get_compacted_idx self \<and>
    get_accepted_round self' = n \<and> get_decided_idx self' = d \<and>
    get_stopsign self' = ls_stopsign sync \<and> get_promise self' = get_promise self \<and>
    sc_batched_entries (is_cache self') = sc_batched_entries (is_cache self) \<and>
    get_accepted_idx self' = ls_sync_idx sync + length (ls_suffix sync) +
      (if ls_stopsign sync \<noteq> None then 1 else 0)"
  using assms trimmed_compacted [OF wf]
  by (cases "ls_stopsign sync"; cases "sc_stopsign (is_cache self)")
    (auto simp: sync_log_def sync_snapshot_def Let_def try_res_def ms_defs checked_sub_def
      storage_wf_def get_defs log_end_def)

lemma sync_log_complete:
  assumes wf: "storage_wf self" and sync: "ls_decided_snapshot sync = Some (Complete c)"
    and idx: "get_compacted_idx self \<le> ls_sync_idx sync"
  shows "\<exists>self'. sync_log env n d (Some sync) self = Some (Inr (get_accepted_idx self', self')) \<and>
    storage_wf self' \<and>
    ms_log (is_storage self') = ls_suffix sync \<and> ms_snapshot (is_storage self') = Some c \<and>
    get_compacted_idx self' = ls_sync_idx sync \<and>
    get_accepted_round self' = n \<and> get_decided_idx self' = d \<and>
    get_stopsign self' = ls_stopsign sync \<and> get_promise self' = get_promise self \<and>
    sc_batched_entries (is_cache self') = sc_batched_entries (is_cache self)"
  using assms trimmed_compacted [OF wf]
  by (cases "ls_stopsign sync"; cases "sc_stopsign (is_cache self)")
    (auto simp: sync_log_def sync_snapshot_def Let_def try_res_def ms_defs checked_sub_def
      storage_wf_def get_defs log_end_def)

lemma sync_log_None:
  assumes wf: "storage_wf self"
  shows "\<exists>self'. sync_log env n d None self = Some (Inr (get_accepted_idx self', self')) \<and>
    storage_wf self' \<and> ms_log (is_storage self') = ms_log (is_storage self) \<and>
    get_compacted_idx self' = get_compacted_idx self \<and>
    get_accepted_round self' = n \<and> get_decided_idx self' = d \<and>
    get_stopsign self' = get_stopsign self \<and> get_promise self' = get_promise self \<and>
    sc_batched_entries (is_cache self') = sc_batched_entries (is_cache self) \<and>
    get_accepted_idx self' = get_accepted_idx self"
  using assms by (auto simp: sync_log_def Let_def ms_defs storage_wf_def get_defs)

text \<open>Whatever \<^const>\<open>sync_log\<close> does, it leaves the promise alone and takes the given round and index.\<close>

lemma sync_log_frame:
  assumes "sync_log env n d ls self = Some (Inr (i, self'))"
  shows "get_promise self' = get_promise self" "get_decided_idx self' = d"
    "get_accepted_round self' = n" "i = get_accepted_idx self'"
    "sc_batched_entries (is_cache self') = sc_batched_entries (is_cache self)"
    "sc_batch_size (is_cache self') = sc_batch_size (is_cache self)"
  using assms
  by (auto simp: sync_log_def Let_def get_defs split: option.splits if_splits)

subsubsection \<open>Reading\<close>

text \<open>
  The log as a reader sees it: the retained entries, tagged by whether they are decided, then
  the stop sign.
\<close>

definition log_view :: "('e, 's) internal_storage \<Rightarrow> ('e, 's) log_entry list" where
  "log_view self =
     map (\<lambda>(i, e). if i < get_decided_idx self then Decided e else Undecided e)
       (enumerate (get_compacted_idx self) (ms_log (is_storage self))) @
     (case get_stopsign self of
        None \<Rightarrow> []
      | Some ss \<Rightarrow> [StopSign ss (stopsign_is_decided self)])"

lemma length_log_view:
  "storage_wf self \<Longrightarrow> get_compacted_idx self + length (log_view self) = get_accepted_idx self"
  by (auto simp: log_view_def storage_wf_def get_defs Let_def split: option.splits)

lemma create_read_log_entries_view:
  assumes "storage_wf self" "get_compacted_idx self \<le> i" "i \<le> j" "j \<le> log_end self"
  shows "create_read_log_entries i j self =
    Some (take (j - i) (drop (i - get_compacted_idx self) (log_view self)))"
proof -
  let ?l = "ms_log (is_storage self)" and ?c = "get_compacted_idx self"
  let ?tag = "\<lambda>(i, e). if i < get_decided_idx self then Decided e else Undecided e"
  have fits: "j - i \<le> length ?l - (i - ?c)" using assms(2-4) by (simp add: log_end_def)
  have "map (\<lambda>(idx, e). if idx + i < get_decided_idx self then Decided e else Undecided e)
      (enumerate 0 (take (j - i) (drop (i - ?c) ?l)))
    = take (j - i) (drop (i - ?c) (map ?tag (enumerate ?c ?l)))" (is "?a = ?b")
  proof (rule nth_equalityI)
    show "length ?a = length ?b" by simp
  next
    fix k assume "k < length ?a"
    then have k: "k < j - i" "i - ?c + k < length ?l" using fits by auto
    moreover have "?c + (i - ?c + k) = k + i" using assms(2) by simp
    ultimately show "?a ! k = ?b ! k"
      by (simp add: nth_enumerate_eq add.commute)
  qed
  also have "\<dots> = take (j - i) (drop (i - ?c) (log_view self))"
    using fits assms(2) by (simp add: log_view_def)
  finally show ?thesis
    using get_entries_wf [OF assms] by (simp add: create_read_log_entries_def Let_def)
qed

lemma read_range_view:
  assumes "storage_wf self" "get_compacted_idx self \<le> i" "i < j" "j \<le> get_accepted_idx self"
  shows "read_range i j self =
    Some (Some (take (j - i) (drop (i - get_compacted_idx self) (log_view self))))"
proof (cases "get_stopsign self")
  case None
  then have "j \<le> log_end self" using accepted_log_end [OF assms(1)] assms(4) by simp
  then show ?thesis
    using create_read_log_entries_view [OF assms(1,2), of j] assms(2-4) None
    by (cases "j = get_accepted_idx self") (auto simp: read_range_def get_entry_type_def Let_def)
next
  case (Some ss)
  have acc: "get_accepted_idx self = Suc (log_end self)"
    using accepted_log_end [OF assms(1)] Some by simp
  let ?c = "get_compacted_idx self"
  have len: "length (log_view self) = Suc (log_end self) - ?c"
    using length_log_view [OF assms(1)] acc by simp
  have last: "drop (log_end self - ?c) (log_view self) = [StopSign ss (stopsign_is_decided self)]"
    using Some by (simp add: log_view_def log_end_def)
  show ?thesis
  proof (cases "j = Suc (log_end self)")
    case False
    then have "j \<le> log_end self" using assms(4) acc by simp
    then show ?thesis
      using create_read_log_entries_view [OF assms(1,2)] assms(2,3) Some acc False
      by (auto simp: read_range_def get_entry_type_def Let_def)
  next
    case True
    have split: "take (j - i) (drop (i - ?c) (log_view self)) =
        take (log_end self - i) (drop (i - ?c) (log_view self)) @ [StopSign ss (stopsign_is_decided self)]"
    proof -
      let ?xs = "drop (i - ?c) (log_view self)"
      have "log_end self - i + (i - ?c) = log_end self - ?c" using assms(2,3) True by simp
      then have "drop (log_end self - i) ?xs = drop (log_end self - ?c) (log_view self)"
        by simp
      moreover have "take (j - i) ?xs = ?xs" using len assms(2,3) True by simp
      ultimately show ?thesis using last append_take_drop_id [of "log_end self - i" ?xs] by simp
    qed
    show ?thesis
      using create_read_log_entries_view [OF assms(1,2), of "log_end self"] assms(2,3) Some acc True split
      by (cases "i = log_end self") (auto simp: read_range_def get_entry_type_def Let_def last)
  qed
qed

lemma read_range_below:
  assumes "storage_wf self" "i < get_compacted_idx self" "get_compacted_idx self < j" "j \<le> get_accepted_idx self"
  shows "read_range i j self = Some (Some (create_compacted_entry (get_compacted_idx self) self #
    take (j - get_compacted_idx self) (log_view self)))"
proof -
  let ?c = "get_compacted_idx self"
  have r: "read_range ?c j self = Some (Some (take (j - ?c) (log_view self)))"
    using read_range_view [OF assms(1) order_refl assms(3,4)] by simp
  have low: "get_entry_type i ?c (get_accepted_idx self) self = Some CompactedI"
    using assms(2) by (simp add: get_entry_type_def)
  show ?thesis
  proof (cases "get_entry_type ?c ?c (get_accepted_idx self) self")
    case (Some t)
    show ?thesis
    proof (cases t)
      case EntryI
      have "j = get_accepted_idx self \<or> Suc ?c < get_accepted_idx self" using assms(3,4) by linarith
      then show ?thesis using r low Some EntryI assms(2-4)
        by (elim disjE) (auto simp: read_range_def Let_def get_entry_type_def split: if_splits option.splits)
    next
      case (StopSignI ss)
      then have acc: "get_accepted_idx self = Suc ?c" and "get_stopsign self = Some ss"
        using Some by (auto simp: get_entry_type_def split: if_splits option.splits)
      moreover have "create_read_log_entries ?c ?c self = Some []"
        using create_read_log_entries_view [OF assms(1) order_refl order_refl] by (simp add: log_end_def)
      moreover have j: "j = Suc ?c" using acc assms(3,4) by linarith
      ultimately show ?thesis using r low Some assms(2-4)
        by (auto simp: j acc read_range_def Let_def get_entry_type_def split: if_splits)
    qed (use Some in \<open>auto simp: get_entry_type_def split: if_splits option.splits\<close>)
  qed (use assms in \<open>auto simp: get_entry_type_def split: if_splits option.splits\<close>)
qed

lemma read_range_out:
  assumes "get_accepted_idx self < j" "get_compacted_idx self \<le> get_accepted_idx self" "i < j"
  shows "read_range i j self = Some None"
  using assms by (auto simp: read_range_def Let_def get_entry_type_def)

lemma read_range_compacted:
  assumes "0 < j" "j \<le> get_compacted_idx self"
  shows "read_range i j self = Some (Some [create_compacted_entry (get_compacted_idx self) self])"
  using assms by (auto simp: read_range_def Let_def get_entry_type_def)

end
