(* ===== verification/Storage_Refinement.thy ===== *)
theory Storage_Refinement
  imports Persistent_Storage Internal_Storage
begin

text \<open>
  The persistent storage refines the in-memory one: a database represents an in-memory storage
  when its log column family holds the entries under their indexes and its default column family
  the other fields (\<open>represents_db\<close>). A transaction, a direct operation and a restart keep the
  representation, and reads return what the in-memory storage returns; a failing transaction
  breaks the contract of the storage trait.
\<close>

subsection \<open>The in-memory storage a database stands for\<close>

definition log_contents :: "('e, 's, 'err) codec \<Rightarrow> nat \<Rightarrow> 'e list \<Rightarrow> (bytes \<rightharpoonup> bytes) \<Rightarrow> bool" where
  "log_contents C start es L \<longleftrightarrow> start + length es < 2 ^ 64 \<and>
     (\<forall>i < length es. \<exists>bs. L (to_be_bytes (start + i)) = Some bs \<and> de_entry C bs = Inr (es ! i)) \<and>
     (\<forall>k. L k \<noteq> None \<longrightarrow> (\<exists>i < length es. k = to_be_bytes (start + i)))"

definition stored :: "(bytes \<rightharpoonup> bytes) \<Rightarrow> bytes \<Rightarrow> 'a \<Rightarrow> (bytes \<Rightarrow> 'err + 'a) \<Rightarrow> 'a \<Rightarrow> bool" where
  "stored d key absent de x \<longleftrightarrow> (case d key of None \<Rightarrow> x = absent | Some bs \<Rightarrow> de bs = Inr x)"

definition state_contents :: "('e, 's, 'err) codec \<Rightarrow> (bytes \<rightharpoonup> bytes) \<Rightarrow> ('e, 's) memory_storage \<Rightarrow> bool" where
  "state_contents C d ms \<longleftrightarrow>
     stored d NPROM None (\<lambda>bs. map_sum Foreign Some (de_ballot C bs)) (ms_n_prom ms) \<and>
     stored d ACC None (\<lambda>bs. map_sum Foreign Some (de_ballot C bs)) (ms_acc_round ms) \<and>
     stored d DECIDE 0 (read_usize C :: _ \<Rightarrow> 'err storage_err + nat) (ms_ld ms) \<and>
     stored d TRIM 0 (read_usize C :: _ \<Rightarrow> 'err storage_err + nat) (ms_compacted_idx ms) \<and>
     stored d STOPSIGN None (\<lambda>bs. map_sum Foreign id (de_stopsign C bs)) (ms_stopsign ms) \<and>
     stored d SNAPSHOT None (\<lambda>bs. map_sum Foreign id (de_snapshot C bs)) (ms_snapshot ms)"

text \<open>
  The next key follows the last entry, except between a trim beyond the end of the log and the
  append that follows it.
\<close>

definition ms_log_end :: "('e, 's) memory_storage \<Rightarrow> nat" where
  "ms_log_end ms = ms_trimmed_idx ms + length (ms_log ms)"

definition rep :: "('e, 's, 'err) codec \<Rightarrow> contents \<Rightarrow> nat \<Rightarrow> ('e, 's) memory_storage \<Rightarrow> bool" where
  "rep C s key ms \<longleftrightarrow> state_contents C (fst s) ms \<and>
     log_contents C (ms_trimmed_idx ms) (ms_log ms) (snd s) \<and>
     (key = ms_log_end ms \<or> ms_log ms = [] \<and> key \<le> ms_trimmed_idx ms)"

definition op_fits :: "nat \<Rightarrow> ('e, 's) memory_storage \<Rightarrow> ('e, 's) storage_op \<Rightarrow> bool" where
  "op_fits key ms op =
     (case op of
        AppendEntry e \<Rightarrow> key = ms_log_end ms \<and> ms_log_end ms + 1 < 2 ^ 64
      | AppendEntries es \<Rightarrow> key = ms_log_end ms \<and> ms_log_end ms + length es < 2 ^ 64
      | AppendOnPrefix i es \<Rightarrow> ms_trimmed_idx ms \<le> i \<and> i \<le> ms_log_end ms \<and> i + length es < 2 ^ 64
      | Trim i \<Rightarrow> ms_trimmed_idx ms \<le> i \<and> i < 2 ^ 64
      | SetDecidedIndex i \<Rightarrow> i < 2 ^ 64
      | SetCompactedIdx i \<Rightarrow> i < 2 ^ 64
      | _ \<Rightarrow> True)"

definition key_after :: "('e, 's) storage_op \<Rightarrow> nat \<Rightarrow> nat" where
  "key_after op key =
     (case op of
        AppendEntry e \<Rightarrow> key + 1
      | AppendEntries es \<Rightarrow> key + length es
      | AppendOnPrefix i es \<Rightarrow> i + length es
      | _ \<Rightarrow> key)"

text \<open>A transaction whose operations all fit where they are applied.\<close>

fun txn_fits :: "nat \<Rightarrow> ('e, 's) memory_storage \<Rightarrow> ('e, 's) storage_op list \<Rightarrow> bool" where
  "txn_fits key ms [] = True"
| "txn_fits key ms (op # ops) =
     (op_fits key ms op \<and>
      (case ms_apply_op op ms of None \<Rightarrow> False | Some ms' \<Rightarrow> txn_fits (key_after op key) ms' ops))"

definition represents_db :: "('db, 'wb, 'it) views \<Rightarrow> ('e, 's, 'err) codec \<Rightarrow>
    ('db, 'wb) persistent_storage \<Rightarrow> ('e, 's) memory_storage \<Rightarrow> bool" where
  "represents_db V C ps ms \<longleftrightarrow> rep C (contents_of V (ps_db ps)) (ps_next_log_key ps) ms \<and>
     (\<forall>s. v_batch V (ps_write_batch ps) s = s)"

subsubsection \<open>Changing the log\<close>

lemma log_contents_put:
  assumes "log_contents C s es L" "i \<le> length es" "s + i + 1 < 2 ^ 64" "de_entry C bs = Inr e"
  shows "log_contents C s (take i es @ e # drop (i + 1) es) (L(to_be_bytes (s + i) \<mapsto> bs))"
proof -
  let ?es = "take i es @ e # drop (i + 1) es"
  have old: "s + length es < 2 ^ 64"
    "\<And>j. j < length es \<Longrightarrow> \<exists>bs. L (to_be_bytes (s + j)) = Some bs \<and> de_entry C bs = Inr (es ! j)"
    "\<And>k. L k \<noteq> None \<Longrightarrow> \<exists>j < length es. k = to_be_bytes (s + j)"
    using assms(1) by (auto simp: log_contents_def)
  have len: "length ?es = max (length es) (i + 1)" using assms(2) by auto
  have nth: "?es ! i = e" using assms(2) by (simp add: nth_append)
  have nth': "?es ! j = es ! j" if "j \<noteq> i" "j < length es" for j
    using that assms(2) by (auto simp: nth_append nth_Cons')
  have "\<exists>bs'. (L(to_be_bytes (s + i) \<mapsto> bs)) (to_be_bytes (s + j)) = Some bs' \<and> de_entry C bs' = Inr (?es ! j)"
    if j: "j < length ?es" for j
  proof (cases "j = i")
    case True
    then show ?thesis using nth assms(4) by simp
  next
    case False
    then have jl: "j < length es" using j len assms(2) by auto
    then have "to_be_bytes (s + j) \<noteq> to_be_bytes (s + i)"
      using False be_inject [of "s + j" "s + i"] old(1) assms(3) by simp
    then show ?thesis using old(2) [OF jl] nth' [OF False jl] by simp
  qed
  moreover have "\<exists>j < length ?es. k = to_be_bytes (s + j)"
    if "(L(to_be_bytes (s + i) \<mapsto> bs)) k \<noteq> None" for k
  proof (cases "k = to_be_bytes (s + i)")
    case True
    then show ?thesis using len by (intro exI [of _ i]) simp
  next
    case False
    then have "L k \<noteq> None" using that by simp
    from old(3) [OF this] obtain j where "j < length es" "k = to_be_bytes (s + j)" by blast
    then show ?thesis using len by (intro exI [of _ j]) simp
  qed
  moreover have "s + length ?es < 2 ^ 64" using len old(1) assms(3) by simp
  ultimately show ?thesis unfolding log_contents_def by blast
qed

lemma log_contents_cut:
  assumes "log_contents C s es L" "j \<le> length es"
  shows "log_contents C s (take j es) (delete_range (to_be_bytes (s + j)) (to_be_bytes (s + length es)) L)"
proof -
  have old: "s + length es < 2 ^ 64"
    "\<And>j. j < length es \<Longrightarrow> \<exists>bs. L (to_be_bytes (s + j)) = Some bs \<and> de_entry C bs = Inr (es ! j)"
    "\<And>k. L k \<noteq> None \<Longrightarrow> \<exists>j < length es. k = to_be_bytes (s + j)"
    using assms(1) by (auto simp: log_contents_def)
  let ?L = "delete_range (to_be_bytes (s + j)) (to_be_bytes (s + length es)) L"
  have "\<exists>bs. ?L (to_be_bytes (s + i)) = Some bs \<and> de_entry C bs = Inr (take j es ! i)"
    if "i < length (take j es)" for i
  proof -
    have "s + j < 2 ^ 64" "i < length es" "i < j" using that old(1) assms(2) by auto
    then show ?thesis using old(1) old(2) [of i] be_le [of "s + j" "s + i"]
      by (auto simp: delete_range_def)
  qed
  moreover have "\<exists>i < length (take j es). k = to_be_bytes (s + i)" if k: "?L k \<noteq> None" for k
  proof -
    have "L k \<noteq> None" using k by (auto simp: delete_range_def split: if_splits)
    then obtain i where i: "i < length es" "k = to_be_bytes (s + i)" using old(3) by blast
    have "i < j"
    proof (rule ccontr)
      assume "\<not> i < j"
      then have "?L k = None" using i old(1) be_le [of "s + j" "s + i"] be_less [of "s + i" "s + length es"]
        by (simp add: delete_range_def)
      then show False using k by simp
    qed
    then show ?thesis using i by auto
  qed
  moreover have "s + length (take j es) < 2 ^ 64" using old(1) by simp
  ultimately show ?thesis unfolding log_contents_def by blast
qed

lemma log_contents_trim:
  assumes "log_contents C s es L" "s \<le> i" "i < 2 ^ 64"
  shows "log_contents C i (drop (i - s) es) (delete_range (to_be_bytes 0) (to_be_bytes i) L)"
proof -
  have old: "s + length es < 2 ^ 64"
    "\<And>j. j < length es \<Longrightarrow> \<exists>bs. L (to_be_bytes (s + j)) = Some bs \<and> de_entry C bs = Inr (es ! j)"
    "\<And>k. L k \<noteq> None \<Longrightarrow> \<exists>j < length es. k = to_be_bytes (s + j)"
    using assms(1) by (auto simp: log_contents_def)
  let ?L = "delete_range (to_be_bytes 0) (to_be_bytes i) L"
  have "\<exists>bs. ?L (to_be_bytes (i + j)) = Some bs \<and> de_entry C bs = Inr (drop (i - s) es ! j)"
    if "j < length (drop (i - s) es)" for j
    using that old(1) old(2) [of "i - s + j"] assms(2,3) be_less [of "i + j" i]
    by (auto simp: delete_range_def)
  moreover have "\<exists>j < length (drop (i - s) es). k = to_be_bytes (i + j)" if k: "?L k \<noteq> None" for k
  proof -
    have "L k \<noteq> None" using k by (auto simp: delete_range_def split: if_splits)
    then obtain j where j: "j < length es" "k = to_be_bytes (s + j)" using old(3) by blast
    have "i \<le> s + j"
    proof (rule ccontr)
      assume "\<not> i \<le> s + j"
      then have "?L k = None" using j old(1) assms(3) be_less [of "s + j" i] be_le [of 0 "s + j"]
        by (simp add: delete_range_def)
      then show False using k by simp
    qed
    then show ?thesis using j assms(2) by (intro exI [of _ "s + j - i"]) auto
  qed
  moreover have "i + length (drop (i - s) es) < 2 ^ 64" using old(1) assms(2,3) by auto
  ultimately show ?thesis unfolding log_contents_def by blast
qed

subsubsection \<open>Transactions\<close>

lemma batch_laws:
  assumes "rocksdb_laws R V"
  shows "v_batch V (wb_default R) s = s"
    "v_batch V (wb_put R k v wb) s = ((fst (v_batch V wb s))(k \<mapsto> v), snd (v_batch V wb s))"
    "v_batch V (wb_put_log R k v wb) s = (fst (v_batch V wb s), (snd (v_batch V wb s))(k \<mapsto> v))"
    "v_batch V (wb_delete_range_log R a b wb) s =
      (fst (v_batch V wb s), delete_range a b (snd (v_batch V wb s)))"
    "db_write R wb db = Inr db' \<Longrightarrow> contents_of V db' = v_batch V wb (contents_of V db)"
  by (insert assms; unfold rocksdb_laws_def; elim conjE; metis)+

lemma db_laws:
  assumes "rocksdb_laws R V"
  shows "db_get R k db = Inr r \<Longrightarrow> r = v_default V db k"
    "db_put R k v db = Inr db' \<Longrightarrow> contents_of V db' = ((v_default V db)(k \<mapsto> v), map_of (v_log V db))"
    "db_put_log R k v db = Inr db' \<Longrightarrow> contents_of V db' = (v_default V db, (map_of (v_log V db))(k \<mapsto> v))"
    "db_delete_range_log R a b db = Inr db' \<Longrightarrow>
      contents_of V db' = (v_default V db, delete_range a b (map_of (v_log V db)))"
    "sorted_wrt (<) (map fst (v_log V db))"
  by (insert assms; unfold rocksdb_laws_def; elim conjE; metis)+

lemma it_laws:
  assumes "rocksdb_laws R V"
  shows "v_all V (it_log R db) = v_log V db"
    "v_all V (it_seek R k it) = v_all V it" "v_left V (it_seek R k it) = filter (\<lambda>p. k \<le> fst p) (v_all V it)"
    "v_left V (it_seek_to_last R it) = (if v_all V it = [] then [] else [last (v_all V it)])"
    "v_left V (it_next R it) = tl (v_left V it)"
    "it_valid R it \<longleftrightarrow> v_left V it \<noteq> []"
    "it_key R it = (if v_left V it = [] then None else Some (fst (hd (v_left V it))))"
    "it_value R it = (if v_left V it = [] then None else Some (snd (hd (v_left V it))))"
  by (insert assms; unfold rocksdb_laws_def; elim conjE; metis)+

lemma codecD:
  assumes "codec_laws C"
  shows "ser_entry C x = Inr bs \<Longrightarrow> de_entry C bs = Inr x"
    "ser_ballot C b = Inr bs \<Longrightarrow> de_ballot C bs = Inr b"
    "ser_stopsign C ss = Inr bs \<Longrightarrow> de_stopsign C bs = Inr ss"
    "ser_snapshot C sn = Inr bs \<Longrightarrow> de_snapshot C bs = Inr sn"
    "n < 2 ^ 64 \<Longrightarrow> usize_read_from C (usize_as_bytes C n) = Some n"
  using assms unfolding codec_laws_def by blast+

lemma batch_append_run:
  assumes R: "rocksdb_laws R V" and C: "codec_laws C"
    and run: "batch_append_entries R C new ps = (Inr (), ps')"
    and L: "log_contents C s es (snd (v_batch V (ps_write_batch ps) s0))"
    and key: "ps_next_log_key ps = s + j" "j \<le> length es" "s + j + length new < 2 ^ 64"
  shows "log_contents C s (take j es @ new @ drop (j + length new) es) (snd (v_batch V (ps_write_batch ps') s0)) \<and>
    fst (v_batch V (ps_write_batch ps') s0) = fst (v_batch V (ps_write_batch ps) s0) \<and>
    ps_next_log_key ps' = s + j + length new \<and> ps_db ps' = ps_db ps"
  using run L key
proof (induction new arbitrary: ps es j)
  case Nil
  then show ?case by simp
next
  case (Cons e new)
  obtain bs where bs: "ser_entry C e = Inr bs" using Cons.prems(1) by (auto split: sum.splits)
  let ?ps = "ps\<lparr>ps_write_batch := wb_put_log R (to_be_bytes (ps_next_log_key ps)) bs (ps_write_batch ps),
    ps_next_log_key := ps_next_log_key ps + 1\<rparr>" and ?es = "take j es @ e # drop (j + 1) es"
  have run: "batch_append_entries R C new ?ps = (Inr (), ps')" using Cons.prems(1) bs by simp
  have L: "log_contents C s ?es (snd (v_batch V (ps_write_batch ?ps) s0))"
    using log_contents_put [OF Cons.prems(2,4) _ codecD(1) [OF C bs]] Cons.prems(3,5)
    by (simp add: batch_laws(3) [OF R])
  have "log_contents C s (take (j + 1) ?es @ new @ drop (j + 1 + length new) ?es)
      (snd (v_batch V (ps_write_batch ps') s0)) \<and>
    fst (v_batch V (ps_write_batch ps') s0) = fst (v_batch V (ps_write_batch ?ps) s0) \<and>
    ps_next_log_key ps' = s + (j + 1) + length new \<and> ps_db ps' = ps_db ?ps"
    by (rule Cons.IH [OF run L]) (use Cons.prems(3-5) in auto)
  moreover have "take (j + 1) ?es @ new @ drop (j + 1 + length new) ?es =
      take j es @ (e # new) @ drop (j + length (e # new)) es"
    using Cons.prems(4) by (simp add: drop_Cons' add.commute)
  ultimately show ?case by (simp add: batch_laws(3) [OF R])
qed

lemma stored_upd:
  "stored (d(key \<mapsto> bs)) key absent de x \<longleftrightarrow> de bs = Inr x"
  "key' \<noteq> key \<Longrightarrow> stored (d(key \<mapsto> bs)) key' absent de x \<longleftrightarrow> stored d key' absent de x"
  by (auto simp: stored_def)

lemma key_neqs:
  shows "NPROM \<noteq> ACC" "NPROM \<noteq> DECIDE" "NPROM \<noteq> TRIM" "NPROM \<noteq> STOPSIGN" "NPROM \<noteq> SNAPSHOT"
  "ACC \<noteq> NPROM" "ACC \<noteq> DECIDE" "ACC \<noteq> TRIM" "ACC \<noteq> STOPSIGN" "ACC \<noteq> SNAPSHOT"
  "DECIDE \<noteq> NPROM" "DECIDE \<noteq> ACC" "DECIDE \<noteq> TRIM" "DECIDE \<noteq> STOPSIGN" "DECIDE \<noteq> SNAPSHOT"
  "TRIM \<noteq> NPROM" "TRIM \<noteq> ACC" "TRIM \<noteq> DECIDE" "TRIM \<noteq> STOPSIGN" "TRIM \<noteq> SNAPSHOT"
  "STOPSIGN \<noteq> NPROM" "STOPSIGN \<noteq> ACC" "STOPSIGN \<noteq> DECIDE" "STOPSIGN \<noteq> TRIM" "STOPSIGN \<noteq> SNAPSHOT"
  "SNAPSHOT \<noteq> NPROM" "SNAPSHOT \<noteq> ACC" "SNAPSHOT \<noteq> DECIDE" "SNAPSHOT \<noteq> TRIM" "SNAPSHOT \<noteq> STOPSIGN"
  by (simp_all add: NPROM_def ACC_def DECIDE_def TRIM_def STOPSIGN_def SNAPSHOT_def ascii_def)

lemma state_contents_log [simp]:
  "state_contents C d (ms\<lparr>ms_log := es\<rparr>) = state_contents C d ms"
  "state_contents C d (ms\<lparr>ms_trimmed_idx := i\<rparr>) = state_contents C d ms"
  by (simp_all add: state_contents_def)

lemma read_usize_Inr: "codec_laws C \<Longrightarrow> n < 2 ^ 64 \<Longrightarrow> read_usize C (usize_as_bytes C n) = Inr n"
  by (simp add: read_usize_def codecD)

lemma state_contents_set:
  assumes C: "codec_laws C" and st: "state_contents C d ms"
  shows "ser_ballot C b = Inr bs \<Longrightarrow> state_contents C (d(NPROM \<mapsto> bs)) (ms\<lparr>ms_n_prom := Some b\<rparr>)"
    "ser_ballot C b = Inr bs \<Longrightarrow> state_contents C (d(ACC \<mapsto> bs)) (ms\<lparr>ms_acc_round := Some b\<rparr>)"
    "n < 2 ^ 64 \<Longrightarrow> state_contents C (d(DECIDE \<mapsto> usize_as_bytes C n)) (ms\<lparr>ms_ld := n\<rparr>)"
    "n < 2 ^ 64 \<Longrightarrow> state_contents C (d(TRIM \<mapsto> usize_as_bytes C n)) (ms\<lparr>ms_compacted_idx := n\<rparr>)"
    "ser_stopsign C ss = Inr bs \<Longrightarrow> state_contents C (d(STOPSIGN \<mapsto> bs)) (ms\<lparr>ms_stopsign := ss\<rparr>)"
    "ser_snapshot C sn = Inr bs \<Longrightarrow> state_contents C (d(SNAPSHOT \<mapsto> bs)) (ms\<lparr>ms_snapshot := sn\<rparr>)"
  using st codecD [OF C] key_neqs
  by (simp_all add: state_contents_def stored_upd read_usize_Inr [OF C])

text \<open>One operation of a transaction, put into the batch.\<close>

lemma batch_put_Some:
  assumes "rocksdb_laws R V" "batch_put R key ser ps = (Inr (), ps')"
  obtains bs where "ser = Inr bs" "ps_next_log_key ps' = ps_next_log_key ps" "ps_db ps' = ps_db ps"
    "v_batch V (ps_write_batch ps') s0 =
      ((fst (v_batch V (ps_write_batch ps) s0))(key \<mapsto> bs), snd (v_batch V (ps_write_batch ps) s0))"
  using assms by (auto simp: batch_put_def batch_laws(2) split: sum.splits)

lemma rep_value:
  assumes "rocksdb_laws R V" "batch_put R key ser ps = (Inr (), ps')"
    and "rep C (v_batch V (ps_write_batch ps) s0) (ps_next_log_key ps) ms"
    and "ms_log ms' = ms_log ms" "ms_trimmed_idx ms' = ms_trimmed_idx ms"
    and "\<And>d bs. ser = Inr bs \<Longrightarrow> state_contents C d ms \<Longrightarrow> state_contents C (d(key \<mapsto> bs)) ms'"
  shows "rep C (v_batch V (ps_write_batch ps') s0) (ps_next_log_key ps') ms' \<and>
    ps_next_log_key ps' = ps_next_log_key ps \<and> ps_db ps' = ps_db ps"
proof -
  obtain bs where "ser = Inr bs" "ps_next_log_key ps' = ps_next_log_key ps" "ps_db ps' = ps_db ps"
    "v_batch V (ps_write_batch ps') s0 =
      ((fst (v_batch V (ps_write_batch ps) s0))(key \<mapsto> bs), snd (v_batch V (ps_write_batch ps) s0))"
    by (rule batch_put_Some [OF assms(1,2)])
  then show ?thesis using assms(3-6) by (simp add: rep_def ms_log_end_def)
qed

lemma rep_append:
  assumes R: "rocksdb_laws R V" and C: "codec_laws C"
    and rep: "rep C (v_batch V (ps_write_batch ps) s0) (ps_next_log_key ps) ms"
    and run: "batch_append_entries R C new ps = (Inr (), ps')"
    and key: "ps_next_log_key ps = ms_log_end ms" "ms_log_end ms + length new < 2 ^ 64"
  shows "rep C (v_batch V (ps_write_batch ps') s0) (ps_next_log_key ps') (ms_append_entries new ms) \<and>
    ps_next_log_key ps' = ps_next_log_key ps + length new \<and> ps_db ps' = ps_db ps"
  using batch_append_run [OF R C run, of "ms_trimmed_idx ms" "ms_log ms" s0 "length (ms_log ms)"] rep key
  by (simp add: rep_def ms_append_entries_def ms_log_end_def)

lemma rep_append_on_prefix:
  assumes R: "rocksdb_laws R V" and C: "codec_laws C"
    and rep: "rep C (v_batch V (ps_write_batch ps) s0) (ps_next_log_key ps) ms"
    and run: "batch_append_on_prefix R C i new ps = (Inr (), ps')"
    and i: "ms_trimmed_idx ms \<le> i" "i \<le> ms_log_end ms" "i + length new < 2 ^ 64"
    and ms': "ms_append_on_prefix i new ms = Some ms'"
  shows "rep C (v_batch V (ps_write_batch ps') s0) (ps_next_log_key ps') ms' \<and>
    ps_next_log_key ps' = i + length new \<and> ps_db ps' = ps_db ps"
proof -
  let ?s = "ms_trimmed_idx ms" and ?es = "ms_log ms" and ?d = "i + length new"
  let ?ps = "if ?d < ps_next_log_key ps
    then ps\<lparr>ps_write_batch := wb_delete_range_log R (to_be_bytes ?d)
           (to_be_bytes (ps_next_log_key ps)) (ps_write_batch ps)\<rparr>
    else ps"
  have run': "batch_append_entries R C new (?ps\<lparr>ps_next_log_key := i\<rparr>) = (Inr (), ps')"
    using run by (simp add: batch_append_on_prefix_def Let_def)
  have L: "log_contents C ?s ?es (snd (v_batch V (ps_write_batch ps) s0))"
    and key: "ps_next_log_key ps = ?s + length ?es \<or> ?es = [] \<and> ps_next_log_key ps \<le> ?s"
    using rep by (simp_all add: rep_def ms_log_end_def)
  have cut: "log_contents C ?s (take (?d - ?s) ?es) (snd (v_batch V (ps_write_batch ?ps) s0))"
  proof (cases "?d < ps_next_log_key ps")
    case True
    then have next_key: "ps_next_log_key ps = ?s + length ?es" using key i(1) by auto
    have d: "?s + (?d - ?s) = ?d" "?d - ?s \<le> length ?es" using i True next_key by auto
    show ?thesis using log_contents_cut [OF L d(2)] True next_key d(1)
      by (simp add: batch_laws(4) [OF R])
  next
    case False
    then have "take (?d - ?s) ?es = ?es" using key i by auto
    then show ?thesis using L False by simp
  qed
  have j: "?s + (i - ?s) = i" "i - ?s \<le> length (take (?d - ?s) ?es)" "i - ?s \<le> length ?es"
    using i by (auto simp: ms_log_end_def)
  have res: "log_contents C ?s (take (i - ?s) (take (?d - ?s) ?es) @ new @ drop (i - ?s + length new) (take (?d - ?s) ?es))
      (snd (v_batch V (ps_write_batch ps') s0)) \<and>
    fst (v_batch V (ps_write_batch ps') s0) = fst (v_batch V (ps_write_batch (?ps\<lparr>ps_next_log_key := i\<rparr>)) s0) \<and>
    ps_next_log_key ps' = ?s + (i - ?s) + length new \<and> ps_db ps' = ps_db (?ps\<lparr>ps_next_log_key := i\<rparr>)"
    by (rule batch_append_run [OF R C run']) (use cut j i in simp_all)
  have "take (i - ?s) (take (?d - ?s) ?es) @ new @ drop (i - ?s + length new) (take (?d - ?s) ?es) =
      take (i - ?s) ?es @ new"
    using i(1) by (simp add: min_def)
  moreover have "ms' = ms\<lparr>ms_log := take (i - ?s) ?es @ new\<rparr>"
    using ms' i(1) by (auto simp: ms_append_on_prefix_def ms_append_entries_def)
  moreover have "fst (v_batch V (ps_write_batch ?ps) s0) = fst (v_batch V (ps_write_batch ps) s0)"
    "ps_db ?ps = ps_db ps"
    by (simp_all add: batch_laws(4) [OF R])
  ultimately show ?thesis using res rep j by (simp add: rep_def ms_log_end_def)
qed

lemma rep_trim:
  assumes R: "rocksdb_laws R V"
    and rep: "rep C (v_batch V (ps_write_batch ps) s0) (ps_next_log_key ps) ms"
    and i: "ms_trimmed_idx ms \<le> i" "i < 2 ^ 64" and ms': "ms_trim i ms = Some ms'"
    and run: "batch_trim R i ps = (Inr (), ps')"
  shows "rep C (v_batch V (ps_write_batch ps') s0) (ps_next_log_key ps') ms' \<and>
    ps_next_log_key ps' = ps_next_log_key ps \<and> ps_db ps' = ps_db ps"
proof -
  have ms': "ms' = ms\<lparr>ms_log := drop (i - ms_trimmed_idx ms) (ms_log ms), ms_trimmed_idx := i\<rparr>"
    using ms' by (auto simp: ms_trim_def Let_def min_def)
  have "log_contents C i (drop (i - ms_trimmed_idx ms) (ms_log ms))
      (delete_range (to_be_bytes 0) (to_be_bytes i) (snd (v_batch V (ps_write_batch ps) s0)))"
    by (rule log_contents_trim) (use rep i in \<open>simp_all add: rep_def\<close>)
  moreover have "ps_next_log_key ps = i + length (drop (i - ms_trimmed_idx ms) (ms_log ms)) \<or>
      drop (i - ms_trimmed_idx ms) (ms_log ms) = [] \<and> ps_next_log_key ps \<le> i"
    using rep i(1) by (auto simp: rep_def ms_log_end_def)
  ultimately show ?thesis using rep run
    by (auto simp: ms' rep_def ms_log_end_def batch_trim_def batch_laws(4) [OF R])
qed

lemma rep_op:
  assumes R: "rocksdb_laws R V" and C: "codec_laws C"
    and rep: "rep C (v_batch V (ps_write_batch ps) s0) (ps_next_log_key ps) ms"
    and fits: "op_fits (ps_next_log_key ps) ms op" and ms': "ms_apply_op op ms = Some ms'"
    and run: "batch_op R C op ps = (Inr (), ps')"
  shows "rep C (v_batch V (ps_write_batch ps') s0) (ps_next_log_key ps') ms' \<and>
    ps_next_log_key ps' = key_after op (ps_next_log_key ps) \<and> ps_db ps' = ps_db ps"
proof (cases op)
  case (AppendEntry e)
  then have "batch_append_entries R C [e] ps = (Inr (), ps')"
    using run by (auto simp: batch_append_entry_def split: sum.splits)
  from rep_append [OF R C rep this] show ?thesis using AppendEntry fits ms'
    by (auto simp: op_fits_def key_after_def ms_append_entry_def ms_append_entries_def)
next
  case (AppendEntries es)
  then show ?thesis using rep_append [OF R C rep, of es ps'] run fits ms'
    by (auto simp: op_fits_def key_after_def)
next
  case (AppendOnPrefix i es)
  then show ?thesis using rep_append_on_prefix [OF R C rep, of i es ps'] run fits ms'
    by (auto simp: op_fits_def key_after_def)
next
  case (Trim i)
  then show ?thesis using rep_trim [OF R rep _ _ _ , of i ms' ps'] run fits ms'
    by (auto simp: op_fits_def key_after_def)
next
  case (SetPromise b)
  then have "batch_put R NPROM (ser_ballot C b) ps = (Inr (), ps')" using run by (simp add: batch_set_promise_def)
  from rep_value [OF R this rep, of ms'] show ?thesis using SetPromise ms' state_contents_set(1) [OF C]
    by (auto simp: key_after_def ms_set_promise_def)
next
  case (SetAcceptedRound b)
  then have "batch_put R ACC (ser_ballot C b) ps = (Inr (), ps')" using run by (simp add: batch_set_accepted_round_def)
  from rep_value [OF R this rep, of ms'] show ?thesis using SetAcceptedRound ms' state_contents_set(2) [OF C]
    by (auto simp: key_after_def ms_set_accepted_round_def)
next
  case (SetDecidedIndex n)
  then have "batch_put R DECIDE (Inr (usize_as_bytes C n)) ps = (Inr (), ps')"
    using run by (simp add: batch_set_decided_idx_def)
  from rep_value [OF R this rep, of ms'] show ?thesis
    using SetDecidedIndex ms' fits state_contents_set(3) [OF C]
    by (auto simp: key_after_def ms_set_decided_idx_def op_fits_def)
next
  case (SetCompactedIdx n)
  then have "batch_put R TRIM (Inr (usize_as_bytes C n)) ps = (Inr (), ps')"
    using run by (simp add: batch_set_compacted_idx_def)
  from rep_value [OF R this rep, of ms'] show ?thesis
    using SetCompactedIdx ms' fits state_contents_set(4) [OF C]
    by (auto simp: key_after_def ms_set_compacted_idx_def op_fits_def)
next
  case (SetStopsign ss)
  then have "batch_put R STOPSIGN (ser_stopsign C ss) ps = (Inr (), ps')"
    using run by (simp add: batch_set_stopsign_def)
  from rep_value [OF R this rep, of ms'] show ?thesis using SetStopsign ms' state_contents_set(5) [OF C]
    by (auto simp: key_after_def ms_set_stopsign_def)
next
  case (SetSnapshot sn)
  then have "batch_put R SNAPSHOT (ser_snapshot C sn) ps = (Inr (), ps')"
    using run by (simp add: batch_set_snapshot_def)
  from rep_value [OF R this rep, of ms'] show ?thesis using SetSnapshot ms' state_contents_set(6) [OF C]
    by (auto simp: key_after_def ms_set_snapshot_def)
qed

lemma rep_ops:
  assumes R: "rocksdb_laws R V" and C: "codec_laws C"
    and "rep C (v_batch V (ps_write_batch ps) s0) (ps_next_log_key ps) ms"
    and "txn_fits (ps_next_log_key ps) ms ops" and "batch_ops R C ops ps = (Inr (), ps')"
  shows "\<exists>ms'. ms_write_atomically ops ms = Some ms' \<and>
    rep C (v_batch V (ps_write_batch ps') s0) (ps_next_log_key ps') ms' \<and> ps_db ps' = ps_db ps \<and>
    ps_next_log_key ps' = fold key_after ops (ps_next_log_key ps)"
  using assms(3-)
proof (induction ops arbitrary: ps ms)
  case Nil
  then show ?case by (simp add: ms_write_atomically_def)
next
  case (Cons op ops)
  obtain ps1 where ps1: "batch_op R C op ps = (Inr (), ps1)" "batch_ops R C ops ps1 = (Inr (), ps')"
    using Cons.prems(3) by (auto split: prod.splits sum.splits)
  obtain ms1 where ms1: "ms_apply_op op ms = Some ms1" "op_fits (ps_next_log_key ps) ms op"
    "txn_fits (key_after op (ps_next_log_key ps)) ms1 ops"
    using Cons.prems(2) by (auto split: option.splits)
  note step = rep_op [OF R C Cons.prems(1) ms1(2,1) ps1(1)]
  have "\<exists>ms'. ms_write_atomically ops ms1 = Some ms' \<and>
      rep C (v_batch V (ps_write_batch ps') s0) (ps_next_log_key ps') ms' \<and> ps_db ps' = ps_db ps1 \<and>
      ps_next_log_key ps' = fold key_after ops (ps_next_log_key ps1)"
    by (rule Cons.IH) (use step ms1(3) ps1(2) in auto)
  then show ?case using step ms1(1) by (auto simp: ms_write_atomically_def)
qed

text \<open>A transaction the database accepts is the in-memory one.\<close>

lemma write_atomically_represents:
  assumes R: "rocksdb_laws R V" and C: "codec_laws C" and rep: "represents_db V C ps ms"
    and fits: "txn_fits (ps_next_log_key ps) ms ops"
    and run: "ps_write_atomically R C ops ps = (Inr (), ps')"
  obtains ms' where "ms_write_atomically ops ms = Some ms'" "represents_db V C ps' ms'"
    "ps_next_log_key ps' = fold key_after ops (ps_next_log_key ps)"
proof -
  obtain ps1 db where ps1: "batch_ops R C ops ps = (Inr (), ps1)"
    "db_write R (ps_write_batch ps1) (ps_db ps1) = Inr db"
    "ps' = ps1\<lparr>ps_write_batch := wb_default R, ps_db := db\<rparr>"
    using run by (auto simp: ps_write_atomically_def Let_def split: prod.splits sum.splits)
  have "rep C (v_batch V (ps_write_batch ps) (contents_of V (ps_db ps))) (ps_next_log_key ps) ms"
    using rep unfolding represents_db_def by metis
  from rep_ops [OF R C this fits ps1(1)] obtain ms' where ms': "ms_write_atomically ops ms = Some ms'"
    "rep C (v_batch V (ps_write_batch ps1) (contents_of V (ps_db ps))) (ps_next_log_key ps1) ms'"
    "ps_db ps1 = ps_db ps" "ps_next_log_key ps1 = fold key_after ops (ps_next_log_key ps)" by blast
  have "contents_of V db = v_batch V (ps_write_batch ps1) (contents_of V (ps_db ps))"
    using batch_laws(5) [OF R ps1(2)] ms'(3) by simp
  then have "represents_db V C ps' ms'"
    using ms'(2) ps1(3) batch_laws(1) [OF R] by (simp add: represents_db_def)
  with ms'(1) show thesis by (rule that) (use ms'(4) ps1(3) in simp)
qed

text \<open>The transaction of \<^verbatim>\<open>sync_log\<close> fits wherever its suffix starts within the log.\<close>

lemma sync_transaction_fits:
  assumes "ms_trimmed_idx ms \<le> i" "snap_ops = [] \<and> i \<le> ms_log_end ms \<or>
      snap_ops = [Trim i, SetCompactedIdx i, SetSnapshot sn]"
    and "i + length es < 2 ^ 64" "d < 2 ^ 64" "ss_ops = [] \<or> ss_ops = [SetStopsign ss]"
    and ops: "ops = [SetAcceptedRound r, SetDecidedIndex d] @ snap_ops @ [AppendOnPrefix i es] @ ss_ops"
  shows "txn_fits key ms ops \<and> fold key_after ops key = i + length es \<and>
    (\<exists>ms'. ms_write_atomically ops ms = Some ms' \<and> ms_log_end ms' = i + length es)"
proof (cases "snap_ops = []")
  case True
  then show ?thesis using assms
    by (auto simp: op_fits_def key_after_def ms_defs ms_log_end_def checked_sub_def)
next
  case False
  then show ?thesis using assms
    by (auto simp: op_fits_def key_after_def ms_defs ms_log_end_def checked_sub_def Let_def min_def)
qed

text \<open>
  A synchronisation that succeeds in memory performs a transaction which, on the database,
  leaves the same state and a next key that follows the last entry.
\<close>

lemma sync_log_represents:
  assumes R: "rocksdb_laws R V" and C: "codec_laws C"
    and sync: "sync_log env r d (Some sync) self = Some (Inr (n, self'))"
    and start: "ms_trimmed_idx (is_storage self) \<le> ls_sync_idx sync"
      "ls_decided_snapshot sync = None \<Longrightarrow> ls_sync_idx sync \<le> ms_log_end (is_storage self)"
    and lim: "ls_sync_idx sync + length (ls_suffix sync) < 2 ^ 64" "d < 2 ^ 64"
  obtains ops where "ms_write_atomically ops (is_storage self) = Some (is_storage self')"
    "\<And>ps ps'. represents_db V C ps (is_storage self) \<Longrightarrow> ps_write_atomically R C ops ps = (Inr (), ps') \<Longrightarrow>
      represents_db V C ps' (is_storage self') \<and> ps_next_log_key ps' = ms_log_end (is_storage self')"
proof -
  let ?self = "self\<lparr>is_cache := (is_cache self)\<lparr>sc_accepted_round := r, sc_decided_idx := d\<rparr>\<rparr>"
  obtain snap_ops k where snap: "sync_snapshot env sync ?self = Some (Inr (snap_ops, k))"
    using sync by (auto simp: sync_log_def Let_def)
  obtain ss_ops where ss: "ss_ops = [] \<or> (\<exists>ss. ss_ops = [SetStopsign ss])"
    and wr: "ms_write_atomically ([SetAcceptedRound r, SetDecidedIndex d] @ snap_ops @
        [AppendOnPrefix (ls_sync_idx sync) (ls_suffix sync)] @ ss_ops) (is_storage self) = Some (is_storage self')"
  proof (cases "ls_stopsign sync")
    case None
    show thesis
    proof (cases "sc_stopsign (is_cache self)")
      case None': None
      show thesis by (rule that [of "[]"])
        (use sync snap None None' in \<open>auto simp: sync_log_def Let_def split: bind_splits\<close>)
    next
      case (Some ss)
      show thesis by (rule that [of "[SetStopsign None]"])
        (use sync snap None Some in \<open>auto simp: sync_log_def Let_def split: bind_splits\<close>)
    qed
  next
    case (Some ss)
    show thesis by (rule that [of "[SetStopsign (Some ss)]"])
      (use sync snap Some in \<open>auto simp: sync_log_def Let_def split: bind_splits\<close>)
  qed
  let ?ops = "[SetAcceptedRound r, SetDecidedIndex d] @ snap_ops @
        [AppendOnPrefix (ls_sync_idx sync) (ls_suffix sync)] @ ss_ops"
  have snap_ops: "\<exists>sn. snap_ops = [] \<and> ls_sync_idx sync \<le> ms_log_end (is_storage self) \<or>
      snap_ops = [Trim (ls_sync_idx sync), SetCompactedIdx (ls_sync_idx sync), SetSnapshot sn]"
  proof (cases "ls_decided_snapshot sync")
    case None
    then show ?thesis using snap start(2) by (simp add: sync_snapshot_def)
  next
    case (Some t)
    then show ?thesis
    proof (cases t)
      case (Delta d)
      then obtain y where y: "create_decided_snapshot env ?self = Some (Inr y)"
        using snap Some by (auto simp: sync_snapshot_def)
      then show ?thesis using snap Some Delta by (auto simp: sync_snapshot_def bind_eq_Some_conv)
    qed (use snap Some in \<open>auto simp: sync_snapshot_def\<close>)
  qed
  have fits: "txn_fits key (is_storage self) ?ops \<and>
      fold key_after ?ops key = ls_sync_idx sync + length (ls_suffix sync) \<and>
      ms_log_end (is_storage self') = ls_sync_idx sync + length (ls_suffix sync)" for key
    using snap_ops ss wr sync_transaction_fits [OF start(1) _ lim _ refl, of snap_ops _ ss_ops _ key r] by auto
  show thesis
  proof (rule that [OF wr])
    fix ps ps'
    assume rep: "represents_db V C ps (is_storage self)" and run: "ps_write_atomically R C ?ops ps = (Inr (), ps')"
    obtain ms' where "ms_write_atomically ?ops (is_storage self) = Some ms'" "represents_db V C ps' ms'"
      "ps_next_log_key ps' = fold key_after ?ops (ps_next_log_key ps)"
      by (rule write_atomically_represents [OF R C rep _ run]) (use fits in blast)
    then show "represents_db V C ps' (is_storage self') \<and> ps_next_log_key ps' = ms_log_end (is_storage self')"
      using wr fits [of "ps_next_log_key ps"] by auto
  qed
qed

subsubsection \<open>Reading\<close>

lemma filter_eq_drop: "(\<And>i. i < length xs \<Longrightarrow> P (xs ! i) \<longleftrightarrow> j \<le> i) \<Longrightarrow> filter P xs = drop j xs"
proof (induction xs arbitrary: j)
  case (Cons x xs)
  have "filter P xs = drop (j - 1) xs"
  proof (rule Cons.IH)
    fix i assume "i < length xs"
    then show "P (xs ! i) \<longleftrightarrow> j - 1 \<le> i" using Cons.prems [of "Suc i"] by auto
  qed
  then show ?case using Cons.prems [of 0] by (cases j) auto
qed simp

text \<open>The log column family in key order.\<close>

lemma log_listing:
  assumes sorted: "sorted_wrt (<) (map fst xs)" and L: "log_contents C s es (map_of xs)"
  shows "length xs = length es \<and> (\<forall>i < length es. fst (xs ! i) = to_be_bytes (s + i) \<and>
    de_entry C (snd (xs ! i)) = Inr (es ! i))"
proof -
  have L: "s + length es < 2 ^ 64"
    "\<And>i. i < length es \<Longrightarrow> \<exists>bs. map_of xs (to_be_bytes (s + i)) = Some bs \<and> de_entry C bs = Inr (es ! i)"
    "\<And>k. map_of xs k \<noteq> None \<Longrightarrow> \<exists>i < length es. k = to_be_bytes (s + i)"
    using L by (auto simp: log_contents_def)
  let ?ks = "map (\<lambda>i. to_be_bytes (s + i)) [0..<length es]"
  have dist: "distinct (map fst xs)" and le: "sorted (map fst xs)"
    using sorted by (auto simp: strict_sorted_iff)
  have "sorted_wrt (<) ?ks"
    using L(1) by (auto simp: sorted_wrt_iff_nth_less be_less)
  moreover have "set (map fst xs) = set ?ks"
  proof -
    have "set (map fst xs) = dom (map_of xs)" by (simp add: dom_map_of_conv_image_fst)
    moreover have "set ?ks = dom (map_of xs)" using L(2,3) by (fastforce simp: dom_def)
    ultimately show ?thesis by simp
  qed
  ultimately have keys: "map fst xs = ?ks"
    using dist le by (intro sorted_distinct_set_unique) (auto simp: strict_sorted_iff)
  then have len: "length xs = length es" by (metis length_map length_upt minus_nat.diff_0)
  have "fst (xs ! i) = to_be_bytes (s + i) \<and> de_entry C (snd (xs ! i)) = Inr (es ! i)"
    if i: "i < length es" for i
  proof -
    have k: "fst (xs ! i) = to_be_bytes (s + i)"
      using keys i len by (metis (no_types, lifting) add_cancel_left_left nth_map_upt minus_nat.diff_0 nth_map)
    have "map_of xs (fst (xs ! i)) = Some (snd (xs ! i))"
      using dist i len by (simp add: map_of_eq_Some_iff)
    then show ?thesis using k L(2) [OF i] by simp
  qed
  then show ?thesis using len by blast
qed

lemma read_entries_run:
  assumes R: "rocksdb_laws R V"
  shows "list_all2 (\<lambda>p e. de_entry C (snd p) = Inr e) (v_left V it) es \<Longrightarrow> n \<le> length es \<Longrightarrow>
    read_entries R C n it = Inr (take n es)"
proof (induction n arbitrary: it es)
  case (Suc n)
  obtain e es' where es: "es = e # es'" using Suc.prems(2) by (cases es) auto
  then obtain p ps where ps: "v_left V it = p # ps" "de_entry C (snd p) = Inr e"
    "list_all2 (\<lambda>p e. de_entry C (snd p) = Inr e) ps es'"
    using Suc.prems(1) by (auto simp: list_all2_Cons2)
  have "v_left V (it_next R it) = ps" using ps(1) by (simp add: it_laws(5) [OF R])
  then have "read_entries R C n (it_next R it) = Inr (take n es')"
    using Suc.IH [of "it_next R it" es'] ps(3) Suc.prems(2) es by simp
  then show ?case using ps(1,2) es by (simp add: it_laws(8) [OF R])
qed simp

lemma read_entries_short:
  assumes R: "rocksdb_laws R V"
  shows "list_all2 (\<lambda>p e. de_entry C (snd p) = Inr e) (v_left V it) es \<Longrightarrow> length es < n \<Longrightarrow>
    read_entries R C n it = Inl ErrHelper"
proof (induction n arbitrary: it es)
  case (Suc n)
  show ?case
  proof (cases es)
    case Nil
    then show ?thesis using Suc.prems(1) by (simp add: it_laws(8) [OF R])
  next
    case (Cons e es')
    then obtain p ps where ps: "v_left V it = p # ps" "de_entry C (snd p) = Inr e"
      "list_all2 (\<lambda>p e. de_entry C (snd p) = Inr e) ps es'"
      using Suc.prems(1) by (auto simp: list_all2_Cons2)
    have "v_left V (it_next R it) = ps" using ps(1) by (simp add: it_laws(5) [OF R])
    then have "read_entries R C n (it_next R it) = Inl ErrHelper"
      using Suc.IH [of "it_next R it" es'] ps(3) Suc.prems(2) Cons by simp
    then show ?thesis using ps(1,2) by (simp add: it_laws(8) [OF R])
  qed
qed simp

text \<open>The entries an iterator has left after seeking an index.\<close>

lemma seek_left:
  assumes R: "rocksdb_laws R V" and L: "log_contents C s es (map_of (v_log V db))" and lim: "from < 2 ^ 64"
  shows "list_all2 (\<lambda>p e. de_entry C (snd p) = Inr e)
    (v_left V (it_seek R (to_be_bytes from) (it_log R db))) (drop (from - s) es)"
proof -
  note listing = log_listing [OF db_laws(5) [OF R] L]
  have s: "s + length es < 2 ^ 64" using L by (simp add: log_contents_def)
  have "filter (\<lambda>p. to_be_bytes from \<le> fst p) (v_log V db) = drop (from - s) (v_log V db)"
  proof (rule filter_eq_drop)
    fix i assume "i < length (v_log V db)"
    then show "to_be_bytes from \<le> fst (v_log V db ! i) \<longleftrightarrow> from - s \<le> i"
      using listing s lim be_le [of "from" "s + i"] by auto
  qed
  then have "v_left V (it_seek R (to_be_bytes from) (it_log R db)) = drop (from - s) (v_log V db)"
    by (simp add: it_laws(1,3) [OF R])
  then show ?thesis using listing by (auto simp: list_all2_conv_all_nth)
qed

lemma get_entries_represents:
  assumes R: "rocksdb_laws R V" and rep: "represents_db V C ps ms"
    and key: "ps_next_log_key ps = ms_log_end ms" and "ms_trimmed_idx ms \<le> from"
  shows "ms_trimmed_idx ms \<le> to \<Longrightarrow> to \<le> ms_log_end ms \<Longrightarrow>
      \<exists>es. ms_get_entries from to ms = Some es \<and> ps_get_entries R C from to ps = Inr es"
    "ms_log_end ms < to \<Longrightarrow> ps_get_entries R C from to ps = Inr [] \<and> ms_get_entries from to ms = Some []"
    "\<exists>es. ms_get_suffix from ms = Some es \<and> ps_get_suffix R C from ps = Inr es"
proof -
  have L: "log_contents C (ms_trimmed_idx ms) (ms_log ms) (map_of (v_log V (ps_db ps)))"
    using rep by (simp add: represents_db_def rep_def contents_of_def)
  then have s: "ms_log_end ms < 2 ^ 64" by (simp add: log_contents_def ms_log_end_def)
  have read: "ps_get_entries R C from to ps = Inr (take (to - from) (drop (from - ms_trimmed_idx ms) (ms_log ms)))"
    if "to \<le> ms_log_end ms" for to
  proof (cases "from < to")
    case True
    then have "from < 2 ^ 64" using that s by simp
    from read_entries_run [OF R seek_left [OF R L this], of "to - from"]
    show ?thesis using True that key assms(4) by (simp add: ps_get_entries_def ms_log_end_def)
  qed (simp add: ps_get_entries_def key)
  show "ms_trimmed_idx ms \<le> to \<Longrightarrow> to \<le> ms_log_end ms \<Longrightarrow>
      \<exists>es. ms_get_entries from to ms = Some es \<and> ps_get_entries R C from to ps = Inr es"
    using assms(4) read
    by (auto simp: ms_get_entries_def checked_sub_def slice_def ms_log_end_def)
  show "ms_log_end ms < to \<Longrightarrow> ps_get_entries R C from to ps = Inr [] \<and> ms_get_entries from to ms = Some []"
    using key assms(4) by (auto simp: ps_get_entries_def ms_get_entries_def checked_sub_def slice_def ms_log_end_def)
  show "\<exists>es. ms_get_suffix from ms = Some es \<and> ps_get_suffix R C from ps = Inr es"
    using read [OF order_refl] key assms(4)
    by (auto simp: ps_get_suffix_def ms_get_suffix_def checked_sub_def ms_log_end_def)
qed

text \<open>Below the compacted index the first entries that are left are read instead.\<close>

lemma get_entries_below_compacted:
  assumes R: "rocksdb_laws R V" and rep: "represents_db V C ps ms"
    and key: "ps_next_log_key ps = ms_log_end ms" and range: "from < to" "from < ms_trimmed_idx ms" "to \<le> ms_log_end ms"
  shows "ps_get_entries R C from to ps =
    (if to - from \<le> length (ms_log ms) then Inr (take (to - from) (ms_log ms)) else Inl ErrHelper)"
proof -
  have L: "log_contents C (ms_trimmed_idx ms) (ms_log ms) (map_of (v_log V (ps_db ps)))"
    using rep by (simp add: represents_db_def rep_def contents_of_def)
  then have "from < 2 ^ 64" using range(2) by (simp add: log_contents_def)
  from seek_left [OF R L this] range
  have "list_all2 (\<lambda>p e. de_entry C (snd p) = Inr e)
      (v_left V (it_seek R (to_be_bytes from) (it_log R (ps_db ps)))) (ms_log ms)" by simp
  then show ?thesis using range key read_entries_run [OF R, of C _ "ms_log ms" "to - from"]
      read_entries_short [OF R, of C _ "ms_log ms" "to - from"]
    by (auto simp: ps_get_entries_def not_le)
qed

lemma ps_read_stored:
  assumes "rocksdb_laws R V" "db_get R key (ps_db ps) = Inr r" "stored (v_default V (ps_db ps)) key absent de x"
  shows "ps_read R key absent de ps = Inr x"
  using assms(2,3) db_laws(1) [OF assms(1,2)] by (auto simp: ps_read_def stored_def split: option.splits)

text \<open>The database answers reads.\<close>

definition answers :: "('db, 'wb, 'it, 'err) rocksdb \<Rightarrow> 'db \<Rightarrow> bool" where
  "answers R db \<longleftrightarrow> list_all (\<lambda>k. case db_get R k db of Inl _ \<Rightarrow> False | Inr _ \<Rightarrow> True)
     [NPROM, ACC, DECIDE, TRIM, STOPSIGN, SNAPSHOT]"

lemma answersD:
  assumes "answers R db" "k \<in> {NPROM, ACC, DECIDE, TRIM, STOPSIGN, SNAPSHOT}"
  obtains r where "db_get R k db = Inr r"
  using assms by (auto simp: answers_def split: sum.splits)

lemma getters_represent:
  assumes R: "rocksdb_laws R V" and rep: "represents_db V C ps ms" and "answers R (ps_db ps)"
  shows "ps_get_promise R C ps = Inr (ms_n_prom ms)"
    "ps_get_accepted_round R C ps = Inr (ms_acc_round ms)"
    "ps_get_decided_idx R C ps = Inr (ms_ld ms)"
    "ps_get_compacted_idx R C ps = Inr (ms_compacted_idx ms)"
    "ps_get_stopsign R C ps = Inr (ms_stopsign ms)"
    "ps_get_snapshot R C ps = Inr (ms_snapshot ms)"
proof -
  have st: "state_contents C (v_default V (ps_db ps)) ms"
    using rep by (simp add: represents_db_def rep_def contents_of_def)
  note ans = answersD [OF assms(3)]
  show "ps_get_promise R C ps = Inr (ms_n_prom ms)"
    by (rule ans [of NPROM]; use st in \<open>auto simp: ps_get_promise_def state_contents_def intro: ps_read_stored [OF R]\<close>)
  show "ps_get_accepted_round R C ps = Inr (ms_acc_round ms)"
    by (rule ans [of ACC]; use st in \<open>auto simp: ps_get_accepted_round_def state_contents_def intro: ps_read_stored [OF R]\<close>)
  show "ps_get_decided_idx R C ps = Inr (ms_ld ms)"
    by (rule ans [of DECIDE]; use st in \<open>auto simp: ps_get_decided_idx_def state_contents_def intro: ps_read_stored [OF R]\<close>)
  show "ps_get_compacted_idx R C ps = Inr (ms_compacted_idx ms)"
    by (rule ans [of TRIM]; use st in \<open>auto simp: ps_get_compacted_idx_def state_contents_def intro: ps_read_stored [OF R]\<close>)
  show "ps_get_stopsign R C ps = Inr (ms_stopsign ms)"
    by (rule ans [of STOPSIGN]; use st in \<open>auto simp: ps_get_stopsign_def state_contents_def intro: ps_read_stored [OF R]\<close>)
  show "ps_get_snapshot R C ps = Inr (ms_snapshot ms)"
    by (rule ans [of SNAPSHOT]; use st in \<open>auto simp: ps_get_snapshot_def state_contents_def intro: ps_read_stored [OF R]\<close>)
qed

lemma log_len_represents:
  assumes "rocksdb_laws R V" "represents_db V C ps ms" "answers R (ps_db ps)"
    and "ps_next_log_key ps = ms_log_end ms" "ms_compacted_idx ms = ms_trimmed_idx ms"
  shows "ps_get_log_len R C ps = Some (Inr (ms_get_log_len ms))"
  using getters_represent(4) [OF assms(1-3)] assms(4,5)
  by (simp add: ps_get_log_len_def ms_get_log_len_def ms_log_end_def checked_sub_def)

text \<open>Opening a database again: its contents, and the next key, are the ones it was left with.\<close>

lemma recover_represents:
  assumes R: "rocksdb_laws R V" and rep: "represents_db V C ps ms" and ans: "answers R (ps_db ps)"
    and compacted: "ms_log ms = [] \<Longrightarrow> ms_compacted_idx ms = ms_trimmed_idx ms"
  obtains ps' where "ps_recover R C (ps_db ps) = Some ps'" "represents_db V C ps' ms"
    "ps_db ps' = ps_db ps" "ps_next_log_key ps' = ms_log_end ms"
proof -
  let ?db = "ps_db ps"
  let ?it = "it_seek_to_last R (it_log R ?db)"
  have L: "log_contents C (ms_trimmed_idx ms) (ms_log ms) (map_of (v_log V ?db))"
    and st: "state_contents C (v_default V ?db) ms"
    using rep by (simp_all add: represents_db_def rep_def contents_of_def)
  note listing = log_listing [OF db_laws(5) [OF R] L]
  have s: "ms_log_end ms < 2 ^ 64" using L by (simp add: log_contents_def ms_log_end_def)
  let ?ps = "\<lparr>ps_db = ?db, ps_write_batch = wb_default R, ps_next_log_key = ms_log_end ms\<rparr>"
  have "ps_recover R C ?db = Some ?ps"
  proof (cases "ms_log ms = []")
    case True
    then have "v_log V ?db = []" using listing by simp
    then have invalid: "\<not> it_valid R ?it" by (simp add: it_laws [OF R])
    obtain r where r: "db_get R TRIM ?db = Inr r" by (rule answersD [OF ans, of TRIM]) auto
    have end0: "ms_log_end ms = ms_compacted_idx ms" using True compacted by (simp add: ms_log_end_def)
    have "case v_default V ?db TRIM of None \<Rightarrow> ms_compacted_idx ms = 0
        | Some bs \<Rightarrow> usize_read_from C bs = Some (ms_compacted_idx ms)"
      using st by (auto simp: state_contents_def stored_def read_usize_def split: option.splits)
    then have "case r of None \<Rightarrow> ms_log_end ms = 0 | Some bs \<Rightarrow> usize_read_from C bs = Some (ms_log_end ms)"
      using db_laws(1) [OF R r] end0 by (simp split: option.splits)
    then show ?thesis using invalid r by (auto simp: ps_recover_def Let_def split: option.splits)
  next
    case False
    let ?n = "length (ms_log ms) - 1"
    have n: "?n < length (ms_log ms)" using False by simp
    have ne: "v_log V ?db \<noteq> []" using listing False by auto
    then have "last (v_log V ?db) = v_log V ?db ! ?n" using listing by (simp add: last_conv_nth)
    then have key: "fst (last (v_log V ?db)) = to_be_bytes (ms_trimmed_idx ms + ?n)"
      using listing n by simp
    have "from_be_bytes (to_be_bytes (ms_trimmed_idx ms + ?n)) + 1 = ms_log_end ms"
      using from_to_be_bytes [of "ms_trimmed_idx ms + ?n"] s n by (simp add: ms_log_end_def)
    then show ?thesis using ne key by (simp add: ps_recover_def Let_def it_laws [OF R])
  qed
  moreover have "represents_db V C ?ps ms"
    using rep by (simp add: represents_db_def rep_def batch_laws(1) [OF R])
  ultimately show thesis by (rule that) simp_all
qed

subsubsection \<open>Failing transactions\<close>

text \<open>
  A transaction that fails while it is batched leaves its first operations in the batch, and
  the next transaction writes them.
\<close>

lemma batch_ops_append:
  "batch_ops R C ops ps = (Inr (), ps1) \<Longrightarrow> batch_ops R C (ops @ ops') ps = batch_ops R C ops' ps1"
  by (induction ops arbitrary: ps) (auto split: prod.splits sum.splits)

lemma next_transaction_writes_failed:
  assumes "batch_ops R C ops ps = (Inr (), ps1)" "batch_op R C op ps1 = (Inl e, ps1)"
  shows "ps_write_atomically R C (ops @ op # rest) ps = (Inl e, ps1)"
    "ps_write_atomically R C later ps1 = ps_write_atomically R C (ops @ later) ps"
  using batch_ops_append [OF assms(1)] assms(2) by (simp_all add: ps_write_atomically_def)

text \<open>A write the database refuses has already moved the next key.\<close>

lemma refused_write_moves_key:
  assumes R: "rocksdb_laws R V" and rep: "represents_db V C ps ms"
    and key: "ps_next_log_key ps = ms_log_end ms" and lim: "ms_log_end ms + 1 < 2 ^ 64"
    and ser: "ser_entry C entry = Inr bs"
    and refused: "db_write R (wb_put_log R (to_be_bytes (ms_log_end ms)) bs (ps_write_batch ps)) (ps_db ps) = Inl e"
  obtains ps' where "ps_write_atomically R C [AppendEntry entry] ps = (Inl (Foreign e), ps')"
    "ps_db ps' = ps_db ps" "ps_get_entries R C (ms_log_end ms) (ms_log_end ms + 1) ps' = Inl ErrHelper"
proof -
  let ?ps = "ps\<lparr>ps_write_batch := wb_default R, ps_next_log_key := ms_log_end ms + 1\<rparr>"
  have "ps_write_atomically R C [AppendEntry entry] ps = (Inl (Foreign e), ?ps)"
    using ser refused key by (simp add: ps_write_atomically_def batch_append_entry_def Let_def)
  moreover have "ps_get_entries R C (ms_log_end ms) (ms_log_end ms + 1) ?ps = Inl ErrHelper"
  proof -
    have L: "log_contents C (ms_trimmed_idx ms) (ms_log ms) (map_of (v_log V (ps_db ps)))"
      using rep by (simp add: represents_db_def rep_def contents_of_def)
    have "ms_log_end ms < 2 ^ 64" using \<open>ms_log_end ms + 1 < 2 ^ 64\<close> by simp
    from seek_left [OF R L this] have "v_left V (it_seek R (to_be_bytes (ms_log_end ms)) (it_log R (ps_db ps))) = []"
      by (simp add: ms_log_end_def)
    then show ?thesis by (simp add: ps_get_entries_def it_laws(8) [OF R])
  qed
  ultimately show thesis by (intro that) simp_all
qed

subsubsection \<open>Direct operations\<close>

text \<open>The method of the storage that performs an operation at once.\<close>

fun ps_apply_op :: "('db, 'wb, 'it, 'err) rocksdb \<Rightarrow> ('e, 's, 'err) codec \<Rightarrow> ('e, 's) storage_op \<Rightarrow>
    ('db, 'wb) persistent_storage \<Rightarrow> ('db, 'wb, 'err) ps_result" where
  "ps_apply_op R C (AppendEntry e) = ps_append_entry R C e"
| "ps_apply_op R C (AppendEntries es) = ps_append_entries R C es"
| "ps_apply_op R C (AppendOnPrefix i es) = ps_append_on_prefix R C i es"
| "ps_apply_op R C (SetPromise b) = ps_set_promise R C b"
| "ps_apply_op R C (SetDecidedIndex i) = ps_set_decided_idx R C i"
| "ps_apply_op R C (SetAcceptedRound b) = ps_set_accepted_round R C b"
| "ps_apply_op R C (SetCompactedIdx i) = ps_set_compacted_idx R C i"
| "ps_apply_op R C (Trim i) = ps_trim R i"
| "ps_apply_op R C (SetStopsign ss) = ps_set_stopsign R C ss"
| "ps_apply_op R C (SetSnapshot sn) = ps_set_snapshot R C sn"

lemma collect_as_batch:
  assumes R: "rocksdb_laws R V"
  shows "collect_entries R C es wb key = (Inr wb', key') \<Longrightarrow> ps_next_log_key ps = key \<Longrightarrow>
    v_batch V (ps_write_batch ps) s = v_batch V wb s' \<Longrightarrow>
    \<exists>ps'. batch_append_entries R C es ps = (Inr (), ps') \<and> ps_next_log_key ps' = key' \<and>
      ps_db ps' = ps_db ps \<and> v_batch V (ps_write_batch ps') s = v_batch V wb' s'"
proof (induction es arbitrary: wb key ps)
  case (Cons e es)
  obtain bs where bs: "ser_entry C e = Inr bs" using Cons.prems(1) by (auto split: sum.splits)
  let ?ps = "ps\<lparr>ps_write_batch := wb_put_log R (to_be_bytes (ps_next_log_key ps)) bs (ps_write_batch ps),
    ps_next_log_key := ps_next_log_key ps + 1\<rparr>"
  have "\<exists>ps'. batch_append_entries R C es ?ps = (Inr (), ps') \<and> ps_next_log_key ps' = key' \<and>
      ps_db ps' = ps_db ?ps \<and> v_batch V (ps_write_batch ps') s = v_batch V wb' s'"
    by (rule Cons.IH [of "wb_put_log R (to_be_bytes key) bs wb" "key + 1"])
      (use Cons.prems bs in \<open>simp_all add: batch_laws(3) [OF R]\<close>)
  then show ?case using bs by simp
qed simp

text \<open>A direct operation leaves the contents that its batched form would.\<close>

lemma direct_as_batch:
  assumes R: "rocksdb_laws R V" and idle: "\<And>s. v_batch V (ps_write_batch ps) s = s"
    and run: "ps_apply_op R C op ps = (Inr (), ps')"
  shows "\<exists>psb. batch_op R C op ps = (Inr (), psb) \<and> ps_next_log_key ps' = ps_next_log_key psb \<and>
    contents_of V (ps_db ps') = v_batch V (ps_write_batch psb) (contents_of V (ps_db ps)) \<and>
    ps_write_batch ps' = ps_write_batch ps"
proof -
  have put: "\<exists>psb. batch_put R key ser ps = (Inr (), psb) \<and> ps_next_log_key ps' = ps_next_log_key psb \<and>
      contents_of V (ps_db ps') = v_batch V (ps_write_batch psb) (contents_of V (ps_db ps)) \<and>
      ps_write_batch ps' = ps_write_batch ps" if "ps_put R key ser ps = (Inr (), ps')" for key ser
    using that idle by (auto simp: ps_put_def batch_put_def batch_laws(2) [OF R] contents_of_def
        dest: db_laws(2) [OF R] split: sum.splits)
  have appends: "\<exists>psb. batch_append_entries R C es psx = (Inr (), psb) \<and> ps_next_log_key ps' = ps_next_log_key psb \<and>
      contents_of V (ps_db ps') = v_batch V (ps_write_batch psb) s \<and> ps_write_batch ps' = ps_write_batch psd"
    if direct: "ps_append_entries R C es psd = (Inr (), ps')"
      and psx: "ps_next_log_key psx = ps_next_log_key psd"
      "v_batch V (ps_write_batch psx) s = contents_of V (ps_db psd)" for es psd psx s
  proof -
    obtain wb key db where c: "collect_entries R C es (wb_default R) (ps_next_log_key psd) = (Inr wb, key)"
      "db_write R wb (ps_db psd) = Inr db" "ps' = psd\<lparr>ps_db := db, ps_next_log_key := key\<rparr>"
      using direct by (auto simp: ps_append_entries_def split: prod.splits sum.splits)
    show ?thesis
      using collect_as_batch [OF R c(1), of psx s "contents_of V (ps_db psd)"] psx c(3) batch_laws(5) [OF R c(2)]
      by (auto simp: batch_laws(1) [OF R])
  qed
  show ?thesis
  proof (cases op)
    case (AppendEntry e)
    then show ?thesis using run idle
      by (auto simp: ps_append_entry_def batch_append_entry_def batch_laws(3) [OF R] contents_of_def
          dest: db_laws(3) [OF R] split: sum.splits)
  next
    case (AppendEntries es)
    then show ?thesis using appends [of es ps ps] run idle by simp
  next
    case (AppendOnPrefix i es)
    let ?d = "i + length es"
    let ?psx = "(if ?d < ps_next_log_key ps
      then ps\<lparr>ps_write_batch := wb_delete_range_log R (to_be_bytes ?d)
             (to_be_bytes (ps_next_log_key ps)) (ps_write_batch ps)\<rparr>
      else ps)\<lparr>ps_next_log_key := i\<rparr>"
    obtain db where db: "(if ?d < ps_next_log_key ps
        then db_delete_range_log R (to_be_bytes ?d) (to_be_bytes (ps_next_log_key ps)) (ps_db ps)
        else Inr (ps_db ps)) = Inr db"
      "ps_append_entries R C es (ps\<lparr>ps_db := db, ps_next_log_key := i\<rparr>) = (Inr (), ps')"
      using run AppendOnPrefix by (auto simp: ps_append_on_prefix_def Let_def split: sum.splits if_splits)
    have "v_batch V (ps_write_batch ?psx) (contents_of V (ps_db ps)) = contents_of V db"
      using db(1) idle by (auto simp: batch_laws(4) [OF R] contents_of_def dest: db_laws(4) [OF R] split: if_splits)
    then show ?thesis using appends [OF db(2), of ?psx "contents_of V (ps_db ps)"] AppendOnPrefix
      by (simp add: batch_append_on_prefix_def Let_def)
  next
    case (Trim i)
    then show ?thesis using run idle
      by (auto simp: ps_trim_def batch_trim_def batch_laws(4) [OF R] contents_of_def
          dest: db_laws(4) [OF R] split: sum.splits)
  qed (use run put in \<open>auto simp: ps_set_promise_def batch_set_promise_def ps_set_accepted_round_def
      batch_set_accepted_round_def ps_set_decided_idx_def batch_set_decided_idx_def
      ps_set_compacted_idx_def batch_set_compacted_idx_def ps_set_stopsign_def batch_set_stopsign_def
      ps_set_snapshot_def batch_set_snapshot_def\<close>)
qed

lemma direct_op_represents:
  assumes R: "rocksdb_laws R V" and C: "codec_laws C" and rep: "represents_db V C ps ms"
    and fits: "op_fits (ps_next_log_key ps) ms op" and ms': "ms_apply_op op ms = Some ms'"
    and run: "ps_apply_op R C op ps = (Inr (), ps')"
  shows "represents_db V C ps' ms'"
proof -
  have idle: "v_batch V (ps_write_batch ps) s = s" for s using rep unfolding represents_db_def by blast
  from direct_as_batch [OF R idle run] obtain psb where psb: "batch_op R C op ps = (Inr (), psb)"
    "ps_next_log_key ps' = ps_next_log_key psb"
    "contents_of V (ps_db ps') = v_batch V (ps_write_batch psb) (contents_of V (ps_db ps))"
    "ps_write_batch ps' = ps_write_batch ps" by blast
  have "rep C (v_batch V (ps_write_batch ps) (contents_of V (ps_db ps))) (ps_next_log_key ps) ms"
    using rep idle unfolding represents_db_def by simp
  from rep_op [OF R C this fits ms' psb(1)] show ?thesis
    using psb idle by (auto simp: represents_db_def)
qed

end
