(* ===== verification/Example_Libraries.thy ===== *)
theory Example_Libraries
  imports Derive_Entry Storage_Refinement
begin

text \<open>
  Lists that behave as the libraries are documented to: the \<^verbatim>\<open>lru\<close> crate, the
  \<^verbatim>\<open>linked_hash_set\<close> crate, one-byte encodings, RocksDB and the serialisers. The properties of the
  caches and of the persistent storage are applied to them.
\<close>

subsection \<open>The lru crate\<close>

definition ex_lru :: "('k, 'v, ('k \<times> 'v) list \<times> nat) lru_ops" where
  "ex_lru = \<lparr>
     lru_new = (\<lambda>n. ([], n)),
     lru_cap = snd,
     lru_get = (\<lambda>k l. case map_of (fst l) k of
       None \<Rightarrow> (None, l)
     | Some v \<Rightarrow> (Some v, ((k, v) # without k (AList.clearjunk (fst l)), snd l))),
     lru_len = (\<lambda>l. length (AList.clearjunk (fst l))),
     lru_pop_lru = (\<lambda>l. case AList.clearjunk (fst l) of
       [] \<Rightarrow> (None, l)
     | x # xs \<Rightarrow> (Some (last (x # xs)), (butlast (x # xs), snd l))),
     lru_push = (\<lambda>k v l. let xs = AList.clearjunk (fst l) in
       (if k \<in> fst ` set xs then (k, v) # without k xs
        else if length xs < snd l then (k, v) # xs else (k, v) # butlast xs, snd l)),
     lru_iter = (\<lambda>l. AList.clearjunk (fst l))\<rparr>"

lemma distinct_without: "distinct (map fst xs) \<Longrightarrow> distinct (map fst ((k, v) # without k xs))"
  by (auto simp: without_def distinct_map_filter)

lemma ex_lru_laws: "lru_laws ex_lru"
proof -
  have cj: "distinct (map fst (AList.clearjunk xs))" for xs :: "('k \<times> 'v) list" by (rule distinct_clearjunk)
  have push: "distinct (map fst ((k, v) # butlast (AList.clearjunk xs)))" if "k \<notin> fst ` set (AList.clearjunk xs)"
    for k and v :: 'v and xs :: "('k \<times> 'v) list"
    using that distinct_butlast [OF cj [of xs]] in_set_butlastD [of k "map fst (AList.clearjunk xs)"]
    by (auto simp: map_butlast)
  show ?thesis
    unfolding lru_laws_def
  proof (intro conjI allI impI, goal_cases)
    case (5 k l)
    then show ?case by (simp add: ex_lru_def map_of_clearjunk)
  next
    case (6 k v l)
    have "AList.clearjunk ((k, v) # without k (AList.clearjunk (fst l))) = (k, v) # without k (AList.clearjunk (fst l))"
      by (rule distinct_clearjunk_id) (rule distinct_without, rule cj)
    then show ?case using 6 by (simp add: ex_lru_def map_of_clearjunk)
  next
    case (7 l)
    have "AList.clearjunk (butlast (AList.clearjunk (fst l))) = butlast (AList.clearjunk (fst l))"
      by (rule distinct_clearjunk_id) (simp add: map_butlast distinct_butlast cj)
    then show ?case using 7 by (cases "AList.clearjunk (fst l)") (auto simp: ex_lru_def)
  next
    case (9 k v l)
    have "AList.clearjunk ((k, v) # without k (AList.clearjunk (fst l))) = (k, v) # without k (AList.clearjunk (fst l))"
      by (rule distinct_clearjunk_id) (rule distinct_without, rule cj)
    moreover have "AList.clearjunk ((k, v) # AList.clearjunk (fst l)) = (k, v) # AList.clearjunk (fst l)"
      if "k \<notin> fst ` set (AList.clearjunk (fst l))"
      by (rule distinct_clearjunk_id) (use that cj in auto)
    moreover have "AList.clearjunk ((k, v) # butlast (AList.clearjunk (fst l))) = (k, v) # butlast (AList.clearjunk (fst l))"
      if "k \<notin> fst ` set (AList.clearjunk (fst l))"
      by (rule distinct_clearjunk_id) (rule push [OF that])
    ultimately show ?case by (simp only: ex_lru_def Let_def lru_ops.simps fst_conv snd_conv) auto
  qed (simp_all add: ex_lru_def Let_def distinct_clearjunk)
qed

subsection \<open>The linked hash set\<close>

definition ex_set :: "('k, 'k list) lhs_ops" where
  "ex_set = \<lparr>lhs_default = [], lhs_with_capacity = (\<lambda>_. []),
     lhs_insert = (\<lambda>k s. remove1 k (remdups s) @ [k]),
     lhs_remove = (\<lambda>k s. remove1 k (remdups s)),
     lhs_pop_front = (\<lambda>s. case remdups s of [] \<Rightarrow> (None, s) | k # ks \<Rightarrow> (Some k, ks)),
     lhs_is_empty = (\<lambda>s. s = []),
     lhs_iter = remdups\<rparr>"

lemma ex_set_laws: "lhs_laws ex_set"
proof -
  have r: "remdups ks = ks" if "remdups s = k # ks" for s ks :: "'k list" and k
    using that distinct_remdups [of s] by (simp add: distinct_remdups_id)
  show ?thesis
    by (auto simp: lhs_laws_def ex_set_def distinct_remdups_id remove1_idem split: list.splits dest: r)
qed

subsection \<open>One-byte encodings\<close>

definition ex_u8 :: "8 word encoded_ops" where
  "ex_u8 = \<lparr>enc_default = 0, enc_one = 1, enc_add = (\<lambda>a b. if unat a + unat b < 256 then Some (a + b) else None)\<rparr>"

lemma ex_u8_nth: "n < 256 \<Longrightarrow> nth_encoding ex_u8 n = Some (word_of_nat n)"
proof (induction n)
  case (Suc n)
  then have "unat (word_of_nat n :: 8 word) = n" by (simp add: unat_of_nat)
  then show ?case using Suc by (simp add: ex_u8_def add.commute)
qed (simp add: ex_u8_def)

lemma ex_u8_fresh: "n < 256 \<Longrightarrow> encodings_fresh ex_u8 n"
proof -
  assume n: "n < 256"
  have "inj_on (nth_encoding ex_u8) {1..n}"
  proof (rule inj_onI)
    fix i j assume "i \<in> {1..n}" "j \<in> {1..n}" "nth_encoding ex_u8 i = nth_encoding ex_u8 j"
    then have "word_of_nat i = (word_of_nat j :: 8 word)" "i < 256" "j < 256" using n by (auto simp: ex_u8_nth)
    then have "unat (word_of_nat i :: 8 word) = unat (word_of_nat j :: 8 word)" by simp
    then show "i = j" using \<open>i < 256\<close> \<open>j < 256\<close> by (simp add: unat_of_nat)
  qed
  then show ?thesis using n by (auto simp: encodings_fresh_def ex_u8_nth)
qed

type_synonym ex_string_cache =
  "((string \<times> 8 word) list \<times> nat, (8 word \<times> string) list \<times> nat, 8 word) lru_unicache"

lemmas ex_lfu_evals = lfu_try_encode_def lfu_get_def update_frequency_bin_def lfu_set_def lfu_len_def ex_set_def
  ex_u8_def bin_or_default_def vc_inc_def lfu_iter_def lfu_unicache_new_def with_capacity_def Let_def

subsection \<open>A struct with two annotated fields\<close>

definition ex_struct :: "struct_field list" where
  "ex_struct = [
     \<lparr>fld_ident = Some ''id'', fld_ty = ''u64'', fld_unicache = None\<rparr>,
     \<lparr>fld_ident = Some ''key'', fld_ty = ''String'', fld_unicache = Some [MetaCache ''lfu'', MetaSize 2]\<rparr>,
     \<lparr>fld_ident = Some ''table'', fld_ty = ''String'', fld_unicache = Some []\<rparr>]"

lemmas ex_derive_evals = unicache_entry_derive_def ex_struct_def derive_field_def derived_empty_def Let_def

definition ex_cache_ops :: "(string, 8 word, (string \<times> 8 word) list \<times> nat, (8 word \<times> string) list \<times> nat,
    string list, 8 word list) cache_ops" where
  "ex_cache_ops = \<lparr>co_lru_encoder = ex_lru, co_lru_decoder = ex_lru, co_set_encoder = ex_set,
     co_set_decoder = ex_set, co_encoded = ex_u8\<rparr>"

lemma ex_cache_laws: "cache_laws ex_cache_ops"
  by (simp add: cache_laws_def ex_cache_ops_def ex_lru_laws ex_set_laws)

definition ex_entry :: "string \<rightharpoonup> string" where
  "ex_entry = [''id'' \<mapsto> ''1'', ''key'' \<mapsto> ''a'', ''table'' \<mapsto> ''b'']"

subsection \<open>A database of association lists\<close>

datatype ex_write = ExPut bytes bytes | ExPutLog bytes bytes | ExDeleteLog bytes bytes

type_synonym ex_db = "(bytes \<times> bytes) list \<times> (bytes \<times> bytes) list"

fun ex_apply :: "ex_write \<Rightarrow> ex_db \<Rightarrow> ex_db" where
  "ex_apply (ExPut k v) (d, l) = ((k, v) # d, l)"
| "ex_apply (ExPutLog k v) (d, l) = (d, (k, v) # l)"
| "ex_apply (ExDeleteLog a b) (d, l) = (d, filter (\<lambda>p. a \<le> fst p \<longrightarrow> \<not> fst p < b) l)"

fun ex_effect :: "ex_write \<Rightarrow> contents \<Rightarrow> contents" where
  "ex_effect (ExPut k v) (d, l) = (d(k \<mapsto> v), l)"
| "ex_effect (ExPutLog k v) (d, l) = (d, l(k \<mapsto> v))"
| "ex_effect (ExDeleteLog a b) (d, l) = (d, delete_range a b l)"

definition ex_listing :: "(bytes \<times> bytes) list \<Rightarrow> (bytes \<times> bytes) list" where
  "ex_listing l = map (\<lambda>k. (k, the (map_of l k))) (sort (remdups (map fst l)))"

text \<open>The database refuses a batch that writes the empty value.\<close>

definition ex_rocksdb :: "(ex_db, ex_write list, (bytes \<times> bytes) list \<times> (bytes \<times> bytes) list, unit) rocksdb" where
  "ex_rocksdb = \<lparr>
     db_get = (\<lambda>k db. Inr (map_of (fst db) k)),
     db_put = (\<lambda>k v db. Inr (ex_apply (ExPut k v) db)),
     db_put_log = (\<lambda>k v db. Inr (ex_apply (ExPutLog k v) db)),
     db_delete_range_log = (\<lambda>a b db. Inr (ex_apply (ExDeleteLog a b) db)),
     db_write = (\<lambda>wb db. if list_ex (\<lambda>w. case w of ExPut k v \<Rightarrow> v = [] | ExPutLog k v \<Rightarrow> v = [] | _ \<Rightarrow> False) wb
       then Inl () else Inr (fold ex_apply wb db)),
     wb_default = [],
     wb_put = (\<lambda>k v wb. wb @ [ExPut k v]),
     wb_put_log = (\<lambda>k v wb. wb @ [ExPutLog k v]),
     wb_delete_range_log = (\<lambda>a b wb. wb @ [ExDeleteLog a b]),
     it_log = (\<lambda>db. (ex_listing (snd db), [])),
     it_seek = (\<lambda>k it. (fst it, filter (\<lambda>p. k \<le> fst p) (fst it))),
     it_seek_to_last = (\<lambda>it. (fst it, if fst it = [] then [] else [last (fst it)])),
     it_next = (\<lambda>it. (fst it, tl (snd it))),
     it_valid = (\<lambda>it. snd it \<noteq> []),
     it_key = (\<lambda>it. if snd it = [] then None else Some (fst (hd (snd it)))),
     it_value = (\<lambda>it. if snd it = [] then None else Some (snd (hd (snd it))))\<rparr>"

definition ex_views :: "(ex_db, ex_write list, (bytes \<times> bytes) list \<times> (bytes \<times> bytes) list) views" where
  "ex_views = \<lparr>v_default = (\<lambda>db. map_of (fst db)), v_log = (\<lambda>db. ex_listing (snd db)),
     v_batch = fold ex_effect, v_all = fst, v_left = snd\<rparr>"

lemma map_of_ex_listing: "map_of (ex_listing l) = map_of l"
proof
  fix k
  show "map_of (ex_listing l) k = map_of l k"
  proof (cases "k \<in> fst ` set l")
    case True
    then obtain v where "map_of l k = Some v" by (metis domD dom_map_of_conv_image_fst)
    then show ?thesis using True by (simp add: ex_listing_def map_of_map_restrict restrict_map_def)
  next
    case False
    then have "map_of l k = None" by (simp add: map_of_eq_None_iff)
    then show ?thesis using False by (simp add: ex_listing_def map_of_map_restrict restrict_map_def)
  qed
qed

lemma ex_listing_sorted: "sorted_wrt (<) (map fst (ex_listing l))"
  by (simp add: ex_listing_def o_def strict_sorted_iff)

lemma map_of_range: "map_of (filter (\<lambda>p. a \<le> fst p \<longrightarrow> \<not> fst p < b) l) = delete_range a b (map_of l)"
  by (induction l) (auto simp: delete_range_def fun_eq_iff)

lemma ex_apply_effect: "contents_of ex_views (ex_apply w db) = ex_effect w (contents_of ex_views db)"
  by (cases w; cases db) (auto simp: contents_of_def ex_views_def map_of_ex_listing map_of_range)

lemma ex_fold_effect: "contents_of ex_views (fold ex_apply wb db) = fold ex_effect wb (contents_of ex_views db)"
  by (induction wb arbitrary: db) (simp_all add: ex_apply_effect)

lemma ex_rocksdb_laws: "rocksdb_laws ex_rocksdb ex_views"
proof -
  have one: "contents_of ex_views (ex_apply w db) = ex_effect w (map_of (fst db), map_of (ex_listing (snd db)))" for w db
    by (simp add: ex_apply_effect) (simp add: contents_of_def ex_views_def)
  have batch: "ex_effect (ExPut k v) s = ((fst s)(k \<mapsto> v), snd s)"
    "ex_effect (ExPutLog k v) s = (fst s, (snd s)(k \<mapsto> v))"
    "ex_effect (ExDeleteLog a b) s = (fst s, delete_range a b (snd s))" for k v a b s
    by (cases s; simp)+
  show ?thesis
    unfolding rocksdb_laws_def
  proof (intro conjI allI impI, goal_cases)
    case (6 wb db db')
    then have "db' = fold ex_apply wb db" by (simp add: ex_rocksdb_def split: if_splits)
    then show ?case using ex_fold_effect by (simp add: ex_views_def)
  qed (simp_all add: ex_rocksdb_def one batch ex_listing_sorted, simp_all add: ex_views_def ex_listing_sorted batch
    one [unfolded ex_views_def])
qed

subsection \<open>Serialisers\<close>

text \<open>Numbers above 255 and stop signs are not serialisable.\<close>

definition ex_codec :: "(nat, nat list, unit) codec" where
  "ex_codec = \<lparr>
     ser_entry = (\<lambda>n. if n < 256 then Inr [word_of_nat n] else Inl ()),
     de_entry = (\<lambda>bs. case bs of [b] \<Rightarrow> Inr (unat b) | _ \<Rightarrow> Inl ()),
     ser_ballot = (\<lambda>b. if b = Ballot 1 1 0 1 then Inr [1] else if b = Ballot 1 2 0 1 then Inr [2] else Inl ()),
     de_ballot = (\<lambda>bs. if bs = [1] then Inr (Ballot 1 1 0 1) else if bs = [2] then Inr (Ballot 1 2 0 1) else Inl ()),
     ser_stopsign = (\<lambda>ss. if ss = None then Inr [0] else Inl ()),
     de_stopsign = (\<lambda>bs. if bs = [0] then Inr None else Inl ()),
     ser_snapshot = (\<lambda>sn. case sn of None \<Rightarrow> Inr [0] | Some ns \<Rightarrow>
       if list_all (\<lambda>n. n < 256) ns then Inr (1 # map word_of_nat ns) else Inl ()),
     de_snapshot = (\<lambda>bs. case bs of [] \<Rightarrow> Inl () | b # bs' \<Rightarrow>
       if b = 1 then Inr (Some (map unat bs')) else Inr None),
     usize_as_bytes = to_be_bytes,
     usize_read_from = (\<lambda>bs. if length bs = 8 then Some (from_be_bytes bs) else None)\<rparr>"

lemma ex_codec_laws: "codec_laws ex_codec"
proof -
  have word: "unat (word_of_nat n :: 8 word) = n" if "n < 256" for n using that by (simp add: unat_of_nat)
  then have "map (\<lambda>x. unat (word_of_nat x :: 8 word)) ns = ns" if "list_all (\<lambda>n. n < 256) ns" for ns
    using that by (induction ns) auto
  then show ?thesis
    by (auto simp: codec_laws_def ex_codec_def word from_to_be_bytes o_def split: if_splits option.splits)
qed

lemma to_be_bytes_ne [simp]: "to_be_bytes n \<noteq> []"
  using length_to_be_bytes [of n] by force

text \<open>A database that holds the log 7, 8 after a trim of three entries.\<close>

definition ex_ps :: "(ex_db, ex_write list) persistent_storage" where
  "ex_ps = \<lparr>ps_db = ([(TRIM, to_be_bytes 3), (NPROM, [1])], [(to_be_bytes 4, [8]), (to_be_bytes 3, [7])]),
     ps_write_batch = [], ps_next_log_key = 5\<rparr>"

definition ex_ms :: "(nat, nat list) memory_storage" where
  "ex_ms = \<lparr>ms_log = [7, 8], ms_n_prom = Some (Ballot 1 1 0 1), ms_acc_round = None, ms_ld = 0,
     ms_trimmed_idx = 3, ms_compacted_idx = 3, ms_snapshot = None, ms_stopsign = None\<rparr>"

lemma ex_represents: "represents_db ex_views ex_codec ex_ps ex_ms"
proof -
  have "log_contents ex_codec 3 [] Map.empty" by (simp add: log_contents_def)
  from log_contents_put [OF this, of 0 "[7]" 7]
  have "log_contents ex_codec 3 [7] [to_be_bytes 3 \<mapsto> [7]]" by (simp add: ex_codec_def)
  from log_contents_put [OF this, of 1 "[8]" 8]
  have "log_contents ex_codec 3 [7, 8] [to_be_bytes 3 \<mapsto> [7], to_be_bytes 4 \<mapsto> [8]]"
    by (simp add: ex_codec_def)
  then show ?thesis
    by (simp add: represents_db_def rep_def contents_of_def ex_views_def map_of_ex_listing ex_ps_def ex_ms_def
        state_contents_def stored_def key_neqs ms_log_end_def ex_codec_def read_usize_def from_to_be_bytes)
qed

lemma ex_answers: "answers ex_rocksdb (ps_db ex_ps)"
  by (simp add: answers_def ex_rocksdb_def)

lemmas ex_persistent_evals = ps_write_atomically_def batch_append_on_prefix_def batch_append_entry_def
  batch_set_promise_def batch_set_decided_idx_def batch_put_def ex_rocksdb_def ex_codec_def ex_ps_def Let_def

end
