(* ===== verification/Compaction.thy ===== *)
theory Compaction
  imports Internal_Storage
begin

text \<open>
  What compaction leaves of the log: a snapshot stands for the entries it replaced, as long as
  merging snapshots is what \<^verbatim>\<open>Snapshot::merge\<close> promises.
\<close>

text \<open>
  \<open>represents env h\<close>: the snapshot and the stored log together are the log \<open>h\<close>.
\<close>

definition represents :: "('e, 's) env \<Rightarrow> 'e list \<Rightarrow> ('e, 's) internal_storage \<Rightarrow> bool" where
  "represents env h self \<longleftrightarrow>
     get_compacted_idx self \<le> length h \<and>
     ms_log (is_storage self) = drop (get_compacted_idx self) h \<and>
     (if get_compacted_idx self = 0 then ms_snapshot (is_storage self) = None
      else ms_snapshot (is_storage self) \<noteq> None \<and>
        ms_snapshot (is_storage self) = snap_create env (take (get_compacted_idx self) h))"

text \<open>What \<^verbatim>\<open>Snapshot::merge\<close> promises: merging the snapshot of what follows gives the snapshot of both.\<close>

definition merge_law :: "('e, 's) env \<Rightarrow> bool" where
  "merge_law env \<longleftrightarrow> (\<forall>a b x y. snap_create env a = Some x \<longrightarrow> snap_create env b = Some y \<longrightarrow>
     snap_merge env x y = snap_create env (a @ b))"

lemma create_snapshot_represents:
  assumes "log_inv self" "represents env h self" "merge_law env"
    and "get_compacted_idx self \<le> k" "k \<le> log_end self" "create_snapshot env k self = Some (Inr s)"
  shows "snap_create env (take k h) = Some s"
proof -
  let ?c = "get_compacted_idx self"
  obtain d where d: "snap_create env (take (k - ?c) (drop ?c h)) = Some d"
    using assms(2,6) unfolding create_snapshot_wf [OF log_inv_wf [OF assms(1)] assms(4,5)] represents_def by auto
  have h: "take ?c h @ take (k - ?c) (drop ?c h) = take k h"
    using assms(4) by (metis le_add_diff_inverse take_add)
  show ?thesis
  proof (cases "?c = 0")
    case True
    then show ?thesis using assms(2,6) d h
      unfolding create_snapshot_wf [OF log_inv_wf [OF assms(1)] assms(4,5)] represents_def by auto
  next
    case False
    then obtain x where x: "snap_create env (take ?c h) = Some x" "ms_snapshot (is_storage self) = Some x"
      using assms(2) unfolding represents_def by (cases "snap_create env (take ?c h)") (auto split: if_splits)
    have "snap_merge env x d = snap_create env (take k h)"
      using assms(3) x(1) d h unfolding merge_law_def by metis
    then show ?thesis using x(2) d assms(2,6)
      unfolding create_snapshot_wf [OF log_inv_wf [OF assms(1)] assms(4,5)] represents_def by auto
  qed
qed

lemma try_snapshot_represents:
  assumes "try_snapshot env i self = Some (Inr t)" "log_inv self" "represents env h self" "merge_law env"
  shows "represents env h t \<and> log_inv t \<and> get_decided_idx t = get_decided_idx self \<and>
    get_accepted_idx t = get_accepted_idx self \<and> get_compacted_idx self \<le> get_compacted_idx t"
  using assms(1,2)
proof (cases rule: try_snapshot_cases)
  case (2 k s)
  note c = compact_to_props [OF assms(2) less_imp_le [OF 2(1)] 2(2,3)]
  have "snap_create env (take k h) = Some s"
    by (rule create_snapshot_represents [OF assms(2-4) less_imp_le [OF 2(1)] 2(2,4)])
  then have "represents env h t"
    using assms(3) 2 c(4) by (auto simp: represents_def compact_to_def set_snapshot_def log_end_def get_defs
        ms_set_snapshot_def)
  with c 2(1,5) show ?thesis by simp
qed (use assms in simp)

end
