(* ===== verification/Early_Buffer.thy ===== *)
theory Early_Buffer
  imports Messages
begin

text \<open>
  The early buffer of the deadline-ordered multicast (\<^verbatim>\<open>dom/buffer.rs\<close>): a priority queue of
  proposals ordered by deadline and entry id, and the key of the last proposal released.

  The interface \<open>priority_queue\<close> states what the buffer needs of \<^verbatim>\<open>BinaryHeap\<close>; the model
  keeps the heap as a list sorted by key, in the order the heap pops it (the standard library
  leaves the order of entries with equal keys open).
\<close>

subsection \<open>Keys\<close>

datatype buffer_key = BufferKey (key_deadline: int) (key_entry_id: entry_id)

instantiation buffer_key :: linorder
begin

definition less_eq_buffer_key :: "buffer_key \<Rightarrow> buffer_key \<Rightarrow> bool" where
  "less_eq_buffer_key a b \<longleftrightarrow>
     key_deadline a < key_deadline b \<or>
     key_deadline a = key_deadline b \<and> key_entry_id a \<le> key_entry_id b"

definition less_buffer_key :: "buffer_key \<Rightarrow> buffer_key \<Rightarrow> bool" where
  "less_buffer_key a b \<longleftrightarrow>
     key_deadline a < key_deadline b \<or>
     key_deadline a = key_deadline b \<and> key_entry_id a < key_entry_id b"

instance
  by standard (auto simp: less_eq_buffer_key_def less_buffer_key_def intro: buffer_key.expand)

end

definition key_of :: "'e dom_propose \<Rightarrow> buffer_key" where
  "key_of proposal = BufferKey (dp_deadline proposal) (dp_entry_id proposal)"

lemma key_of_sel [simp]:
  "key_deadline (key_of p) = dp_deadline p" "key_entry_id (key_of p) = dp_entry_id p"
  by (simp_all add: key_of_def)

record 'e eb_entry =
  eb_key :: buffer_key
  eb_proposal :: "'e dom_propose"

definition eb_entry_new :: "'e dom_propose \<Rightarrow> 'e eb_entry" where
  "eb_entry_new proposal = \<lparr>eb_key = key_of proposal, eb_proposal = proposal\<rparr>"

lemma eb_entry_new_sel [simp]:
  "eb_key (eb_entry_new p) = key_of p" "eb_proposal (eb_entry_new p) = p"
  by (simp_all add: eb_entry_new_def)

subsection \<open>The priority queue\<close>

locale priority_queue =
  fixes empty :: 'q
    and push :: "'a \<Rightarrow> 'q \<Rightarrow> 'q"
    and pop :: "'q \<Rightarrow> ('a \<times> 'q) option"
    and items :: "'q \<Rightarrow> 'a multiset"
    and key :: "'a \<Rightarrow> 'k::linorder"
    and wf :: "'q \<Rightarrow> bool"
  assumes wf_empty: "wf empty" and items_empty: "items empty = {#}"
    and wf_push: "wf q \<Longrightarrow> wf (push x q)"
    and items_push: "items (push x q) = add_mset x (items q)"
    and pop_None: "wf q \<Longrightarrow> pop q = None \<longleftrightarrow> items q = {#}"
    and pop_wf: "wf q \<Longrightarrow> pop q = Some (x, r) \<Longrightarrow> wf r"
    and pop_items: "wf q \<Longrightarrow> pop q = Some (x, r) \<Longrightarrow> items q = add_mset x (items r)"
    and pop_least: "wf q \<Longrightarrow> pop q = Some (x, r) \<Longrightarrow> y \<in># items q \<Longrightarrow> key x \<le> key y"
begin

lemma pops_ascend: 
  assumes "wf q" "pop q = Some (x, r)" "pop r = Some (y, s)"
  shows "key x \<le> key y"
proof -
  have "items r = add_mset y (items s)" by (rule pop_items [OF pop_wf [OF assms(1,2)] assms(3)])
  then have "y \<in># items q" using pop_items [OF assms(1,2)] by simp
  then show ?thesis by (rule pop_least [OF assms(1,2)])
qed

lemma push_pop_bound:
  assumes "wf q" "\<And>y. y \<in># items q \<Longrightarrow> b \<le> key y" "b \<le> key x" "pop (push x q) = Some (y, r)"
  shows "b \<le> key y" and "\<And>z. z \<in># items r \<Longrightarrow> key y \<le> key z"
proof -
  have i: "add_mset x (items q) = add_mset y (items r)"
    using pop_items [OF wf_push [OF assms(1)] assms(4)] by (simp add: items_push)
  then have "y \<in># add_mset x (items q)" by simp
  then show "b \<le> key y" using assms(2,3) by auto
  fix z assume "z \<in># items r"
  then have "z \<in># items (push x q)" using i by (simp add: items_push)
  then show "key y \<le> key z" by (rule pop_least [OF wf_push [OF assms(1)] assms(4)])
qed

end

definition heap_push :: "'e eb_entry \<Rightarrow> 'e eb_entry list \<Rightarrow> 'e eb_entry list" where
  "heap_push x h = insort_key eb_key x h"

fun heap_pop :: "'e eb_entry list \<Rightarrow> ('e eb_entry \<times> 'e eb_entry list) option" where
  "heap_pop [] = None"
| "heap_pop (x # h) = Some (x, h)"

definition heap_sorted :: "'e eb_entry list \<Rightarrow> bool" where
  "heap_sorted h \<longleftrightarrow> sorted (map eb_key h)"

interpretation heap_pq: priority_queue "[]" heap_push heap_pop mset eb_key heap_sorted
proof (unfold_locales, goal_cases)
  case (3 q x)
  then show ?case by (simp add: heap_sorted_def heap_push_def sorted_insort_key)
next
  case (4 x q)
  then show ?case by (simp add: heap_push_def)
next
  case (5 q)
  then show ?case by (cases q) auto
next
  case (6 q x r)
  then show ?case by (cases q) (auto simp: heap_sorted_def)
next
  case (7 q x r)
  then show ?case by (cases q) auto
next
  case (8 q x r y)
  then show ?case by (cases q) (auto simp: heap_sorted_def)
qed (simp_all add: heap_sorted_def)

subsection \<open>The buffer\<close>

record 'e early_buffer =
  eb_heap :: "'e eb_entry list"
  last_released :: "buffer_key option"

datatype 'e early_buffer_insert_error = Late "'e dom_propose"

definition eb_new :: "'e early_buffer" where
  "eb_new = \<lparr>eb_heap = [], last_released = None\<rparr>"

definition is_late :: "'e early_buffer \<Rightarrow> 'e dom_propose \<Rightarrow> bool" where
  "is_late self proposal =
     (case last_released self of Some l \<Rightarrow> key_of proposal \<le> l | None \<Rightarrow> False)"

definition eb_insert ::
    "'e dom_propose \<Rightarrow> 'e early_buffer \<Rightarrow> 'e early_buffer_insert_error + 'e early_buffer" where
  "eb_insert proposal self =
     (if is_late self proposal then Inl (Late proposal)
      else Inr (self\<lparr>eb_heap := heap_push (eb_entry_new proposal) (eb_heap self)\<rparr>))"

definition last_released_deadline :: "'e early_buffer \<Rightarrow> int option" where
  "last_released_deadline self = map_option key_deadline (last_released self)"

definition eb_peek :: "'e early_buffer \<Rightarrow> 'e dom_propose option" where
  "eb_peek self = map_option (eb_proposal \<circ> fst) (heap_pop (eb_heap self))"

definition eb_pop :: "'e early_buffer \<Rightarrow> 'e dom_propose option \<times> 'e early_buffer" where
  "eb_pop self =
     (case heap_pop (eb_heap self) of
        None \<Rightarrow> (None, self)
      | Some (entry, h) \<Rightarrow>
          (Some (eb_proposal entry), self\<lparr>eb_heap := h, last_released := Some (eb_key entry)\<rparr>))"

definition pop_ready :: "int \<Rightarrow> 'e early_buffer \<Rightarrow> 'e dom_propose option \<times> 'e early_buffer" where
  "pop_ready now self =
     (case eb_peek self of
        Some next_p \<Rightarrow> if dp_deadline next_p \<le> now then eb_pop self else (None, self)
      | None \<Rightarrow> (None, self))"

text \<open>The loop of \<^verbatim>\<open>remove\<close> pops every entry and pushes back those with another id.\<close>

function remove_loop :: "entry_id \<Rightarrow> 'e eb_entry list \<Rightarrow> 'e eb_entry list \<Rightarrow> 'e dom_propose option \<Rightarrow>
    'e dom_propose option \<times> 'e eb_entry list" where
  "remove_loop i h new_heap removed =
     (case heap_pop h of
        None \<Rightarrow> (removed, new_heap)
      | Some (entry, r) \<Rightarrow>
          if dp_entry_id (eb_proposal entry) = i then remove_loop i r new_heap (Some (eb_proposal entry))
          else remove_loop i r (heap_push entry new_heap) removed)"
  by pat_completeness auto
termination
  by (relation "measure (\<lambda>(i, h, n, r). length h)") (auto elim: heap_pop.elims)

definition eb_remove :: "entry_id \<Rightarrow> 'e early_buffer \<Rightarrow> 'e dom_propose option \<times> 'e early_buffer" where
  "eb_remove i self =
     (let (removed, h) = remove_loop i (eb_heap self) [] None in (removed, self\<lparr>eb_heap := h\<rparr>))"

text \<open>The loop of \<^verbatim>\<open>Dom::release_ready\<close>: pop while the earliest proposal is ready.\<close>

function release_loop :: "int \<Rightarrow> 'e early_buffer \<Rightarrow> 'e dom_propose list \<times> 'e early_buffer" where
  "release_loop now b =
     (case pop_ready now b of
        (Some p, c) \<Rightarrow> (let (ps, d) = release_loop now c in (p # ps, d))
      | (None, c) \<Rightarrow> ([], c))"
  by pat_completeness auto
termination
  by (relation "measure (\<lambda>(now, b). length (eb_heap b))")
    (auto simp: pop_ready_def eb_pop_def split: option.splits if_splits elim: heap_pop.elims)

declare remove_loop.simps [simp del] release_loop.simps [simp del]

subsection \<open>Invariant\<close>

text \<open>
  The heap is sorted, every entry carries the key of its proposal, and nothing in the
  buffer comes before what was released.
\<close>

definition eb_inv :: "'e early_buffer \<Rightarrow> bool" where
  "eb_inv b \<longleftrightarrow> heap_sorted (eb_heap b) \<and>
     (\<forall>e \<in> set (eb_heap b). eb_key e = key_of (eb_proposal e) \<and>
        (case last_released b of Some k \<Rightarrow> k \<le> eb_key e | None \<Rightarrow> True))"

lemma eb_inv_new [invar]: "eb_inv eb_new"
  by (simp add: eb_inv_def eb_new_def heap_sorted_def)

lemma set_heap_push: "set (heap_push x h) = insert x (set h)"
  by (simp add: heap_push_def set_insort_key)

lemma eb_inv_insert [invar]: "eb_inv b \<Longrightarrow> eb_insert p b = Inr c \<Longrightarrow> eb_inv c"
  by (auto simp: eb_inv_def eb_insert_def is_late_def set_heap_push heap_pq.wf_push
      split: if_splits option.splits)

lemma eb_inv_pop [invar]: "eb_inv b \<Longrightarrow> eb_inv (snd (eb_pop b))"
  by (cases "eb_heap b") (auto simp: eb_inv_def eb_pop_def heap_sorted_def)

lemma eb_inv_pop_ready [invar]: "eb_inv b \<Longrightarrow> eb_inv (snd (pop_ready now b))"
  using eb_inv_pop [of b] by (auto simp: pop_ready_def split: option.splits)

lemma release_loop_heap:
  "release_loop now \<lparr>eb_heap = h, last_released = l\<rparr> =
    (let out = takeWhile (\<lambda>e. dp_deadline (eb_proposal e) \<le> now) h
     in (map eb_proposal out,
         \<lparr>eb_heap = dropWhile (\<lambda>e. dp_deadline (eb_proposal e) \<le> now) h,
          last_released = if out = [] then l else Some (eb_key (last out))\<rparr>))"
proof (induction h arbitrary: l)
  case Nil
  show ?case
    by (subst release_loop.simps) (simp add: pop_ready_def eb_peek_def)
next
  case (Cons e h)
  show ?case
  proof (cases "dp_deadline (eb_proposal e) \<le> now")
    case False
    then show ?thesis
      by (subst release_loop.simps) (simp add: pop_ready_def eb_peek_def)
  next
    case True
    then have pop: "pop_ready now \<lparr>eb_heap = e # h, last_released = l\<rparr>
        = (Some (eb_proposal e), \<lparr>eb_heap = h, last_released = Some (eb_key e)\<rparr>)"
      by (simp add: pop_ready_def eb_peek_def eb_pop_def)
    show ?thesis
      using True by (subst release_loop.simps) (simp add: pop Cons Let_def)
  qed
qed

lemma release_loop_split:
  "release_loop now b =
    (let out = takeWhile (\<lambda>e. dp_deadline (eb_proposal e) \<le> now) (eb_heap b)
     in (map eb_proposal out,
         b\<lparr>eb_heap := dropWhile (\<lambda>e. dp_deadline (eb_proposal e) \<le> now) (eb_heap b),
           last_released := if out = [] then last_released b else Some (eb_key (last out))\<rparr>))"
  by (cases b) (simp add: release_loop_heap Let_def)

lemma eb_inv_release [invar]: "eb_inv b \<Longrightarrow> eb_inv (snd (release_loop now b))"
proof (induction now b rule: release_loop.induct)
  case (1 now b)
  show ?case
  proof (cases "pop_ready now b")
    case (Pair r c)
    have c: "eb_inv c" using eb_inv_pop_ready [OF "1.prems", of now] by (simp add: Pair)
    show ?thesis
    proof (cases r)
      case None
      with c show ?thesis by (subst release_loop.simps) (simp add: Pair)
    next
      case (Some p)
      then have "eb_inv (snd (release_loop now c))" using "1.IH" [OF Pair [symmetric] Some c] by simp
      then show ?thesis
        by (subst release_loop.simps) (simp add: Pair Some split_beta)
    qed
  qed
qed

lemma remove_loop_filter:
  "mset (snd (remove_loop i h n r)) =
     mset n + mset (filter (\<lambda>e. dp_entry_id (eb_proposal e) \<noteq> i) h)"
  "heap_sorted n \<Longrightarrow> heap_sorted (snd (remove_loop i h n r))"
  "fst (remove_loop i h n r) =
     (case filter (\<lambda>p. dp_entry_id p = i) (map eb_proposal h) of
        [] \<Rightarrow> r | ps \<Rightarrow> Some (last ps))"
  by (induction h arbitrary: n r)
    (simp_all add: remove_loop.simps heap_pq.wf_push heap_pq.items_push split: list.splits)

lemma eb_inv_remove [invar]: "eb_inv b \<Longrightarrow> eb_inv (snd (eb_remove i b))"
proof -
  assume inv: "eb_inv b"
  have s: "heap_sorted (eb_heap (snd (eb_remove i b)))"
    using remove_loop_filter(2) [of "[]"]
    by (simp add: eb_remove_def split_beta heap_pq.wf_empty)
  have m: "set (eb_heap (snd (eb_remove i b)))
      = {e \<in> set (eb_heap b). dp_entry_id (eb_proposal e) \<noteq> i}"
    using arg_cong [where f = set_mset, OF remove_loop_filter(1) [of i "eb_heap b" "[]" None]]
    by (auto simp: eb_remove_def split_beta)
  show ?thesis using inv s m by (auto simp: eb_inv_def) (simp_all add: eb_remove_def split_beta)
qed

lemma last_released_remove [frame]: "last_released (snd (eb_remove i b)) = last_released b"
  by (simp add: eb_remove_def split_beta)

subsection \<open>Order of release\<close>

lemma heap_keys: "eb_inv b \<Longrightarrow> map eb_key (eb_heap b) = map (key_of \<circ> eb_proposal) (eb_heap b)"
  by (simp add: eb_inv_def)

lemma release_props:
  assumes inv: "eb_inv b" and r: "release_loop now b = (ps, c)"
  shows "sorted (map key_of ps)"
    and "\<And>p. p \<in> set ps \<Longrightarrow> dp_deadline p \<le> now"
    and "\<And>p. p \<in> set ps \<Longrightarrow> case last_released b of Some k \<Rightarrow> k \<le> key_of p | None \<Rightarrow> True"
    and "last_released c = (if ps = [] then last_released b else Some (key_of (last ps)))"
    and "map eb_proposal (eb_heap b) = ps @ map eb_proposal (eb_heap c)"
    and "\<And>e. e \<in> set (eb_heap c) \<Longrightarrow> now < dp_deadline (eb_proposal e)"
proof -
  let ?P = "\<lambda>e. dp_deadline (eb_proposal e) \<le> now"
  have ps: "ps = map eb_proposal (takeWhile ?P (eb_heap b))"
    and c: "eb_heap c = dropWhile ?P (eb_heap b)"
      "last_released c = (if takeWhile ?P (eb_heap b) = [] then last_released b
         else Some (eb_key (last (takeWhile ?P (eb_heap b)))))"
    using r by (auto simp: release_loop_split Let_def)
  have keys: "\<And>e. e \<in> set (eb_heap b) \<Longrightarrow> eb_key e = key_of (eb_proposal e)"
    and low: "\<And>e. e \<in> set (eb_heap b) \<Longrightarrow> case last_released b of Some k \<Rightarrow> k \<le> eb_key e | None \<Rightarrow> True"
    and srt: "sorted (map eb_key (eb_heap b))"
    using inv by (auto simp: eb_inv_def heap_sorted_def)
  have tw: "map eb_key (takeWhile ?P (eb_heap b)) = map key_of ps"
    unfolding ps using keys set_takeWhileD by (fastforce intro: map_cong)
  have "sorted (map eb_key (takeWhile ?P (eb_heap b)))"
    using srt by (metis map_append sorted_append takeWhile_dropWhile_id)
  then show "sorted (map key_of ps)" by (simp only: tw)
  show "dp_deadline p \<le> now" if "p \<in> set ps" for p
    using that unfolding ps by (auto dest: set_takeWhileD)
  show "case last_released b of Some k \<Rightarrow> k \<le> key_of p | None \<Rightarrow> True" if "p \<in> set ps" for p
    using that low keys unfolding ps by (auto dest!: set_takeWhileD split: option.splits)
  show "last_released c = (if ps = [] then last_released b else Some (key_of (last ps)))"
  proof (cases "takeWhile ?P (eb_heap b) = []")
    case False
    then have "last (takeWhile ?P (eb_heap b)) \<in> set (eb_heap b)"
      using last_in_set set_takeWhileD by metis
    with False show ?thesis by (simp add: c ps keys last_map)
  qed (simp add: c ps)
  show "map eb_proposal (eb_heap b) = ps @ map eb_proposal (eb_heap c)"
    unfolding ps c by (metis map_append takeWhile_dropWhile_id)
  show "now < dp_deadline (eb_proposal e)" if "e \<in> set (eb_heap c)" for e
  proof -
    have "dropWhile ?P (eb_heap b) \<noteq> []"
      using that unfolding c(1) by (metis empty_iff empty_set)
    then obtain f h where d: "dropWhile ?P (eb_heap b) = f # h" by (meson neq_Nil_conv)
    then have f: "\<not> ?P f" using hd_dropWhile [of ?P "eb_heap b"] by simp
    have sub: "set (f # h) \<subseteq> set (eb_heap b)" using d by (metis set_dropWhileD subsetI)
    have "sorted (map eb_key (f # h))"
      using srt d by (metis map_append sorted_append takeWhile_dropWhile_id)
    then have "eb_key f \<le> eb_key e" using that c(1) d by auto
    then have "key_of (eb_proposal f) \<le> key_of (eb_proposal e)"
      using keys sub that c(1) d by (metis list.set_intros(1) subsetD)
    then show ?thesis using f by (auto simp: less_eq_buffer_key_def)
  qed
qed

text \<open>The buffers reached by any sequence of operations, with all that was released so far.\<close>

inductive eb_run :: "'e early_buffer \<Rightarrow> 'e dom_propose list \<Rightarrow> bool" where
  eb_start: "eb_run eb_new []"
| eb_inserted: "eb_run b rs \<Longrightarrow> eb_insert p b = Inr c \<Longrightarrow> eb_run c rs"
| eb_released: "eb_run b rs \<Longrightarrow> release_loop now b = (ps, c) \<Longrightarrow> eb_run c (rs @ ps)"
| eb_removed: "eb_run b rs \<Longrightarrow> eb_remove i b = (r, c) \<Longrightarrow> eb_run c rs"

definition released_below :: "'e early_buffer \<Rightarrow> 'e dom_propose list \<Rightarrow> bool" where
  "released_below b rs \<longleftrightarrow>
     (case last_released b of None \<Rightarrow> rs = [] | Some k \<Rightarrow> \<forall>p \<in> set rs. key_of p \<le> k)"

lemma eb_run_inv:
  "eb_run b rs \<Longrightarrow> eb_inv b \<and> sorted (map key_of rs) \<and> released_below b rs"
proof (induction rule: eb_run.induct)
  case eb_start
  show ?case using eb_inv_new by (simp add: released_below_def eb_new_def)
next
  case (eb_inserted b rs p c)
  then have "last_released c = last_released b"
    by (auto simp: eb_insert_def split: if_splits)
  with eb_inserted show ?case using eb_inv_insert by (auto simp: released_below_def)
next
  case (eb_released b rs now ps c)
  note r = release_props [of b now ps c]
  have inv: "eb_inv b" and rel: "release_loop now b = (ps, c)" using eb_released by auto
  have cross: "key_of x \<le> key_of y" if "x \<in> set rs" "y \<in> set ps" for x y
    using r(3) [OF inv rel that(2)] that(1) eb_released.IH
    by (auto simp: released_below_def split: option.splits intro: order_trans)
  have srt: "sorted (map key_of (rs @ ps))"
    using eb_released.IH r(1) [OF inv rel] cross by (auto simp: sorted_append)
  have low: "released_below c (rs @ ps)"
  proof (cases "ps = []")
    case True
    then show ?thesis using eb_released.IH r(4) [OF inv rel] by (simp add: released_below_def)
  next
    case False
    have "key_of p \<le> key_of (last ps)" if "p \<in> set (rs @ ps)" for p
    proof (cases "p \<in> set ps")
      case True
      have "sorted (map key_of (butlast ps @ [last ps]))" using r(1) [OF inv rel] False by simp
      then have "\<forall>q \<in> set (butlast ps). key_of q \<le> key_of (last ps)"
        by (simp add: sorted_append del: append_butlast_last_id)
      moreover have "set ps = insert (last ps) (set (butlast ps))"
        using False by (metis append_butlast_last_id list.simps(15) rotate1.simps(2) set_rotate1)
      ultimately show ?thesis using True by auto
    next
      case False
      then show ?thesis using that cross last_in_set [OF \<open>ps \<noteq> []\<close>] by auto
    qed
    then show ?thesis using r(4) [OF inv rel] False by (simp add: released_below_def)
  qed
  show ?case using srt low eb_inv_release [OF inv, of now] rel by simp
next
  case (eb_removed b rs i r c)
  then have "eb_inv c" "last_released c = last_released b"
    using eb_inv_remove [of b i] last_released_remove [of i b] by auto
  with eb_removed show ?case by (simp add: released_below_def)
qed

subsection \<open>Same proposals, same releases\<close>

lemma same_heap:
  assumes "eb_inv b" "eb_inv c"
    and m: "mset (map eb_proposal (eb_heap b)) = mset (map eb_proposal (eb_heap c))"
    and d: "distinct (map (key_of \<circ> eb_proposal) (eb_heap b))"
  shows "map eb_proposal (eb_heap b) = map eb_proposal (eb_heap c)"
proof (rule map_sorted_distinct_set_unique [where f = key_of])
  let ?b = "map eb_proposal (eb_heap b)" and ?c = "map eb_proposal (eb_heap c)"
  show "inj_on key_of (set ?b \<union> set ?c)"
    using d m by (metis distinct_map map_map set_mset_mset sup.idem)
  show "sorted (map key_of ?b)" "sorted (map key_of ?c)"
    using assms(1,2) by (metis heap_keys eb_inv_def heap_sorted_def map_map)+
  show "distinct (map key_of ?b)" using d by simp
  have "mset (map key_of ?b) = mset (map key_of ?c)" using m by (metis mset_map)
  then show "distinct (map key_of ?c)" using d by (metis map_map mset_eq_imp_distinct_iff)
  show "set ?b = set ?c" using m by (metis set_mset_mset)
qed

lemma same_release:
  assumes "map eb_proposal (eb_heap b) = map eb_proposal (eb_heap c)"
  shows "fst (release_loop now b) = fst (release_loop now c)"
proof -
  have "fst (release_loop now x) = takeWhile (\<lambda>p. dp_deadline p \<le> now) (map eb_proposal (eb_heap x))"
    for x :: "'a early_buffer"
    by (simp add: release_loop_split Let_def takeWhile_map comp_def)
  with assms show ?thesis by simp
qed

end
