(* ===== verification/Owd_Estimator.thy ===== *)
theory Owd_Estimator
  imports Complex_Main Quorums
begin

text \<open>
  One-way delay estimation (\<^verbatim>\<open>dom/owd_estimator.rs\<close>): a sliding window of samples per sender,
  an estimate from the window (percentile, moving average or fixed) plus an uncertainty
  margin, and the tracker of the estimates reported by the receivers.

  A percentile is a 64-bit float. Finite floats are rational numbers, and the one float
  product of the code is rounded by \<open>f64_round\<close> to the nearest float, ties to even, exactly
  for products below \<open>2^53\<close> (the product is at most the window length); \<^verbatim>\<open>clamp\<close>, the
  comparison of \<^verbatim>\<open>validate\<close> and \<^verbatim>\<open>round\<close> are exact.
\<close>

subsection \<open>Floats\<close>

definition round_half_even :: "rat \<Rightarrow> int" where
  "round_half_even x =
     (let q = \<lfloor>x\<rfloor>; r = x - of_int q
      in if r < 1 / 2 then q else if 1 / 2 < r then q + 1 else if even q then q else q + 1)"

text \<open>
  The number of fraction bits of the floats near a nonnegative number: enough to give it 53
  significant bits, at most the 1074 of the subnormal numbers.
\<close>

definition f64_fraction_bits :: "rat \<Rightarrow> nat" where
  "f64_fraction_bits x =
     (case find (\<lambda>k. 2 ^ 52 \<le> x * 2 ^ k) [0..<1074] of Some k \<Rightarrow> k | None \<Rightarrow> 1074)"

definition f64_round :: "rat \<Rightarrow> rat" where
  "f64_round x =
     (let k = f64_fraction_bits x in of_int (round_half_even (x * 2 ^ k)) / 2 ^ k)"

text \<open>\<^verbatim>\<open>f64::round\<close> rounds half away from zero.\<close>

definition round_half_away :: "rat \<Rightarrow> int" where
  "round_half_away x = (if 0 \<le> x then \<lfloor>x + 1 / 2\<rfloor> else \<lceil>x - 1 / 2\<rceil>)"

lemma round_half_even_le: "x \<le> of_int m \<Longrightarrow> round_half_even x \<le> m"
proof -
  assume x: "x \<le> of_int m"
  then have f: "\<lfloor>x\<rfloor> \<le> m" by linarith
  show ?thesis
  proof (cases "\<lfloor>x\<rfloor> = m")
    case True
    with x have "x - of_int \<lfloor>x\<rfloor> < 1 / 2" by linarith
    with True show ?thesis by (simp add: round_half_even_def Let_def)
  qed (use f in \<open>auto simp: round_half_even_def Let_def\<close>)
qed

lemma round_half_even_ge: "of_int m \<le> x \<Longrightarrow> m \<le> round_half_even x"
  using le_floor_iff [of m x] by (auto simp: round_half_even_def Let_def)

lemma f64_round_bounds:
  assumes "0 \<le> x" "x \<le> of_nat n"
  shows "0 \<le> f64_round x" and "f64_round x \<le> of_nat n"
proof -
  let ?k = "f64_fraction_bits x"
  have "0 \<le> round_half_even (x * 2 ^ ?k)"
    using assms(1) by (intro round_half_even_ge) simp
  then show "0 \<le> f64_round x" by (simp add: f64_round_def Let_def)
  have "x * 2 ^ ?k \<le> of_nat n * 2 ^ ?k" using assms(2) by (intro mult_right_mono) auto
  also have "\<dots> = of_int (int n * 2 ^ ?k)" by simp
  finally have "round_half_even (x * 2 ^ ?k) \<le> int n * 2 ^ ?k" by (rule round_half_even_le)
  then have "(of_int (round_half_even (x * 2 ^ ?k)) :: rat) \<le> of_int (int n * 2 ^ ?k)"
    by (simp only: of_int_le_iff)
  then show "f64_round x \<le> of_nat n"
    by (simp add: f64_round_def Let_def divide_le_eq)
qed

subsection \<open>Configuration\<close>

datatype estimator_strategy = Percentile rat | MovingAverage | Fixed

record owd_estimator_config =
  window_size :: nat
  max_owd :: int
  uncertainty_beta :: int
  strategy :: estimator_strategy

definition owd_config_validate :: "owd_estimator_config \<Rightarrow> config_error + unit" where
  "owd_config_validate self =
     valid_config (0 < window_size self) ''window_size must be > 0''
     (valid_config (0 \<le> max_owd self) ''max_owd must be >= 0''
     (valid_config (0 \<le> uncertainty_beta self) ''uncertainty_beta must be >= 0''
     (case strategy self of
        Percentile percentile \<Rightarrow>
          valid_config (0 \<le> percentile \<and> percentile \<le> 1) ''percentile must be in [0.0, 1.0]'' (Inr ())
      | _ \<Rightarrow> Inr ())))"

definition owd_config_new :: "nat \<Rightarrow> int \<Rightarrow> int \<Rightarrow> estimator_strategy \<Rightarrow>
    config_error + owd_estimator_config" where
  "owd_config_new ws mo ub st =
     (let config = \<lparr>window_size = ws, max_owd = mo, uncertainty_beta = ub, strategy = st\<rparr>
      in case owd_config_validate config of Inl e \<Rightarrow> Inl e | Inr _ \<Rightarrow> Inr config)"

text \<open>The default percentile is the float nearest to 0.8.\<close>

definition owd_config_default :: owd_estimator_config where
  "owd_config_default = \<lparr>window_size = 50, max_owd = 100000, uncertainty_beta = 3,
     strategy = Percentile (3602879701896397 / 4503599627370496)\<rparr>"

subsection \<open>Samples and estimates\<close>

record owd_sample =
  measured_owd :: int
  sender_uncertainty :: int
  receiver_uncertainty :: int

definition owd_sample_new :: "int \<Rightarrow> int \<Rightarrow> int \<Rightarrow> int \<Rightarrow> owd_sample option" where
  "owd_sample_new sent_time received_time su ru = do {
     d \<leftarrow> i64_sub received_time sent_time;
     Some \<lparr>measured_owd = max d 0, sender_uncertainty = max su 0, receiver_uncertainty = max ru 0\<rparr>
   }"

definition uncertainty_sum :: "owd_sample \<Rightarrow> int option" where
  "uncertainty_sum self = i64_add (sender_uncertainty self) (receiver_uncertainty self)"

record owd_estimator =
  oe_config :: owd_estimator_config
  oe_samples :: "node_id \<rightharpoonup> owd_sample list"
  oe_estimates :: "node_id \<rightharpoonup> int"

definition owd_estimator_with_config :: "owd_estimator_config \<Rightarrow> owd_estimator" where
  "owd_estimator_with_config config =
     \<lparr>oe_config = config, oe_samples = Map.empty, oe_estimates = Map.empty\<rparr>"

definition estimate_for :: "owd_estimator \<Rightarrow> node_id \<Rightarrow> int" where
  "estimate_for self i =
     (case oe_estimates self i of Some e \<Rightarrow> e | None \<Rightarrow> max_owd (oe_config self))"

definition percentile_index :: "nat \<Rightarrow> rat \<Rightarrow> nat" where
  "percentile_index n percentile =
     (let p = max 0 (min 1 percentile) in nat (round_half_away (f64_round (of_nat n * p))))"

definition percentile_delay :: "owd_sample list \<Rightarrow> rat \<Rightarrow> int option" where
  "percentile_delay samples percentile = do {
     let delays = sort (map measured_owd samples);
     n \<leftarrow> checked_sub (length delays) 1;
     vec_get delays (percentile_index n percentile)
   }"

definition moving_average_delay :: "owd_sample list \<Rightarrow> int option" where
  "moving_average_delay samples = do {
     total \<leftarrow> for_each (\<lambda>s acc. i64_add acc (measured_owd s)) samples 0;
     if samples = [] then None else Some (rust_div total (int (length samples)))
   }"

definition estimate_from_window ::
    "owd_sample list \<Rightarrow> estimator_strategy \<Rightarrow> int \<Rightarrow> int \<Rightarrow> int option" where
  "estimate_from_window samples st beta mo =
     (if samples = [] then None
      else let finish = (\<lambda>base_estimate. do {
             u \<leftarrow> uncertainty_sum (last samples);
             let uncertainty_margin = i64_saturating_mul beta u;
             let estimate = i64_saturating_add base_estimate uncertainty_margin;
             Some (if estimate \<le> 0 \<or> mo < estimate then mo else estimate)
           })
      in case st of
           Percentile percentile \<Rightarrow> do { b \<leftarrow> percentile_delay samples percentile; finish b }
         | MovingAverage \<Rightarrow> do { b \<leftarrow> moving_average_delay samples; finish b }
         | Fixed \<Rightarrow> Some mo)"

text \<open>The window after one more sample.\<close>

definition slide_window :: "nat \<Rightarrow> owd_sample \<Rightarrow> owd_sample list \<Rightarrow> owd_sample list" where
  "slide_window ws sample samples =
     (if length samples = ws then drop 1 samples else samples) @ [sample]"

definition owd_update :: "node_id \<Rightarrow> owd_sample \<Rightarrow> owd_estimator \<Rightarrow> owd_estimator option" where
  "owd_update i sample self = do {
     let config = oe_config self;
     let samples = slide_window (window_size config) sample
       (case oe_samples self i of Some w \<Rightarrow> w | None \<Rightarrow> []);
     estimate \<leftarrow> estimate_from_window samples (strategy config) (uncertainty_beta config) (max_owd config);
     Some (self\<lparr>oe_samples := (oe_samples self)(i \<mapsto> samples),
                oe_estimates := (oe_estimates self)(i \<mapsto> estimate)\<rparr>)
   }"

subsection \<open>The tracker of outgoing delays\<close>

text \<open>Its map is iterated for the maximum: an association list with distinct keys.\<close>

record outgoing_owd_tracker =
  ot_estimates :: "(node_id \<times> int) list"
  ot_default_owd :: int

definition outgoing_owd_tracker_new :: "int \<Rightarrow> outgoing_owd_tracker" where
  "outgoing_owd_tracker_new default_owd = \<lparr>ot_estimates = [], ot_default_owd = default_owd\<rparr>"

definition outgoing_update :: "node_id \<Rightarrow> int \<Rightarrow> outgoing_owd_tracker \<Rightarrow> outgoing_owd_tracker" where
  "outgoing_update receiver estimated_owd self =
     self\<lparr>ot_estimates := AList.update receiver (max estimated_owd 0) (ot_estimates self)\<rparr>"

definition outgoing_get :: "outgoing_owd_tracker \<Rightarrow> node_id \<Rightarrow> int" where
  "outgoing_get self receiver =
     (case map_of (ot_estimates self) receiver of Some e \<Rightarrow> e | None \<Rightarrow> ot_default_owd self)"

definition get_max_owd :: "outgoing_owd_tracker \<Rightarrow> int" where
  "get_max_owd self =
     (case iter_max (map snd (ot_estimates self)) of Some m \<Rightarrow> m | None \<Rightarrow> ot_default_owd self)"

subsection \<open>Estimates stay within the configured bound\<close>

lemma percentile_index_le: "percentile_index n p \<le> n"
proof -
  let ?x = "of_nat n * max 0 (min 1 p)"
  have x: "0 \<le> ?x" "?x \<le> of_nat n" by (simp_all add: mult_left_le)
  have "\<lfloor>f64_round ?x + 1 / 2\<rfloor> \<le> int n"
    using f64_round_bounds(2) [OF x] by linarith
  then show ?thesis
    using f64_round_bounds(1) [OF x]
    by (simp add: percentile_index_def Let_def round_half_away_def)
qed

lemma percentile_delay_total:
  assumes "samples \<noteq> []"
  shows "\<exists>d. percentile_delay samples p = Some d \<and> d \<in> measured_owd ` set samples"
proof -
  let ?ds = "sort (map measured_owd samples)" and ?i = "percentile_index (length samples - 1) p"
  have n: "0 < length samples" using assms by simp
  have i: "?i < length ?ds"
    using percentile_index_le [of "length samples - 1" p] n by (simp del: length_greater_0_conv)
  then have "?ds ! ?i \<in> set ?ds" by (rule nth_mem)
  then have "?ds ! ?i \<in> measured_owd ` set samples" by simp
  moreover have "percentile_delay samples p = Some (?ds ! ?i)"
    using n i by (simp add: percentile_delay_def Let_def Suc_le_eq)
  ultimately show ?thesis by blast
qed

lemma estimate_bounds:
  assumes "estimate_from_window samples st beta mo = Some e" "0 \<le> mo"
  shows "0 \<le> e" "e \<le> mo" "0 < mo \<Longrightarrow> 0 < e"
  using assms
  by (auto simp: estimate_from_window_def Let_def split: if_splits estimator_strategy.splits)

lemma estimate_total:
  assumes "samples \<noteq> []" "is_i64 (sender_uncertainty (last samples) + receiver_uncertainty (last samples))"
    and "st \<noteq> MovingAverage"
  shows "\<exists>e. estimate_from_window samples st beta mo = Some e"
proof (cases st)
  case (Percentile p)
  from percentile_delay_total [OF assms(1)] obtain d where "percentile_delay samples p = Some d"
    by blast
  with Percentile assms show ?thesis by (simp add: estimate_from_window_def Let_def uncertainty_sum_def)
qed (use assms in \<open>simp_all add: estimate_from_window_def Let_def\<close>)

definition max_with :: "'a::linorder list \<Rightarrow> 'a \<Rightarrow> 'a" where
  "max_with xs x = fold (\<lambda>y m. if y < m then m else y) xs x"

lemma max_with_Max: "max_with xs x = Max (insert x (set xs))"
proof (induction xs arbitrary: x)
  case Nil
  then show ?case by (simp add: max_with_def)
next
  case (Cons z zs)
  have "max_with (z # zs) x = max_with zs (max x z)" by (auto simp: max_with_def max_def)
  also have "\<dots> = Max (insert (max x z) (set zs))" by (rule Cons.IH)
  also have "\<dots> = Max (insert x (set (z # zs)))"
    by (cases "set zs = {}") (simp_all add: max.assoc)
  finally show ?case .
qed

lemma iter_max_Max:
  fixes x :: "'a::linorder"
  shows "iter_max (x # xs) = Some (Max (set (x # xs)))"
  using max_with_Max [of xs x] by (simp add: max_with_def)

lemma get_max_owd_ge: "map_of (ot_estimates t) r = Some e \<Longrightarrow> e \<le> get_max_owd t"
proof -
  assume "map_of (ot_estimates t) r = Some e"
  then have "e \<in> set (map snd (ot_estimates t))" by (metis image_eqI list.set_map map_of_SomeD snd_conv)
  then show ?thesis
    unfolding get_max_owd_def
    by (cases "map snd (ot_estimates t)") (auto simp del: iter_max.simps simp: iter_max_Max)
qed

text \<open>The window is the last \<^const>\<open>window_size\<close> samples.\<close>

lemma slide_window_last:
  assumes "0 < ws" "w = drop (length h - ws) h"
  shows "slide_window ws s w = drop (length (h @ [s]) - ws) (h @ [s])"
proof (cases "ws \<le> length h")
  case True
  then have "length w = ws" using assms(2) by simp
  moreover have "length (h @ [s]) - ws = Suc (length h - ws)" using True by simp
  moreover have "length h - ws < length h" using True assms(1) by simp
  ultimately show ?thesis using assms True
    by (simp add: slide_window_def drop_Suc drop_tl)
next
  case False
  then show ?thesis using assms by (simp add: slide_window_def)
qed

end
