(* ===== verification/Dom.thy ===== *)
theory Dom
  imports Early_Buffer Owd_Estimator
begin

text \<open>
  The deadline-ordered multicast of one server (\<^verbatim>\<open>dom/mod.rs\<close>): deadlines for outgoing
  proposals, the early buffer for incoming ones, and the delay estimates in both directions.

  The physical clock is a parameter: \<^term>\<open>dom_clock\<close> holds the readings (time and
  uncertainty) it will give and \<^term>\<open>dom_reads\<close> counts the readings taken, so every call of
  \<^verbatim>\<open>get_time_with_uncertainty\<close> gets its own reading.
\<close>

definition one_micro_second :: int where "one_micro_second = 1000"

record 'e dom =
  dom_pid :: node_id
  dom_clock :: "nat \<Rightarrow> clock_timestamp"
  dom_reads :: nat
  incoming_owd :: owd_estimator
  outgoing_owd :: outgoing_owd_tracker
  early_buffer :: "'e early_buffer"

definition dom_new :: "owd_estimator_config \<Rightarrow> (nat \<Rightarrow> clock_timestamp) \<Rightarrow> node_id \<Rightarrow> 'e dom" where
  "dom_new config clock pid =
     \<lparr>dom_pid = pid, dom_clock = clock, dom_reads = 0,
      incoming_owd = owd_estimator_with_config config,
      outgoing_owd = outgoing_owd_tracker_new (max_owd config),
      early_buffer = eb_new\<rparr>"

definition get_time :: "'e dom \<Rightarrow> clock_timestamp \<times> 'e dom" where
  "get_time self = (dom_clock self (dom_reads self), self\<lparr>dom_reads := dom_reads self + 1\<rparr>)"

definition get_deadline :: "'e dom \<Rightarrow> int \<Rightarrow> int option" where
  "get_deadline self time = i64_add time (get_max_owd (outgoing_owd self))"

definition create_dom_propose :: "'e \<Rightarrow> entry_id \<Rightarrow> 'e dom \<Rightarrow> ('e dom_propose \<times> 'e dom) option" where
  "create_dom_propose entry i self = do {
     let (sent_time, self) = get_time self;
     deadline \<leftarrow> get_deadline self (fst sent_time);
     Some (\<lparr>dp_entry_id = i, dp_sender = dom_pid self, dp_sent_time = sent_time,
            dp_deadline = deadline, dp_entry = entry\<rparr>, self)
   }"

text \<open>The loop evaluates \<^verbatim>\<open>now.0 - now.1\<close> anew in each round, on the same reading.\<close>

definition release_ready :: "'e dom \<Rightarrow> ('e dom_propose list \<times> 'e dom) option" where
  "release_ready self = do {
     let (now, self) = get_time self;
     bound \<leftarrow> i64_sub (fst now) (snd now);
     let (proposals, b) = release_loop bound (early_buffer self);
     Some (proposals, self\<lparr>early_buffer := b\<rparr>)
   }"

definition extend_deadline :: "'e dom_propose \<Rightarrow> 'e dom \<Rightarrow> ('e dom_propose \<times> 'e dom) option" where
  "extend_deadline prop self = do {
     let last_deadline = last_released_deadline (early_buffer self);
     let (now, self) = get_time self;
     now_with_uncertainty \<leftarrow> i64_add (fst now) (snd now);
     new_deadline \<leftarrow> (case last_deadline of
         Some l \<Rightarrow> do { m \<leftarrow> i64_add l one_micro_second; Some (max now_with_uncertainty m) }
       | None \<Rightarrow> Some now_with_uncertainty);
     Some (prop\<lparr>dp_deadline := new_deadline\<rparr>, self)
   }"

text \<open>The second half of \<^verbatim>\<open>handle_dom_propose\<close>: the match on the insertion.\<close>

definition buffer_proposal :: "'e dom_propose \<Rightarrow> role \<Rightarrow> 'e dom \<Rightarrow> 'e dom option" where
  "buffer_proposal prop role self =
     (case eb_insert prop (early_buffer self) of
        Inr b \<Rightarrow> Some (self\<lparr>early_buffer := b\<rparr>)
      | Inl (Late prop) \<Rightarrow>
          if role = LeaderRole then do {
            (prop, self) \<leftarrow> extend_deadline prop self;
            (case eb_insert prop (early_buffer self) of
               Inr b \<Rightarrow> Some (self\<lparr>early_buffer := b\<rparr>)
             | Inl _ \<Rightarrow> None)
          }
          else Some self)"

definition handle_dom_propose :: "'e dom_propose \<Rightarrow> role \<Rightarrow> 'e dom \<Rightarrow> (dom_ack \<times> 'e dom) option" where
  "handle_dom_propose prop role self = do {
     let (received_time, self) = get_time self;
     sample \<leftarrow> owd_sample_new (fst (dp_sent_time prop)) (fst received_time)
                 (snd (dp_sent_time prop)) (snd received_time);
     est \<leftarrow> owd_update (dp_sender prop) sample (incoming_owd self);
     let self = self\<lparr>incoming_owd := est\<rparr>;
     let ack = \<lparr>da_sender = dom_pid self,
                da_estimated_owd = estimate_for (incoming_owd self) (dp_sender prop)\<rparr>;
     self \<leftarrow> buffer_proposal prop role self;
     Some (ack, self)
   }"

definition handle_dom_ack :: "dom_ack \<Rightarrow> 'e dom \<Rightarrow> 'e dom" where
  "handle_dom_ack ack self =
     self\<lparr>outgoing_owd := outgoing_update (da_sender ack) (da_estimated_owd ack) (outgoing_owd self)\<rparr>"

definition remove_from_buffers :: "entry_id \<Rightarrow> 'e dom \<Rightarrow> 'e dom_propose option \<times> 'e dom" where
  "remove_from_buffers i self =
     (let (removed, b) = eb_remove i (early_buffer self)
      in (removed, self\<lparr>early_buffer := b\<rparr>))"

text \<open>The estimates shown in benchmarks.\<close>

record dom_owd_snapshot =
  incoming_estimates :: "node_id \<rightharpoonup> int"
  outgoing_estimates :: "(node_id \<times> int) list"
  max_outgoing_estimate :: int

definition owd_snapshot :: "'e dom \<Rightarrow> dom_owd_snapshot" where
  "owd_snapshot self =
     \<lparr>incoming_estimates = oe_estimates (incoming_owd self),
      outgoing_estimates = ot_estimates (outgoing_owd self),
      max_outgoing_estimate = get_max_owd (outgoing_owd self)\<rparr>"

subsection \<open>Deadlines\<close>

lemmas dom_defs = get_time_def Let_def split_beta

lemma create_dom_propose_Some:
  "create_dom_propose entry i self = Some (p, self') \<longleftrightarrow>
     (let now = dom_clock self (dom_reads self); dl = fst now + get_max_owd (outgoing_owd self)
      in is_i64 dl \<and>
         p = \<lparr>dp_entry_id = i, dp_sender = dom_pid self, dp_sent_time = now, dp_deadline = dl,
              dp_entry = entry\<rparr> \<and>
         self' = self\<lparr>dom_reads := dom_reads self + 1\<rparr>)"
  by (auto simp: create_dom_propose_def get_deadline_def dom_defs)

text \<open>The new deadline is later than everything released: the second insertion succeeds.\<close>

lemma extend_deadline_not_late:
  assumes "extend_deadline p d = Some (q, d')"
  shows "\<not> is_late (early_buffer d') q" and "early_buffer d' = early_buffer d"
    and "q = p\<lparr>dp_deadline := dp_deadline q\<rparr>"
  using assms
  by (auto simp: extend_deadline_def dom_defs is_late_def last_released_deadline_def
      less_eq_buffer_key_def one_micro_second_def split: option.splits)

lemma buffer_proposal_cases:
  assumes "buffer_proposal p r d = Some d'"
  obtains (early) "\<not> is_late (early_buffer d) p" "eb_insert p (early_buffer d) = Inr (early_buffer d')"
  | (late_leader) q where "is_late (early_buffer d) p" "r = LeaderRole"
      "q = p\<lparr>dp_deadline := dp_deadline q\<rparr>" "\<not> is_late (early_buffer d) q"
      "eb_insert q (early_buffer d) = Inr (early_buffer d')"
  | (late_follower) "is_late (early_buffer d) p" "r = FollowerRole" "d' = d"
proof (cases "is_late (early_buffer d) p")
  case False
  with assms show thesis by (intro early) (auto simp: buffer_proposal_def eb_insert_def)
next
  case late: True
  show thesis
  proof (cases r)
    case FollowerRole
    with assms late show thesis
      by (intro late_follower) (auto simp: buffer_proposal_def eb_insert_def)
  next
    case LeaderRole
    with assms late obtain q d2 where q: "extend_deadline p d = Some (q, d2)"
      and m: "(case eb_insert q (early_buffer d2) of
         Inr b \<Rightarrow> Some (d2\<lparr>early_buffer := b\<rparr>) | Inl _ \<Rightarrow> None) = Some d'"
      by (auto simp: buffer_proposal_def eb_insert_def [of p] simp del: bind_Some
          split: bind_splits prod.splits)
    from m obtain b where i: "eb_insert q (early_buffer d2) = Inr b" "d' = d2\<lparr>early_buffer := b\<rparr>"
      by (cases "eb_insert q (early_buffer d2)") auto
    from late LeaderRole extend_deadline_not_late [OF q] i show thesis
      by (intro late_leader [of q]) auto
  qed
qed

lemma handle_dom_propose_Some:
  "handle_dom_propose p r d = Some (ack, d') \<longleftrightarrow>
     (\<exists>s est. owd_sample_new (fst (dp_sent_time p)) (fst (dom_clock d (dom_reads d)))
          (snd (dp_sent_time p)) (snd (dom_clock d (dom_reads d))) = Some s \<and>
        owd_update (dp_sender p) s (incoming_owd d) = Some est \<and>
        ack = \<lparr>da_sender = dom_pid d, da_estimated_owd = estimate_for est (dp_sender p)\<rparr> \<and>
        buffer_proposal p r (d\<lparr>dom_reads := dom_reads d + 1, incoming_owd := est\<rparr>) = Some d')"
  by (auto simp: handle_dom_propose_def dom_defs)

text \<open>A leader keeps every proposal, a follower exactly the ones that are not late.\<close>

lemma buffered_proposals:
  assumes "handle_dom_propose p r d = Some (ack, d')"
  shows "if is_late (early_buffer d) p \<and> r = FollowerRole
         then early_buffer d' = early_buffer d
         else \<exists>dl. \<not> is_late (early_buffer d) (p\<lparr>dp_deadline := dl\<rparr>) \<and>
           (\<not> is_late (early_buffer d) p \<longrightarrow> dl = dp_deadline p) \<and>
           eb_insert (p\<lparr>dp_deadline := dl\<rparr>) (early_buffer d) = Inr (early_buffer d')"
proof -
  obtain est where b: "buffer_proposal p r (d\<lparr>dom_reads := dom_reads d + 1, incoming_owd := est\<rparr>) = Some d'"
    using assms by (auto simp: handle_dom_propose_Some)
  show ?thesis using b
  proof (cases rule: buffer_proposal_cases)
    case early
    then show ?thesis by (auto intro!: exI [of _ "dp_deadline p"])
  next
    case (late_leader q)
    have q: "p\<lparr>dp_deadline := dp_deadline q\<rparr> = q" using late_leader(3) by simp
    show ?thesis using late_leader(1,2,4,5) by (auto intro!: exI [of _ "dp_deadline q"] simp: q)
  next
    case late_follower
    then show ?thesis by simp
  qed
qed

subsection \<open>Estimates in acknowledgements\<close>

text \<open>All estimates of a configuration with a nonnegative maximum stay between 0 and it.\<close>

definition owd_inv :: "owd_estimator \<Rightarrow> bool" where
  "owd_inv e \<longleftrightarrow> 0 \<le> max_owd (oe_config e) \<and> 0 < window_size (oe_config e) \<and>
     (\<forall>i x. oe_estimates e i = Some x \<longrightarrow> 0 \<le> x \<and> x \<le> max_owd (oe_config e)) \<and>
     (\<forall>i w. oe_samples e i = Some w \<longrightarrow> w \<noteq> [] \<and> length w \<le> window_size (oe_config e))"

lemma slide_window_bounds:
  "0 < ws \<Longrightarrow> length w \<le> ws \<Longrightarrow> slide_window ws s w \<noteq> [] \<and> length (slide_window ws s w) \<le> ws"
  by (auto simp: slide_window_def)

lemma owd_inv_update [invar]:
  assumes "owd_inv e" "owd_update i s e = Some e'"
  shows "owd_inv e'" and "oe_config e' = oe_config e"
proof -
  let ?c = "oe_config e"
  let ?w = "slide_window (window_size ?c) s (case oe_samples e i of Some w \<Rightarrow> w | None \<Rightarrow> [])"
  obtain x where x: "estimate_from_window ?w (strategy ?c) (uncertainty_beta ?c) (max_owd ?c) = Some x"
    and e': "e' = e\<lparr>oe_samples := (oe_samples e)(i \<mapsto> ?w), oe_estimates := (oe_estimates e)(i \<mapsto> x)\<rparr>"
    using assms(2) by (auto simp: owd_update_def Let_def)
  show "oe_config e' = ?c" by (simp add: e')
  have w: "?w \<noteq> [] \<and> length ?w \<le> window_size ?c"
    by (rule slide_window_bounds, use assms(1) in \<open>simp add: owd_inv_def\<close>,
        use assms(1) in \<open>auto simp: owd_inv_def split: option.splits\<close>)
  show "owd_inv e'"
    using assms(1) estimate_bounds(1,2) [OF x] w by (auto simp: owd_inv_def e')
qed

lemma ack_bounds:
  assumes "owd_inv (incoming_owd d)" "handle_dom_propose p r d = Some (ack, d')"
  shows "0 \<le> da_estimated_owd ack" "da_estimated_owd ack \<le> max_owd (oe_config (incoming_owd d))"
proof -
  obtain s est where u: "owd_update (dp_sender p) s (incoming_owd d) = Some est"
    and a: "da_estimated_owd ack = estimate_for est (dp_sender p)"
    using assms(2) by (auto simp: handle_dom_propose_Some)
  note inv = owd_inv_update [OF assms(1) u]
  show "0 \<le> da_estimated_owd ack" "da_estimated_owd ack \<le> max_owd (oe_config (incoming_owd d))"
    using inv by (auto simp: a owd_inv_def estimate_for_def split: option.splits)
qed

end
