(* ===== verification/Leader_State.thy ===== *)
theory Leader_State
  imports Messages
begin

text \<open>
  The bookkeeping of a leader (\<^verbatim>\<open>LeaderState\<close> and its parts in \<^verbatim>\<open>util.rs\<close>): promises and
  their maximum, accepted indexes, sequence numbers, the votes of the fast path and the
  unsynced logs reported for recovery. Per-node vectors are indexed by pid minus one.
\<close>

subsection \<open>State\<close>

record accepted_map_entry =
  ame_entry_hash :: dom_hash
  ame_prefix_hash :: dom_hash
  ame_fast :: "dom_hash \<times> dom_hash \<rightharpoonup> node_id set"
  ame_slow :: "node_id set"

record promise_meta_data =
  pmd_n_accepted :: ballot
  pmd_accepted_idx :: nat
  pmd_decided_idx :: nat
  pmd_pid :: node_id

definition default_promise_meta :: promise_meta_data where
  "default_promise_meta = \<lparr>pmd_n_accepted = default_ballot, pmd_accepted_idx = 0,
     pmd_decided_idx = 0, pmd_pid = 0\<rparr>"

text \<open>\<^verbatim>\<open>impl PartialOrd for PromiseMetaData\<close>.\<close>

definition promise_cmp :: "promise_meta_data \<Rightarrow> promise_meta_data \<Rightarrow> ordering" where
  "promise_cmp a b =
     (if pmd_n_accepted a = pmd_n_accepted b \<and> pmd_accepted_idx a = pmd_accepted_idx b \<and>
         pmd_pid a = pmd_pid b then Equal
      else if pmd_n_accepted b < pmd_n_accepted a \<or>
         pmd_n_accepted a = pmd_n_accepted b \<and> pmd_accepted_idx b < pmd_accepted_idx a then Greater
      else Less)"

datatype promise_state = NotPromised | Promised promise_meta_data | PromisedHigher

record ('e, 's) leader_state =
  n_leader :: ballot
  promises_meta :: "promise_state list"
  follower_seq_nums :: "sequence_number list"
  accepted_indexes :: "nat list"
  max_promise_meta :: promise_meta_data
  max_promise_sync :: "('e, 's) log_sync option"
  max_promise_accepted_hash :: dom_hash
  latest_accept_meta :: "(ballot \<times> nat) option list"
  max_pid :: nat
  ls_quorum :: quorum
  accepted_map :: "nat \<rightharpoonup> accepted_map_entry"
  unsynced_log_store :: "'e unsynced_map list"
  recovered_remote_entry_ids :: "entry_id set"
  pending_accept_meta :: "accepted_entry_meta list"

definition leader_state_with :: "ballot \<Rightarrow> nat \<Rightarrow> quorum \<Rightarrow> ('e, 's) leader_state" where
  "leader_state_with n maxp q =
     \<lparr>n_leader = n, promises_meta = replicate maxp NotPromised,
      follower_seq_nums = replicate maxp default_seq_num,
      accepted_indexes = replicate maxp 0,
      max_promise_meta = default_promise_meta, max_promise_sync = None,
      max_promise_accepted_hash = default_hash,
      latest_accept_meta = replicate maxp None, max_pid = maxp, ls_quorum = q,
      accepted_map = Map.empty, unsynced_log_store = replicate maxp [],
      recovered_remote_entry_ids = {}, pending_accept_meta = []\<rparr>"

definition pid_to_idx :: "node_id \<Rightarrow> nat option" where
  "pid_to_idx pid = checked_sub pid 1"

subsection \<open>Sequence numbers\<close>

definition increment_seq_num_session ::
    "node_id \<Rightarrow> ('e, 's) leader_state \<Rightarrow> ('e, 's) leader_state option" where
  "increment_seq_num_session pid self = do {
     idx \<leftarrow> pid_to_idx pid;
     s \<leftarrow> vec_get (follower_seq_nums self) idx;
     v \<leftarrow> vec_set (follower_seq_nums self) idx (SequenceNumber (session s + 1) 0);
     Some (self\<lparr>follower_seq_nums := v\<rparr>)
   }"

definition next_seq_num ::
    "node_id \<Rightarrow> ('e, 's) leader_state \<Rightarrow> (sequence_number \<times> ('e, 's) leader_state) option" where
  "next_seq_num pid self = do {
     idx \<leftarrow> pid_to_idx pid;
     s \<leftarrow> vec_get (follower_seq_nums self) idx;
     let s = SequenceNumber (session s) (counter s + 1);
     v \<leftarrow> vec_set (follower_seq_nums self) idx s;
     Some (s, self\<lparr>follower_seq_nums := v\<rparr>)
   }"

definition get_seq_num :: "node_id \<Rightarrow> ('e, 's) leader_state \<Rightarrow> sequence_number option" where
  "get_seq_num pid self = do { idx \<leftarrow> pid_to_idx pid; vec_get (follower_seq_nums self) idx }"

subsection \<open>Promises\<close>

definition is_promised :: "promise_state \<Rightarrow> bool" where
  "is_promised p = (case p of Promised _ \<Rightarrow> True | _ \<Rightarrow> False)"

definition set_unsynced_log ::
    "node_id \<Rightarrow> 'e unsynced_map \<Rightarrow> ('e, 's) leader_state \<Rightarrow> ('e, 's) leader_state option" where
  "set_unsynced_log pid unsynced_log self = do {
     i \<leftarrow> pid_to_idx pid;
     Some (if i < length (unsynced_log_store self)
           then self\<lparr>unsynced_log_store := (unsynced_log_store self)[i := unsynced_log]\<rparr>
           else self)
   }"

definition ls_set_promise :: "('e, 's) promise \<Rightarrow> node_id \<Rightarrow> bool \<Rightarrow> ('e, 's) leader_state \<Rightarrow>
    (bool \<times> ('e, 's) leader_state) option" where
  "ls_set_promise prom from check_max_prom self = do {
     let promise_meta = \<lparr>pmd_n_accepted = prom_n_accepted prom, pmd_accepted_idx = prom_accepted_idx prom,
           pmd_decided_idx = prom_decided_idx prom, pmd_pid = from\<rparr>;
     let self = (if check_max_prom \<and> promise_cmp promise_meta (max_promise_meta self) = Greater
       then self\<lparr>max_promise_meta := promise_meta, max_promise_sync := prom_log_sync prom,
                 max_promise_accepted_hash := prom_log_prefix_hash prom\<rparr>
       else self);
     idx \<leftarrow> pid_to_idx from;
     v \<leftarrow> vec_set (promises_meta self) idx (Promised promise_meta);
     let self = self\<lparr>promises_meta := v\<rparr>;
     self \<leftarrow> (case prom_log_unsync prom of
         Some u \<Rightarrow> set_unsynced_log from u self
       | None \<Rightarrow> Some self);
     let num_promised = length (filter is_promised (promises_meta self));
     Some (is_prepare_quorum (ls_quorum self) num_promised, self)
   }"

definition set_promise_state :: "promise_state \<Rightarrow> node_id \<Rightarrow> ('e, 's) leader_state \<Rightarrow>
    ('e, 's) leader_state option" where
  "set_promise_state p pid self = do {
     idx \<leftarrow> pid_to_idx pid;
     v \<leftarrow> vec_set (promises_meta self) idx p;
     Some (self\<lparr>promises_meta := v\<rparr>)
   }"

definition reset_promise :: "node_id \<Rightarrow> ('e, 's) leader_state \<Rightarrow> ('e, 's) leader_state option" where
  "reset_promise = set_promise_state NotPromised"

definition lost_promise :: "node_id \<Rightarrow> ('e, 's) leader_state \<Rightarrow> ('e, 's) leader_state option" where
  "lost_promise = set_promise_state PromisedHigher"

definition take_max_promise_sync ::
    "('e, 's) leader_state \<Rightarrow> ('e, 's) log_sync option \<times> ('e, 's) leader_state" where
  "take_max_promise_sync self = (max_promise_sync self, self\<lparr>max_promise_sync := None\<rparr>)"

definition promised_decided :: "promise_state list \<Rightarrow> nat list" where
  "promised_decided ps = concat (map (\<lambda>p. case p of Promised m \<Rightarrow> [pmd_decided_idx m] | _ \<Rightarrow> []) ps)"

definition get_max_decided_idx :: "('e, 's) leader_state \<Rightarrow> nat" where
  "get_max_decided_idx self =
     (case iter_max (promised_decided (promises_meta self)) of Some m \<Rightarrow> m | None \<Rightarrow> 0)"

definition get_promise_meta :: "node_id \<Rightarrow> ('e, 's) leader_state \<Rightarrow> promise_meta_data option" where
  "get_promise_meta pid self = do {
     idx \<leftarrow> pid_to_idx pid;
     p \<leftarrow> vec_get (promises_meta self) idx;
     case p of Promised m \<Rightarrow> Some m | _ \<Rightarrow> None
   }"

definition iter_min :: "nat list \<Rightarrow> nat option" where
  "iter_min xs = (case xs of [] \<Rightarrow> None | x # ys \<Rightarrow> Some (fold min ys x))"

lemma iter_min_Some [simp]: "iter_min xs = Some m \<longleftrightarrow> xs \<noteq> [] \<and> m = Min (set xs)"
  by (cases xs) (auto simp: iter_min_def Min.set_eq_fold [symmetric])

definition get_min_all_accepted_idx :: "('e, 's) leader_state \<Rightarrow> nat option" where
  "get_min_all_accepted_idx self = iter_min (accepted_indexes self)"

definition get_promised_followers :: "('e, 's) leader_state \<Rightarrow> node_id list option" where
  "get_promised_followers self =
     (if filter is_promised (promises_meta self) = [] then Some []
      else do {
        l \<leftarrow> pid_to_idx (ballot_pid (n_leader self));
        Some (map (\<lambda>(idx, x). idx + 1)
          (filter (\<lambda>(idx, x). is_promised x \<and> idx \<noteq> l) (enumerate 0 (promises_meta self))))
      })"

definition get_preparable_peers :: "node_id list \<Rightarrow> ('e, 's) leader_state \<Rightarrow> node_id list option" where
  "get_preparable_peers peers self =
     for_each (\<lambda>pid acc. do {
         idx \<leftarrow> pid_to_idx pid;
         p \<leftarrow> vec_get (promises_meta self) idx;
         Some (if p = NotPromised then acc @ [pid] else acc)
       }) peers []"

definition reset_latest_accept_meta :: "('e, 's) leader_state \<Rightarrow> ('e, 's) leader_state" where
  "reset_latest_accept_meta self = self\<lparr>latest_accept_meta := replicate (max_pid self) None\<rparr>"

definition set_latest_accept_meta ::
    "node_id \<Rightarrow> nat option \<Rightarrow> ('e, 's) leader_state \<Rightarrow> ('e, 's) leader_state option" where
  "set_latest_accept_meta pid idx self = do {
     let meta = map_option (\<lambda>x. (n_leader self, x)) idx;
     i \<leftarrow> pid_to_idx pid;
     v \<leftarrow> vec_set (latest_accept_meta self) i meta;
     Some (self\<lparr>latest_accept_meta := v\<rparr>)
   }"

definition get_latest_accept_meta ::
    "node_id \<Rightarrow> ('e, 's) leader_state \<Rightarrow> (ballot \<times> nat) option option" where
  "get_latest_accept_meta pid self = do { i \<leftarrow> pid_to_idx pid; vec_get (latest_accept_meta self) i }"

definition ls_set_accepted_idx ::
    "node_id \<Rightarrow> nat \<Rightarrow> ('e, 's) leader_state \<Rightarrow> ('e, 's) leader_state option" where
  "ls_set_accepted_idx pid idx self = do {
     i \<leftarrow> pid_to_idx pid;
     v \<leftarrow> vec_set (accepted_indexes self) i idx;
     Some (self\<lparr>accepted_indexes := v\<rparr>)
   }"

text \<open>The outer option is a panic, the inner one the \<^verbatim>\<open>None\<close> of a node without promise.\<close>

definition ls_get_decided_idx :: "node_id \<Rightarrow> ('e, 's) leader_state \<Rightarrow> nat option option" where
  "ls_get_decided_idx pid self = do {
     idx \<leftarrow> pid_to_idx pid;
     p \<leftarrow> vec_get (promises_meta self) idx;
     Some (case p of Promised m \<Rightarrow> Some (pmd_decided_idx m) | _ \<Rightarrow> None)
   }"

definition ls_get_accepted_idx :: "node_id \<Rightarrow> ('e, 's) leader_state \<Rightarrow> nat option" where
  "ls_get_accepted_idx pid self = do { i \<leftarrow> pid_to_idx pid; vec_get (accepted_indexes self) i }"

definition is_chosen :: "nat \<Rightarrow> ('e, 's) leader_state \<Rightarrow> bool" where
  "is_chosen idx self =
     is_accept_quorum (ls_quorum self) (length (filter (\<lambda>la. idx \<le> la) (accepted_indexes self)))"

definition insert_recovered_remote_entry_id ::
    "entry_id \<Rightarrow> ('e, 's) leader_state \<Rightarrow> ('e, 's) leader_state" where
  "insert_recovered_remote_entry_id i self =
     self\<lparr>recovered_remote_entry_ids := insert i (recovered_remote_entry_ids self)\<rparr>"

definition has_recovered_remote_entry_id :: "entry_id \<Rightarrow> ('e, 's) leader_state \<Rightarrow> bool" where
  "has_recovered_remote_entry_id i self \<longleftrightarrow> i \<in> recovered_remote_entry_ids self"

definition push_pending_accept_meta ::
    "accepted_entry_meta \<Rightarrow> ('e, 's) leader_state \<Rightarrow> ('e, 's) leader_state" where
  "push_pending_accept_meta meta self =
     self\<lparr>pending_accept_meta := pending_accept_meta self @ [meta]\<rparr>"

definition take_pending_accept_meta :: "nat \<Rightarrow> ('e, 's) leader_state \<Rightarrow>
    (accepted_entry_meta list \<times> ('e, 's) leader_state) option" where
  "take_pending_accept_meta cnt self =
     (if cnt \<le> length (pending_accept_meta self)
      then Some (take cnt (pending_accept_meta self),
                 self\<lparr>pending_accept_meta := drop cnt (pending_accept_meta self)\<rparr>)
      else None)"

subsection \<open>Fast path\<close>

text \<open>
  The loop of \<^verbatim>\<open>get_matched_unsynced_entries\<close>: the counts per entry hash (in the order of
  their first occurrence; the order of the hash map the code collects is unspecified) and
  the entry last seen for each hash.
\<close>

type_synonym 'e matched = "(dom_hash \<times> nat) list \<times> (dom_hash \<rightharpoonup> entry_id \<times> 'e)"

definition match_entry :: "nat \<Rightarrow> dom_hash \<Rightarrow> 'e unsynced_map \<Rightarrow> 'e matched \<Rightarrow> 'e matched" where
  "match_entry entry_idx prefix_hash unsynced_log acc =
     (case map_of unsynced_log entry_idx of
        None \<Rightarrow> acc
      | Some u \<Rightarrow>
          if ule_prefix_hash u = prefix_hash then
            (let (counts, entry_map) = acc; h = ule_entry_hash u;
                 c = (case map_of counts h of Some c \<Rightarrow> c | None \<Rightarrow> 0)
             in (AList.update h (c + 1) counts, entry_map(h \<mapsto> (ule_entry_id u, ule_entry u))))
          else acc)"

definition get_matched_unsynced_entries :: "nat \<Rightarrow> dom_hash \<Rightarrow> ('e, 's) leader_state \<Rightarrow>
    (dom_hash \<times> entry_id \<times> 'e \<times> nat) list option" where
  "get_matched_unsynced_entries entry_idx prefix_hash self =
     (let (counts, entry_map) =
        fold (match_entry entry_idx prefix_hash) (unsynced_log_store self) ([], Map.empty)
      in for_each (\<lambda>(h, c) acc. do {
             (i, e) \<leftarrow> entry_map h;
             Some (acc @ [(h, i, e, c)])
           }) counts [])"

definition set_accepted_map :: "nat \<Rightarrow> dom_hash \<Rightarrow> dom_hash \<Rightarrow> node_id \<Rightarrow> bool \<Rightarrow>
    ('e, 's) leader_state \<Rightarrow> ('e, 's) leader_state" where
  "set_accepted_map idx entry_hash prefix_hash pid is_fast_path self =
     (let a = (case accepted_map self idx of
            Some a \<Rightarrow> a
          | None \<Rightarrow> \<lparr>ame_entry_hash = entry_hash, ame_prefix_hash = prefix_hash,
                     ame_fast = Map.empty, ame_slow = {}\<rparr>);
          a = (if is_fast_path
            then let v = (case ame_fast a (prefix_hash, entry_hash) of Some v \<Rightarrow> v | None \<Rightarrow> {})
                 in a\<lparr>ame_fast := (ame_fast a)((prefix_hash, entry_hash) \<mapsto> insert pid v)\<rparr>
            else a\<lparr>ame_slow := insert pid (ame_slow a)\<rparr>)
      in self\<lparr>accepted_map := (accepted_map self)(idx \<mapsto> a)\<rparr>)"

definition prune_accepted_map :: "nat \<Rightarrow> ('e, 's) leader_state \<Rightarrow> ('e, 's) leader_state" where
  "prune_accepted_map decided_idx self =
     self\<lparr>accepted_map := (\<lambda>idx. if decided_idx < idx then accepted_map self idx else None)\<rparr>"

subsection \<open>The maximal promise\<close>

lemma promise_cmp_Greater:
  "promise_cmp a b = Greater \<longleftrightarrow>
     pmd_n_accepted b < pmd_n_accepted a \<or>
     pmd_n_accepted a = pmd_n_accepted b \<and> pmd_accepted_idx b < pmd_accepted_idx a"
  by (auto simp: promise_cmp_def)

lemma promise_cmp_trans:
  assumes "promise_cmp a b = Greater" "promise_cmp b c = Greater"
  shows "promise_cmp a c = Greater"
proof (cases "pmd_n_accepted b < pmd_n_accepted a \<and> pmd_n_accepted c < pmd_n_accepted b")
  case True
  then have "pmd_n_accepted c < pmd_n_accepted a" by (blast intro: less_trans)
  then show ?thesis by (simp add: promise_cmp_Greater)
next
  case False
  with assms show ?thesis unfolding promise_cmp_Greater by (elim disjE) (simp_all only:, auto)
qed

text \<open>No collected promise is greater than the maximum.\<close>

definition max_promise_inv :: "('e, 's) leader_state \<Rightarrow> bool" where
  "max_promise_inv l \<longleftrightarrow>
     (\<forall>m. Promised m \<in> set (promises_meta l) \<longrightarrow> promise_cmp m (max_promise_meta l) \<noteq> Greater)"

lemma max_promise_inv_with [invar]: "max_promise_inv (leader_state_with n k q)"
  by (auto simp: max_promise_inv_def leader_state_with_def)

lemma set_unsynced_log_frame [frame]:
  assumes "set_unsynced_log pid u l = Some l'"
  shows "l' = l\<lparr>unsynced_log_store := unsynced_log_store l'\<rparr>"
  using assms by (auto simp: set_unsynced_log_def split: if_splits)

lemma ls_set_promise_Some:
  assumes "ls_set_promise prom from check l = Some (r, l')"
  defines "m \<equiv> \<lparr>pmd_n_accepted = prom_n_accepted prom, pmd_accepted_idx = prom_accepted_idx prom,
           pmd_decided_idx = prom_decided_idx prom, pmd_pid = from\<rparr>"
  shows "from - 1 < length (promises_meta l)" "0 < from"
    and "promises_meta l' = (promises_meta l)[from - 1 := Promised m]"
    and "max_promise_meta l' = (if check \<and> promise_cmp m (max_promise_meta l) = Greater
           then m else max_promise_meta l)"
    and "max_promise_sync l' = (if check \<and> promise_cmp m (max_promise_meta l) = Greater
           then prom_log_sync prom else max_promise_sync l)"
    and "max_promise_accepted_hash l' = (if check \<and> promise_cmp m (max_promise_meta l) = Greater
           then prom_log_prefix_hash prom else max_promise_accepted_hash l)"
    and "r = is_prepare_quorum (ls_quorum l) (length (filter is_promised (promises_meta l')))"
proof -
  let ?g = "check \<and> promise_cmp m (max_promise_meta l) = Greater"
  define l1 where "l1 = (if ?g then l\<lparr>max_promise_meta := m, max_promise_sync := prom_log_sync prom,
                 max_promise_accepted_hash := prom_log_prefix_hash prom\<rparr> else l)"
  define l2 where "l2 = l1\<lparr>promises_meta := (promises_meta l)[from - 1 := Promised m]\<rparr>"
  have p1: "promises_meta l1 = promises_meta l" by (simp add: l1_def)
  have idx: "from - 1 < length (promises_meta l) \<and> 0 < from"
    and u: "(case prom_log_unsync prom of Some u \<Rightarrow> set_unsynced_log from u l2 | None \<Rightarrow> Some l2) = Some l'"
    and r: "r = is_prepare_quorum (ls_quorum l') (length (filter is_promised (promises_meta l')))"
    using assms(1) p1 unfolding ls_set_promise_def m_def [symmetric] l1_def [symmetric] Let_def
    by (auto simp: pid_to_idx_def l2_def Suc_le_eq cong: option.case_cong)
  then show "from - 1 < length (promises_meta l)" "0 < from" by auto
  have l': "l' = l2\<lparr>unsynced_log_store := unsynced_log_store l'\<rparr>"
    using u set_unsynced_log_frame [of "from" _ l2 l'] by (cases "prom_log_unsync prom") auto
  show "promises_meta l' = (promises_meta l)[from - 1 := Promised m]"
    "max_promise_meta l' = (if ?g then m else max_promise_meta l)"
    "max_promise_sync l' = (if ?g then prom_log_sync prom else max_promise_sync l)"
    "max_promise_accepted_hash l' = (if ?g then prom_log_prefix_hash prom else max_promise_accepted_hash l)"
    by (subst l', simp add: l2_def l1_def)+
  have "ls_quorum l' = ls_quorum l" by (subst l', simp add: l2_def l1_def)
  with r show "r = is_prepare_quorum (ls_quorum l) (length (filter is_promised (promises_meta l')))"
    by simp
qed

lemma max_promise_inv_set_promise [invar]:
  assumes "max_promise_inv l" "ls_set_promise prom from True l = Some (r, l')"
  shows "max_promise_inv l'"
  unfolding max_promise_inv_def
proof (intro allI impI)
  fix x assume x: "Promised x \<in> set (promises_meta l')"
  define m where "m = \<lparr>pmd_n_accepted = prom_n_accepted prom, pmd_accepted_idx = prom_accepted_idx prom,
           pmd_decided_idx = prom_decided_idx prom, pmd_pid = from\<rparr>"
  note s = ls_set_promise_Some [OF assms(2), folded m_def]
  have "x = m \<or> Promised x \<in> set (promises_meta l)"
    using x set_update_subset_insert [of "promises_meta l" "from - 1" "Promised m"] unfolding s(3) by auto
  moreover have "promise_cmp m m \<noteq> Greater" by (simp add: promise_cmp_def)
  ultimately show "promise_cmp x (max_promise_meta l') \<noteq> Greater"
    using assms(1) promise_cmp_trans [of x m "max_promise_meta l"]
    by (auto simp: s(4) max_promise_inv_def)
qed

subsection \<open>Counting votes of the fast path\<close>

definition votes_for :: "nat \<Rightarrow> dom_hash \<Rightarrow> dom_hash \<Rightarrow> 'e unsynced_map list \<Rightarrow> nat" where
  "votes_for idx prefix h logs =
     length (filter (\<lambda>u. \<exists>x. map_of u idx = Some x \<and> ule_prefix_hash x = prefix \<and> ule_entry_hash x = h) logs)"

definition matched_inv :: "nat \<Rightarrow> dom_hash \<Rightarrow> 'e unsynced_map list \<Rightarrow> 'e matched \<Rightarrow> bool" where
  "matched_inv idx prefix logs acc \<longleftrightarrow>
     distinct (map fst (fst acc)) \<and>
     (\<forall>h. map_of (fst acc) h = (if votes_for idx prefix h logs = 0 then None
                                else Some (votes_for idx prefix h logs))) \<and>
     (\<forall>h. votes_for idx prefix h logs \<noteq> 0 \<longrightarrow> (\<exists>u x. u \<in> set logs \<and> map_of u idx = Some x \<and>
        ule_prefix_hash x = prefix \<and> ule_entry_hash x = h \<and>
        snd acc h = Some (ule_entry_id x, ule_entry x)))"

lemma votes_for_snoc:
  "votes_for idx prefix h (logs @ [u]) = votes_for idx prefix h logs +
     (if \<exists>x. map_of u idx = Some x \<and> ule_prefix_hash x = prefix \<and> ule_entry_hash x = h then 1 else 0)"
  by (auto simp: votes_for_def)

lemma match_entry_inv:
  assumes "matched_inv idx prefix logs acc"
  shows "matched_inv idx prefix (logs @ [u]) (match_entry idx prefix u acc)"
proof (cases "\<exists>x. map_of u idx = Some x \<and> ule_prefix_hash x = prefix")
  case False
  then have "match_entry idx prefix u acc = acc"
    and v: "\<And>h. votes_for idx prefix h (logs @ [u]) = votes_for idx prefix h logs"
    by (auto simp: match_entry_def votes_for_snoc split: option.splits)
  moreover have "\<And>w. w \<in> set logs \<Longrightarrow> w \<in> set (logs @ [u])" by simp
  ultimately show ?thesis using assms unfolding matched_inv_def v by (simp only:) blast
next
  case True
  then obtain x where x: "map_of u idx = Some x" "ule_prefix_hash x = prefix" by blast
  obtain counts entry_map where acc: "acc = (counts, entry_map)" by (cases acc)
  let ?h = "ule_entry_hash x" and ?v = "\<lambda>h. votes_for idx prefix h logs"
  have v: "votes_for idx prefix h (logs @ [u]) = (if h = ?h then ?v h + 1 else ?v h)" for h
    using x by (auto simp: votes_for_snoc)
  have c: "(case map_of counts ?h of Some c \<Rightarrow> c | None \<Rightarrow> 0) = ?v ?h"
    using assms by (simp add: matched_inv_def acc)
  have m: "match_entry idx prefix u acc
      = (AList.update ?h (?v ?h + 1) counts, entry_map(?h \<mapsto> (ule_entry_id x, ule_entry x)))"
    using x c by (simp add: match_entry_def acc Let_def)
  show ?thesis
    unfolding matched_inv_def m fst_conv snd_conv
  proof (intro conjI allI impI)
    show "distinct (map fst (AList.update ?h (?v ?h + 1) counts))"
      using assms by (simp add: matched_inv_def acc distinct_update)
  next
    fix h
    show "map_of (AList.update ?h (?v ?h + 1) counts) h =
        (if votes_for idx prefix h (logs @ [u]) = 0 then None else Some (votes_for idx prefix h (logs @ [u])))"
      using assms by (simp add: matched_inv_def acc update_conv v)
  next
    fix h assume h: "votes_for idx prefix h (logs @ [u]) \<noteq> 0"
    show "\<exists>w y. w \<in> set (logs @ [u]) \<and> map_of w idx = Some y \<and> ule_prefix_hash y = prefix \<and>
        ule_entry_hash y = h \<and>
        (entry_map(?h \<mapsto> (ule_entry_id x, ule_entry x))) h = Some (ule_entry_id y, ule_entry y)"
    proof (cases "h = ?h")
      case True
      with x show ?thesis by (intro exI [of _ u] exI [of _ x]) simp
    next
      case False
      then have "?v h \<noteq> 0" using h by (simp add: v)
      then obtain w y where "w \<in> set logs" "map_of w idx = Some y" "ule_prefix_hash y = prefix"
        "ule_entry_hash y = h" "entry_map h = Some (ule_entry_id y, ule_entry y)"
        using assms unfolding matched_inv_def acc snd_conv by blast
      with False show ?thesis by (intro exI [of _ w] exI [of _ y]) simp
    qed
  qed
qed

lemma match_entries_inv:
  "matched_inv idx prefix logs (fold (match_entry idx prefix) logs ([], Map.empty))"
proof (induction logs rule: rev_induct)
  case Nil
  then show ?case by (simp add: matched_inv_def votes_for_def)
next
  case (snoc u logs)
  then show ?case using match_entry_inv by (simp add: fold_append)
qed

lemma collect_matched:
  assumes "\<And>h c. (h, c) \<in> set counts \<Longrightarrow> \<exists>i e. m h = Some (i, e)"
  shows "for_each (\<lambda>(h, c) acc. do { (i, e) \<leftarrow> m h; Some (acc @ [(h, i, e, c)]) }) counts acc
    = Some (acc @ map (\<lambda>(h, c). (h, fst (the (m h)), snd (the (m h)), c)) counts)"
  using assms
proof (induction counts arbitrary: acc)
  case Nil
  then show ?case by simp
next
  case (Cons x counts)
  obtain h c where x: "x = (h, c)" by (cases x)
  obtain i e where "m h = Some (i, e)" using Cons.prems [of h c] x by auto
  moreover have "for_each (\<lambda>(h, c) acc. do { (i, e) \<leftarrow> m h; Some (acc @ [(h, i, e, c)]) }) counts (acc @ [(h, i, e, c)])
      = Some ((acc @ [(h, i, e, c)]) @ map (\<lambda>(h, c). (h, fst (the (m h)), snd (the (m h)), c)) counts)"
    by (rule Cons.IH) (use Cons.prems in auto)
  ultimately show ?case by (simp add: x)
qed

text \<open>
  The routine never panics; it lists exactly the hashes some log reports at that index with
  that prefix, each once, with the number of logs reporting it and an entry that was reported.
\<close>

lemma get_matched_total:
  obtains ms where "get_matched_unsynced_entries idx prefix l = Some ms"
    and "distinct (map fst ms)"
    and "\<And>h i e c. (h, i, e, c) \<in> set ms \<Longrightarrow>
       c = votes_for idx prefix h (unsynced_log_store l) \<and> c \<noteq> 0 \<and>
       (\<exists>u x. u \<in> set (unsynced_log_store l) \<and> map_of u idx = Some x \<and> ule_prefix_hash x = prefix \<and>
          ule_entry_hash x = h \<and> ule_entry_id x = i \<and> ule_entry x = e)"
    and "\<And>h. votes_for idx prefix h (unsynced_log_store l) \<noteq> 0 \<Longrightarrow> h \<in> fst ` set ms"
proof -
  let ?logs = "unsynced_log_store l"
  obtain counts m where f: "fold (match_entry idx prefix) ?logs ([], Map.empty) = (counts, m)"
    by fastforce
  have inv: "matched_inv idx prefix ?logs (counts, m)" using match_entries_inv f by metis
  have c: "c = votes_for idx prefix h ?logs \<and> c \<noteq> 0" if "(h, c) \<in> set counts" for h c
  proof -
    have "distinct (map fst counts)" using inv by (simp add: matched_inv_def)
    then have "map_of counts h = Some c" using that by (rule map_of_is_SomeI)
    moreover have "map_of counts h = (if votes_for idx prefix h ?logs = 0 then None
        else Some (votes_for idx prefix h ?logs))" using inv by (simp add: matched_inv_def)
    ultimately show ?thesis by (simp split: if_splits)
  qed
  have e: "\<exists>u x. u \<in> set ?logs \<and> map_of u idx = Some x \<and> ule_prefix_hash x = prefix \<and>
      ule_entry_hash x = h \<and> m h = Some (ule_entry_id x, ule_entry x)" if "(h, c) \<in> set counts" for h c
    using inv c [OF that] by (auto simp: matched_inv_def)
  let ?ms = "map (\<lambda>(h, c). (h, fst (the (m h)), snd (the (m h)), c)) counts"
  have g: "get_matched_unsynced_entries idx prefix l = Some ?ms"
    using collect_matched [of counts m "[]"] e by (fastforce simp: get_matched_unsynced_entries_def f)
  show thesis
  proof (rule that [OF g])
    have "map fst ?ms = map fst counts" by (auto simp: case_prod_beta)
    moreover have "distinct (map fst counts)" using inv by (simp add: matched_inv_def)
    ultimately show "distinct (map fst ?ms)" by (simp only:)
  next
    fix h i x c assume "(h, i, x, c) \<in> set ?ms"
    then have hc: "(h, c) \<in> set counts" and ix: "i = fst (the (m h))" "x = snd (the (m h))" by auto
    obtain u y where "u \<in> set ?logs" "map_of u idx = Some y" "ule_prefix_hash y = prefix"
      "ule_entry_hash y = h" "m h = Some (ule_entry_id y, ule_entry y)"
      using e [OF hc] by blast
    then show "c = votes_for idx prefix h ?logs \<and> c \<noteq> 0 \<and>
       (\<exists>u z. u \<in> set ?logs \<and> map_of u idx = Some z \<and> ule_prefix_hash z = prefix \<and>
          ule_entry_hash z = h \<and> ule_entry_id z = i \<and> ule_entry z = x)"
      using c [OF hc] ix by auto
  next
    fix h assume "votes_for idx prefix h ?logs \<noteq> 0"
    then have "map_of counts h = Some (votes_for idx prefix h ?logs)"
      using inv by (simp add: matched_inv_def)
    then show "h \<in> fst ` set ?ms" by (force dest!: map_of_SomeD)
  qed
qed

end
