(* ===== verification/Replica.thy ===== *)
theory Replica
  imports Internal_Storage Dom Leader_State
begin

text \<open>
  The state of a Sequence Paxos replica and the operations of \<^verbatim>\<open>sequence_paxos/mod.rs\<close> that
  both roles share: sending, log synchronisation for another server, proposals through the
  deadline-ordered multicast, reconnection and stop-sign forwarding. An operation returns the
  new state, or \<^term>\<open>None\<close> when the code panics.
\<close>

subsection \<open>State\<close>

record ('e, 's) sequence_paxos =
  sp_dom :: "'e dom"
  sp_store :: "('e, 's) internal_storage"
  sp_pid :: node_id
  sp_peers :: "node_id list"
  sp_state :: "role \<times> phase"
  buffered_proposals :: "'e list"
  buffered_stopsign :: "stop_sign option"
  outgoing :: "('e, 's) message list"
  sp_leader :: "('e, 's) leader_state"
  latest_accepted_meta :: "(ballot \<times> nat) option"
  current_seq_num :: sequence_number
  cached_promise_message :: "('e, 's) promise option"
  unsynced_log :: "'e unsynced_map"
  accepted_prefix_hash :: dom_hash
  unsynced_hash :: dom_hash
  enable_fast_path :: bool
  fast_path_decisions :: nat
  slow_path_decisions :: nat

definition send_to :: "node_id \<Rightarrow> ('e, 's) paxos_msg \<Rightarrow> ('e, 's) sequence_paxos \<Rightarrow>
    ('e, 's) sequence_paxos" where
  "send_to to msg self =
     self\<lparr>outgoing := outgoing self @
       [SequencePaxos \<lparr>pm_from = sp_pid self, pm_to = to, pm_msg = msg\<rparr>]\<rparr>"

text \<open>The loops that send one message to every peer.\<close>

definition send_to_peers :: "('e, 's) paxos_msg \<Rightarrow> ('e, 's) sequence_paxos \<Rightarrow>
    ('e, 's) sequence_paxos" where
  "send_to_peers msg self = fold (\<lambda>pid. send_to pid msg) (sp_peers self) self"

definition sp_get_promise :: "('e, 's) sequence_paxos \<Rightarrow> ballot" where
  "sp_get_promise self = get_promise (sp_store self)"

definition sp_get_decided_idx :: "('e, 's) sequence_paxos \<Rightarrow> nat" where
  "sp_get_decided_idx self = get_decided_idx (sp_store self)"

definition sp_get_accepted_idx :: "('e, 's) sequence_paxos \<Rightarrow> nat" where
  "sp_get_accepted_idx self = get_accepted_idx (sp_store self)"

definition get_current_leader :: "('e, 's) sequence_paxos \<Rightarrow> node_id" where
  "get_current_leader self = ballot_pid (sp_get_promise self)"

definition is_reconfigured :: "('e, 's) sequence_paxos \<Rightarrow> stop_sign option" where
  "is_reconfigured self =
     (case get_stopsign (sp_store self) of
        Some ss \<Rightarrow> if stopsign_is_decided (sp_store self) then Some ss else None
      | None \<Rightarrow> None)"

definition accepted_reconfiguration :: "('e, 's) sequence_paxos \<Rightarrow> bool" where
  "accepted_reconfiguration self \<longleftrightarrow> get_stopsign (sp_store self) \<noteq> None"

subsection \<open>Operations\<close>

definition reconnected :: "node_id \<Rightarrow> ('e, 's) sequence_paxos \<Rightarrow> ('e, 's) sequence_paxos" where
  "reconnected pid self =
     (if pid = sp_pid self then self
      else let self = (if pid = get_current_leader self
                       then self\<lparr>sp_state := (FollowerRole, PhaseRecover)\<rparr> else self)
           in send_to pid (PrepareReq \<lparr>pr_n = sp_get_promise self\<rparr>) self)"

definition forward_stopsign :: "stop_sign \<Rightarrow> ('e, 's) sequence_paxos \<Rightarrow> ('e, 's) sequence_paxos" where
  "forward_stopsign ss self =
     (let l = get_current_leader self
      in if 0 < l \<and> sp_pid self \<noteq> l then send_to l (ForwardStopSign ss) self
         else if buffered_stopsign self = None then self\<lparr>buffered_stopsign := Some ss\<rparr>
         else self)"

definition create_log_sync :: "('e, 's) env \<Rightarrow> nat \<Rightarrow> nat \<Rightarrow> ('e, 's) sequence_paxos \<Rightarrow>
    ('e, 's) log_sync option" where
  "create_log_sync env common_prefix_idx other_logs_decided_idx self = do {
     let st = sp_store self;
     let decided_idx = get_decided_idx st;
     (decided_snapshot, suffix, sync_idx) \<leftarrow>
       (if use_snapshots env \<and> common_prefix_idx < decided_idx then do {
          (delta_snapshot, compacted_idx) \<leftarrow> expect (create_diff_snapshot env other_logs_decided_idx st);
          suffix \<leftarrow> get_suffix decided_idx st;
          Some (delta_snapshot, suffix, compacted_idx)
        } else do {
          suffix \<leftarrow> get_suffix common_prefix_idx st;
          Some (None, suffix, common_prefix_idx)
        });
     Some \<lparr>ls_decided_snapshot = decided_snapshot, ls_suffix = suffix, ls_sync_idx = sync_idx,
           ls_stopsign = get_stopsign st\<rparr>
   }"

definition sp_handle_dom_ack :: "dom_ack \<Rightarrow> ('e, 's) sequence_paxos \<Rightarrow> ('e, 's) sequence_paxos" where
  "sp_handle_dom_ack ack self = self\<lparr>sp_dom := handle_dom_ack ack (sp_dom self)\<rparr>"

definition sp_handle_dom_propose :: "'e dom_propose \<Rightarrow> ('e, 's) sequence_paxos \<Rightarrow>
    ('e, 's) sequence_paxos option" where
  "sp_handle_dom_propose prop self = do {
     let sender = dp_sender prop;
     (ack, d) \<leftarrow> handle_dom_propose prop (fst (sp_state self)) (sp_dom self);
     let self = self\<lparr>sp_dom := d\<rparr>;
     Some (if sender \<noteq> sp_pid self then send_to sender (DomAck ack) self
           else sp_handle_dom_ack ack self)
   }"

definition send_dom_propose :: "'e dom_propose \<Rightarrow> ('e, 's) sequence_paxos \<Rightarrow>
    ('e, 's) sequence_paxos option" where
  "send_dom_propose prop self =
     sp_handle_dom_propose prop (send_to_peers (DomPropose prop) self)"

definition append_with_id :: "'e \<Rightarrow> entry_id \<Rightarrow> ('e, 's) sequence_paxos \<Rightarrow>
    ('e propose_err option \<times> ('e, 's) sequence_paxos) option" where
  "append_with_id entry i self =
     (if accepted_reconfiguration self then Some (Some (PendingReconfigEntry entry), self)
      else do {
        (dom_proposal, d) \<leftarrow> create_dom_propose entry i (sp_dom self);
        self \<leftarrow> send_dom_propose dom_proposal (self\<lparr>sp_dom := d\<rparr>);
        Some (None, self)
      })"

definition take_outgoing_msgs :: "('e, 's) message list \<Rightarrow> ('e, 's) sequence_paxos \<Rightarrow>
    ('e, 's) message list \<times> ('e, 's) sequence_paxos" where
  "take_outgoing_msgs buffer self =
     (buffer @ outgoing self,
      self\<lparr>outgoing := [], sp_leader := reset_latest_accept_meta (sp_leader self),
           latest_accepted_meta := None\<rparr>)"

subsection \<open>Frames\<close>

text \<open>Sending touches nothing but the outgoing messages; it only adds to them.\<close>

lemma send_to_frame [frame]: "send_to to m s = s\<lparr>outgoing := outgoing (send_to to m s)\<rparr>"
  by (simp add: send_to_def)

lemma send_to_sel [simp]:
  "sp_dom (send_to t m s) = sp_dom s" "sp_store (send_to t m s) = sp_store s"
  "sp_pid (send_to t m s) = sp_pid s" "sp_peers (send_to t m s) = sp_peers s"
  "sp_state (send_to t m s) = sp_state s" "buffered_proposals (send_to t m s) = buffered_proposals s"
  "buffered_stopsign (send_to t m s) = buffered_stopsign s" "sp_leader (send_to t m s) = sp_leader s"
  "latest_accepted_meta (send_to t m s) = latest_accepted_meta s"
  "current_seq_num (send_to t m s) = current_seq_num s"
  "cached_promise_message (send_to t m s) = cached_promise_message s"
  "unsynced_log (send_to t m s) = unsynced_log s"
  "accepted_prefix_hash (send_to t m s) = accepted_prefix_hash s"
  "unsynced_hash (send_to t m s) = unsynced_hash s"
  "enable_fast_path (send_to t m s) = enable_fast_path s"
  by (simp_all add: send_to_def)

lemma fold_send_outgoing:
  "fold (\<lambda>pid. send_to pid m) ps s =
     s\<lparr>outgoing := outgoing s @ map (\<lambda>p. SequencePaxos \<lparr>pm_from = sp_pid s, pm_to = p, pm_msg = m\<rparr>) ps\<rparr>"
proof (induction ps arbitrary: s)
  case Nil
  then show ?case by simp
next
  case (Cons p ps)
  then show ?case by (simp add: send_to_def)
qed

lemma send_to_peers_outgoing:
  "send_to_peers m s =
     s\<lparr>outgoing := outgoing s @
       map (\<lambda>p. SequencePaxos \<lparr>pm_from = sp_pid s, pm_to = p, pm_msg = m\<rparr>) (sp_peers s)\<rparr>"
  unfolding send_to_peers_def by (rule fold_send_outgoing)

lemma reconnected_store [simp]: "sp_store (reconnected pid s) = sp_store s"
  by (simp add: reconnected_def Let_def)

lemma forward_stopsign_store [simp]: "sp_store (forward_stopsign ss s) = sp_store s"
  by (simp add: forward_stopsign_def Let_def)

lemma sp_handle_dom_ack_store [simp]: "sp_store (sp_handle_dom_ack ack s) = sp_store s"
  by (simp add: sp_handle_dom_ack_def)

lemma sp_handle_dom_propose_frame [frame]:
  assumes "sp_handle_dom_propose p s = Some t"
  shows "t = s\<lparr>sp_dom := sp_dom t, outgoing := outgoing t\<rparr>"
  using assms
  by (auto simp: sp_handle_dom_propose_def send_to_def sp_handle_dom_ack_def Let_def split: if_splits)

lemma send_dom_propose_frame [frame]:
  assumes "send_dom_propose p s = Some t"
  shows "t = s\<lparr>sp_dom := sp_dom t, outgoing := outgoing t\<rparr>"
  using sp_handle_dom_propose_frame [OF assms [unfolded send_dom_propose_def]]
  by (simp add: send_to_peers_outgoing)

lemma append_with_id_frame [frame]:
  assumes "append_with_id e i s = Some (r, t)"
  shows "t = s\<lparr>sp_dom := sp_dom t, outgoing := outgoing t\<rparr>"
proof (cases "accepted_reconfiguration s")
  case False
  with assms obtain p d where "send_dom_propose p (s\<lparr>sp_dom := d\<rparr>) = Some t"
    by (auto simp: append_with_id_def)
  from send_dom_propose_frame [OF this] show ?thesis by simp
qed (use assms in \<open>simp add: append_with_id_def\<close>)

end
