(* ===== verification/Paxos_Follower.thy ===== *)
theory Paxos_Follower
  imports Replica
begin

text \<open>
  The follower side of Sequence Paxos (\<^verbatim>\<open>sequence_paxos/follower.rs\<close>): promises, log
  synchronisation, ordered acceptance and decisions, and the repair of the unsynced log
  after entries arrive on the slow path.
\<close>

subsection \<open>Guards\<close>

definition check_valid_ballot :: "ballot \<Rightarrow> ('e, 's) sequence_paxos \<Rightarrow>
    bool \<times> ('e, 's) sequence_paxos" where
  "check_valid_ballot message_ballot self =
     (let my_promise = sp_get_promise self
      in case ballot_cmp my_promise message_ballot of
           Equal \<Rightarrow> (True, self)
         | Greater \<Rightarrow> (False, send_to (ballot_pid message_ballot) (NotAccepted \<lparr>na_n = my_promise\<rparr>) self)
         | Less \<Rightarrow> (False, reconnected (ballot_pid message_ballot) self))"

definition handle_sequence_num :: "sequence_number \<Rightarrow> node_id \<Rightarrow> ('e, 's) sequence_paxos \<Rightarrow>
    message_status \<times> ('e, 's) sequence_paxos" where
  "handle_sequence_num seq_num from self =
     (let msg_status = check_msg_status (current_seq_num self) seq_num
      in (msg_status,
          case msg_status of
            Expected \<Rightarrow> self\<lparr>current_seq_num := seq_num\<rparr>
          | DroppedPreceding \<Rightarrow> reconnected from self
          | Outdated \<Rightarrow> self))"

subsection \<open>Prepare phase\<close>

definition handle_prepare :: "('e, 's) env \<Rightarrow> prepare \<Rightarrow> node_id \<Rightarrow> ('e, 's) sequence_paxos \<Rightarrow>
    ('e, 's) sequence_paxos option" where
  "handle_prepare env prep from self =
     (let old_promise = sp_get_promise self
      in if old_promise < prep_n prep \<or>
            (old_promise = prep_n prep \<and> snd (sp_state self) = PhaseRecover) then do {
           let self = self\<lparr>sp_store := set_promise (prep_n prep) (snd (flush_batch (sp_store self))),
                           sp_state := (FollowerRole, PhasePrepare),
                           current_seq_num := default_seq_num\<rparr>;
           let na = get_accepted_round (sp_store self);
           let accepted_idx = get_accepted_idx (sp_store self);
           log_sync \<leftarrow>
             (if prep_n_accepted prep < na then
                map_option Some (create_log_sync env (prep_decided_idx prep) (prep_decided_idx prep) self)
              else if na = prep_n_accepted prep \<and> prep_accepted_idx prep < accepted_idx then
                map_option Some (create_log_sync env (prep_accepted_idx prep) (prep_decided_idx prep) self)
              else Some None);
           let prom = \<lparr>prom_n = prep_n prep, prom_n_accepted = na,
                       prom_decided_idx = get_decided_idx (sp_store self),
                       prom_accepted_idx = accepted_idx, prom_log_sync = log_sync,
                       prom_log_unsync = Some (unsynced_log self),
                       prom_log_prefix_hash = accepted_prefix_hash self\<rparr>;
           Some (send_to from (Promise prom) (self\<lparr>cached_promise_message := Some prom\<rparr>))
         } else Some self)"

definition handle_acceptsync :: "('e, 's) env \<Rightarrow> ('e, 's) accept_sync \<Rightarrow> node_id \<Rightarrow>
    ('e, 's) sequence_paxos \<Rightarrow> ('e, 's) sequence_paxos option" where
  "handle_acceptsync env accsync from self =
     (let (valid, self) = check_valid_ballot (as_n accsync) self
      in if valid \<and> sp_state self = (FollowerRole, PhasePrepare) then do {
           let self = self\<lparr>cached_promise_message := None\<rparr>;
           (new_accepted_idx, st) \<leftarrow> expect (sync_log env (as_n accsync) (as_decided_idx accsync)
                                      (Some (as_log_sync accsync)) (sp_store self));
           let self = self\<lparr>sp_store := st, accepted_prefix_hash := as_log_prefix_hash accsync,
                           sp_state := (FollowerRole, PhaseAccept),
                           current_seq_num := as_seq_num accsync,
                           latest_accepted_meta := Some (as_n accsync, length (outgoing self)),
                           unsynced_log := [], unsynced_hash := default_hash\<rparr>;
           Some (send_to from (Accepted \<lparr>acc_n = as_n accsync, acc_accepted_idx = new_accepted_idx\<rparr>) self)
         } else Some self)"

subsection \<open>Accept phase\<close>

text \<open>
  \<^verbatim>\<open>get_latest_accepted_message\<close> yields a mutable reference into the outgoing messages: here
  the index and the message found there.
\<close>

definition get_latest_accepted_message :: "ballot \<Rightarrow> ('e, 's) sequence_paxos \<Rightarrow>
    (nat \<times> accepted) option option" where
  "get_latest_accepted_message n self =
     (case latest_accepted_meta self of
        Some (b, outgoing_idx) \<Rightarrow>
          if b = n then do {
            m \<leftarrow> vec_get (outgoing self) outgoing_idx;
            Some (case m of
                SequencePaxos p \<Rightarrow> (case pm_msg p of Accepted a \<Rightarrow> Some (outgoing_idx, a) | _ \<Rightarrow> None)
              | BLE _ \<Rightarrow> None)
          } else Some None
      | None \<Rightarrow> Some None)"

definition set_outgoing_msg :: "nat \<Rightarrow> ('e, 's) paxos_msg \<Rightarrow> ('e, 's) sequence_paxos \<Rightarrow>
    ('e, 's) sequence_paxos" where
  "set_outgoing_msg i msg self =
     self\<lparr>outgoing := (outgoing self)[i :=
       (case outgoing self ! i of SequencePaxos p \<Rightarrow> SequencePaxos (p\<lparr>pm_msg := msg\<rparr>) | BLE b \<Rightarrow> BLE b)]\<rparr>"

definition reply_accepted :: "ballot \<Rightarrow> nat \<Rightarrow> ('e, 's) sequence_paxos \<Rightarrow>
    ('e, 's) sequence_paxos option" where
  "reply_accepted n accepted_idx self = do {
     latest_accepted \<leftarrow> get_latest_accepted_message n self;
     Some (case latest_accepted of
         Some (i, acc) \<Rightarrow> set_outgoing_msg i (Accepted (acc\<lparr>acc_accepted_idx := accepted_idx\<rparr>)) self
       | None \<Rightarrow>
           send_to (ballot_pid n) (Accepted \<lparr>acc_n = n, acc_accepted_idx = accepted_idx\<rparr>)
             (self\<lparr>latest_accepted_meta := Some (n, length (outgoing self))\<rparr>))
   }"

definition update_decided_idx_and_get_accepted_idx :: "nat \<Rightarrow> ('e, 's) sequence_paxos \<Rightarrow>
    nat option \<times> ('e, 's) sequence_paxos" where
  "update_decided_idx_and_get_accepted_idx new_decided_idx self =
     (let st = sp_store self
      in if new_decided_idx \<le> get_decided_idx st then (None, self)
         else if get_accepted_idx st < new_decided_idx then
           (let (new_accepted_idx, st) = flush_batch st
            in (Some new_accepted_idx,
                self\<lparr>sp_store := set_decided_idx (min new_decided_idx new_accepted_idx) st\<rparr>))
         else (None, self\<lparr>sp_store := set_decided_idx new_decided_idx st\<rparr>))"

definition preserve_entry :: "entry_id set \<Rightarrow> int option \<Rightarrow> 'e unsynced_log_entry \<Rightarrow> bool" where
  "preserve_entry accepted_ids accepted_last_deadline entry \<longleftrightarrow>
     ule_entry_id entry \<notin> accepted_ids \<and>
     (case accepted_last_deadline of Some deadline \<Rightarrow> deadline < ule_deadline entry | None \<Rightarrow> False)"

definition entry_key :: "'e unsynced_log_entry \<Rightarrow> buffer_key" where
  "entry_key entry = BufferKey (ule_deadline entry) (ule_entry_id entry)"

text \<open>\<^verbatim>\<open>sort_by_key\<close> on the pair of deadline and entry id: stable, in the order of buffer keys.\<close>

definition cleanup_fast_path_metadata :: "('e, 's) env \<Rightarrow> accepted_entry_meta list \<Rightarrow>
    ('e, 's) sequence_paxos \<Rightarrow> 'e unsynced_log_entry list \<times> ('e, 's) sequence_paxos" where
  "cleanup_fast_path_metadata env entry_meta self =
     (let accepted_ids = set (map aem_entry_id entry_meta);
          accepted_last_deadline =
            (if entry_meta = [] then None else Some (aem_deadline (last entry_meta)));
          d = fold (\<lambda>meta d. snd (remove_from_buffers (aem_entry_id meta) d)) entry_meta (sp_dom self);
          preserved_tail =
            filter (preserve_entry accepted_ids accepted_last_deadline)
              (map snd (map_iter env (unsynced_log self)))
      in (sort_key entry_key preserved_tail,
          self\<lparr>sp_dom := d, unsynced_log := [], unsynced_hash := default_hash\<rparr>))"

definition rebuild_step :: "nat \<Rightarrow> nat \<times> 'e unsynced_log_entry \<Rightarrow>
    dom_hash \<times> dom_hash \<times> 'e unsynced_map \<Rightarrow> dom_hash \<times> dom_hash \<times> 'e unsynced_map" where
  "rebuild_step accepted_idx =
     (\<lambda>(offset, entry) (prefix_hash, uhash, ulog).
        (extend_hash prefix_hash (ule_entry_hash entry),
         extend_hash uhash (ule_entry_hash entry),
         AList.update (accepted_idx + offset + 1) (entry\<lparr>ule_prefix_hash := prefix_hash\<rparr>) ulog))"

definition rebuild_unsynced_tail :: "nat \<Rightarrow> 'e unsynced_log_entry list \<Rightarrow>
    ('e, 's) sequence_paxos \<Rightarrow> ('e, 's) sequence_paxos" where
  "rebuild_unsynced_tail accepted_idx preserved_tail self =
     (let (prefix_hash, uhash, ulog) =
        fold (rebuild_step accepted_idx) (enumerate 0 preserved_tail)
          (accepted_prefix_hash self, default_hash, [])
      in self\<lparr>unsynced_hash := uhash, unsynced_log := ulog\<rparr>)"

definition handle_acceptdecide :: "('e, 's) env \<Rightarrow> 'e accept_decide \<Rightarrow> ('e, 's) sequence_paxos \<Rightarrow>
    ('e, 's) sequence_paxos option" where
  "handle_acceptdecide env acc_dec self =
     (let (valid, self) = check_valid_ballot (ad_n acc_dec) self
      in if valid \<and> sp_state self = (FollowerRole, PhaseAccept) then
           (let (status, self) = handle_sequence_num (ad_seq_num acc_dec) (ballot_pid (ad_n acc_dec)) self
            in if status = Expected then
                 if length (ad_entry_meta acc_dec) \<noteq> length (ad_entries acc_dec) then None
                 else do {
                 let (preserved_tail, self) = cleanup_fast_path_metadata env (ad_entry_meta acc_dec) self;
                 let (new_accepted_idx, st) =
                       append_entries_and_get_accepted_idx (ad_entries acc_dec) (sp_store self);
                 let self = self\<lparr>sp_store := st, accepted_prefix_hash := ad_log_prefix_hash acc_dec\<rparr>;
                 let (flushed_after_decide, self) =
                       update_decided_idx_and_get_accepted_idx (ad_decided_idx acc_dec) self;
                 let new_accepted_idx =
                       (if flushed_after_decide \<noteq> None then flushed_after_decide else new_accepted_idx);
                 let self = rebuild_unsynced_tail (get_accepted_idx (sp_store self)) preserved_tail self;
                 (case new_accepted_idx of
                    Some idx \<Rightarrow> reply_accepted (ad_n acc_dec) idx self
                  | None \<Rightarrow> Some self)
               } else Some self)
         else Some self)"

definition handle_accept_stopsign :: "accept_stop_sign \<Rightarrow> ('e, 's) sequence_paxos \<Rightarrow>
    ('e, 's) sequence_paxos option" where
  "handle_accept_stopsign acc_ss self =
     (let (valid, self) = check_valid_ballot (ass_n acc_ss) self
      in if valid \<and> sp_state self = (FollowerRole, PhaseAccept) then
           (let (status, self) = handle_sequence_num (ass_seq_num acc_ss) (ballot_pid (ass_n acc_ss)) self
            in if status = Expected then do {
                 (new_accepted_idx, st) \<leftarrow> set_stopsign (Some (ass_ss acc_ss)) (snd (flush_batch (sp_store self)));
                 reply_accepted (ass_n acc_ss) new_accepted_idx (self\<lparr>sp_store := st\<rparr>)
               } else Some self)
         else Some self)"

definition handle_decide :: "decide \<Rightarrow> ('e, 's) sequence_paxos \<Rightarrow> ('e, 's) sequence_paxos option" where
  "handle_decide dec self =
     (let (valid, self) = check_valid_ballot (dec_n dec) self
      in if valid \<and> snd (sp_state self) = PhaseAccept then
           (let (status, self) = handle_sequence_num (dec_seq_num dec) (ballot_pid (dec_n dec)) self
            in if status = Expected then
                 (let (new_accepted_idx, self) =
                    update_decided_idx_and_get_accepted_idx (dec_decided_idx dec) self
                  in case new_accepted_idx of
                       Some idx \<Rightarrow> reply_accepted (dec_n dec) idx self
                     | None \<Rightarrow> Some self)
               else Some self)
         else Some self)"

subsection \<open>Timeouts\<close>

definition send_preparereq_to_all_peers :: "('e, 's) sequence_paxos \<Rightarrow> ('e, 's) sequence_paxos" where
  "send_preparereq_to_all_peers self =
     send_to_peers (PrepareReq \<lparr>pr_n = sp_get_promise self\<rparr>) self"

definition resend_messages_follower :: "('e, 's) sequence_paxos \<Rightarrow> ('e, 's) sequence_paxos" where
  "resend_messages_follower self =
     (case snd (sp_state self) of
        PhasePrepare \<Rightarrow>
          (case cached_promise_message self of
             Some prom \<Rightarrow> send_to (ballot_pid (prom_n prom)) (Promise prom) self
           | None \<Rightarrow> send_preparereq_to_all_peers (self\<lparr>sp_state := (FollowerRole, PhaseRecover)\<rparr>))
      | PhaseRecover \<Rightarrow> send_preparereq_to_all_peers self
      | _ \<Rightarrow> self)"

definition flush_batch_follower :: "('e, 's) sequence_paxos \<Rightarrow> ('e, 's) sequence_paxos option" where
  "flush_batch_follower self =
     (let accepted_idx = get_accepted_idx (sp_store self);
          (new_accepted_idx, st) = flush_batch (sp_store self);
          self = self\<lparr>sp_store := st\<rparr>
      in if accepted_idx < new_accepted_idx
         then reply_accepted (sp_get_promise self) new_accepted_idx self
         else Some self)"

end
