(* ===== verification/Paxos_Leader.thy ===== *)
theory Paxos_Leader
  imports Paxos_Follower
begin

text \<open>
  The leader side of Sequence Paxos (\<^verbatim>\<open>sequence_paxos/leader.rs\<close>): taking leadership, the
  promises and the recovery of the fast path, replication of entries, decisions on the
  accept quorum (slow path) and on the fast quorum, and retransmission.
\<close>

subsection \<open>Sending\<close>

definition send_prepare :: "node_id \<Rightarrow> ('e, 's) sequence_paxos \<Rightarrow> ('e, 's) sequence_paxos" where
  "send_prepare to self =
     send_to to (Prepare \<lparr>prep_n = n_leader (sp_leader self),
                         prep_decided_idx = get_decided_idx (sp_store self),
                         prep_n_accepted = get_accepted_round (sp_store self),
                         prep_accepted_idx = get_accepted_idx (sp_store self)\<rparr>) self"

text \<open>The sequence number of a message: a resent message repeats the current one.\<close>

definition message_seq_num :: "node_id \<Rightarrow> bool \<Rightarrow> ('e, 's) sequence_paxos \<Rightarrow>
    (sequence_number \<times> ('e, 's) sequence_paxos) option" where
  "message_seq_num to resend self =
     (if resend then do { s \<leftarrow> get_seq_num to (sp_leader self); Some (s, self) }
      else do { (s, l) \<leftarrow> next_seq_num to (sp_leader self); Some (s, self\<lparr>sp_leader := l\<rparr>) })"

definition send_accept_stopsign :: "node_id \<Rightarrow> stop_sign \<Rightarrow> bool \<Rightarrow> ('e, 's) sequence_paxos \<Rightarrow>
    ('e, 's) sequence_paxos option" where
  "send_accept_stopsign to ss resend self = do {
     (s, self) \<leftarrow> message_seq_num to resend self;
     Some (send_to to (AcceptStopSign \<lparr>ass_n = n_leader (sp_leader self), ass_seq_num = s, ass_ss = ss\<rparr>) self)
   }"

definition send_decide :: "node_id \<Rightarrow> nat \<Rightarrow> bool \<Rightarrow> ('e, 's) sequence_paxos \<Rightarrow>
    ('e, 's) sequence_paxos option" where
  "send_decide to decided_idx resend self = do {
     (s, self) \<leftarrow> message_seq_num to resend self;
     Some (send_to to (Decide \<lparr>dec_n = n_leader (sp_leader self), dec_seq_num = s,
                              dec_decided_idx = decided_idx\<rparr>) self)
   }"

definition get_latest_accdec_message :: "node_id \<Rightarrow> ('e, 's) sequence_paxos \<Rightarrow>
    (nat \<times> 'e accept_decide) option option" where
  "get_latest_accdec_message to self = do {
     meta \<leftarrow> get_latest_accept_meta to (sp_leader self);
     case meta of
       Some (bal, outgoing_idx) \<Rightarrow>
         if bal = n_leader (sp_leader self) then do {
           m \<leftarrow> vec_get (outgoing self) outgoing_idx;
           Some (case m of
               SequencePaxos p \<Rightarrow> (case pm_msg p of AcceptDecide a \<Rightarrow> Some (outgoing_idx, a) | _ \<Rightarrow> None)
             | BLE _ \<Rightarrow> None)
         } else Some None
     | None \<Rightarrow> Some None
   }"

definition acceptdecide_to :: "'e list \<Rightarrow> accepted_entry_meta list \<Rightarrow> nat \<Rightarrow> dom_hash \<Rightarrow>
    node_id \<Rightarrow> ('e, 's) sequence_paxos \<Rightarrow> ('e, 's) sequence_paxos option" where
  "acceptdecide_to entries entry_meta decided_idx prefix_hash pid self = do {
     latest_accdec \<leftarrow> get_latest_accdec_message pid self;
     case latest_accdec of
       Some (i, accdec) \<Rightarrow>
         Some (set_outgoing_msg i (AcceptDecide (accdec\<lparr>ad_entries := ad_entries accdec @ entries,
             ad_entry_meta := ad_entry_meta accdec @ entry_meta, ad_decided_idx := decided_idx,
             ad_log_prefix_hash := prefix_hash\<rparr>)) self)
     | None \<Rightarrow> do {
         l \<leftarrow> set_latest_accept_meta pid (Some (length (outgoing self))) (sp_leader self);
         (s, l) \<leftarrow> next_seq_num pid l;
         Some (send_to pid (AcceptDecide \<lparr>ad_n = n_leader l, ad_seq_num = s, ad_decided_idx = decided_idx,
             ad_entries = entries, ad_entry_meta = entry_meta, ad_log_prefix_hash = prefix_hash\<rparr>)
           (self\<lparr>sp_leader := l\<rparr>))
       }
   }"

definition send_acceptdecide :: "'e accepted_meta_data \<Rightarrow> ('e, 's) sequence_paxos \<Rightarrow>
    ('e, 's) sequence_paxos option" where
  "send_acceptdecide accepted self = do {
     let decided_idx = get_decided_idx (sp_store self);
     let prefix_hash = accepted_prefix_hash self;
     (entry_meta, l) \<leftarrow> take_pending_accept_meta (length (amd_entries accepted)) (sp_leader self);
     let self = self\<lparr>sp_leader := l\<rparr>;
     followers \<leftarrow> get_promised_followers l;
     for_each (acceptdecide_to (amd_entries accepted) entry_meta decided_idx prefix_hash) followers self
   }"

definition send_accsync :: "('e, 's) env \<Rightarrow> node_id \<Rightarrow> ('e, 's) sequence_paxos \<Rightarrow>
    ('e, 's) sequence_paxos option" where
  "send_accsync env to self = do {
     let l = sp_leader self;
     let current_n = n_leader l;
     let mp = max_promise_meta l;
     fp \<leftarrow> get_promise_meta to l;
     d \<leftarrow> ls_get_decided_idx (pmd_pid fp) l;
     followers_decided_idx \<leftarrow> d;
     let followers_valid_entries_idx =
       (if pmd_n_accepted fp = current_n then pmd_accepted_idx fp
        else if pmd_n_accepted fp = pmd_n_accepted mp then min (pmd_accepted_idx mp) (pmd_accepted_idx fp)
        else followers_decided_idx);
     sync \<leftarrow> create_log_sync env followers_valid_entries_idx followers_decided_idx self;
     l \<leftarrow> increment_seq_num_session to l;
     (s, l) \<leftarrow> next_seq_num to l;
     Some (send_to to (AcceptSync \<lparr>as_n = current_n, as_seq_num = s,
         as_decided_idx = sp_get_decided_idx self, as_log_sync = sync,
         as_log_prefix_hash = accepted_prefix_hash self\<rparr>) (self\<lparr>sp_leader := l\<rparr>))
   }"

subsection \<open>Deciding\<close>

text \<open>The fast quorum check of one index; the code counts the decided entries for benchmarks.\<close>

definition fast_decidable :: "nat \<Rightarrow> ('e, 's) sequence_paxos \<Rightarrow> bool" where
  "fast_decidable idx self \<longleftrightarrow>
     enable_fast_path self \<and> sp_state self = (LeaderRole, PhaseAccept) \<and>
     get_decided_idx (sp_store self) < idx \<and> idx \<le> get_accepted_idx (sp_store self) \<and>
     (case accepted_map (sp_leader self) idx of
        None \<Rightarrow> False
      | Some entry \<Rightarrow>
          let leader_candidate = (ame_prefix_hash entry, ame_entry_hash entry);
              fast_voters = (case ame_fast entry leader_candidate of Some v \<Rightarrow> v | None \<Rightarrow> {});
              combined = fast_voters \<union> ame_slow entry
          in sp_pid self \<in> ame_slow entry \<and>
             fast_quorum (length (sp_peers self) + 1) \<le> card combined)"

definition try_fast_decide_idx :: "nat \<Rightarrow> ('e, 's) sequence_paxos \<Rightarrow>
    (bool \<times> ('e, 's) sequence_paxos) option" where
  "try_fast_decide_idx idx self =
     (if \<not> fast_decidable idx self then Some (False, self)
      else do {
        let self = self\<lparr>
          fast_path_decisions := fast_path_decisions self + (idx - get_decided_idx (sp_store self)),
          sp_store := set_decided_idx idx (sp_store self),
          sp_leader := prune_accepted_map idx (sp_leader self)\<rparr>;
        followers \<leftarrow> get_promised_followers (sp_leader self);
        self \<leftarrow> for_each (\<lambda>pid. send_decide pid idx False) followers self;
        Some (True, self)
      })"

definition accept_entry_leader :: "'e \<Rightarrow> ('e, 's) sequence_paxos \<Rightarrow> ('e, 's) sequence_paxos option" where
  "accept_entry_leader entry self =
     (let (accepted_metadata, st) = append_entry_with_batching entry (sp_store self);
          self = self\<lparr>sp_store := st\<rparr>
      in case accepted_metadata of
           None \<Rightarrow> Some self
         | Some meta \<Rightarrow> do {
             let accepted_idx = amd_accepted_idx meta;
             let num_entries = length (amd_entries meta);
             l \<leftarrow> ls_set_accepted_idx (sp_pid self) accepted_idx (sp_leader self);
             self \<leftarrow> send_acceptdecide meta (self\<lparr>sp_leader := l\<rparr>);
             first_idx \<leftarrow> checked_sub (accepted_idx + 1) num_entries;
             for_each (\<lambda>idx self. map_option snd (try_fast_decide_idx idx self))
               [first_idx..<accepted_idx + 1] self
           })"

definition handle_fast_accepted :: "fast_accepted \<Rightarrow> node_id \<Rightarrow> ('e, 's) sequence_paxos \<Rightarrow>
    ('e, 's) sequence_paxos option" where
  "handle_fast_accepted fast_acc from self =
     (if \<not> enable_fast_path self then Some self
      else if n_leader (sp_leader self) \<noteq> fa_n fast_acc then Some self
      else if sp_state self \<noteq> (LeaderRole, PhaseAccept) then Some self
      else map_option snd (try_fast_decide_idx (fa_idx fast_acc)
        (self\<lparr>sp_leader := set_accepted_map (fa_idx fast_acc) (fa_entry_hash fast_acc)
           (fa_prefix_hash fast_acc) from True (sp_leader self)\<rparr>)))"

definition accept_stopsign_leader :: "stop_sign \<Rightarrow> ('e, 's) sequence_paxos \<Rightarrow>
    ('e, 's) sequence_paxos option" where
  "accept_stopsign_leader ss self = do {
     let (accepted_metadata, st) = append_stopsign ss (sp_store self);
     let self = self\<lparr>sp_store := st\<rparr>;
     self \<leftarrow> (case accepted_metadata of Some meta \<Rightarrow> send_acceptdecide meta self | None \<Rightarrow> Some self);
     l \<leftarrow> ls_set_accepted_idx (sp_pid self) (get_accepted_idx (sp_store self)) (sp_leader self);
     followers \<leftarrow> get_promised_followers l;
     for_each (\<lambda>pid. send_accept_stopsign pid ss False) followers (self\<lparr>sp_leader := l\<rparr>)
   }"

definition decide_accepted_to :: "nat \<Rightarrow> node_id \<Rightarrow> ('e, 's) sequence_paxos \<Rightarrow>
    ('e, 's) sequence_paxos option" where
  "decide_accepted_to decided_idx pid self = do {
     latest_accdec \<leftarrow> get_latest_accdec_message pid self;
     case latest_accdec of
       Some (i, accdec) \<Rightarrow> Some (set_outgoing_msg i (AcceptDecide (accdec\<lparr>ad_decided_idx := decided_idx\<rparr>)) self)
     | None \<Rightarrow> send_decide pid decided_idx False self
   }"

definition handle_accepted :: "accepted \<Rightarrow> node_id \<Rightarrow> ('e, 's) sequence_paxos \<Rightarrow>
    ('e, 's) sequence_paxos option" where
  "handle_accepted accepted from self =
     (if acc_n accepted = n_leader (sp_leader self) \<and> sp_state self = (LeaderRole, PhaseAccept) then do {
        l \<leftarrow> ls_set_accepted_idx from (acc_accepted_idx accepted) (sp_leader self);
        let self = self\<lparr>sp_leader := l\<rparr>;
        let decided_idx = acc_accepted_idx accepted;
        if get_decided_idx (sp_store self) < decided_idx \<and> is_chosen decided_idx l then do {
          let self = self\<lparr>
            slow_path_decisions := slow_path_decisions self + (decided_idx - get_decided_idx (sp_store self)),
            sp_store := set_decided_idx decided_idx (sp_store self),
            sp_leader := prune_accepted_map decided_idx l\<rparr>;
          followers \<leftarrow> get_promised_followers (sp_leader self);
          for_each (decide_accepted_to decided_idx) followers self
        } else Some self
      } else Some self)"

subsection \<open>Taking leadership\<close>

definition become_follower :: "('e, 's) sequence_paxos \<Rightarrow> ('e, 's) sequence_paxos" where
  "become_follower self = self\<lparr>sp_state := (FollowerRole, snd (sp_state self))\<rparr>"

definition handle_leader :: "ballot \<Rightarrow> ('e, 's) sequence_paxos \<Rightarrow> ('e, 's) sequence_paxos option" where
  "handle_leader n self =
     (if n \<le> n_leader (sp_leader self) \<or> n \<le> get_promise (sp_store self) then Some self
      else if sp_pid self = ballot_pid n then do {
        let self = self\<lparr>
          sp_leader := leader_state_with n (max_pid (sp_leader self)) (ls_quorum (sp_leader self)),
          sp_store := set_promise n (snd (flush_batch (sp_store self)))\<rparr>;
        let na = get_accepted_round (sp_store self);
        let decided_idx = sp_get_decided_idx self;
        let accepted_idx = get_accepted_idx (sp_store self);
        let my_promise = \<lparr>prom_n = n, prom_n_accepted = na, prom_decided_idx = decided_idx,
              prom_accepted_idx = accepted_idx, prom_log_sync = None,
              prom_log_unsync = Some (unsynced_log self),
              prom_log_prefix_hash = accepted_prefix_hash self\<rparr>;
        (_, l) \<leftarrow> ls_set_promise my_promise (sp_pid self) True (sp_leader self);
        l \<leftarrow> set_unsynced_log (sp_pid self) (unsynced_log self) l;
        let self = self\<lparr>sp_leader := l, sp_state := (LeaderRole, PhasePrepare)\<rparr>;
        Some (send_to_peers (Prepare \<lparr>prep_n = n, prep_decided_idx = decided_idx,
          prep_n_accepted = na, prep_accepted_idx = accepted_idx\<rparr>) self)
      } else Some (become_follower self))"

definition handle_preparereq :: "prepare_req \<Rightarrow> node_id \<Rightarrow> ('e, 's) sequence_paxos \<Rightarrow>
    ('e, 's) sequence_paxos option" where
  "handle_preparereq prepreq from self =
     (if fst (sp_state self) = LeaderRole \<and> pr_n prepreq \<le> n_leader (sp_leader self) then do {
        l \<leftarrow> reset_promise from (sp_leader self);
        l \<leftarrow> set_latest_accept_meta from None l;
        Some (send_prepare from (self\<lparr>sp_leader := l\<rparr>))
      } else Some self)"

definition handle_forwarded_stopsign :: "stop_sign \<Rightarrow> ('e, 's) sequence_paxos \<Rightarrow>
    ('e, 's) sequence_paxos option" where
  "handle_forwarded_stopsign ss self =
     (if accepted_reconfiguration self then Some self
      else if sp_state self = (LeaderRole, PhasePrepare) then Some (self\<lparr>buffered_stopsign := Some ss\<rparr>)
      else if sp_state self = (LeaderRole, PhaseAccept) then accept_stopsign_leader ss self
      else Some (forward_stopsign ss self))"

subsection \<open>Recovery\<close>

record ('e, 's) recovery =
  rec_state :: "('e, 's) sequence_paxos"
  rec_prev_hash :: dom_hash
  rec_ids :: "entry_id list"
  rec_accepted_idx :: nat

text \<open>
  One round of the recovery loop; \<^term>\<open>None\<close> in the inner option is \<^verbatim>\<open>break\<close>. The set of
  recovered ids is a list with the latest id first.
\<close>

definition recovery_step :: "('e, 's) recovery \<Rightarrow> ('e, 's) recovery option option" where
  "recovery_step r = do {
     let self = rec_state r;
     let recover_thr = recover_threshold (length (sp_peers self) + 1);
     entries_count \<leftarrow> get_matched_unsynced_entries (rec_accepted_idx r + 1) (rec_prev_hash r) (sp_leader self);
     let winners = filter (\<lambda>(h, i, e, cnt). recover_thr \<le> cnt) entries_count;
     Some (case winners of
         [(h, i, e, cnt)] \<Rightarrow>
           if i \<in> set (rec_ids r) then None
           else
             let l = (if \<exists>u \<in> set (map snd (unsynced_log self)). ule_entry_id u = i then sp_leader self
                      else insert_recovered_remote_entry_id i (sp_leader self));
                 (idx, st) = append_entries_without_batching [e] (sp_store self)
             in Some \<lparr>rec_state = self\<lparr>sp_leader := l, sp_store := st\<rparr>,
                      rec_prev_hash = extend_hash (rec_prev_hash r) h,
                      rec_ids = i # rec_ids r, rec_accepted_idx = idx\<rparr>
       | _ \<Rightarrow> None)
   }"

partial_function (option) recovery_loop :: "('e, 's) recovery \<Rightarrow> ('e, 's) recovery option" where
  "recovery_loop r = do {
     step \<leftarrow> recovery_step r;
     case step of None \<Rightarrow> Some r | Some r' \<Rightarrow> recovery_loop r'
   }"

text \<open>The unsynced entries not recovered are proposed again, in the iteration order of the map.\<close>

definition repropose :: "('e, 's) env \<Rightarrow> ('e, 's) sequence_paxos \<Rightarrow> ('e, 's) sequence_paxos option" where
  "repropose env self = do {
     (props, d) \<leftarrow> for_each (\<lambda>u (props, d). do {
         (p, d) \<leftarrow> create_dom_propose (ule_entry u) (ule_entry_id u) d;
         Some (props @ [p], d)
       }) (map snd (map_iter env (unsynced_log self))) ([], sp_dom self);
     for_each send_dom_propose props (self\<lparr>sp_dom := d\<rparr>)
   }"

definition append_buffered :: "nat \<Rightarrow> ('e, 's) sequence_paxos \<Rightarrow>
    (nat \<times> ('e, 's) sequence_paxos)" where
  "append_buffered new_accepted_idx self =
     (if \<not> accepted_reconfiguration self then
        let (new_accepted_idx, self) =
              (if buffered_proposals self \<noteq> [] then
                 let (idx, st) = append_entries_without_batching (buffered_proposals self) (sp_store self)
                 in (idx, self\<lparr>sp_store := st, buffered_proposals := []\<rparr>)
               else (new_accepted_idx, self))
        in case buffered_stopsign self of
             Some ss \<Rightarrow>
               let self = self\<lparr>buffered_stopsign := None,
                               sp_store := snd (append_stopsign ss (sp_store self))\<rparr>
               in (get_accepted_idx (sp_store self), self)
           | None \<Rightarrow> (new_accepted_idx, self)
      else (new_accepted_idx, self))"

definition handle_majority_promises :: "('e, 's) env \<Rightarrow> ('e, 's) sequence_paxos \<Rightarrow>
    ('e, 's) sequence_paxos option" where
  "handle_majority_promises env self = do {
     let (sync, l) = take_max_promise_sync (sp_leader self);
     let decided_idx = get_max_decided_idx l;
     (new_accepted_idx, st) \<leftarrow> expect (sync_log env (n_leader l) decided_idx sync (sp_store self));
     r \<leftarrow> recovery_loop \<lparr>rec_state = self\<lparr>sp_leader := l, sp_store := st\<rparr>,
                         rec_prev_hash = max_promise_accepted_hash l, rec_ids = [],
                         rec_accepted_idx = new_accepted_idx\<rparr>;
     let self = (rec_state r)\<lparr>
       accepted_prefix_hash := rec_prev_hash r,
       unsynced_log := filter (\<lambda>(idx, u). rec_accepted_idx r < idx \<and> ule_entry_id u \<notin> set (rec_ids r))
         (unsynced_log (rec_state r)),
       sp_dom := fold (\<lambda>i d. snd (remove_from_buffers i d)) (rec_ids r) (sp_dom (rec_state r))\<rparr>;
     self \<leftarrow> repropose env self;
     let (new_accepted_idx, self) = append_buffered (rec_accepted_idx r) self;
     let self = self\<lparr>sp_state := (LeaderRole, PhaseAccept)\<rparr>;
     l \<leftarrow> ls_set_accepted_idx (sp_pid self) new_accepted_idx (sp_leader self);
     followers \<leftarrow> get_promised_followers l;
     for_each (send_accsync env) followers (self\<lparr>sp_leader := l\<rparr>)
   }"

definition handle_promise_prepare :: "('e, 's) env \<Rightarrow> ('e, 's) promise \<Rightarrow> node_id \<Rightarrow>
    ('e, 's) sequence_paxos \<Rightarrow> ('e, 's) sequence_paxos option" where
  "handle_promise_prepare env prom from self =
     (if prom_n prom = n_leader (sp_leader self) then do {
        (received_majority, l) \<leftarrow> ls_set_promise prom from True (sp_leader self);
        let self = self\<lparr>sp_leader := l\<rparr>;
        if received_majority then handle_majority_promises env self else Some self
      } else Some self)"

definition handle_promise_accept :: "('e, 's) env \<Rightarrow> ('e, 's) promise \<Rightarrow> node_id \<Rightarrow>
    ('e, 's) sequence_paxos \<Rightarrow> ('e, 's) sequence_paxos option" where
  "handle_promise_accept env prom from self =
     (if prom_n prom = n_leader (sp_leader self) then do {
        (_, l) \<leftarrow> ls_set_promise prom from False (sp_leader self);
        send_accsync env from (self\<lparr>sp_leader := l\<rparr>)
      } else Some self)"

definition handle_notaccepted :: "not_accepted \<Rightarrow> node_id \<Rightarrow> ('e, 's) sequence_paxos \<Rightarrow>
    ('e, 's) sequence_paxos option" where
  "handle_notaccepted not_acc from self =
     (if fst (sp_state self) = LeaderRole \<and> n_leader (sp_leader self) < na_n not_acc then do {
        l \<leftarrow> lost_promise from (sp_leader self);
        Some (self\<lparr>sp_leader := l\<rparr>)
      } else Some self)"

subsection \<open>Timeouts\<close>

definition resend_stopsign_to :: "stop_sign \<Rightarrow> nat \<Rightarrow> node_id \<Rightarrow> ('e, 's) sequence_paxos \<Rightarrow>
    ('e, 's) sequence_paxos option" where
  "resend_stopsign_to ss decided_idx follower self =
     (if stopsign_is_decided (sp_store self) then send_decide follower decided_idx True self
      else do {
        a \<leftarrow> ls_get_accepted_idx follower (sp_leader self);
        if a \<noteq> get_accepted_idx (sp_store self) then send_accept_stopsign follower ss True self
        else Some self
      })"

definition resend_messages_leader :: "('e, 's) sequence_paxos \<Rightarrow> ('e, 's) sequence_paxos option" where
  "resend_messages_leader self =
     (case snd (sp_state self) of
        PhasePrepare \<Rightarrow> do {
          preparable_peers \<leftarrow> get_preparable_peers (sp_peers self) (sp_leader self);
          Some (fold send_prepare preparable_peers self)
        }
      | PhaseAccept \<Rightarrow> do {
          self \<leftarrow> (case get_stopsign (sp_store self) of
              Some ss \<Rightarrow> do {
                followers \<leftarrow> get_promised_followers (sp_leader self);
                for_each (resend_stopsign_to ss (get_decided_idx (sp_store self))) followers self
              }
            | None \<Rightarrow> Some self);
          preparable_peers \<leftarrow> get_preparable_peers (sp_peers self) (sp_leader self);
          Some (fold send_prepare preparable_peers self)
        }
      | _ \<Rightarrow> Some self)"

definition flush_batch_leader :: "('e, 's) sequence_paxos \<Rightarrow> ('e, 's) sequence_paxos option" where
  "flush_batch_leader self =
     (let (accepted_metadata, st) = flush_batch_and_get_entries (sp_store self);
          self = self\<lparr>sp_store := st\<rparr>
      in case accepted_metadata of
           Some meta \<Rightarrow> do {
             l \<leftarrow> ls_set_accepted_idx (sp_pid self) (amd_accepted_idx meta) (sp_leader self);
             send_acceptdecide meta (self\<lparr>sp_leader := l\<rparr>)
           }
         | None \<Rightarrow> Some self)"

end
