(* ===== verification/Sequence_Paxos.thy ===== *)
theory Sequence_Paxos
  imports Paxos_Leader
begin

text \<open>
  The entry points of a replica (\<^verbatim>\<open>sequence_paxos/mod.rs\<close>): construction, message dispatch,
  the release of proposals from the deadline-ordered multicast, compaction, reconfiguration
  and the timeouts.
\<close>

subsection \<open>Construction\<close>

record sequence_paxos_config =
  spc_pid :: node_id
  spc_peers :: "node_id list"
  spc_batch_size :: nat
  spc_owd_config :: owd_estimator_config
  spc_enable_fast_path :: bool
  spc_flexible_quorum :: "flexible_quorum option"

definition sequence_paxos_with :: "sequence_paxos_config \<Rightarrow> ('e, 's) memory_storage \<Rightarrow>
    (nat \<Rightarrow> clock_timestamp) \<Rightarrow> ('e, 's) sequence_paxos option" where
  "sequence_paxos_with config storage clock = do {
     let pid = spc_pid config;
     let peers = spc_peers config;
     max_peer_pid \<leftarrow> iter_max peers;
     let (state, ldr, msgs) =
       (case ms_n_prom storage of
          Some b \<Rightarrow> ((FollowerRole, PhaseRecover), b,
            map (\<lambda>p. SequencePaxos \<lparr>pm_from = pid, pm_to = p, pm_msg = PrepareReq \<lparr>pr_n = b\<rparr>\<rparr>) peers)
        | None \<Rightarrow> ((FollowerRole, PhaseNone), default_ballot, []));
     Some \<lparr>sp_dom = dom_new (spc_owd_config config) clock pid,
           sp_store = set_promise ldr (internal_storage_with storage (spc_batch_size config)),
           sp_pid = pid, sp_peers = peers, sp_state = state, buffered_proposals = [],
           buffered_stopsign = None, outgoing = msgs,
           sp_leader = leader_state_with ldr (max max_peer_pid pid)
             (quorum_with (spc_flexible_quorum config) (length peers + 1)),
           latest_accepted_meta = None, current_seq_num = default_seq_num,
           cached_promise_message = None, unsynced_log = [],
           accepted_prefix_hash = default_hash, unsynced_hash = default_hash,
           enable_fast_path = spc_enable_fast_path config,
           fast_path_decisions = 0, slow_path_decisions = 0\<rparr>
   }"

subsection \<open>Released proposals\<close>

definition release_on_leader :: "('e, 's) env \<Rightarrow> 'e dom_propose \<Rightarrow> ('e, 's) sequence_paxos \<Rightarrow>
    ('e, 's) sequence_paxos option" where
  "release_on_leader env prop self = do {
     let entry_hash = hash_with env (dp_entry_id prop) (dp_deadline prop);
     let prefix_hash = accepted_prefix_hash self;
     let self = self\<lparr>accepted_prefix_hash := extend_hash (accepted_prefix_hash self) entry_hash,
       sp_leader := push_pending_accept_meta
         \<lparr>aem_entry_id = dp_entry_id prop, aem_deadline = dp_deadline prop\<rparr> (sp_leader self)\<rparr>;
     a \<leftarrow> ls_get_accepted_idx (sp_pid self) (sp_leader self);
     accept_entry_leader (dp_entry prop)
       (self\<lparr>sp_leader := set_accepted_map (a + 1) entry_hash prefix_hash (sp_pid self) False (sp_leader self)\<rparr>)
   }"

definition release_on_follower :: "('e, 's) env \<Rightarrow> 'e dom_propose \<Rightarrow> ('e, 's) sequence_paxos \<Rightarrow>
    ('e, 's) sequence_paxos" where
  "release_on_follower env prop self =
     (if \<not> enable_fast_path self then self
      else
        let ldr = get_current_leader self;
            idx = get_accepted_idx (sp_store self) + length (unsynced_log self) + 1;
            entry_hash = hash_with env (dp_entry_id prop) (dp_deadline prop);
            prefix_hash = extend_hash (unsynced_hash self) (accepted_prefix_hash self);
            self = self\<lparr>unsynced_log := AList.update idx
              \<lparr>ule_entry = dp_entry prop, ule_entry_id = dp_entry_id prop, ule_deadline = dp_deadline prop,
               ule_entry_hash = entry_hash, ule_prefix_hash = prefix_hash\<rparr> (unsynced_log self)\<rparr>;
            self = send_to ldr (FastAccepted \<lparr>fa_n = get_promise (sp_store self), fa_idx = idx,
              fa_entry_hash = entry_hash, fa_prefix_hash = prefix_hash\<rparr>) self
        in self\<lparr>unsynced_hash := extend_hash (unsynced_hash self) entry_hash\<rparr>)"

definition handle_dom_release :: "('e, 's) env \<Rightarrow> 'e dom_propose \<Rightarrow> ('e, 's) sequence_paxos \<Rightarrow>
    ('e, 's) sequence_paxos option" where
  "handle_dom_release env prop self =
     (if has_recovered_remote_entry_id (dp_entry_id prop) (sp_leader self) then Some self
      else if sp_state self = (LeaderRole, PhaseAccept) then release_on_leader env prop self
      else if sp_state self = (FollowerRole, PhaseAccept) then Some (release_on_follower env prop self)
      else Some self)"

definition release_requests :: "('e, 's) env \<Rightarrow> ('e, 's) sequence_paxos \<Rightarrow>
    ('e, 's) sequence_paxos option" where
  "release_requests env self =
     (if snd (sp_state self) = PhaseAccept then do {
        (proposals, d) \<leftarrow> release_ready (sp_dom self);
        for_each (handle_dom_release env) proposals (self\<lparr>sp_dom := d\<rparr>)
      } else Some self)"

subsection \<open>Compaction\<close>

definition sp_trim :: "nat option \<Rightarrow> ('e, 's) sequence_paxos \<Rightarrow>
    (compaction_err option \<times> ('e, 's) sequence_paxos) option" where
  "sp_trim trim_idx self =
     (if fst (sp_state self) = LeaderRole then do {
        min_all_accepted_idx \<leftarrow> get_min_all_accepted_idx (sp_leader self);
        case (case trim_idx of
                Some idx \<Rightarrow> if idx \<le> min_all_accepted_idx then Some idx else None
              | None \<Rightarrow> Some min_all_accepted_idx) of
          None \<Rightarrow> Some (Some (NotAllDecided min_all_accepted_idx), self)
        | Some trimmed_idx \<Rightarrow> do {
            result \<leftarrow> try_trim trimmed_idx (sp_store self);
            case result of
              Inl e \<Rightarrow> Some (Some e, self)
            | Inr st \<Rightarrow> Some (None, send_to_peers (Compaction (CompactTrim trimmed_idx)) (self\<lparr>sp_store := st\<rparr>))
          }
      } else Some (Some (NotCurrentLeader (get_current_leader self)), self))"

definition sp_snapshot :: "('e, 's) env \<Rightarrow> nat option \<Rightarrow> bool \<Rightarrow> ('e, 's) sequence_paxos \<Rightarrow>
    (compaction_err option \<times> ('e, 's) sequence_paxos) option" where
  "sp_snapshot env idx local_only self = do {
     result \<leftarrow> try_snapshot env idx (sp_store self);
     case result of
       Inl e \<Rightarrow> Some (Some e, self)
     | Inr st \<Rightarrow>
         let self = self\<lparr>sp_store := st\<rparr>
         in Some (None, if local_only then self
                        else send_to_peers (Compaction (CompactSnapshot idx)) self)
   }"

definition handle_compaction :: "('e, 's) env \<Rightarrow> compaction \<Rightarrow> ('e, 's) sequence_paxos \<Rightarrow>
    ('e, 's) sequence_paxos option" where
  "handle_compaction env c self =
     (case c of
        CompactTrim idx \<Rightarrow> do {
          result \<leftarrow> try_trim idx (sp_store self);
          Some (case result of Inl _ \<Rightarrow> self | Inr st \<Rightarrow> self\<lparr>sp_store := st\<rparr>)
        }
      | CompactSnapshot idx \<Rightarrow> map_option snd (sp_snapshot env idx True self))"

subsection \<open>Reconfiguration\<close>

definition sp_reconfigure :: "cluster_config \<Rightarrow> 8 word list option \<Rightarrow> ('e, 's) sequence_paxos \<Rightarrow>
    ('e propose_err option \<times> ('e, 's) sequence_paxos) option" where
  "sp_reconfigure new_config meta self =
     (if accepted_reconfiguration self then Some (Some (PendingReconfigConfig new_config meta), self)
      else
        let ss = stop_sign_with new_config meta
        in if sp_state self = (LeaderRole, PhasePrepare)
           then Some (None, self\<lparr>buffered_stopsign := Some ss\<rparr>)
           else if sp_state self = (LeaderRole, PhaseAccept)
           then map_option (Pair None) (accept_stopsign_leader ss self)
           else Some (None, forward_stopsign ss self))"

subsection \<open>Messages and timeouts\<close>

definition sp_handle :: "('e, 's) env \<Rightarrow> ('e, 's) paxos_message \<Rightarrow> ('e, 's) sequence_paxos \<Rightarrow>
    ('e, 's) sequence_paxos option" where
  "sp_handle env m self =
     (case pm_msg m of
        PrepareReq prepreq \<Rightarrow> handle_preparereq prepreq (pm_from m) self
      | Prepare prep \<Rightarrow> handle_prepare env prep (pm_from m) self
      | Promise prom \<Rightarrow>
          if sp_state self = (LeaderRole, PhasePrepare) then handle_promise_prepare env prom (pm_from m) self
          else if sp_state self = (LeaderRole, PhaseAccept) then handle_promise_accept env prom (pm_from m) self
          else Some self
      | AcceptSync acc_sync \<Rightarrow> handle_acceptsync env acc_sync (pm_from m) self
      | AcceptDecide acc \<Rightarrow> handle_acceptdecide env acc self
      | NotAccepted not_acc \<Rightarrow> handle_notaccepted not_acc (pm_from m) self
      | Accepted acc \<Rightarrow> handle_accepted acc (pm_from m) self
      | FastAccepted fast_acc \<Rightarrow> handle_fast_accepted fast_acc (pm_from m) self
      | Decide d \<Rightarrow> handle_decide d self
      | Compaction c \<Rightarrow> handle_compaction env c self
      | AcceptStopSign acc_ss \<Rightarrow> handle_accept_stopsign acc_ss self
      | ForwardStopSign f_ss \<Rightarrow> handle_forwarded_stopsign f_ss self
      | DomPropose prop \<Rightarrow> sp_handle_dom_propose prop self
      | DomAck ack \<Rightarrow> Some (sp_handle_dom_ack ack self))"

definition resend_message_timeout :: "('e, 's) sequence_paxos \<Rightarrow> ('e, 's) sequence_paxos option" where
  "resend_message_timeout self =
     (case fst (sp_state self) of
        LeaderRole \<Rightarrow> resend_messages_leader self
      | FollowerRole \<Rightarrow> Some (resend_messages_follower self))"

definition flush_batch_timeout :: "('e, 's) sequence_paxos \<Rightarrow> ('e, 's) sequence_paxos option" where
  "flush_batch_timeout self =
     (if sp_state self = (LeaderRole, PhaseAccept) then flush_batch_leader self
      else if sp_state self = (FollowerRole, PhaseAccept) then flush_batch_follower self
      else Some self)"

subsection \<open>Successful trims\<close>

lemma sp_trim_None:
  assumes "sp_trim i s = Some (None, t)"
  obtains m k st where "get_min_all_accepted_idx (sp_leader s) = Some m" "k \<le> m" "fst (sp_state s) = LeaderRole"
    "try_trim k (sp_store s) = Some (Inr st)" "t = send_to_peers (Compaction (CompactTrim k)) (s\<lparr>sp_store := st\<rparr>)"
proof -
  have lead: "fst (sp_state s) = LeaderRole" using assms by (auto simp: sp_trim_def split: if_splits)
  then obtain m where m: "get_min_all_accepted_idx (sp_leader s) = Some m"
    using assms by (auto simp: sp_trim_def)
  obtain k where k: "(case i of Some idx \<Rightarrow> if idx \<le> m then Some idx else None | None \<Rightarrow> Some m) = Some k"
    using assms lead m by (cases "case i of Some idx \<Rightarrow> if idx \<le> m then Some idx else None | None \<Rightarrow> Some m")
      (simp_all add: sp_trim_def)
  obtain r where r: "try_trim k (sp_store s) = Some r" using assms lead m k by (auto simp: sp_trim_def)
  obtain st where "r = Inr st" using assms lead m k r by (cases r) (auto simp: sp_trim_def)
  moreover have "k \<le> m" using k by (auto split: option.splits if_splits)
  ultimately show thesis using that [OF m _ lead] assms lead m k r by (auto simp: sp_trim_def)
qed

end
