(* ===== verification/Replica_Invariants.thy ===== *)
theory Replica_Invariants
  imports Sequence_Paxos
begin

text \<open>
  Invariants that every operation of a replica preserves: the promise never decreases, the
  indexes of the log stay in order and the decided index never goes back.
\<close>

subsection \<open>Storage operations\<close>

definition store_keeps :: "('e, 's) internal_storage \<Rightarrow> ('e, 's) internal_storage \<Rightarrow> bool" where
  "store_keeps a b \<longleftrightarrow> get_promise b = get_promise a \<and>
     (log_inv a \<longrightarrow> log_inv b \<and> get_decided_idx a \<le> get_decided_idx b)"

named_theorems keeps \<open>operations keep the promise and the order of the indexes\<close>

lemma store_keeps_refl [simp]: "store_keeps a a"
  by (simp add: store_keeps_def)

lemma store_keeps_trans [trans]: "store_keeps a b \<Longrightarrow> store_keeps b c \<Longrightarrow> store_keeps a c"
  by (auto simp: store_keeps_def)

lemmas log_inv_defs = log_inv_def storage_wf_def get_defs Let_def

lemma keeps_append [keeps]:
  "store_keeps a (snd (append_entries_without_batching es a))"
  "store_keeps a (snd (append_entry_with_batching e a))"
  "store_keeps a (snd (append_entries_and_get_accepted_idx es a))"
  "store_keeps a (snd (flush_batch a))"
  "store_keeps a (snd (flush_batch_and_get_entries a))"
  by (simp_all add: store_keeps_def append_defs log_inv_defs ms_append_entries_def)

lemma keeps_append_stopsign [keeps]:
  "get_stopsign a = None \<Longrightarrow> store_keeps a (snd (append_stopsign ss a))"
  by (simp add: store_keeps_def append_stopsign_def sc_append_stopsign_def append_defs log_inv_defs
      ms_append_entries_def ms_set_stopsign_def)

lemma keeps_set_stopsign [keeps]:
  "set_stopsign (Some ss) a = Some (i, b) \<Longrightarrow> store_keeps a b"
  by (auto simp: store_keeps_def set_stopsign_def log_inv_defs ms_set_stopsign_def split: if_splits)

lemma keeps_set_decided_idx [keeps]:
  assumes "get_decided_idx a \<le> i" "log_inv a \<Longrightarrow> i \<le> get_accepted_idx a"
  shows "store_keeps a (set_decided_idx i a)"
  using assms
  by (auto simp: store_keeps_def set_decided_idx_def log_inv_defs ms_set_decided_idx_def)

lemma keeps_try_trim [keeps]:
  assumes "try_trim i a = Some (Inr b)"
  shows "store_keeps a b"
proof -
  have "get_promise b = get_promise a"
    using assms by (auto simp: try_trim_def Let_def get_promise_def split: if_splits)
  moreover have "log_inv b \<and> get_decided_idx a \<le> get_decided_idx b" if inv: "log_inv a"
  proof -
    have i: "i \<le> get_decided_idx a"
      using assms try_trim_undecided [OF log_inv_wf [OF inv], of i] by (cases "get_decided_idx a < i") auto
    show ?thesis
      using try_trim_decided [OF inv i] assms inv compact_target_bounds [OF inv i]
        compact_to_props(1,3) [OF inv, of "compact_target i a"] by (auto split: if_splits)
  qed
  ultimately show ?thesis by (simp add: store_keeps_def)
qed

lemma keeps_try_snapshot [keeps]:
  assumes "try_snapshot env i a = Some (Inr b)"
  shows "store_keeps a b"
proof -
  have "get_promise b = get_promise a"
    using assms by (auto simp: try_snapshot_def Let_def get_promise_def split: if_splits sum.splits option.splits)
  moreover have "log_inv b \<and> get_decided_idx a \<le> get_decided_idx b" if inv: "log_inv a"
    using assms inv
  proof (cases rule: try_snapshot_cases)
    case (2 k snap)
    then show ?thesis using compact_to_props(1,3) [OF inv, of k] by simp
  qed (use inv in simp)
  ultimately show ?thesis by (simp add: store_keeps_def)
qed

subsection \<open>Replica operations\<close>

abbreviation sp_keeps :: "('e, 's) sequence_paxos \<Rightarrow> ('e, 's) sequence_paxos \<Rightarrow> bool" where
  "sp_keeps s t \<equiv> store_keeps (sp_store s) (sp_store t)"

lemma for_each_keeps:
  assumes "for_each f xs s = Some t" "\<And>x u v. x \<in> set xs \<Longrightarrow> f x u = Some v \<Longrightarrow> sp_keeps u v"
  shows "sp_keeps s t"
  using for_each_invariant [of f xs s t "\<lambda>u. sp_keeps s u"] assms store_keeps_trans
  by (metis store_keeps_refl)

lemma for_each_store:
  assumes "for_each f xs s = Some t" "\<And>x u v. x \<in> set xs \<Longrightarrow> f x u = Some v \<Longrightarrow> sp_store v = sp_store u"
  shows "sp_store t = sp_store s"
  by (rule for_each_frame [of f xs s t sp_store]) (use assms in auto)

lemma set_outgoing_msg_store [simp]: "sp_store (set_outgoing_msg i m s) = sp_store s"
  by (simp add: set_outgoing_msg_def)

lemma reply_accepted_store: "reply_accepted n i s = Some t \<Longrightarrow> sp_store t = sp_store s"
  by (auto simp: reply_accepted_def split: option.splits)

lemma check_valid_ballot_store [simp]: "sp_store (snd (check_valid_ballot b s)) = sp_store s"
  by (simp add: check_valid_ballot_def Let_def split: ordering.splits)

lemma handle_sequence_num_store [simp]: "sp_store (snd (handle_sequence_num q p s)) = sp_store s"
  by (simp add: handle_sequence_num_def Let_def split: message_status.splits)

lemma cleanup_store [simp]: "sp_store (snd (cleanup_fast_path_metadata env m s)) = sp_store s"
  by (simp add: cleanup_fast_path_metadata_def Let_def)

lemma rebuild_store [simp]: "sp_store (rebuild_unsynced_tail i es s) = sp_store s"
  by (simp add: rebuild_unsynced_tail_def split_beta)

lemma flush_accepted: "fst (flush_batch a) = get_accepted_idx (snd (flush_batch a))"
  by (simp add: append_defs Let_def get_accepted_idx_def)

lemma flush_accepted_mono: "get_accepted_idx a \<le> get_accepted_idx (snd (flush_batch a))"
  "get_decided_idx (snd (flush_batch a)) = get_decided_idx a"
  by (simp_all add: append_defs Let_def get_accepted_idx_def get_decided_idx_def)

lemma update_decided_keeps [keeps]:
  "sp_keeps s (snd (update_decided_idx_and_get_accepted_idx d s))"
proof (cases "get_decided_idx (sp_store s) < d \<and> get_accepted_idx (sp_store s) < d")
  case True
  let ?a = "snd (flush_batch (sp_store s))"
  have upd: "sp_store (snd (update_decided_idx_and_get_accepted_idx d s))
      = set_decided_idx (min d (get_accepted_idx ?a)) ?a"
    using True by (simp add: update_decided_idx_and_get_accepted_idx_def Let_def split_beta flush_accepted)
  show ?thesis
  proof (cases "log_inv (sp_store s)")
    case inv: True
    then have "get_decided_idx (sp_store s) \<le> get_accepted_idx (sp_store s)" by (simp add: log_inv_def)
    then have "get_decided_idx ?a \<le> min d (get_accepted_idx ?a)"
      using True flush_accepted_mono [of "sp_store s"] by simp
    then have "store_keeps ?a (set_decided_idx (min d (get_accepted_idx ?a)) ?a)"
      by (rule keeps_set_decided_idx) simp
    then show ?thesis unfolding upd by (rule store_keeps_trans [OF keeps_append(4)])
  next
    case False
    then show ?thesis unfolding upd
      using keeps_append(4) [of "sp_store s"]
      by (simp add: store_keeps_def set_decided_idx_def get_promise_def)
  qed
next
  case False
  then show ?thesis
    by (auto simp: update_decided_idx_and_get_accepted_idx_def Let_def
        intro!: keeps_set_decided_idx)
qed

lemma handle_acceptdecide_keeps [keeps]:
  assumes "handle_acceptdecide env ad s = Some t"
  shows "sp_keeps s t"
proof -
  obtain v s1 where v: "check_valid_ballot (ad_n ad) s = (v, s1)" by fastforce
  then have s1: "sp_store s1 = sp_store s" using check_valid_ballot_store [of "ad_n ad" s] by simp
  obtain q s2 where q: "handle_sequence_num (ad_seq_num ad) (ballot_pid (ad_n ad)) s1 = (q, s2)" by fastforce
  then have s2: "sp_store s2 = sp_store s"
    using handle_sequence_num_store [of "ad_seq_num ad" "ballot_pid (ad_n ad)" s1] s1 by simp
  show ?thesis
  proof (cases "v \<and> sp_state s1 = (FollowerRole, PhaseAccept) \<and> q = Expected")
    case False
    then have "t = s1 \<or> t = s2"
      using assms v q by (auto simp: handle_acceptdecide_def Let_def split: if_splits)
    then show ?thesis using s1 s2 by auto
  next
    case True
    obtain tail s3 where c: "cleanup_fast_path_metadata env (ad_entry_meta ad) s2 = (tail, s3)" by fastforce
    then have s3: "sp_store s3 = sp_store s" using cleanup_store [of env "ad_entry_meta ad" s2] s2 by simp
    obtain i st where a: "append_entries_and_get_accepted_idx (ad_entries ad) (sp_store s3) = (i, st)"
      by fastforce
    then have st: "store_keeps (sp_store s) st"
      using keeps_append(3) [of "sp_store s3" "ad_entries ad"] s3 by simp
    let ?s4 = "s3\<lparr>sp_store := st, accepted_prefix_hash := ad_log_prefix_hash ad\<rparr>"
    obtain j s5 where u: "update_decided_idx_and_get_accepted_idx (ad_decided_idx ad) ?s4 = (j, s5)"
      by fastforce
    then have s5: "store_keeps st (sp_store s5)"
      using update_decided_keeps [of ?s4 "ad_decided_idx ad"] by simp
    let ?k = "if j \<noteq> None then j else i"
      and ?s6 = "rebuild_unsynced_tail (get_accepted_idx (sp_store s5)) tail s5"
    have vq: "check_valid_ballot (ad_n ad) s = (True, s1)" "sp_state s1 = (FollowerRole, PhaseAccept)"
      "handle_sequence_num (ad_seq_num ad) (ballot_pid (ad_n ad)) s1 = (Expected, s2)"
      using v q True by simp_all
    have "(case ?k of Some idx \<Rightarrow> reply_accepted (ad_n ad) idx ?s6 | None \<Rightarrow> Some ?s6) = Some t"
      using assms unfolding handle_acceptdecide_def vq(1) Let_def prod.case vq(3)
      by (simp add: vq(2) c a u split: if_split_asm)
    then have "sp_store t = sp_store s5"
      using reply_accepted_store [of "ad_n ad" _ ?s6 t] by (cases ?k) auto
    then show ?thesis using store_keeps_trans [OF st s5] by simp
  qed
qed

lemma handle_accept_stopsign_keeps [keeps]:
  assumes "handle_accept_stopsign m s = Some t"
  shows "sp_keeps s t"
proof -
  obtain v s1 where v: "check_valid_ballot (ass_n m) s = (v, s1)" by fastforce
  then have s1: "sp_store s1 = sp_store s" using check_valid_ballot_store [of "ass_n m" s] by simp
  obtain q s2 where q: "handle_sequence_num (ass_seq_num m) (ballot_pid (ass_n m)) s1 = (q, s2)" by fastforce
  then have s2: "sp_store s2 = sp_store s"
    using handle_sequence_num_store [of "ass_seq_num m" "ballot_pid (ass_n m)" s1] s1 by simp
  show ?thesis
  proof (cases "v \<and> sp_state s1 = (FollowerRole, PhaseAccept) \<and> q = Expected")
    case False
    then have "t = s1 \<or> t = s2"
      using assms v q by (auto simp: handle_accept_stopsign_def Let_def split: if_splits)
    then show ?thesis using s1 s2 by auto
  next
    case True
    then obtain i st where "set_stopsign (Some (ass_ss m)) (snd (flush_batch (sp_store s2))) = Some (i, st)"
      and "sp_store t = st"
      using assms v q by (auto simp: handle_accept_stopsign_def Let_def dest!: reply_accepted_store)
    then show ?thesis
      using store_keeps_trans [OF keeps_append(4) [of "sp_store s"] keeps_set_stopsign] s2 by simp
  qed
qed

lemma handle_decide_keeps [keeps]:
  assumes "handle_decide m s = Some t"
  shows "sp_keeps s t"
proof -
  obtain v s1 where v: "check_valid_ballot (dec_n m) s = (v, s1)" by fastforce
  then have s1: "sp_store s1 = sp_store s" using check_valid_ballot_store [of "dec_n m" s] by simp
  obtain q s2 where q: "handle_sequence_num (dec_seq_num m) (ballot_pid (dec_n m)) s1 = (q, s2)" by fastforce
  then have s2: "sp_store s2 = sp_store s"
    using handle_sequence_num_store [of "dec_seq_num m" "ballot_pid (dec_n m)" s1] s1 by simp
  obtain j s3 where u: "update_decided_idx_and_get_accepted_idx (dec_decided_idx m) s2 = (j, s3)" by fastforce
  then have s3: "sp_keeps s s3" using update_decided_keeps [of s2 "dec_decided_idx m"] s2 by simp
  have "t = s1 \<or> t = s2 \<or> sp_store t = sp_store s3"
    using assms v q u by (auto simp: handle_decide_def Let_def dest!: reply_accepted_store
        split: if_splits option.splits)
  then show ?thesis using s1 s2 s3 by auto
qed

subsection \<open>Leader operations\<close>

text \<open>The sending operations of the leader change the outgoing messages and its bookkeeping only.\<close>

definition sends_only :: "('e, 's) sequence_paxos \<Rightarrow> ('e, 's) sequence_paxos \<Rightarrow> bool" where
  "sends_only s t \<longleftrightarrow> t = s\<lparr>outgoing := outgoing t, sp_leader := sp_leader t\<rparr>"

lemma sends_only_sel:
  assumes "sends_only s t"
  shows "sp_store t = sp_store s" "sp_state t = sp_state s" "sp_pid t = sp_pid s"
    "sp_peers t = sp_peers s" "unsynced_log t = unsynced_log s" "sp_dom t = sp_dom s"
    "accepted_prefix_hash t = accepted_prefix_hash s" "unsynced_hash t = unsynced_hash s"
    "enable_fast_path t = enable_fast_path s"
  by (subst assms [unfolded sends_only_def], simp)+

lemma sends_only_refl [simp]: "sends_only s s"
  by (simp add: sends_only_def)

lemma sends_only_trans: "sends_only s t \<Longrightarrow> sends_only t u \<Longrightarrow> sends_only s u"
  unfolding sends_only_def by (cases s, cases t, cases u) simp

lemma for_each_sends_only:
  assumes "for_each f xs s = Some t" "\<And>x u v. x \<in> set xs \<Longrightarrow> f x u = Some v \<Longrightarrow> sends_only u v"
  shows "sends_only s t"
  using for_each_invariant [of f xs s t "sends_only s"] assms sends_only_trans
  by (metis sends_only_refl)

named_theorems sends \<open>operations that only send\<close>

lemma send_to_sends [sends]: "sends_only s (send_to p m s)"
  by (simp add: sends_only_def send_to_def)

lemma set_leader_sends [sends]: "sends_only s (s\<lparr>sp_leader := l\<rparr>)"
  by (simp add: sends_only_def)

lemma set_outgoing_sends [sends]: "sends_only s (set_outgoing_msg i m s)"
  by (simp add: sends_only_def set_outgoing_msg_def)

lemma message_seq_num_sends [sends]: "message_seq_num p r s = Some (q, t) \<Longrightarrow> sends_only s t"
  by (auto simp: message_seq_num_def set_leader_sends split: if_splits)

lemma send_accept_stopsign_sends [sends]: "send_accept_stopsign p ss r s = Some t \<Longrightarrow> sends_only s t"
  by (auto simp: send_accept_stopsign_def intro: sends_only_trans message_seq_num_sends send_to_sends)

lemma send_decide_sends [sends]: "send_decide p d r s = Some t \<Longrightarrow> sends_only s t"
  by (auto simp: send_decide_def intro: sends_only_trans message_seq_num_sends send_to_sends)

lemma send_to_leader_sends [sends]: "sends_only s (send_to p m (s\<lparr>sp_leader := l\<rparr>))"
  by (simp add: sends_only_def send_to_def)

lemma acceptdecide_to_sends [sends]: "acceptdecide_to es ms d h p s = Some t \<Longrightarrow> sends_only s t"
  by (auto simp: acceptdecide_to_def intro: send_to_leader_sends set_outgoing_sends split: option.splits)

lemma send_acceptdecide_sends [sends]:
  assumes "send_acceptdecide m s = Some t"
  shows "sends_only s t"
proof -
  obtain es d h l ps where "for_each (acceptdecide_to (amd_entries m) es d h) ps (s\<lparr>sp_leader := l\<rparr>) = Some t"
    using assms by (auto simp: send_acceptdecide_def Let_def)
  then have "sends_only (s\<lparr>sp_leader := l\<rparr>) t"
    by (rule for_each_sends_only) (rule acceptdecide_to_sends)
  then show ?thesis by (rule sends_only_trans [OF set_leader_sends])
qed

lemma send_accsync_sends [sends]: "send_accsync env p s = Some t \<Longrightarrow> sends_only s t"
  by (auto simp: send_accsync_def Let_def intro: send_to_leader_sends)

lemma decide_accepted_to_sends [sends]: "decide_accepted_to d p s = Some t \<Longrightarrow> sends_only s t"
  by (auto simp: decide_accepted_to_def intro: set_outgoing_sends send_decide_sends split: option.splits)

lemma resend_stopsign_to_sends [sends]: "resend_stopsign_to ss d p s = Some t \<Longrightarrow> sends_only s t"
  by (auto simp: resend_stopsign_to_def intro: send_decide_sends send_accept_stopsign_sends
      split: if_splits)

lemma fold_send_prepare_sends [sends]: "sends_only s (fold send_prepare ps s)"
  by (induction ps arbitrary: s) (auto simp: send_prepare_def intro: sends_only_trans send_to_sends)

lemma resend_messages_leader_sends [sends]:
  assumes "resend_messages_leader s = Some t"
  shows "sends_only s t"
proof -
  have loop: "sends_only s u" if "for_each (resend_stopsign_to ss d) ps s = Some u" for ss d ps u
    using that by (rule for_each_sends_only) (rule resend_stopsign_to_sends)
  have "t = s \<or> (\<exists>u ps. sends_only s u \<and> t = fold send_prepare ps u)"
  proof (cases "snd (sp_state s)")
    case PhaseAccept
    then obtain u ps where t: "t = fold send_prepare ps u"
      and u: "(case get_stopsign (sp_store s) of
          Some ss \<Rightarrow> do {
            followers \<leftarrow> get_promised_followers (sp_leader s);
            for_each (resend_stopsign_to ss (get_decided_idx (sp_store s))) followers s
          }
        | None \<Rightarrow> Some s) = Some u"
      using assms by (auto simp: resend_messages_leader_def)
    have "sends_only s u" using u loop by (cases "get_stopsign (sp_store s)") auto
    with t show ?thesis by blast
  next
    case PhasePrepare
    then obtain ps where "t = fold send_prepare ps s" using assms by (auto simp: resend_messages_leader_def)
    then show ?thesis using sends_only_refl by blast
  qed (use assms in \<open>simp_all add: resend_messages_leader_def\<close>)
  then show ?thesis
  proof
    assume "\<exists>u ps. sends_only s u \<and> t = fold send_prepare ps u"
    then obtain u ps where "sends_only s u" "t = fold send_prepare ps u" by blast
    then show ?thesis using sends_only_trans [OF _ fold_send_prepare_sends] by blast
  qed simp
qed

text \<open>The fast quorum decides an index that the leader has accepted.\<close>

lemma try_fast_decide_idx_Some:
  assumes "try_fast_decide_idx i s = Some (r, t)"
  shows "r = fast_decidable i s" and "\<not> r \<Longrightarrow> t = s"
    and "r \<Longrightarrow> sp_store t = set_decided_idx i (sp_store s)"
    and "sp_state t = sp_state s" "sp_pid t = sp_pid s" "sp_peers t = sp_peers s"
    "unsynced_log t = unsynced_log s" "accepted_prefix_hash t = accepted_prefix_hash s"
    "enable_fast_path t = enable_fast_path s" "unsynced_hash t = unsynced_hash s"
proof -
  let ?u = "s\<lparr>fast_path_decisions := fast_path_decisions s + (i - get_decided_idx (sp_store s)),
          sp_store := set_decided_idx i (sp_store s),
          sp_leader := prune_accepted_map i (sp_leader s)\<rparr>"
  have c: "r = fast_decidable i s \<and> (\<not> r \<longrightarrow> t = s) \<and> (r \<longrightarrow> sends_only ?u t)"
  proof (cases "fast_decidable i s")
    case True
    then obtain ps where f: "for_each (\<lambda>pid. send_decide pid i False) ps ?u = Some t" and r: "r"
      using assms by (auto simp: try_fast_decide_idx_def Let_def)
    have "sends_only ?u t" by (rule for_each_sends_only [OF f]) (rule send_decide_sends)
    with True r show ?thesis by simp
  qed (use assms in \<open>simp add: try_fast_decide_idx_def\<close>)
  then show "r = fast_decidable i s" "\<not> r \<Longrightarrow> t = s" by auto
  have u: "sends_only ?u t" if r using c that by simp
  show "sp_store t = set_decided_idx i (sp_store s)" if r using sends_only_sel(1) [OF u [OF that]] by simp
  show "sp_state t = sp_state s"
    using sends_only_sel(2) [OF u] c by (cases r) simp_all
  show "sp_pid t = sp_pid s"
    using sends_only_sel(3) [OF u] c by (cases r) simp_all
  show "sp_peers t = sp_peers s"
    using sends_only_sel(4) [OF u] c by (cases r) simp_all
  show "unsynced_log t = unsynced_log s"
    using sends_only_sel(5) [OF u] c by (cases r) simp_all
  show "accepted_prefix_hash t = accepted_prefix_hash s"
    using sends_only_sel(7) [OF u] c by (cases r) simp_all
  show "enable_fast_path t = enable_fast_path s"
    using sends_only_sel(9) [OF u] c by (cases r) simp_all
  show "unsynced_hash t = unsynced_hash s"
    using sends_only_sel(8) [OF u] c by (cases r) simp_all
qed

lemma try_fast_decide_keeps [keeps]:
  assumes "try_fast_decide_idx i s = Some (r, t)"
  shows "sp_keeps s t"
proof (cases r)
  case True
  then have "fast_decidable i s" using try_fast_decide_idx_Some(1) [OF assms] by simp
  then have "get_decided_idx (sp_store s) \<le> i" "i \<le> get_accepted_idx (sp_store s)"
    by (auto simp: fast_decidable_def)
  then show ?thesis
    using keeps_set_decided_idx try_fast_decide_idx_Some(3) [OF assms True] by simp
qed (use try_fast_decide_idx_Some(2) [OF assms] in simp)

lemma accept_entry_leader_keeps [keeps]:
  assumes "accept_entry_leader e s = Some t"
  shows "sp_keeps s t"
proof -
  obtain m st where a: "append_entry_with_batching e (sp_store s) = (m, st)" by fastforce
  then have st: "store_keeps (sp_store s) st" using keeps_append(2) [of "sp_store s" e] by simp
  show ?thesis
  proof (cases m)
    case None
    then show ?thesis using assms a st by (auto simp: accept_entry_leader_def)
  next
    case (Some am)
    then obtain l u k where u: "send_acceptdecide am (s\<lparr>sp_store := st, sp_leader := l\<rparr>) = Some u"
      and t: "for_each (\<lambda>idx self. map_option snd (try_fast_decide_idx idx self))
               [k..<amd_accepted_idx am + 1] u = Some t"
      using assms a by (auto simp: accept_entry_leader_def Let_def simp del: upt_Suc)
    have "sp_store u = st" using sends_only_sel(1) [OF send_acceptdecide_sends [OF u]] by simp
    moreover have "sp_keeps u t"
      by (rule for_each_keeps [OF t]) (auto intro: try_fast_decide_keeps)
    ultimately show ?thesis using store_keeps_trans [OF st] by simp
  qed
qed

lemma handle_fast_accepted_keeps [keeps]:
  assumes "handle_fast_accepted m p s = Some t"
  shows "sp_keeps s t"
  using assms try_fast_decide_keeps
  by (fastforce simp: handle_fast_accepted_def split: if_splits)

lemma accept_stopsign_leader_keeps [keeps]:
  assumes "accept_stopsign_leader ss s = Some t" "\<not> accepted_reconfiguration s"
  shows "sp_keeps s t"
proof -
  obtain m st where a: "append_stopsign ss (sp_store s) = (m, st)" by fastforce
  then have st: "store_keeps (sp_store s) st"
    using keeps_append_stopsign [of "sp_store s" ss] assms(2) by (simp add: accepted_reconfiguration_def)
  obtain u l ps where u: "(case m of Some x \<Rightarrow> send_acceptdecide x (s\<lparr>sp_store := st\<rparr>)
      | None \<Rightarrow> Some (s\<lparr>sp_store := st\<rparr>)) = Some u"
    and t: "for_each (\<lambda>pid. send_accept_stopsign pid ss False) ps (u\<lparr>sp_leader := l\<rparr>) = Some t"
    using assms(1) a by (auto simp: accept_stopsign_leader_def Let_def)
  have "sp_store u = st"
    using u sends_only_sel(1) [OF send_acceptdecide_sends] by (cases m) fastforce+
  moreover have "sends_only (u\<lparr>sp_leader := l\<rparr>) t"
    by (rule for_each_sends_only [OF t]) (rule send_accept_stopsign_sends)
  ultimately show ?thesis using st sends_only_sel(1) by fastforce
qed

lemma handle_forwarded_stopsign_keeps [keeps]:
  "handle_forwarded_stopsign ss s = Some t \<Longrightarrow> sp_keeps s t"
  by (auto simp: handle_forwarded_stopsign_def intro: accept_stopsign_leader_keeps split: if_splits)

subsection \<open>Taking over and recovering\<close>

lemma handle_accepted_keeps [keeps]:
  assumes "handle_accepted m p s = Some t" "acc_accepted_idx m \<le> get_accepted_idx (sp_store s)"
  shows "sp_keeps s t"
proof -
  consider "sp_store t = sp_store s"
    | l ps where "for_each (decide_accepted_to (acc_accepted_idx m)) ps
          (s\<lparr>slow_path_decisions := slow_path_decisions s + (acc_accepted_idx m - get_decided_idx (sp_store s)),
            sp_store := set_decided_idx (acc_accepted_idx m) (sp_store s), sp_leader := l\<rparr>) = Some t"
        "get_decided_idx (sp_store s) < acc_accepted_idx m"
    using assms(1) by (fastforce simp: handle_accepted_def Let_def split: if_splits)
  then show ?thesis
  proof cases
    case 2
    have "sp_store t = set_decided_idx (acc_accepted_idx m) (sp_store s)"
      using sends_only_sel(1) [OF for_each_sends_only [OF 2(1) decide_accepted_to_sends]] by simp
    then show ?thesis using keeps_set_decided_idx [of "sp_store s" "acc_accepted_idx m"] assms(2) 2(2) by simp
  qed simp
qed

lemma handle_accepted_promise:
  assumes "handle_accepted m p s = Some t"
  shows "get_promise (sp_store t) = get_promise (sp_store s)"
proof -
  consider "sp_store t = sp_store s"
    | l ps where "for_each (decide_accepted_to (acc_accepted_idx m)) ps
          (s\<lparr>slow_path_decisions := slow_path_decisions s + (acc_accepted_idx m - get_decided_idx (sp_store s)),
            sp_store := set_decided_idx (acc_accepted_idx m) (sp_store s), sp_leader := l\<rparr>) = Some t"
    using assms by (fastforce simp: handle_accepted_def Let_def split: if_splits)
  then show ?thesis
  proof cases
    case 2
    have "sp_store t = set_decided_idx (acc_accepted_idx m) (sp_store s)"
      using sends_only_sel(1) [OF for_each_sends_only [OF 2(1) decide_accepted_to_sends]] by simp
    then show ?thesis by (simp add: set_decided_idx_def get_promise_def)
  qed simp
qed

lemma handle_preparereq_sends [sends]: "handle_preparereq m p s = Some t \<Longrightarrow> sends_only s t"
  by (auto simp: handle_preparereq_def send_prepare_def send_to_leader_sends split: if_splits)

lemma handle_notaccepted_sends [sends]: "handle_notaccepted m p s = Some t \<Longrightarrow> sends_only s t"
  by (auto simp: handle_notaccepted_def set_leader_sends split: if_splits)

lemma flush_batch_leader_keeps [keeps]:
  assumes "flush_batch_leader s = Some t"
  shows "sp_keeps s t"
proof -
  obtain m st where f: "flush_batch_and_get_entries (sp_store s) = (m, st)" by fastforce
  then have st: "store_keeps (sp_store s) st" using keeps_append(5) [of "sp_store s"] by simp
  have "sp_store t = st"
  proof (cases m)
    case (Some x)
    then obtain l where "send_acceptdecide x (s\<lparr>sp_store := st, sp_leader := l\<rparr>) = Some t"
      using assms f by (auto simp: flush_batch_leader_def)
    from sends_only_sel(1) [OF send_acceptdecide_sends [OF this]] show ?thesis by simp
  qed (use assms f in \<open>auto simp: flush_batch_leader_def\<close>)
  with st show ?thesis by simp
qed

lemma flush_batch_follower_keeps [keeps]:
  assumes "flush_batch_follower s = Some t"
  shows "sp_keeps s t"
proof -
  have "sp_store t = snd (flush_batch (sp_store s))"
    using assms by (auto simp: flush_batch_follower_def Let_def split_beta
        dest: reply_accepted_store split: if_splits)
  then show ?thesis using keeps_append(4) [of "sp_store s"] by simp
qed

text \<open>A recovery round appends one entry and touches the log and the leader state only.\<close>

lemma recovery_step_Some:
  assumes "recovery_step r = Some (Some r')"
  obtains h i e cnt l ms where
    "get_matched_unsynced_entries (rec_accepted_idx r + 1) (rec_prev_hash r) (sp_leader (rec_state r)) = Some ms"
    "filter (\<lambda>(h, i, e, c). recover_threshold (length (sp_peers (rec_state r)) + 1) \<le> c) ms = [(h, i, e, cnt)]"
    "i \<notin> set (rec_ids r)"
    "l = (if \<exists>u \<in> set (map snd (unsynced_log (rec_state r))). ule_entry_id u = i then sp_leader (rec_state r)
          else insert_recovered_remote_entry_id i (sp_leader (rec_state r)))"
    "r' = \<lparr>rec_state = (rec_state r)\<lparr>sp_leader := l,
              sp_store := snd (append_entries_without_batching [e] (sp_store (rec_state r)))\<rparr>,
           rec_prev_hash = extend_hash (rec_prev_hash r) h, rec_ids = i # rec_ids r,
           rec_accepted_idx = fst (append_entries_without_batching [e] (sp_store (rec_state r)))\<rparr>"
proof -
  let ?f = "\<lambda>(h, i, e, c). recover_threshold (length (sp_peers (rec_state r)) + 1) \<le> c"
  obtain ms where ms: "get_matched_unsynced_entries (rec_accepted_idx r + 1) (rec_prev_hash r)
      (sp_leader (rec_state r)) = Some ms"
    using assms by (auto simp: recovery_step_def Let_def)
  show thesis
  proof (cases "filter ?f ms")
    case Nil
    with assms ms show thesis by (simp add: recovery_step_def Let_def)
  next
    case (Cons w ws)
    obtain h i e cnt where w: "w = (h, i, e, cnt)" by (cases w)
    show thesis
    proof (cases ws)
      case Nil
      show thesis
        by (rule that [OF ms, of h i e cnt])
          (use assms ms Cons w Nil in \<open>simp_all add: recovery_step_def Let_def split_beta split: if_split_asm\<close>, auto)
    next
      case (Cons v vs)
      with assms ms w \<open>filter ?f ms = w # ws\<close> show thesis by (simp add: recovery_step_def Let_def)
    qed
  qed
qed

definition recovers_from :: "('e, 's) recovery \<Rightarrow> ('e, 's) recovery \<Rightarrow> bool" where
  "recovers_from r r' \<longleftrightarrow>
     rec_state r' = (rec_state r)\<lparr>sp_leader := sp_leader (rec_state r'), sp_store := sp_store (rec_state r')\<rparr> \<and>
     sp_keeps (rec_state r) (rec_state r')"

lemma recovery_step_from:
  assumes "recovery_step r = Some (Some r')"
  shows "recovers_from r r'"
  using assms
proof (rule recovery_step_Some)
  fix h i e cnt l ms
  assume r': "r' = \<lparr>rec_state = (rec_state r)\<lparr>sp_leader := l,
              sp_store := snd (append_entries_without_batching [e] (sp_store (rec_state r)))\<rparr>,
           rec_prev_hash = extend_hash (rec_prev_hash r) h, rec_ids = i # rec_ids r,
           rec_accepted_idx = fst (append_entries_without_batching [e] (sp_store (rec_state r)))\<rparr>"
  show ?thesis unfolding r' recovers_from_def using keeps_append(1) by simp
qed

lemma recovers_from_trans: "recovers_from a b \<Longrightarrow> recovers_from b c \<Longrightarrow> recovers_from a c"
  unfolding recovers_from_def
  by (cases "rec_state a", cases "rec_state b", cases "rec_state c") (auto intro: store_keeps_trans)

lemma recovery_loop_from:
  assumes "recovery_loop r = Some r'"
  shows "recovers_from r r'"
proof (rule recovery_loop.raw_induct [OF _ assms])
  fix f :: "('a, 'b) recovery \<Rightarrow> ('a, 'b) recovery option" and r r'
  assume IH: "\<And>q r'. f q = Some r' \<Longrightarrow> recovers_from q r'"
    and "do { step \<leftarrow> recovery_step r; case step of None \<Rightarrow> Some r | Some q \<Rightarrow> f q } = Some r'"
  then obtain step where step: "recovery_step r = Some step"
    and c: "(case step of None \<Rightarrow> Some r | Some q \<Rightarrow> f q) = Some r'"
    by auto
  show "recovers_from r r'"
  proof (cases step)
    case None
    then show ?thesis using c by (simp add: recovers_from_def)
  next
    case (Some q)
    then have "recovers_from q r'" using IH c by simp
    with step Some show ?thesis using recovery_step_from recovers_from_trans by blast
  qed
qed

lemma repropose_frame:
  assumes "repropose env s = Some t"
  shows "t = s\<lparr>sp_dom := sp_dom t, outgoing := outgoing t\<rparr>"
proof -
  obtain ps d where "for_each send_dom_propose ps (s\<lparr>sp_dom := d\<rparr>) = Some t"
    using assms by (auto simp: repropose_def)
  then have "t = s\<lparr>sp_dom := sp_dom t, outgoing := outgoing t\<rparr>"
  proof (rule for_each_invariant [where P = "\<lambda>u. u = s\<lparr>sp_dom := sp_dom u, outgoing := outgoing u\<rparr>"])
    fix x u v assume u: "u = s\<lparr>sp_dom := sp_dom u, outgoing := outgoing u\<rparr>" and v: "send_dom_propose x u = Some v"
    from send_dom_propose_frame [OF v] show "v = s\<lparr>sp_dom := sp_dom v, outgoing := outgoing v\<rparr>"
      by (subst (asm) u) simp
  qed simp
  then show ?thesis .
qed

lemma append_buffered_keeps [keeps]: "sp_keeps s (snd (append_buffered i s))"
proof (cases "accepted_reconfiguration s")
  case True
  then show ?thesis by (simp add: append_buffered_def)
next
  case False
  then have n: "get_stopsign (sp_store s) = None" by (simp add: accepted_reconfiguration_def)
  let ?a = "snd (append_entries_without_batching (buffered_proposals s) (sp_store s))"
  let ?st = "if buffered_proposals s \<noteq> [] then ?a else sp_store s"
  have st: "store_keeps (sp_store s) ?st" by (simp add: keeps_append(1))
  have ns: "get_stopsign ?st = None"
    using n by (simp add: append_defs Let_def get_stopsign_def)
  have "sp_store (snd (append_buffered i s)) =
      (case buffered_stopsign s of Some ss \<Rightarrow> snd (append_stopsign ss ?st) | None \<Rightarrow> ?st)"
    using False by (auto simp: append_buffered_def Let_def split_beta split: option.splits)
  then show ?thesis
    using store_keeps_trans [OF st keeps_append_stopsign [OF ns]] st by (cases "buffered_stopsign s") simp_all
qed

lemma append_buffered_sel:
  "sp_state (snd (append_buffered i s)) = sp_state s" "sp_pid (snd (append_buffered i s)) = sp_pid s"
  "sp_leader (snd (append_buffered i s)) = sp_leader s"
  by (simp_all add: append_buffered_def Let_def split_beta split: option.splits)

text \<open>
  After a majority of promises the log is the synchronised one, extended; the state is that
  of a leader accepting entries.
\<close>

lemma handle_majority_promises_Some:
  assumes "handle_majority_promises env s = Some t"
  obtains i st where
    "sync_log env (n_leader (sp_leader s)) (get_max_decided_idx (sp_leader s))
       (max_promise_sync (sp_leader s)) (sp_store s) = Some (Inr (i, st))"
    "store_keeps st (sp_store t)" "sp_state t = (LeaderRole, PhaseAccept)"
proof -
  let ?l = "(sp_leader s)\<lparr>max_promise_sync := None\<rparr>"
  have gm: "get_max_decided_idx ?l = get_max_decided_idx (sp_leader s)"
    by (simp add: get_max_decided_idx_def)
  obtain x r u l ps where
    sync: "sync_log env (n_leader (sp_leader s)) (get_max_decided_idx (sp_leader s))
       (max_promise_sync (sp_leader s)) (sp_store s) = Some (Inr x)"
    and r: "recovery_loop \<lparr>rec_state = s\<lparr>sp_leader := ?l, sp_store := snd x\<rparr>,
        rec_prev_hash = max_promise_accepted_hash (sp_leader s), rec_ids = [], rec_accepted_idx = fst x\<rparr> = Some r"
    and u: "repropose env ((rec_state r)\<lparr>accepted_prefix_hash := rec_prev_hash r,
       unsynced_log := filter (\<lambda>(idx, u). rec_accepted_idx r < idx \<and> ule_entry_id u \<notin> set (rec_ids r))
         (unsynced_log (rec_state r)),
       sp_dom := fold (\<lambda>i d. snd (remove_from_buffers i d)) (rec_ids r) (sp_dom (rec_state r))\<rparr>) = Some u"
    and t: "for_each (send_accsync env) ps
      ((snd (append_buffered (rec_accepted_idx r) u))\<lparr>sp_state := (LeaderRole, PhaseAccept), sp_leader := l\<rparr>) = Some t"
    using assms by (auto simp: handle_majority_promises_def take_max_promise_sync_def Let_def split_beta gm)
  let ?v = "snd (append_buffered (rec_accepted_idx r) u)"
  have "sends_only (?v\<lparr>sp_state := (LeaderRole, PhaseAccept), sp_leader := l\<rparr>) t"
    by (rule for_each_sends_only [OF t]) (rule send_accsync_sends)
  note tv = sends_only_sel(1,2) [OF this]
  have "store_keeps (snd x) (sp_store (rec_state r))"
    using recovery_loop_from [OF r] by (simp add: recovers_from_def)
  moreover have "sp_store u = sp_store (rec_state r)" by (subst repropose_frame [OF u]) simp
  moreover have "store_keeps (sp_store u) (sp_store ?v)"
    by (rule append_buffered_keeps)
  ultimately have "store_keeps (snd x) (sp_store t)" using tv store_keeps_trans by simp
  then show thesis using that [of "fst x" "snd x"] sync tv by simp
qed

subsection \<open>The promise\<close>

lemma flush_promise [simp]: "get_promise (snd (flush_batch a)) = get_promise a"
  using keeps_append(4) [of a] by (simp add: store_keeps_def)

lemma set_promise_promise [simp]: "get_promise (set_promise n a) = n"
  by (simp add: get_promise_def set_promise_def)

lemma handle_prepare_Some:
  assumes "handle_prepare env prep p s = Some t"
  shows "t = s \<or>
    ((get_promise (sp_store s) < prep_n prep \<or>
      get_promise (sp_store s) = prep_n prep \<and> snd (sp_state s) = PhaseRecover) \<and>
     sp_store t = set_promise (prep_n prep) (snd (flush_batch (sp_store s))) \<and>
     sp_state t = (FollowerRole, PhasePrepare) \<and> current_seq_num t = default_seq_num \<and>
     unsynced_log t = unsynced_log s \<and> sp_leader t = sp_leader s \<and>
     accepted_prefix_hash t = accepted_prefix_hash s \<and> unsynced_hash t = unsynced_hash s)"
  using assms
  by (auto simp: handle_prepare_def Let_def sp_get_promise_def split: if_splits)

lemma handle_prepare_promise:
  assumes "handle_prepare env prep p s = Some t"
  shows "get_promise (sp_store s) \<le> get_promise (sp_store t)"
  using handle_prepare_Some [OF assms] by (auto intro: less_imp_le)

lemma handle_leader_Some:
  assumes "handle_leader n s = Some t"
  obtains "n \<le> n_leader (sp_leader s) \<or> n \<le> get_promise (sp_store s)" "t = s"
  | "n_leader (sp_leader s) < n" "get_promise (sp_store s) < n" "sp_pid s \<noteq> ballot_pid n"
    "t = become_follower s"
  | "n_leader (sp_leader s) < n" "get_promise (sp_store s) < n" "sp_pid s = ballot_pid n"
    "sp_store t = set_promise n (snd (flush_batch (sp_store s)))" "sp_state t = (LeaderRole, PhasePrepare)"
proof (cases "n \<le> n_leader (sp_leader s) \<or> n \<le> get_promise (sp_store s)")
  case True
  with assms show thesis by (intro that(1)) (auto simp: handle_leader_def)
next
  case False
  then have l: "n_leader (sp_leader s) < n" "get_promise (sp_store s) < n" by simp_all
  show thesis
  proof (cases "sp_pid s = ballot_pid n")
    case True
    with assms False have "sp_store t = set_promise n (snd (flush_batch (sp_store s))) \<and>
        sp_state t = (LeaderRole, PhasePrepare)"
      by (auto simp: handle_leader_def Let_def send_to_peers_outgoing simp del: ballot_not_le)
    with l True show thesis by (intro that(3)) auto
  next
    case False
    with assms l show thesis by (intro that(2)) (simp_all add: handle_leader_def flip: ballot_not_le)
  qed
qed

lemma handle_leader_promise:
  assumes "handle_leader n s = Some t"
  shows "get_promise (sp_store s) \<le> get_promise (sp_store t)"
  using assms by (rule handle_leader_Some) (auto simp: become_follower_def intro: less_imp_le)

lemma handle_acceptsync_Some:
  assumes "handle_acceptsync env m p s = Some t"
  obtains (ignored) "sp_store t = sp_store s"
      "unsynced_log t = unsynced_log s" "accepted_prefix_hash t = accepted_prefix_hash s"
      "unsynced_hash t = unsynced_hash s"
  | (synced) i where "ballot_cmp (sp_get_promise s) (as_n m) = Equal" "sp_state s = (FollowerRole, PhasePrepare)"
      "sync_log env (as_n m) (as_decided_idx m) (Some (as_log_sync m)) (sp_store s) = Some (Inr (i, sp_store t))"
      "sp_state t = (FollowerRole, PhaseAccept)" "current_seq_num t = as_seq_num m"
      "accepted_prefix_hash t = as_log_prefix_hash m" "unsynced_log t = []" "unsynced_hash t = default_hash"
      "outgoing t = outgoing s @ [SequencePaxos \<lparr>pm_from = sp_pid s, pm_to = p,
         pm_msg = Accepted \<lparr>acc_n = as_n m, acc_accepted_idx = i\<rparr>\<rparr>]"
proof (cases "ballot_cmp (sp_get_promise s) (as_n m) = Equal \<and> sp_state s = (FollowerRole, PhasePrepare)")
  case False
  have "t = snd (check_valid_ballot (as_n m) s)"
    using assms False
    by (auto simp: handle_acceptsync_def check_valid_ballot_def Let_def split: ordering.splits if_splits)
  then show thesis
    by (intro ignored)
      (simp_all add: check_valid_ballot_def reconnected_def Let_def split: ordering.splits)
next
  case True
  then obtain i st where "sync_log env (as_n m) (as_decided_idx m) (Some (as_log_sync m)) (sp_store s)
      = Some (Inr (i, st))"
    and t: "t = send_to p (Accepted \<lparr>acc_n = as_n m, acc_accepted_idx = i\<rparr>)
      (s\<lparr>cached_promise_message := None, sp_store := st,
        accepted_prefix_hash := as_log_prefix_hash m, sp_state := (FollowerRole, PhaseAccept),
        current_seq_num := as_seq_num m, latest_accepted_meta := Some (as_n m, length (outgoing s)),
        unsynced_log := [], unsynced_hash := default_hash\<rparr>)"
    using assms by (auto simp: handle_acceptsync_def check_valid_ballot_def Let_def)
  with True show thesis by (intro synced [of i]) (simp_all add: send_to_def)
qed

lemma sp_snapshot_Some:
  assumes "sp_snapshot env i b s = Some (r, t)"
  obtains e where "r = Some e" "t = s" "try_snapshot env i (sp_store s) = Some (Inl e)"
  | st where "r = None" "sp_store t = st" "try_snapshot env i (sp_store s) = Some (Inr st)"
proof -
  obtain x where x: "try_snapshot env i (sp_store s) = Some x"
    using assms by (auto simp: sp_snapshot_def)
  show thesis
  proof (cases x)
    case (Inl e)
    then show thesis using that(1) [of e] x assms by (auto simp: sp_snapshot_def)
  next
    case (Inr st)
    then show thesis using that(2) [of st] x assms
      by (auto simp: sp_snapshot_def Let_def send_to_peers_outgoing)
  qed
qed

lemma sp_snapshot_keeps [keeps]:
  assumes "sp_snapshot env i b s = Some (r, t)"
  shows "sp_keeps s t"
  using assms by (rule sp_snapshot_Some) (simp_all add: keeps_try_snapshot)

lemma sp_trim_keeps [keeps]:
  assumes "sp_trim i s = Some (r, t)"
  shows "sp_keeps s t"
proof (cases "t = s")
  case False
  then obtain k x where x: "try_trim k (sp_store s) = Some x"
    and c: "(case x of Inl e \<Rightarrow> Some (Some e, s)
      | Inr st \<Rightarrow> Some (None, send_to_peers (Compaction (CompactTrim k)) (s\<lparr>sp_store := st\<rparr>))) = Some (r, t)"
    using assms by (auto simp: sp_trim_def split: if_splits option.splits)
  show ?thesis
  proof (cases x)
    case (Inr st)
    then show ?thesis using x c keeps_try_trim by (auto simp: send_to_peers_outgoing)
  qed (use x c False in simp)
qed simp

lemma handle_compaction_keeps [keeps]:
  assumes c: "handle_compaction env c s = Some t"
  shows "sp_keeps s t"
proof (cases c)
  case (CompactTrim i)
  then obtain x where x: "try_trim i (sp_store s) = Some x"
    and t: "t = (case x of Inl _ \<Rightarrow> s | Inr st \<Rightarrow> s\<lparr>sp_store := st\<rparr>)"
    using c by (auto simp: handle_compaction_def)
  then show ?thesis using keeps_try_trim by (cases x) auto
next
  case (CompactSnapshot i)
  then show ?thesis using c sp_snapshot_keeps by (auto simp: handle_compaction_def)
qed

lemma sp_reconfigure_keeps [keeps]: "sp_reconfigure c m s = Some (r, t) \<Longrightarrow> sp_keeps s t"
  by (auto simp: sp_reconfigure_def Let_def accept_stopsign_leader_keeps split: if_splits)

lemma handle_dom_release_keeps [keeps]:
  assumes "handle_dom_release env p s = Some t"
  shows "sp_keeps s t"
proof -
  have "sp_keeps s t" if "release_on_leader env p s = Some t"
    using that by (auto simp: release_on_leader_def Let_def dest!: accept_entry_leader_keeps)
  moreover have "sp_store (release_on_follower env p s) = sp_store s"
    by (simp add: release_on_follower_def Let_def)
  ultimately show ?thesis using assms by (auto simp: handle_dom_release_def split: if_splits)
qed

lemma release_requests_keeps [keeps]:
  assumes "release_requests env s = Some t"
  shows "sp_keeps s t"
proof (cases "snd (sp_state s) = PhaseAccept")
  case True
  then obtain ps d where "for_each (handle_dom_release env) ps (s\<lparr>sp_dom := d\<rparr>) = Some t"
    using assms by (auto simp: release_requests_def)
  from for_each_keeps [OF this handle_dom_release_keeps] show ?thesis by simp
qed (use assms in \<open>simp add: release_requests_def\<close>)

lemma resend_message_timeout_store: "resend_message_timeout s = Some t \<Longrightarrow> sp_store t = sp_store s"
  using sends_only_sel(1) [OF resend_messages_leader_sends]
  by (auto simp: resend_message_timeout_def resend_messages_follower_def
      send_preparereq_to_all_peers_def send_to_peers_outgoing split: role.splits phase.splits option.splits)

lemma flush_batch_timeout_keeps [keeps]: "flush_batch_timeout s = Some t \<Longrightarrow> sp_keeps s t"
  by (auto simp: flush_batch_timeout_def flush_batch_leader_keeps flush_batch_follower_keeps split: if_splits)

text \<open>Every message handler keeps or raises the promise.\<close>

lemma sp_handle_promise_le:
  assumes "sp_handle env m s = Some t"
  shows "get_promise (sp_store s) \<le> get_promise (sp_store t)"
proof -
  have keep: "get_promise (sp_store s) \<le> get_promise (sp_store t)" if "sp_keeps s t"
    using that by (simp add: store_keeps_def)
  have sends: "get_promise (sp_store s) \<le> get_promise (sp_store t)" if "sends_only s t"
    using sends_only_sel(1) [OF that] by simp
  have maj: "get_promise (sp_store u) \<le> get_promise (sp_store t)"
    if "handle_majority_promises env u = Some t" for u
    using that
  proof (rule handle_majority_promises_Some)
    fix i st
    assume "sync_log env (n_leader (sp_leader u)) (get_max_decided_idx (sp_leader u))
       (max_promise_sync (sp_leader u)) (sp_store u) = Some (Inr (i, st))" "store_keeps st (sp_store t)"
    then show ?thesis using sync_log_frame(1) by (fastforce simp: store_keeps_def)
  qed
  show ?thesis
  proof (cases "pm_msg m")
    case (PrepareReq x)
    then show ?thesis using assms by (intro sends handle_preparereq_sends) (simp add: sp_handle_def)
  next
    case (Prepare x)
    then show ?thesis using assms handle_prepare_promise by (simp add: sp_handle_def)
  next
    case (Promise x)
    have "get_promise (sp_store s) \<le> get_promise (sp_store t)"
      if "handle_promise_prepare env x (pm_from m) s = Some t"
    proof -
      have "t = s \<or> (\<exists>l. t = s\<lparr>sp_leader := l\<rparr> \<or> handle_majority_promises env (s\<lparr>sp_leader := l\<rparr>) = Some t)"
        using that by (auto simp: handle_promise_prepare_def Let_def split: if_splits)
      then show ?thesis using maj by fastforce
    qed
    moreover have "get_promise (sp_store s) \<le> get_promise (sp_store t)"
      if "handle_promise_accept env x (pm_from m) s = Some t"
    proof -
      have "t = s \<or> (\<exists>l. send_accsync env (pm_from m) (s\<lparr>sp_leader := l\<rparr>) = Some t)"
        using that by (auto simp: handle_promise_accept_def split: if_splits)
      then show ?thesis using sends_only_sel(1) [OF send_accsync_sends] by fastforce
    qed
    ultimately show ?thesis using assms Promise by (auto simp: sp_handle_def split: if_splits)
  next
    case (AcceptSync x)
    then have "handle_acceptsync env x (pm_from m) s = Some t" using assms by (simp add: sp_handle_def)
    then show ?thesis
    proof (cases rule: handle_acceptsync_Some)
      case (synced i)
      then show ?thesis using sync_log_frame(1) by fastforce
    qed simp
  next
    case (AcceptDecide x)
    then show ?thesis using assms by (intro keep handle_acceptdecide_keeps) (simp add: sp_handle_def)
  next
    case (Accepted x)
    then show ?thesis using assms handle_accepted_promise [of x "pm_from m" s t] by (simp add: sp_handle_def)
  next
    case (FastAccepted x)
    then show ?thesis using assms by (intro keep handle_fast_accepted_keeps) (simp add: sp_handle_def)
  next
    case (NotAccepted x)
    then show ?thesis using assms by (intro sends handle_notaccepted_sends) (simp add: sp_handle_def)
  next
    case (Decide x)
    then show ?thesis using assms by (intro keep handle_decide_keeps) (simp add: sp_handle_def)
  next
    case (Compaction x)
    then show ?thesis using assms by (intro keep handle_compaction_keeps) (simp add: sp_handle_def)
  next
    case (AcceptStopSign x)
    then show ?thesis using assms by (intro keep handle_accept_stopsign_keeps) (simp add: sp_handle_def)
  next
    case (ForwardStopSign x)
    then show ?thesis using assms by (intro keep handle_forwarded_stopsign_keeps) (simp add: sp_handle_def)
  next
    case (DomPropose x)
    then have dp: "sp_handle_dom_propose x s = Some t" using assms by (simp add: sp_handle_def)
    have "sp_store t = sp_store s" by (subst sp_handle_dom_propose_frame [OF dp]) simp
    then show ?thesis by simp
  next
    case (DomAck x)
    then show ?thesis using assms by (auto simp: sp_handle_def)
  qed
qed

subsection \<open>Indexes\<close>

text \<open>
  Messages that carry no log of another server: everything but \<^const>\<open>Promise\<close> and
  \<^const>\<open>AcceptSync\<close>; an \<^const>\<open>Accepted\<close> must not claim more than the leader has.
\<close>

definition plain_msg :: "('e, 's) paxos_msg \<Rightarrow> ('e, 's) sequence_paxos \<Rightarrow> bool" where
  "plain_msg m s \<longleftrightarrow>
     (case m of
        Promise _ \<Rightarrow> False
      | AcceptSync _ \<Rightarrow> False
      | Accepted a \<Rightarrow> acc_accepted_idx a \<le> get_accepted_idx (sp_store s)
      | _ \<Rightarrow> True)"

lemma set_promise_keeps_log:
  "log_inv a \<Longrightarrow> log_inv (set_promise n a) \<and> get_decided_idx (set_promise n a) = get_decided_idx a"
  by (simp add: log_inv_defs set_promise_def ms_set_promise_def)

lemma handle_prepare_log:
  assumes "handle_prepare env prep p s = Some t" "log_inv (sp_store s)"
  shows "log_inv (sp_store t) \<and> get_decided_idx (sp_store s) \<le> get_decided_idx (sp_store t)"
proof (cases "t = s")
  case False
  then have t: "sp_store t = set_promise (prep_n prep) (snd (flush_batch (sp_store s)))"
    using handle_prepare_Some [OF assms(1)] by auto
  have "log_inv (snd (flush_batch (sp_store s))) \<and>
      get_decided_idx (sp_store s) \<le> get_decided_idx (snd (flush_batch (sp_store s)))"
    using keeps_append(4) [of "sp_store s"] assms(2) by (simp add: store_keeps_def)
  then show ?thesis unfolding t using set_promise_keeps_log by (metis)
qed (use assms in simp)

lemma sp_handle_log:
  assumes "sp_handle env m s = Some t" "plain_msg (pm_msg m) s" "log_inv (sp_store s)"
  shows "log_inv (sp_store t) \<and> get_decided_idx (sp_store s) \<le> get_decided_idx (sp_store t)"
proof -
  have keep: ?thesis if "sp_keeps s t"
    using that assms(3) by (simp add: store_keeps_def)
  have sends: ?thesis if "sends_only s t"
    using sends_only_sel(1) [OF that] assms(3) by simp
  show ?thesis
  proof (cases "pm_msg m")
    case (PrepareReq x)
    then show ?thesis using assms(1) by (intro sends handle_preparereq_sends) (simp add: sp_handle_def)
  next
    case (Prepare x)
    then show ?thesis using assms(1,3) handle_prepare_log [of env x "pm_from m" s t] by (simp add: sp_handle_def)
  next
    case (AcceptDecide x)
    then show ?thesis using assms(1) by (intro keep handle_acceptdecide_keeps) (simp add: sp_handle_def)
  next
    case (Accepted x)
    then show ?thesis using assms(1,2)
      by (intro keep handle_accepted_keeps) (simp_all add: sp_handle_def plain_msg_def)
  next
    case (FastAccepted x)
    then show ?thesis using assms(1) by (intro keep handle_fast_accepted_keeps) (simp add: sp_handle_def)
  next
    case (NotAccepted x)
    then show ?thesis using assms(1) by (intro sends handle_notaccepted_sends) (simp add: sp_handle_def)
  next
    case (Decide x)
    then show ?thesis using assms(1) by (intro keep handle_decide_keeps) (simp add: sp_handle_def)
  next
    case (Compaction x)
    then show ?thesis using assms(1) by (intro keep handle_compaction_keeps) (simp add: sp_handle_def)
  next
    case (AcceptStopSign x)
    then show ?thesis using assms(1) by (intro keep handle_accept_stopsign_keeps) (simp add: sp_handle_def)
  next
    case (ForwardStopSign x)
    then show ?thesis using assms(1) by (intro keep handle_forwarded_stopsign_keeps) (simp add: sp_handle_def)
  next
    case (DomPropose x)
    then have dp: "sp_handle_dom_propose x s = Some t" using assms(1) by (simp add: sp_handle_def)
    have "sp_store t = sp_store s" by (subst sp_handle_dom_propose_frame [OF dp]) simp
    then show ?thesis using assms(3) by simp
  next
    case (DomAck x)
    then show ?thesis using assms(1,3) by (auto simp: sp_handle_def)
  qed (use assms(2) in \<open>simp_all add: plain_msg_def\<close>)
qed

text \<open>A synchronisation that fits the local log leaves it consistent.\<close>

lemma handle_acceptsync_log:
  assumes "handle_acceptsync env m p s = Some t" "log_inv (sp_store s)"
    and "ls_decided_snapshot (as_log_sync m) = None"
    and "get_compacted_idx (sp_store s) \<le> ls_sync_idx (as_log_sync m)"
    and "ls_sync_idx (as_log_sync m) \<le> log_end (sp_store s)"
    and "get_compacted_idx (sp_store s) \<le> as_decided_idx m"
    and "as_decided_idx m \<le> ls_sync_idx (as_log_sync m) + length (ls_suffix (as_log_sync m))"
  shows "log_inv (sp_store t)"
  using assms(1)
proof (cases rule: handle_acceptsync_Some)
  case (synced i)
  then show ?thesis
    using sync_log_suffix [OF log_inv_wf [OF assms(2)] assms(3-5), of env "as_n m" "as_decided_idx m"] assms(6,7)
    by (auto simp: log_inv_def)
qed (use assms(2) in simp)

end
