(* ===== verification/Fast_Path.thy ===== *)
theory Fast_Path
  imports Replica_Invariants
begin

text \<open>
  The fast path of CA-OP across components: the unsynced log of a follower is a hash chain
  on top of its accepted log; recovery terminates and appends only what enough nodes
  reported; an entry decided on the fast quorum is the one recovery picks; the leader counts
  the votes for its own candidate when it registered the candidate first.
\<close>

subsection \<open>The unsynced log is a hash chain\<close>

fun chain :: "nat \<Rightarrow> dom_hash \<Rightarrow> 'e unsynced_map \<Rightarrow> bool" where
  "chain a h [] = True"
| "chain a h ((k, u) # r) \<longleftrightarrow>
     k = a + 1 \<and> ule_prefix_hash u = h \<and> chain (a + 1) (extend_hash h (ule_entry_hash u)) r"

abbreviation chain_hashes :: "'e unsynced_map \<Rightarrow> dom_hash list" where
  "chain_hashes l \<equiv> map (ule_entry_hash \<circ> snd) l"

lemma chain_snoc:
  "chain a h (l @ [(k, u)]) \<longleftrightarrow> chain a h l \<and> k = a + length l + 1 \<and>
     ule_prefix_hash u = extend_hash h (hash_of_list (chain_hashes l))"
proof (induction l arbitrary: a h)
  case Nil
  then show ?case by simp
next
  case (Cons p l)
  obtain j w where p: "p = (j, w)" by (cases p)
  show ?case by (auto simp: p Cons.IH hash_of_list_Cons dom_xor.extend_assoc)
qed

lemma chain_keys: "chain a h l \<Longrightarrow> map fst l = [a + 1..<a + length l + 1]"
proof (induction l arbitrary: a h)
  case Nil
  then show ?case by simp
next
  case (Cons p l)
  obtain j w where p: "p = (j, w)" by (cases p)
  with Cons.prems have "j = a + 1" "chain (a + 1) (extend_hash h (ule_entry_hash w)) l" by simp_all
  with Cons.IH show ?case by (simp add: p upt_conv_Cons del: upt_Suc)
qed

lemma update_fresh: "k \<notin> fst ` set l \<Longrightarrow> AList.update k v l = l @ [(k, v)]"
  by (induction l) auto

lemma chain_update_next:
  "chain a h l \<Longrightarrow> AList.update (a + length l + 1) u l = l @ [(a + length l + 1, u)]"
proof (rule update_fresh)
  assume "chain a h l"
  then have "fst ` set l = set [a + 1..<a + length l + 1]"
    using chain_keys by (metis list.set_map)
  then show "a + length l + 1 \<notin> fst ` set l" by simp
qed

definition unsynced_inv :: "('e, 's) sequence_paxos \<Rightarrow> bool" where
  "unsynced_inv s \<longleftrightarrow>
     chain (get_accepted_idx (sp_store s)) (accepted_prefix_hash s) (unsynced_log s) \<and>
     unsynced_hash s = hash_of_list (chain_hashes (unsynced_log s))"

lemma unsynced_inv_release [invar]:
  assumes "unsynced_inv s"
  shows "unsynced_inv (release_on_follower env p s)"
proof (cases "enable_fast_path s")
  case True
  let ?h = "hash_with env (dp_entry_id p) (dp_deadline p)"
  let ?k = "get_accepted_idx (sp_store s) + length (unsynced_log s) + 1"
  let ?u = "\<lparr>ule_entry = dp_entry p, ule_entry_id = dp_entry_id p, ule_deadline = dp_deadline p,
     ule_entry_hash = ?h, ule_prefix_hash = extend_hash (unsynced_hash s) (accepted_prefix_hash s)\<rparr>"
  have c: "chain (get_accepted_idx (sp_store s)) (accepted_prefix_hash s) (unsynced_log s)"
    and h: "unsynced_hash s = hash_of_list (chain_hashes (unsynced_log s))"
    using assms by (simp_all add: unsynced_inv_def)
  have t: "unsynced_log (release_on_follower env p s) = unsynced_log s @ [(?k, ?u)]"
    "unsynced_hash (release_on_follower env p s) = extend_hash (unsynced_hash s) ?h"
    "accepted_prefix_hash (release_on_follower env p s) = accepted_prefix_hash s"
    "sp_store (release_on_follower env p s) = sp_store s"
    using True chain_update_next [OF c, of ?u] by (simp_all add: release_on_follower_def Let_def)
  show ?thesis
    using c h by (simp add: unsynced_inv_def t chain_snoc hash_of_list_snoc dom_xor.extend_comm)
qed (use assms in \<open>simp add: release_on_follower_def\<close>)

lemma rebuild_fold:
  assumes "chain a h l" "n = length l"
  shows "\<exists>m. fold (rebuild_step a) (enumerate n es)
      (extend_hash h (hash_of_list (chain_hashes l)), hash_of_list (chain_hashes l), l)
    = (extend_hash h (hash_of_list (chain_hashes m)), hash_of_list (chain_hashes m), m) \<and>
    chain a h m \<and> map (ule_entry \<circ> snd) m = map (ule_entry \<circ> snd) l @ map ule_entry es \<and>
    map (ule_entry_id \<circ> snd) m = map (ule_entry_id \<circ> snd) l @ map ule_entry_id es"
  using assms
proof (induction es arbitrary: l n)
  case Nil
  then show ?case by (intro exI [of _ l]) simp
next
  case (Cons e es)
  let ?u = "e\<lparr>ule_prefix_hash := extend_hash h (hash_of_list (chain_hashes l))\<rparr>"
  let ?l = "l @ [(a + n + 1, ?u)]"
  have c: "chain a h ?l" using Cons.prems by (simp add: chain_snoc)
  have h: "hash_of_list (chain_hashes ?l) = extend_hash (hash_of_list (chain_hashes l)) (ule_entry_hash e)"
    by (simp add: hash_of_list_snoc)
  have "rebuild_step a (n, e) (extend_hash h (hash_of_list (chain_hashes l)), hash_of_list (chain_hashes l), l)
      = (extend_hash h (hash_of_list (chain_hashes ?l)), hash_of_list (chain_hashes ?l), ?l)"
    using chain_update_next [OF Cons.prems(1), of ?u] Cons.prems(2)
    unfolding h by (simp add: rebuild_step_def dom_xor.extend_assoc)
  moreover have n: "Suc n = length ?l" using Cons.prems(2) by simp
  moreover obtain m where
    "fold (rebuild_step a) (enumerate (Suc n) es)
      (extend_hash h (hash_of_list (chain_hashes ?l)), hash_of_list (chain_hashes ?l), ?l)
    = (extend_hash h (hash_of_list (chain_hashes m)), hash_of_list (chain_hashes m), m)"
    "chain a h m" "map (ule_entry \<circ> snd) m = map (ule_entry \<circ> snd) ?l @ map ule_entry es"
    "map (ule_entry_id \<circ> snd) m = map (ule_entry_id \<circ> snd) ?l @ map ule_entry_id es"
    using Cons.IH [OF c n] by (elim exE conjE) (rule that)
  ultimately show ?case by (intro exI [of _ m]) (simp add: comp_def)
qed

lemma rebuild_unsynced_tail_inv:
  assumes "a = get_accepted_idx (sp_store s)"
  shows "unsynced_inv (rebuild_unsynced_tail a es s)"
    and "map (ule_entry_id \<circ> snd) (unsynced_log (rebuild_unsynced_tail a es s)) = map ule_entry_id es"
proof -
  obtain m where "fold (rebuild_step a) (enumerate 0 es) (accepted_prefix_hash s, default_hash, [])
    = (extend_hash (accepted_prefix_hash s) (hash_of_list (chain_hashes m)), hash_of_list (chain_hashes m), m)"
    "chain a (accepted_prefix_hash s) m" "map (ule_entry_id \<circ> snd) m = map ule_entry_id es"
    using rebuild_fold [of a "accepted_prefix_hash s" "[]" 0 es] by auto
  then show "unsynced_inv (rebuild_unsynced_tail a es s)"
    "map (ule_entry_id \<circ> snd) (unsynced_log (rebuild_unsynced_tail a es s)) = map ule_entry_id es"
    using assms by (simp_all add: rebuild_unsynced_tail_def unsynced_inv_def)
qed

text \<open>The two outcomes of \<^const>\<open>handle_acceptdecide\<close>.\<close>

lemma check_valid_ballot_True:
  "check_valid_ballot b s = (True, u) \<longleftrightarrow> ballot_cmp (sp_get_promise s) b = Equal \<and> u = s"
  by (auto simp: check_valid_ballot_def Let_def split: ordering.splits)

lemma handle_sequence_num_Expected:
  "handle_sequence_num q p s = (Expected, u) \<longleftrightarrow>
     check_msg_status (current_seq_num s) q = Expected \<and> u = s\<lparr>current_seq_num := q\<rparr>"
  by (auto simp: handle_sequence_num_def Let_def split: message_status.splits)

text \<open>A guarded accept message is either in order under the promised ballot, or changes no log.\<close>

definition in_order :: "ballot \<Rightarrow> sequence_number \<Rightarrow> ('e, 's) sequence_paxos \<Rightarrow> bool" where
  "in_order b q s \<longleftrightarrow>
     ballot_cmp (sp_get_promise s) b = Equal \<and> check_msg_status (current_seq_num s) q = Expected"

definition unlogged :: "('e, 's) sequence_paxos \<Rightarrow> ('e, 's) sequence_paxos \<Rightarrow> bool" where
  "unlogged s t \<longleftrightarrow>
     t = s\<lparr>outgoing := outgoing t, sp_state := sp_state t, current_seq_num := current_seq_num t\<rparr>"

lemma unlogged_sel:
  assumes "unlogged s t"
  shows "sp_store t = sp_store s" "unsynced_log t = unsynced_log s" "unsynced_hash t = unsynced_hash s"
    "accepted_prefix_hash t = accepted_prefix_hash s" "sp_leader t = sp_leader s" "sp_dom t = sp_dom s"
  by (subst assms [unfolded unlogged_def], simp)+

lemma unlogged_trans: "unlogged s t \<Longrightarrow> unlogged t u \<Longrightarrow> unlogged s u"
  unfolding unlogged_def by (cases s, cases t, cases u) simp

lemma unlogged_ballot: "unlogged s (snd (check_valid_ballot b s))"
  by (simp add: unlogged_def check_valid_ballot_def reconnected_def send_to_def Let_def
      split: ordering.splits)

lemma unlogged_seq: "unlogged s (snd (handle_sequence_num q p s))"
  by (simp add: unlogged_def handle_sequence_num_def reconnected_def send_to_def Let_def
      split: message_status.splits)

lemma handle_acceptdecide_cases:
  assumes "handle_acceptdecide env ad s = Some t"
  obtains (ignored) "\<not> (in_order (ad_n ad) (ad_seq_num ad) s \<and> sp_state s = (FollowerRole, PhaseAccept))"
      "unlogged s t"
  | (accepted) tail s3 i st j s5 where
      "in_order (ad_n ad) (ad_seq_num ad) s" "sp_state s = (FollowerRole, PhaseAccept)"
      "length (ad_entry_meta ad) = length (ad_entries ad)"
      "cleanup_fast_path_metadata env (ad_entry_meta ad) (s\<lparr>current_seq_num := ad_seq_num ad\<rparr>) = (tail, s3)"
      "append_entries_and_get_accepted_idx (ad_entries ad) (sp_store s) = (i, st)"
      "update_decided_idx_and_get_accepted_idx (ad_decided_idx ad)
         (s3\<lparr>sp_store := st, accepted_prefix_hash := ad_log_prefix_hash ad\<rparr>) = (j, s5)"
      "(case (if j \<noteq> None then j else i) of
          Some idx \<Rightarrow> reply_accepted (ad_n ad) idx (rebuild_unsynced_tail (get_accepted_idx (sp_store s5)) tail s5)
        | None \<Rightarrow> Some (rebuild_unsynced_tail (get_accepted_idx (sp_store s5)) tail s5)) = Some t"
proof -
  obtain v s1 where v: "check_valid_ballot (ad_n ad) s = (v, s1)" by fastforce
  obtain q s2 where q: "handle_sequence_num (ad_seq_num ad) (ballot_pid (ad_n ad)) s1 = (q, s2)" by fastforce
  have u: "unlogged s s1" "unlogged s s2"
    using unlogged_ballot [of s "ad_n ad"] unlogged_seq [of s1 "ad_seq_num ad" "ballot_pid (ad_n ad)"]
      unlogged_trans [of s s1 s2] v q by simp_all
  show thesis
  proof (cases "v \<and> sp_state s1 = (FollowerRole, PhaseAccept) \<and> q = Expected")
    case False
    then have "t = s1 \<or> t = s2"
      using assms v q by (auto simp: handle_acceptdecide_def Let_def split: if_splits)
    moreover have "\<not> (in_order (ad_n ad) (ad_seq_num ad) s \<and> sp_state s = (FollowerRole, PhaseAccept))"
    proof
      assume "in_order (ad_n ad) (ad_seq_num ad) s \<and> sp_state s = (FollowerRole, PhaseAccept)"
      then have "v" "s1 = s" using v check_valid_ballot_True [of "ad_n ad" s s] by (auto simp: in_order_def)
      with False q \<open>in_order _ _ s \<and> _\<close> show False
        by (auto simp: in_order_def handle_sequence_num_def Let_def)
    qed
    ultimately show thesis using ignored u by blast
  next
    case True
    then have s1: "s1 = s" "ballot_cmp (sp_get_promise s) (ad_n ad) = Equal"
      using v check_valid_ballot_True [of "ad_n ad" s s1] by auto
    have s2: "s2 = s\<lparr>current_seq_num := ad_seq_num ad\<rparr>"
      "check_msg_status (current_seq_num s) (ad_seq_num ad) = Expected"
      using q True s1 handle_sequence_num_Expected [of "ad_seq_num ad" _ s s2] by auto
    obtain tail s3 where c: "cleanup_fast_path_metadata env (ad_entry_meta ad) s2 = (tail, s3)" by fastforce
    then have s3: "sp_store s3 = sp_store s" using cleanup_store [of env "ad_entry_meta ad" s2] s2 by simp
    obtain i st where a: "append_entries_and_get_accepted_idx (ad_entries ad) (sp_store s) = (i, st)"
      by fastforce
    obtain j s5 where j: "update_decided_idx_and_get_accepted_idx (ad_decided_idx ad)
        (s3\<lparr>sp_store := st, accepted_prefix_hash := ad_log_prefix_hash ad\<rparr>) = (j, s5)"
      by fastforce
    have vq: "check_valid_ballot (ad_n ad) s = (True, s)" "sp_state s = (FollowerRole, PhaseAccept)"
      "handle_sequence_num (ad_seq_num ad) (ballot_pid (ad_n ad)) s = (Expected, s2)"
      using v q True s1 by simp_all
    have len: "length (ad_entry_meta ad) = length (ad_entries ad)"
      using assms unfolding handle_acceptdecide_def vq(1) Let_def prod.case vq(3)
      by (simp add: vq(2) split: if_split_asm)
    have "(case (if j \<noteq> None then j else i) of
          Some idx \<Rightarrow> reply_accepted (ad_n ad) idx (rebuild_unsynced_tail (get_accepted_idx (sp_store s5)) tail s5)
        | None \<Rightarrow> Some (rebuild_unsynced_tail (get_accepted_idx (sp_store s5)) tail s5)) = Some t"
      using assms len unfolding handle_acceptdecide_def vq(1) Let_def prod.case vq(3)
      by (simp add: vq(2) c s3 a j split: if_split_asm)
    then show thesis
      using accepted [OF _ vq(2) len c [unfolded s2(1)] a j] s1(2) s2(2) by (simp add: in_order_def)
  qed
qed

lemma set_outgoing_msg_sel [simp]:
  "unsynced_log (set_outgoing_msg i m s) = unsynced_log s"
  "unsynced_hash (set_outgoing_msg i m s) = unsynced_hash s"
  "accepted_prefix_hash (set_outgoing_msg i m s) = accepted_prefix_hash s"
  "sp_state (set_outgoing_msg i m s) = sp_state s"
  "current_seq_num (set_outgoing_msg i m s) = current_seq_num s"
  by (simp_all add: set_outgoing_msg_def)

lemma reply_accepted_sel:
  assumes "reply_accepted n i s = Some t"
  shows "sp_store t = sp_store s" "unsynced_log t = unsynced_log s" "unsynced_hash t = unsynced_hash s"
    "accepted_prefix_hash t = accepted_prefix_hash s" "sp_state t = sp_state s"
    "current_seq_num t = current_seq_num s"
  using assms by (auto simp: reply_accepted_def split: option.splits)

lemma unsynced_inv_cong:
  assumes "sp_store t = sp_store s" "unsynced_log t = unsynced_log s" "unsynced_hash t = unsynced_hash s"
    "accepted_prefix_hash t = accepted_prefix_hash s"
  shows "unsynced_inv t = unsynced_inv s"
  using assms by (simp add: unsynced_inv_def)

lemma unsynced_inv_acceptdecide [invar]:
  assumes "handle_acceptdecide env ad s = Some t" "unsynced_inv s"
  shows "unsynced_inv t"
  using assms(1)
proof (cases rule: handle_acceptdecide_cases)
  case ignored
  then show ?thesis using unsynced_inv_cong [of t s] unlogged_sel [of s t] assms(2) by simp
next
  case (accepted tail s3 i st j s5)
  let ?s6 = "rebuild_unsynced_tail (get_accepted_idx (sp_store s5)) tail s5"
  have inv: "unsynced_inv ?s6" by (rule rebuild_unsynced_tail_inv(1)) simp
  show ?thesis
  proof (cases "if j \<noteq> None then j else i")
    case None
    with accepted(7) inv show ?thesis by simp
  next
    case (Some idx)
    with accepted(7) have r: "reply_accepted (ad_n ad) idx ?s6 = Some t" by simp
    show ?thesis using unsynced_inv_cong [of t ?s6] reply_accepted_sel [OF r] inv by simp
  qed
qed

lemma unsynced_inv_acceptsync [invar]:
  assumes "handle_acceptsync env m p s = Some t" "unsynced_inv s"
  shows "unsynced_inv t"
  using assms(1)
proof (cases rule: handle_acceptsync_Some)
  case ignored
  then show ?thesis using unsynced_inv_cong [of t s] assms(2) by simp
next
  case (synced i)
  then show ?thesis by (simp add: unsynced_inv_def)
qed

text \<open>Without batched entries a flush moves no index, so a decision leaves the chain in place.\<close>

lemma flush_no_batch:
  assumes "sc_batched_entries (is_cache a) = []"
  shows "get_accepted_idx (snd (flush_batch a)) = get_accepted_idx a"
  using assms by (simp add: append_defs Let_def get_accepted_idx_def)

lemma update_decided_sel:
  assumes "update_decided_idx_and_get_accepted_idx d s = (j, t)"
  shows "t = s\<lparr>sp_store := sp_store t\<rparr>"
    and "sc_batched_entries (is_cache (sp_store s)) = [] \<Longrightarrow>
      get_accepted_idx (sp_store t) = get_accepted_idx (sp_store s)"
  using assms flush_no_batch [of "sp_store s"]
  by (auto simp: update_decided_idx_and_get_accepted_idx_def Let_def split_beta set_decided_idx_def
      get_accepted_idx_def split: if_splits)

lemma unsynced_inv_decide [invar]:
  assumes "handle_decide m s = Some t" "unsynced_inv s" "sc_batched_entries (is_cache (sp_store s)) = []"
  shows "unsynced_inv t"
proof -
  obtain v s1 where v: "check_valid_ballot (dec_n m) s = (v, s1)" by fastforce
  obtain q s2 where q: "handle_sequence_num (dec_seq_num m) (ballot_pid (dec_n m)) s1 = (q, s2)" by fastforce
  obtain j s3 where u: "update_decided_idx_and_get_accepted_idx (dec_decided_idx m) s2 = (j, s3)" by fastforce
  have l: "unlogged s s1" "unlogged s s2"
    using unlogged_ballot [of s "dec_n m"] unlogged_seq [of s1 "dec_seq_num m" "ballot_pid (dec_n m)"]
      unlogged_trans [of s s1 s2] v q by simp_all
  have i2: "unsynced_inv s1" "unsynced_inv s2"
    using unsynced_inv_cong [of s1 s] unsynced_inv_cong [of s2 s] unlogged_sel [OF l(1)]
      unlogged_sel [OF l(2)] assms(2) by simp_all
  have i3: "unsynced_inv s3"
    using update_decided_sel(2) [OF u] i2(2) unlogged_sel(1) [OF l(2)] assms(3)
    by (subst update_decided_sel(1) [OF u]) (simp add: unsynced_inv_def)
  have "t = s1 \<or> t = s2 \<or> t = s3 \<or> (\<exists>idx. reply_accepted (dec_n m) idx s3 = Some t)"
    using assms(1) v q u by (auto simp: handle_decide_def Let_def split: if_splits option.splits)
  then show ?thesis
    using i2 i3 unsynced_inv_cong [of t s3] reply_accepted_sel [of "dec_n m" _ s3 t] by blast
qed

text \<open>The steps of a follower that touch its log or its unsynced log, nothing being batched.\<close>

inductive follower_step :: "('e, 's) env \<Rightarrow> ('e, 's) sequence_paxos \<Rightarrow> ('e, 's) sequence_paxos \<Rightarrow> bool"
  for env where
  follower_release: "follower_step env s (release_on_follower env p s)"
| follower_acceptsync: "handle_acceptsync env m p s = Some t \<Longrightarrow> follower_step env s t"
| follower_acceptdecide: "handle_acceptdecide env ad s = Some t \<Longrightarrow> follower_step env s t"
| follower_decide: "handle_decide d s = Some t \<Longrightarrow>
    sc_batched_entries (is_cache (sp_store s)) = [] \<Longrightarrow> follower_step env s t"

lemma follower_step_inv: "follower_step env s t \<Longrightarrow> unsynced_inv s \<Longrightarrow> unsynced_inv t"
  by (induction rule: follower_step.induct) (blast intro: invar)+

lemma follower_run_inv: "(follower_step env)\<^sup>*\<^sup>* s t \<Longrightarrow> unsynced_inv s \<Longrightarrow> unsynced_inv t"
  by (induction rule: rtranclp_induct) (blast intro: follower_step_inv)+

subsection \<open>Recovery\<close>

definition stored_ids :: "('e, 's) leader_state \<Rightarrow> entry_id set" where
  "stored_ids l = (\<Union>u \<in> set (unsynced_log_store l). (ule_entry_id \<circ> snd) ` set u)"

lemma stored_ids_finite [simp]: "finite (stored_ids l)"
  by (simp add: stored_ids_def)

lemma recovery_step_total: "\<exists>x. recovery_step r = Some x"
proof -
  obtain ms where "get_matched_unsynced_entries (rec_accepted_idx r + 1) (rec_prev_hash r)
      (sp_leader (rec_state r)) = Some ms" by (rule get_matched_total)
  then show ?thesis by (simp add: recovery_step_def Let_def)
qed

text \<open>What a round recovers: an entry that enough logs report at the next index.\<close>

definition recoverable :: "('e, 's) recovery \<Rightarrow> dom_hash \<Rightarrow> entry_id \<Rightarrow> 'e \<Rightarrow> bool" where
  "recoverable r h i e \<longleftrightarrow>
     (let self = rec_state r; store = unsynced_log_store (sp_leader self); idx = rec_accepted_idx r + 1
      in recover_threshold (length (sp_peers self) + 1) \<le> votes_for idx (rec_prev_hash r) h store \<and>
         (\<exists>u x. u \<in> set store \<and> map_of u idx = Some x \<and> ule_prefix_hash x = rec_prev_hash r \<and>
            ule_entry_hash x = h \<and> ule_entry_id x = i \<and> ule_entry x = e))"

lemma recovery_step_recovers:
  assumes "recovery_step r = Some (Some r')"
  obtains h i e where "recoverable r h i e" "i \<notin> set (rec_ids r)" "rec_ids r' = i # rec_ids r"
    "rec_prev_hash r' = extend_hash (rec_prev_hash r) h"
    "sp_store (rec_state r') = snd (append_entries_without_batching [e] (sp_store (rec_state r)))"
    "rec_accepted_idx r' = get_accepted_idx (sp_store (rec_state r')) "
    "unsynced_log_store (sp_leader (rec_state r')) = unsynced_log_store (sp_leader (rec_state r))"
    "sp_peers (rec_state r') = sp_peers (rec_state r)"
    "i \<in> stored_ids (sp_leader (rec_state r))"
  using assms
proof (rule recovery_step_Some)
  fix h i e cnt l ms
  let ?self = "rec_state r" and ?idx = "rec_accepted_idx r + 1"
  assume ms: "get_matched_unsynced_entries ?idx (rec_prev_hash r) (sp_leader ?self) = Some ms"
    and w: "filter (\<lambda>(h, i, e, c). recover_threshold (length (sp_peers ?self) + 1) \<le> c) ms = [(h, i, e, cnt)]"
    and new: "i \<notin> set (rec_ids r)"
    and l: "l = (if \<exists>u \<in> set (map snd (unsynced_log ?self)). ule_entry_id u = i then sp_leader ?self
          else insert_recovered_remote_entry_id i (sp_leader ?self))"
    and r': "r' = \<lparr>rec_state = ?self\<lparr>sp_leader := l,
              sp_store := snd (append_entries_without_batching [e] (sp_store ?self))\<rparr>,
           rec_prev_hash = extend_hash (rec_prev_hash r) h, rec_ids = i # rec_ids r,
           rec_accepted_idx = fst (append_entries_without_batching [e] (sp_store ?self))\<rparr>"
  have "(h, i, e, cnt) \<in> set (filter (\<lambda>(h, i, e, c). recover_threshold (length (sp_peers ?self) + 1) \<le> c) ms)"
    by (subst w) simp
  then have m: "(h, i, e, cnt) \<in> set ms" "recover_threshold (length (sp_peers ?self) + 1) \<le> cnt" by auto
  obtain ms' where ms': "get_matched_unsynced_entries ?idx (rec_prev_hash r) (sp_leader ?self) = Some ms'"
    and p: "\<And>h i e c. (h, i, e, c) \<in> set ms' \<Longrightarrow>
       c = votes_for ?idx (rec_prev_hash r) h (unsynced_log_store (sp_leader ?self)) \<and> c \<noteq> 0 \<and>
       (\<exists>u x. u \<in> set (unsynced_log_store (sp_leader ?self)) \<and> map_of u ?idx = Some x \<and>
          ule_prefix_hash x = rec_prev_hash r \<and>
          ule_entry_hash x = h \<and> ule_entry_id x = i \<and> ule_entry x = e)"
    by (rule get_matched_total) blast
  then have q: "cnt = votes_for ?idx (rec_prev_hash r) h (unsynced_log_store (sp_leader ?self))"
    "\<exists>u x. u \<in> set (unsynced_log_store (sp_leader ?self)) \<and> map_of u ?idx = Some x \<and>
          ule_prefix_hash x = rec_prev_hash r \<and>
          ule_entry_hash x = h \<and> ule_entry_id x = i \<and> ule_entry x = e"
    using p [of h i e cnt] m(1) ms by auto
  then have rec: "recoverable r h i e" using m(2) by (simp add: recoverable_def Let_def)
  have "i \<in> stored_ids (sp_leader ?self)"
    using q(2) by (force simp: stored_ids_def dest: map_of_SomeD)
  moreover have "unsynced_log_store l = unsynced_log_store (sp_leader ?self)"
    by (simp add: l insert_recovered_remote_entry_id_def)
  moreover have "fst (append_entries_without_batching [e] a) =
      get_accepted_idx (snd (append_entries_without_batching [e] a))" for a :: "('a, 'b) internal_storage"
    by (simp add: append_defs Let_def get_accepted_idx_def)
  ultimately show thesis using rec new by (intro that) (simp_all add: r')
qed

text \<open>Every round recovers a new entry id out of the stored ones, so the loop ends.\<close>

lemma recovery_loop_total: "\<exists>r'. recovery_loop r = Some r'"
proof (induction "card (stored_ids (sp_leader (rec_state r)) - set (rec_ids r))" arbitrary: r
    rule: less_induct)
  case less
  obtain x where x: "recovery_step r = Some x" using recovery_step_total by blast
  show ?case
  proof (cases x)
    case None
    then show ?thesis using x by (subst recovery_loop.simps) simp
  next
    case (Some q)
    with x have "recovery_step r = Some (Some q)" by simp
    then have "card (stored_ids (sp_leader (rec_state q)) - set (rec_ids q)) <
        card (stored_ids (sp_leader (rec_state r)) - set (rec_ids r))"
    proof (rule recovery_step_recovers)
      fix i assume i: "i \<notin> set (rec_ids r)" "rec_ids q = i # rec_ids r" "i \<in> stored_ids (sp_leader (rec_state r))"
        and s: "unsynced_log_store (sp_leader (rec_state q)) = unsynced_log_store (sp_leader (rec_state r))"
      have "stored_ids (sp_leader (rec_state q)) = stored_ids (sp_leader (rec_state r))"
        using s by (simp add: stored_ids_def)
      moreover have "stored_ids (sp_leader (rec_state r)) - set (rec_ids q)
          \<subset> stored_ids (sp_leader (rec_state r)) - set (rec_ids r)" using i by auto
      ultimately show ?thesis by (simp add: psubset_card_mono)
    qed
    from less [OF this] x Some show ?thesis by (subst recovery_loop.simps) simp
  qed
qed

text \<open>
  What recovery adds to the log: entries with distinct ids, each reported at its index, on
  top of the hash chain built so far, by enough logs.
\<close>

inductive recovers :: "('e, 's) recovery \<Rightarrow> 'e list \<Rightarrow> ('e, 's) recovery \<Rightarrow> bool" where
  recovers_none: "recovers r [] r"
| recovers_one: "recoverable r h i e \<Longrightarrow> i \<notin> set (rec_ids r) \<Longrightarrow>
    rec_ids q = i # rec_ids r \<Longrightarrow> rec_prev_hash q = extend_hash (rec_prev_hash r) h \<Longrightarrow>
    sp_store (rec_state q) = snd (append_entries_without_batching [e] (sp_store (rec_state r))) \<Longrightarrow>
    recovers q es r' \<Longrightarrow> recovers r (e # es) r'"

lemma recovery_loop_recovers:
  assumes "recovery_loop r = Some r'"
  shows "\<exists>es. recovers r es r' \<and> recovery_step r' = Some None"
proof (rule recovery_loop.raw_induct [OF _ assms])
  fix f :: "('a, 'b) recovery \<Rightarrow> ('a, 'b) recovery option" and r r'
  assume IH: "\<And>q r'. f q = Some r' \<Longrightarrow> \<exists>es. recovers q es r' \<and> recovery_step r' = Some None"
    and "do { step \<leftarrow> recovery_step r; case step of None \<Rightarrow> Some r | Some q \<Rightarrow> f q } = Some r'"
  then obtain step where step: "recovery_step r = Some step"
    and c: "(case step of None \<Rightarrow> Some r | Some q \<Rightarrow> f q) = Some r'"
    by auto
  show "\<exists>es. recovers r es r' \<and> recovery_step r' = Some None"
  proof (cases step)
    case None
    then show ?thesis using c step recovers_none by auto
  next
    case (Some q)
    then obtain es where es: "recovers q es r'" "recovery_step r' = Some None" using IH c by auto
    from step Some have "recovery_step r = Some (Some q)" by simp
    then show ?thesis
    proof (rule recovery_step_recovers)
      fix h i e
      assume "recoverable r h i e" "i \<notin> set (rec_ids r)" "rec_ids q = i # rec_ids r"
        "rec_prev_hash q = extend_hash (rec_prev_hash r) h"
        "sp_store (rec_state q) = snd (append_entries_without_batching [e] (sp_store (rec_state r)))"
      from recovers_one [OF this es(1)] es(2) show ?thesis by blast
    qed
  qed
qed

lemma recovers_log:
  "recovers r es r' \<Longrightarrow>
     ms_log (is_storage (sp_store (rec_state r'))) = ms_log (is_storage (sp_store (rec_state r))) @ es \<and>
     (distinct (rec_ids r) \<longrightarrow> distinct (rec_ids r')) \<and>
     length (rec_ids r') = length (rec_ids r) + length es"
proof (induction rule: recovers.induct)
  case (recovers_one r h i e q es r')
  then show ?case by (auto simp: append_defs Let_def ms_append_entries_def)
qed simp

subsubsection \<open>An entry decided on the fast quorum\<close>

text \<open>The node \<open>p\<close> reported an entry with hash \<open>h\<close> at \<open>idx\<close> on the given prefix.\<close>

definition reports :: "('e, 's) leader_state \<Rightarrow> nat \<Rightarrow> dom_hash \<Rightarrow> dom_hash \<Rightarrow> node_id \<Rightarrow> bool" where
  "reports l idx prefix h p \<longleftrightarrow> 0 < p \<and> p \<le> length (unsynced_log_store l) \<and>
     (\<exists>x. map_of (unsynced_log_store l ! (p - 1)) idx = Some x \<and> ule_prefix_hash x = prefix \<and>
        ule_entry_hash x = h)"

lemma votes_for_card:
  "votes_for idx prefix h (unsynced_log_store l) = card {p. reports l idx prefix h p}"
proof -
  let ?P = "\<lambda>u. \<exists>x. map_of u idx = Some x \<and> ule_prefix_hash x = prefix \<and> ule_entry_hash x = h"
  let ?logs = "unsynced_log_store l"
  have "{p. reports l idx prefix h p} = Suc ` {i. i < length ?logs \<and> ?P (?logs ! i)}" (is "?A = ?B")
  proof
    show "?A \<subseteq> ?B"
    proof
      fix p assume "p \<in> ?A"
      then have "p - 1 \<in> {i. i < length ?logs \<and> ?P (?logs ! i)}" "p = Suc (p - 1)"
        by (auto simp: reports_def)
      then show "p \<in> ?B" by (rule rev_image_eqI)
    qed
  qed (auto simp: reports_def)
  then have "card {p. reports l idx prefix h p} = card {i. i < length ?logs \<and> ?P (?logs ! i)}"
    by (simp add: card_image)
  then show ?thesis by (simp add: votes_for_def length_filter_conv_card)
qed

lemma filter_singleton:
  assumes "distinct xs" "x \<in> set xs" "P x" "\<And>y. y \<in> set xs \<Longrightarrow> P y \<Longrightarrow> y = x"
  shows "filter P xs = [x]"
proof -
  define ys where "ys = filter P xs"
  have "x \<in> set ys" using assms(2,3) by (simp add: ys_def)
  moreover have "set ys \<subseteq> {x}" using assms(4) unfolding ys_def set_filter by blast
  ultimately have s: "set ys = {x}" by blast
  have "distinct ys" using assms(1) by (simp add: ys_def)
  then have "length ys = 1" using distinct_card [of ys] s by simp
  then obtain y where y: "ys = [y]" by (auto simp: length_Suc_conv)
  with s have "ys = [x]" by simp
  then show ?thesis by (simp only: ys_def)
qed

text \<open>
  A fast quorum of a valid cluster holds the entry with hash \<open>h\<close>; the promised servers
  \<open>P\<close> form a prepare quorum, only they have reported, and the members of the fast quorum
  among them report \<open>h\<close>. Then \<open>h\<close> is the only candidate at the threshold.
\<close>

lemma fast_entry_wins:
  assumes v: "valid_server cp" and n: "n = server_num_nodes cp"
    and P: "P \<subseteq> server_members cp" "is_prepare_quorum (server_quorum cp) (card P)"
    and F: "F \<subseteq> server_members cp" "fast_quorum n \<le> card F"
    and rep: "\<forall>p \<in> P \<inter> F. reports l idx prefix h p"
    and only: "\<forall>g p. reports l idx prefix g p \<longrightarrow> p \<in> P"
  shows "\<exists>ms i e cnt. get_matched_unsynced_entries idx prefix l = Some ms \<and>
    filter (\<lambda>(g, i, e, c). recover_threshold n \<le> c) ms = [(h, i, e, cnt)] \<and>
    (\<exists>p \<in> P. \<exists>x. map_of (unsynced_log_store l ! (p - 1)) idx = Some x \<and>
       ule_entry_hash x = h \<and> ule_entry_id x = i \<and> ule_entry x = e \<and> reports l idx prefix h p)"
proof -
  let ?v = "\<lambda>g. votes_for idx prefix g (unsynced_log_store l)"
  have finM: "finite (server_members cp)" by (rule server_quorums.finite_members [OF v])
  then have finP: "finite P" using P(1) finite_subset by blast
  have "recover_threshold n \<le> card (P \<inter> F)"
    unfolding n by (rule server_quorums.fast_votes_recovered [OF v P(1) F(1) P(2) F(2) [unfolded n]])
  also have "\<dots> \<le> card {p. reports l idx prefix h p}"
    using rep only finP by (intro card_mono) (auto intro: finite_subset [of _ P])
  finally have h: "recover_threshold n \<le> ?v h" by (simp add: votes_for_card)
  have rival: "?v g < recover_threshold n" if "g \<noteq> h" for g
  proof -
    have "{p. reports l idx prefix g p} \<subseteq> server_members cp" using only P(1) by auto
    moreover have "{p. reports l idx prefix g p} \<inter> F = {}"
    proof (rule equals0I)
      fix p assume "p \<in> {p. reports l idx prefix g p} \<inter> F"
      then have g: "reports l idx prefix g p" and "p \<in> F" by auto
      then have "reports l idx prefix h p" using rep only by blast
      with g that show False by (auto simp: reports_def)
    qed
    ultimately show ?thesis unfolding votes_for_card n
      by (intro server_quorums.rivals_below_threshold [OF v F(1) _ _ F(2) [unfolded n]]) auto
  qed
  obtain ms where ms: "get_matched_unsynced_entries idx prefix l = Some ms" "distinct (map fst ms)"
    and sound: "\<And>h i e c. (h, i, e, c) \<in> set ms \<Longrightarrow> c = ?v h \<and> c \<noteq> 0 \<and>
       (\<exists>u x. u \<in> set (unsynced_log_store l) \<and> map_of u idx = Some x \<and> ule_prefix_hash x = prefix \<and>
          ule_entry_hash x = h \<and> ule_entry_id x = i \<and> ule_entry x = e)"
    and complete: "\<And>h. ?v h \<noteq> 0 \<Longrightarrow> h \<in> fst ` set ms"
    by (rule get_matched_total) blast
  have "?v h \<noteq> 0" using h by (simp add: recover_threshold_def Let_def)
  then obtain i e cnt where w: "(h, i, e, cnt) \<in> set ms" using complete by (fastforce simp: image_iff)
  have one: "filter (\<lambda>(g, i, e, c). recover_threshold n \<le> c) ms = [(h, i, e, cnt)]"
  proof (rule filter_singleton)
    show "distinct ms" using ms(2) by (simp add: distinct_map)
    show "(h, i, e, cnt) \<in> set ms" by (rule w)
    show "case (h, i, e, cnt) of (g, i, e, c) \<Rightarrow> recover_threshold n \<le> c" using sound [OF w] h by simp
    fix y assume y: "y \<in> set ms" "case y of (g, i, e, c) \<Rightarrow> recover_threshold n \<le> c"
    obtain g i' e' c where yt: "y = (g, i', e', c)" by (cases y)
    then have "recover_threshold n \<le> ?v g" using y sound [of g i' e' c] by simp
    then have "g = h" using rival [of g] by (cases "g = h") simp_all
    then show "y = (h, i, e, cnt)" using y(1) w ms(2) unfolding yt by (metis eq_key_imp_eq_value prod.sel)
  qed
  obtain u x where ux: "u \<in> set (unsynced_log_store l)" "map_of u idx = Some x" "ule_prefix_hash x = prefix"
    "ule_entry_hash x = h" "ule_entry_id x = i" "ule_entry x = e" using sound [OF w] by blast
  then obtain k where k: "k < length (unsynced_log_store l)" "unsynced_log_store l ! k = u"
    by (meson in_set_conv_nth)
  then have rk: "reports l idx prefix h (Suc k)" using ux by (simp add: reports_def)
  then have "Suc k \<in> P" using only by blast
  then show ?thesis using ms(1) one ux k rk by (intro exI conjI bexI [of _ "Suc k"]) auto
qed

subsubsection \<open>A run of fast decisions\<close>

lemma reports_cong:
  "unsynced_log_store l = unsynced_log_store l' \<Longrightarrow> reports l = reports l'"
  by (intro ext) (simp add: reports_def)

text \<open>
  What decided a fast entry with hash \<open>h\<close>: a fast quorum whose members among the promised
  servers report it; \<open>i\<close> and \<open>e\<close> are the id and the entry behind the hash.
\<close>

definition fast_decided :: "cluster_config \<times> node_id \<Rightarrow> node_id set \<Rightarrow> ('e, 's) leader_state \<Rightarrow>
    nat \<Rightarrow> dom_hash \<Rightarrow> dom_hash \<times> entry_id \<times> 'e \<Rightarrow> bool" where
  "fast_decided cp P l idx prefix = (\<lambda>(h, i, e).
     (\<exists>F \<subseteq> server_members cp. fast_quorum (server_num_nodes cp) \<le> card F \<and>
        (\<forall>p \<in> P \<inter> F. reports l idx prefix h p)) \<and>
     (\<forall>p x. reports l idx prefix h p \<longrightarrow> map_of (unsynced_log_store l ! (p - 1)) idx = Some x \<longrightarrow>
        ule_entry_id x = i \<and> ule_entry x = e))"

fun fast_decisions :: "cluster_config \<times> node_id \<Rightarrow> node_id set \<Rightarrow> ('e, 's) leader_state \<Rightarrow>
    nat \<Rightarrow> dom_hash \<Rightarrow> (dom_hash \<times> entry_id \<times> 'e) list \<Rightarrow> bool" where
  "fast_decisions cp P l idx prefix [] = True"
| "fast_decisions cp P l idx prefix (d # ds) \<longleftrightarrow>
     fast_decided cp P l (idx + 1) prefix d \<and>
     fast_decisions cp P l (idx + 1) (extend_hash prefix (fst d)) ds"

lemma fast_decisions_cong:
  assumes "unsynced_log_store l = unsynced_log_store l'"
  shows "fast_decisions cp P l idx prefix ds = fast_decisions cp P l' idx prefix ds"
proof (induction ds arbitrary: idx prefix)
  case (Cons d ds)
  have "fast_decided cp P l k x y = fast_decided cp P l' k x y" for k x y
    by (cases y) (simp add: fast_decided_def assms reports_cong [OF assms])
  then show ?case by (simp add: Cons.IH)
qed simp

lemma recovery_step_winner:
  assumes "get_matched_unsynced_entries (rec_accepted_idx r + 1) (rec_prev_hash r) (sp_leader (rec_state r)) = Some ms"
    and "filter (\<lambda>(g, i, e, c). recover_threshold (length (sp_peers (rec_state r)) + 1) \<le> c) ms = [(h, i, e, cnt)]"
    and "i \<notin> set (rec_ids r)" and "rec_accepted_idx r = get_accepted_idx (sp_store (rec_state r))"
  obtains q where "recovery_step r = Some (Some q)" "rec_ids q = i # rec_ids r"
    "rec_prev_hash q = extend_hash (rec_prev_hash r) h"
    "rec_accepted_idx q = rec_accepted_idx r + 1"
    "rec_accepted_idx q = get_accepted_idx (sp_store (rec_state q))"
    "ms_log (is_storage (sp_store (rec_state q))) = ms_log (is_storage (sp_store (rec_state r))) @ [e]"
    "unsynced_log_store (sp_leader (rec_state q)) = unsynced_log_store (sp_leader (rec_state r))"
    "sp_peers (rec_state q) = sp_peers (rec_state r)"
proof -
  let ?l = "if \<exists>u \<in> set (map snd (unsynced_log (rec_state r))). ule_entry_id u = i then sp_leader (rec_state r)
      else insert_recovered_remote_entry_id i (sp_leader (rec_state r))"
  let ?a = "append_entries_without_batching [e] (sp_store (rec_state r))"
  let ?q = "\<lparr>rec_state = (rec_state r)\<lparr>sp_leader := ?l, sp_store := snd ?a\<rparr>,
      rec_prev_hash = extend_hash (rec_prev_hash r) h, rec_ids = i # rec_ids r, rec_accepted_idx = fst ?a\<rparr>"
  have "recovery_step r = Some (Some ?q)"
    using assms(1-3) by (simp add: recovery_step_def Let_def split_beta)
  moreover have "unsynced_log_store ?l = unsynced_log_store (sp_leader (rec_state r))"
    by (simp add: insert_recovered_remote_entry_id_def)
  moreover have "fst ?a = rec_accepted_idx r + 1" "fst ?a = get_accepted_idx (snd ?a)"
    "ms_log (is_storage (snd ?a)) = ms_log (is_storage (sp_store (rec_state r))) @ [e]"
    using assms(4) by (simp_all add: append_defs Let_def ms_append_entries_def get_defs)
  ultimately show thesis using that [of ?q] by simp
qed

lemma fast_decisions_recovered:
  assumes v: "valid_server cp" and P: "P \<subseteq> server_members cp" "is_prepare_quorum (server_quorum cp) (card P)"
    and n: "length (sp_peers (rec_state r)) + 1 = server_num_nodes cp"
    and acc: "rec_accepted_idx r = get_accepted_idx (sp_store (rec_state r))"
    and only: "\<forall>k x g p. reports (sp_leader (rec_state r)) k x g p \<longrightarrow> p \<in> P"
    and dec: "fast_decisions cp P (sp_leader (rec_state r)) (rec_accepted_idx r) (rec_prev_hash r) ds"
    and ids: "distinct (map (fst \<circ> snd) ds)" "set (map (fst \<circ> snd) ds) \<inter> set (rec_ids r) = {}"
    and loop: "recovery_loop r = Some r'"
  shows "\<exists>rest. ms_log (is_storage (sp_store (rec_state r'))) =
    ms_log (is_storage (sp_store (rec_state r))) @ map (snd \<circ> snd) ds @ rest"
  using n acc only dec ids loop
proof (induction ds arbitrary: r)
  case Nil
  then obtain es where "recovers r es r'" using recovery_loop_recovers by blast
  then show ?case using recovers_log by fastforce
next
  case (Cons d ds)
  obtain h i e where d: "d = (h, i, e)" by (cases d)
  let ?l = "sp_leader (rec_state r)" and ?idx = "rec_accepted_idx r + 1"
  have fd: "fast_decided cp P ?l ?idx (rec_prev_hash r) (h, i, e)" using Cons.prems(4) d by simp
  then obtain F where F: "F \<subseteq> server_members cp" "fast_quorum (server_num_nodes cp) \<le> card F"
    "\<forall>p \<in> P \<inter> F. reports ?l ?idx (rec_prev_hash r) h p"
    by (auto simp: fast_decided_def)
  obtain ms i' e' cnt p x where ms: "get_matched_unsynced_entries ?idx (rec_prev_hash r) ?l = Some ms"
    "filter (\<lambda>(g, i, e, c). recover_threshold (server_num_nodes cp) \<le> c) ms = [(h, i', e', cnt)]"
    and x: "p \<in> P" "map_of (unsynced_log_store ?l ! (p - 1)) ?idx = Some x" "ule_entry_hash x = h"
      "ule_entry_id x = i'" "ule_entry x = e'" "reports ?l ?idx (rec_prev_hash r) h p"
    using fast_entry_wins [OF v refl P F] Cons.prems(3) by blast
  have "i' = i" "e' = e" using fd x by (auto simp: fast_decided_def)
  with ms have w: "filter (\<lambda>(g, i, e, c). recover_threshold (length (sp_peers (rec_state r)) + 1) \<le> c) ms
      = [(h, i, e, cnt)]" using Cons.prems(1) by simp
  have new: "i \<notin> set (rec_ids r)" using Cons.prems(6) d by auto
  obtain q where q: "recovery_step r = Some (Some q)" "rec_ids q = i # rec_ids r"
    "rec_prev_hash q = extend_hash (rec_prev_hash r) h"
    "rec_accepted_idx q = rec_accepted_idx r + 1"
    "rec_accepted_idx q = get_accepted_idx (sp_store (rec_state q))"
    "ms_log (is_storage (sp_store (rec_state q))) = ms_log (is_storage (sp_store (rec_state r))) @ [e]"
    "unsynced_log_store (sp_leader (rec_state q)) = unsynced_log_store ?l"
    "sp_peers (rec_state q) = sp_peers (rec_state r)"
    by (rule recovery_step_winner [OF ms(1) w new Cons.prems(2)])
  have "\<exists>rest. ms_log (is_storage (sp_store (rec_state r'))) =
    ms_log (is_storage (sp_store (rec_state q))) @ map (snd \<circ> snd) ds @ rest"
  proof (rule Cons.IH)
    show "length (sp_peers (rec_state q)) + 1 = server_num_nodes cp" using q Cons.prems(1) by simp
    show "rec_accepted_idx q = get_accepted_idx (sp_store (rec_state q))" by (rule q(5))
    show "\<forall>k x g p. reports (sp_leader (rec_state q)) k x g p \<longrightarrow> p \<in> P"
      using Cons.prems(3) by (simp add: reports_cong [OF q(7)])
    show "fast_decisions cp P (sp_leader (rec_state q)) (rec_accepted_idx q) (rec_prev_hash q) ds"
      using Cons.prems(4) fast_decisions_cong [OF q(7)] q(3,4) d by simp
    show "distinct (map (fst \<circ> snd) ds)" using Cons.prems(5) by (simp add: comp_def)
    show "set (map (fst \<circ> snd) ds) \<inter> set (rec_ids q) = {}" using Cons.prems(5,6) q(2) d by auto
    show "recovery_loop q = Some r'" using Cons.prems(7) q(1) by (subst (asm) recovery_loop.simps) simp
  qed
  then show ?case using q(6) d by auto
qed

text \<open>
  The whole hand-over: after synchronising with the promises, the new leader's log continues
  with the recovered entries, then with what it had buffered.
\<close>

lemma append_buffered_log:
  "\<exists>rest. ms_log (is_storage (sp_store (snd (append_buffered i s)))) = ms_log (is_storage (sp_store s)) @ rest"
  by (auto simp: append_buffered_def Let_def append_stopsign_def sc_append_stopsign_def append_defs
      ms_append_entries_def ms_set_stopsign_def split: option.splits)

lemma handle_majority_promises_log:
  assumes "handle_majority_promises env s = Some t"
    and "sync_log env (n_leader (sp_leader s)) (get_max_decided_idx (sp_leader s))
       (max_promise_sync (sp_leader s)) (sp_store s) = Some (Inr (i, st))"
  obtains r rest where
    "recovery_loop \<lparr>rec_state = s\<lparr>sp_leader := (sp_leader s)\<lparr>max_promise_sync := None\<rparr>, sp_store := st\<rparr>,
        rec_prev_hash = max_promise_accepted_hash (sp_leader s), rec_ids = [], rec_accepted_idx = i\<rparr> = Some r"
    "ms_log (is_storage (sp_store t)) = ms_log (is_storage (sp_store (rec_state r))) @ rest"
proof -
  let ?l = "(sp_leader s)\<lparr>max_promise_sync := None\<rparr>"
  have gm: "get_max_decided_idx ?l = get_max_decided_idx (sp_leader s)"
    by (simp add: get_max_decided_idx_def)
  obtain r u l ps where
    r: "recovery_loop \<lparr>rec_state = s\<lparr>sp_leader := ?l, sp_store := st\<rparr>,
        rec_prev_hash = max_promise_accepted_hash (sp_leader s), rec_ids = [], rec_accepted_idx = i\<rparr> = Some r"
    and u: "repropose env ((rec_state r)\<lparr>accepted_prefix_hash := rec_prev_hash r,
       unsynced_log := filter (\<lambda>(idx, u). rec_accepted_idx r < idx \<and> ule_entry_id u \<notin> set (rec_ids r))
         (unsynced_log (rec_state r)),
       sp_dom := fold (\<lambda>i d. snd (remove_from_buffers i d)) (rec_ids r) (sp_dom (rec_state r))\<rparr>) = Some u"
    and t: "for_each (send_accsync env) ps
      ((snd (append_buffered (rec_accepted_idx r) u))\<lparr>sp_state := (LeaderRole, PhaseAccept), sp_leader := l\<rparr>) = Some t"
    using assms by (auto simp: handle_majority_promises_def take_max_promise_sync_def Let_def split_beta gm)
  let ?v = "snd (append_buffered (rec_accepted_idx r) u)"
  have "sends_only (?v\<lparr>sp_state := (LeaderRole, PhaseAccept), sp_leader := l\<rparr>) t"
    by (rule for_each_sends_only [OF t]) (rule send_accsync_sends)
  then have "sp_store t = sp_store ?v" using sends_only_sel(1) by fastforce
  moreover have "sp_store u = sp_store (rec_state r)" by (subst repropose_frame [OF u]) simp
  ultimately show thesis using append_buffered_log [of "rec_accepted_idx r" u] r that by metis
qed

end
