(* ===== verification/Replication.thy ===== *)
theory Replication
  imports Fast_Path
begin

text \<open>
  Leader and follower together: which accept messages a follower ignores and what it answers,
  what an accepted one does to its log, and the link between a leader and a synchronised
  follower, whose logs stay equal under every message the leader sends in order.
\<close>

subsection \<open>Ballots of accept messages\<close>

definition msg_ballot :: "('e, 's) paxos_msg \<Rightarrow> ballot option" where
  "msg_ballot m =
     (case m of
        AcceptSync x \<Rightarrow> Some (as_n x)
      | AcceptDecide x \<Rightarrow> Some (ad_n x)
      | AcceptStopSign x \<Rightarrow> Some (ass_n x)
      | Decide x \<Rightarrow> Some (dec_n x)
      | _ \<Rightarrow> None)"

subsection \<open>Accepted entries\<close>

lemma cleanup_sel:
  assumes "cleanup_fast_path_metadata env m s = (tail, u)"
  shows "sp_store u = sp_store s" "sp_state u = sp_state s" "current_seq_num u = current_seq_num s"
    "sp_leader u = sp_leader s"
  using assms by (auto simp: cleanup_fast_path_metadata_def Let_def)

lemma rebuild_sel [simp]:
  "sp_state (rebuild_unsynced_tail a es s) = sp_state s"
  "current_seq_num (rebuild_unsynced_tail a es s) = current_seq_num s"
  "accepted_prefix_hash (rebuild_unsynced_tail a es s) = accepted_prefix_hash s"
  by (simp_all add: rebuild_unsynced_tail_def split_beta)

lemma update_decided_pending:
  assumes "update_decided_idx_and_get_accepted_idx d s = (j, t)"
  shows "pending_log (sp_store t) = pending_log (sp_store s)"
    and "get_compacted_idx (sp_store t) = get_compacted_idx (sp_store s)"
    and "get_stopsign (sp_store t) = get_stopsign (sp_store s)"
    and "get_promise (sp_store t) = get_promise (sp_store s)"
    and "sc_batched_entries (is_cache (sp_store s)) = [] \<Longrightarrow> sc_batched_entries (is_cache (sp_store t)) = []"
    and "sc_batch_size (is_cache (sp_store t)) = sc_batch_size (is_cache (sp_store s))"
  using assms
  by (auto simp: update_decided_idx_and_get_accepted_idx_def Let_def split_beta set_decided_idx_def
      ms_set_decided_idx_def pending_log_def append_defs ms_append_entries_def get_defs split: if_splits)

lemma append_get_accepted_sel:
  assumes "append_entries_and_get_accepted_idx es a = (i, st)"
  shows "pending_log st = pending_log a @ es" "get_compacted_idx st = get_compacted_idx a"
    "get_stopsign st = get_stopsign a" "get_promise st = get_promise a"
    "sc_batch_size (is_cache st) = sc_batch_size (is_cache a)"
    "sc_batch_size (is_cache a) \<le> length es \<Longrightarrow> sc_batched_entries (is_cache st) = []"
  using assms
  by (auto simp: append_defs Let_def pending_log_def ms_append_entries_def get_defs split: if_splits)

text \<open>An accept message in order appends exactly its entries, whatever the batching.\<close>

lemma handle_acceptdecide_appends:
  assumes "handle_acceptdecide env ad s = Some t" "sp_state s = (FollowerRole, PhaseAccept)"
    "in_order (ad_n ad) (ad_seq_num ad) s"
  shows "pending_log (sp_store t) = pending_log (sp_store s) @ ad_entries ad"
    and "current_seq_num t = ad_seq_num ad" "accepted_prefix_hash t = ad_log_prefix_hash ad"
    "sp_state t = sp_state s" "get_compacted_idx (sp_store t) = get_compacted_idx (sp_store s)"
    "get_stopsign (sp_store t) = get_stopsign (sp_store s)"
    "get_promise (sp_store t) = get_promise (sp_store s)"
    "sc_batch_size (is_cache (sp_store t)) = sc_batch_size (is_cache (sp_store s))"
    "sc_batch_size (is_cache (sp_store s)) \<le> length (ad_entries ad) \<Longrightarrow>
       sc_batched_entries (is_cache (sp_store t)) = []"
proof -
  obtain tail s3 i st j s5 where
    c: "cleanup_fast_path_metadata env (ad_entry_meta ad) (s\<lparr>current_seq_num := ad_seq_num ad\<rparr>) = (tail, s3)"
    and a: "append_entries_and_get_accepted_idx (ad_entries ad) (sp_store s) = (i, st)"
    and u: "update_decided_idx_and_get_accepted_idx (ad_decided_idx ad)
         (s3\<lparr>sp_store := st, accepted_prefix_hash := ad_log_prefix_hash ad\<rparr>) = (j, s5)"
    and r: "(case (if j \<noteq> None then j else i) of
          Some idx \<Rightarrow> reply_accepted (ad_n ad) idx (rebuild_unsynced_tail (get_accepted_idx (sp_store s5)) tail s5)
        | None \<Rightarrow> Some (rebuild_unsynced_tail (get_accepted_idx (sp_store s5)) tail s5)) = Some t"
    using assms(1) by (cases rule: handle_acceptdecide_cases) (use assms(2,3) in simp_all)
  let ?s6 = "rebuild_unsynced_tail (get_accepted_idx (sp_store s5)) tail s5"
  have "sp_store t = sp_store ?s6 \<and> sp_state t = sp_state ?s6 \<and> current_seq_num t = current_seq_num ?s6 \<and>
    accepted_prefix_hash t = accepted_prefix_hash ?s6"
  proof (cases "if j \<noteq> None then j else i")
    case (Some idx)
    with r have "reply_accepted (ad_n ad) idx ?s6 = Some t" by simp
    from reply_accepted_sel [OF this] show ?thesis by simp
  qed (use r in simp)
  then have t: "sp_store t = sp_store s5" "sp_state t = sp_state s5" "current_seq_num t = current_seq_num s5"
    "accepted_prefix_hash t = accepted_prefix_hash s5" by simp_all
  have s5: "sp_state s5 = sp_state s3" "current_seq_num s5 = current_seq_num s3"
    "accepted_prefix_hash s5 = ad_log_prefix_hash ad"
    by (subst update_decided_sel(1) [OF u], simp)+
  note p = update_decided_pending [OF u] and q = append_get_accepted_sel [OF a] and k = cleanup_sel [OF c]
  show "pending_log (sp_store t) = pending_log (sp_store s) @ ad_entries ad"
    "current_seq_num t = ad_seq_num ad" "accepted_prefix_hash t = ad_log_prefix_hash ad"
    "sp_state t = sp_state s" "get_compacted_idx (sp_store t) = get_compacted_idx (sp_store s)"
    "get_stopsign (sp_store t) = get_stopsign (sp_store s)"
    "get_promise (sp_store t) = get_promise (sp_store s)"
    "sc_batch_size (is_cache (sp_store t)) = sc_batch_size (is_cache (sp_store s))"
    using t s5 p(1-4,6) q(1-5) k by simp_all
  show "sc_batched_entries (is_cache (sp_store t)) = []"
    if "sc_batch_size (is_cache (sp_store s)) \<le> length (ad_entries ad)"
    using t p(5) q(6) [OF that] by simp
qed

subsection \<open>A leader and a synchronised follower\<close>

definition in_sync :: "node_id \<Rightarrow> ('e, 's) sequence_paxos \<Rightarrow> ('e, 's) sequence_paxos \<Rightarrow> bool" where
  "in_sync p l f \<longleftrightarrow>
     pending_log (sp_store f) = ms_log (is_storage (sp_store l)) \<and>
     get_compacted_idx (sp_store f) = get_compacted_idx (sp_store l) \<and>
     get_stopsign (sp_store f) = get_stopsign (sp_store l) \<and>
     accepted_prefix_hash f = accepted_prefix_hash l \<and>
     ballot_cmp (get_promise (sp_store f)) (n_leader (sp_leader l)) = Equal \<and>
     sp_state f = (FollowerRole, PhaseAccept) \<and>
     get_seq_num p (sp_leader l) = Some (current_seq_num f)"

lemma next_seq_num_Some:
  assumes "next_seq_num p l = Some (q, l')"
  shows "\<exists>q0. get_seq_num p l = Some q0 \<and> q = SequenceNumber (session q0) (counter q0 + 1)"
    and "get_seq_num p l' = Some q" and "n_leader l' = n_leader l"
  using assms by (auto simp: next_seq_num_def get_seq_num_def Let_def pid_to_idx_def)

text \<open>What the leader sends next is what the follower expects next.\<close>

lemma in_sync_in_order:
  assumes "in_sync p l f" "next_seq_num p k = Some (q, k')"
    "get_seq_num p k = get_seq_num p (sp_leader l)" "n_leader k = n_leader (sp_leader l)"
  shows "in_order (n_leader k') q f" "get_seq_num p k' = Some q"
  using assms next_seq_num_Some [OF assms(2)] check_msg_status_Expected [of "current_seq_num f" q]
  by (auto simp: in_sync_def in_order_def sp_get_promise_def)

lemma acceptdecide_to_new:
  assumes "acceptdecide_to es ms d h p l = Some l'" "get_latest_accdec_message p l = Some None"
  obtains q k where "next_seq_num p (sp_leader l\<lparr>latest_accept_meta := latest_accept_meta k\<rparr>) = Some (q, k)"
    "l' = send_to p (AcceptDecide \<lparr>ad_n = n_leader k, ad_seq_num = q, ad_decided_idx = d,
             ad_entries = es, ad_entry_meta = ms, ad_log_prefix_hash = h\<rparr>) (l\<lparr>sp_leader := k\<rparr>)"
proof -
  obtain j q k where j: "set_latest_accept_meta p (Some (length (outgoing l))) (sp_leader l) = Some j"
    and q: "next_seq_num p j = Some (q, k)"
    and l': "l' = send_to p (AcceptDecide \<lparr>ad_n = n_leader k, ad_seq_num = q, ad_decided_idx = d,
             ad_entries = es, ad_entry_meta = ms, ad_log_prefix_hash = h\<rparr>) (l\<lparr>sp_leader := k\<rparr>)"
    using assms by (auto simp: acceptdecide_to_def)
  have "latest_accept_meta k = latest_accept_meta j"
    using q by (auto simp: next_seq_num_def Let_def)
  moreover have "j = sp_leader l\<lparr>latest_accept_meta := latest_accept_meta j\<rparr>"
    using j by (auto simp: set_latest_accept_meta_def Let_def)
  ultimately show thesis using that [of k q] q l' by metis
qed

lemma append_log_sel:
  "ms_log (is_storage (snd (append_entries_without_batching es a))) = ms_log (is_storage a) @ es"
  "get_compacted_idx (snd (append_entries_without_batching es a)) = get_compacted_idx a"
  "get_stopsign (snd (append_entries_without_batching es a)) = get_stopsign a"
  by (simp_all add: append_defs Let_def ms_append_entries_def get_defs)

text \<open>The leader stores entries and sends them; the follower that handles the message follows suit.\<close>

lemma link_append:
  assumes sync: "in_sync p l f"
    and send: "acceptdecide_to es ms d h p
      (l\<lparr>sp_store := snd (append_entries_without_batching es (sp_store l)), accepted_prefix_hash := h\<rparr>) = Some l'"
    and fresh: "get_latest_accdec_message p
      (l\<lparr>sp_store := snd (append_entries_without_batching es (sp_store l)), accepted_prefix_hash := h\<rparr>) = Some None"
    and m: "outgoing l' = outgoing l @ [SequencePaxos m]" and f': "sp_handle env m f = Some f'"
  shows "in_sync p l' f'"
proof -
  let ?l = "l\<lparr>sp_store := snd (append_entries_without_batching es (sp_store l)), accepted_prefix_hash := h\<rparr>"
  obtain q k where q: "next_seq_num p (sp_leader ?l\<lparr>latest_accept_meta := latest_accept_meta k\<rparr>) = Some (q, k)"
    and l': "l' = send_to p (AcceptDecide \<lparr>ad_n = n_leader k, ad_seq_num = q, ad_decided_idx = d,
             ad_entries = es, ad_entry_meta = ms, ad_log_prefix_hash = h\<rparr>) (?l\<lparr>sp_leader := k\<rparr>)"
    using acceptdecide_to_new [OF send fresh] .
  let ?ad = "\<lparr>ad_n = n_leader k, ad_seq_num = q, ad_decided_idx = d,
             ad_entries = es, ad_entry_meta = ms, ad_log_prefix_hash = h\<rparr>"
  have "pm_msg m = AcceptDecide ?ad" using m l' by (simp add: send_to_def) (metis paxos_message.select_convs(3))
  then have h: "handle_acceptdecide env ?ad f = Some f'" using f' by (simp add: sp_handle_def)
  have ord: "in_order (n_leader k) q f" and seq: "get_seq_num p k = Some q"
    using in_sync_in_order [OF sync q] by (simp_all add: get_seq_num_def)
  have n: "n_leader k = n_leader (sp_leader l)" using next_seq_num_Some(3) [OF q] by simp
  have st: "sp_state f = (FollowerRole, PhaseAccept)" using sync by (simp add: in_sync_def)
  note a = handle_acceptdecide_appends [OF h st]
  show ?thesis
    using sync a(1-7) ord seq n append_log_sel [where a = "sp_store l" and es = es]
    by (simp add: in_sync_def l' send_to_def)
qed

lemma message_seq_num_new:
  assumes "message_seq_num p False l = Some (q, l')"
  obtains k where "next_seq_num p (sp_leader l) = Some (q, k)" "l' = l\<lparr>sp_leader := k\<rparr>"
  using assms by (auto simp: message_seq_num_def)

lemma link_decide:
  assumes sync: "in_sync p l f" and send: "send_decide p d False l = Some l'"
    and m: "outgoing l' = outgoing l @ [SequencePaxos m]" and f': "sp_handle env m f = Some f'"
  shows "in_sync p l' f'"
proof -
  obtain q k where q: "next_seq_num p (sp_leader l) = Some (q, k)"
    and l': "l' = send_to p (Decide \<lparr>dec_n = n_leader k, dec_seq_num = q, dec_decided_idx = d\<rparr>) (l\<lparr>sp_leader := k\<rparr>)"
    using send by (auto simp: send_decide_def elim!: message_seq_num_new)
  let ?m = "\<lparr>dec_n = n_leader k, dec_seq_num = q, dec_decided_idx = d\<rparr>"
  have "pm_msg m = Decide ?m" using m l' by (simp add: send_to_def) (metis paxos_message.select_convs(3))
  then have h: "handle_decide ?m f = Some f'" using f' by (simp add: sp_handle_def)
  have ord: "in_order (n_leader k) q f" and seq: "get_seq_num p k = Some q"
    using in_sync_in_order [OF sync q] by simp_all
  have n: "n_leader k = n_leader (sp_leader l)" using next_seq_num_Some(3) [OF q] .
  obtain j f1 where u: "update_decided_idx_and_get_accepted_idx d (f\<lparr>current_seq_num := q\<rparr>) = (j, f1)" by fastforce
  have v: "check_valid_ballot (n_leader k) f = (True, f)"
    "handle_sequence_num q (ballot_pid (n_leader k)) f = (Expected, f\<lparr>current_seq_num := q\<rparr>)"
    using ord by (simp_all add: check_valid_ballot_True handle_sequence_num_Expected in_order_def)
  have "f' = f1 \<or> (\<exists>idx. reply_accepted (n_leader k) idx f1 = Some f')"
    using h v u sync by (auto simp: handle_decide_def in_sync_def split: option.splits)
  then have t: "sp_store f' = sp_store f1" "sp_state f' = sp_state f1" "current_seq_num f' = current_seq_num f1"
    "accepted_prefix_hash f' = accepted_prefix_hash f1"
    using reply_accepted_sel [of "n_leader k" _ f1 f'] by auto
  have s1: "sp_state f1 = sp_state f" "current_seq_num f1 = q" "accepted_prefix_hash f1 = accepted_prefix_hash f"
    by (subst update_decided_sel(1) [OF u], simp)+
  show ?thesis
    using sync t s1 update_decided_pending(1-4) [OF u] seq n by (simp add: in_sync_def l' send_to_def)
qed

lemma append_stopsign_sel:
  assumes "sc_batched_entries (is_cache a) = []"
  shows "ms_log (is_storage (snd (append_stopsign ss a))) = ms_log (is_storage a)"
    "get_compacted_idx (snd (append_stopsign ss a)) = get_compacted_idx a"
    "get_stopsign (snd (append_stopsign ss a)) = Some ss"
  using assms
  by (simp_all add: append_stopsign_def sc_append_stopsign_def append_defs Let_def ms_append_entries_def
      ms_set_stopsign_def get_defs)

lemma set_stopsign_sel:
  assumes "set_stopsign (Some ss) a = Some (i, st)"
  shows "pending_log st = pending_log a" "get_compacted_idx st = get_compacted_idx a"
    "get_stopsign st = Some ss" "get_promise st = get_promise a"
  using assms
  by (auto simp: set_stopsign_def pending_log_def ms_set_stopsign_def get_defs Let_def split: if_splits)

lemma flush_batch_sel:
  "get_compacted_idx (snd (flush_batch a)) = get_compacted_idx a"
  "get_stopsign (snd (flush_batch a)) = get_stopsign a"
  by (simp_all add: append_defs Let_def ms_append_entries_def get_defs)

lemma link_stopsign:
  assumes sync: "in_sync p l f" and b: "sc_batched_entries (is_cache (sp_store l)) = []"
    and send: "send_accept_stopsign p ss False (l\<lparr>sp_store := snd (append_stopsign ss (sp_store l))\<rparr>) = Some l'"
    and m: "outgoing l' = outgoing l @ [SequencePaxos m]" and f': "sp_handle env m f = Some f'"
  shows "in_sync p l' f'"
proof -
  let ?l = "l\<lparr>sp_store := snd (append_stopsign ss (sp_store l))\<rparr>"
  obtain q k where q: "next_seq_num p (sp_leader ?l) = Some (q, k)"
    and l': "l' = send_to p (AcceptStopSign \<lparr>ass_n = n_leader k, ass_seq_num = q, ass_ss = ss\<rparr>) (?l\<lparr>sp_leader := k\<rparr>)"
    using send by (auto simp: send_accept_stopsign_def elim!: message_seq_num_new)
  let ?m = "\<lparr>ass_n = n_leader k, ass_seq_num = q, ass_ss = ss\<rparr>"
  have "pm_msg m = AcceptStopSign ?m" using m l' by (simp add: send_to_def) (metis paxos_message.select_convs(3))
  then have h: "handle_accept_stopsign ?m f = Some f'" using f' by (simp add: sp_handle_def)
  have ord: "in_order (n_leader k) q f" and seq: "get_seq_num p k = Some q"
    using in_sync_in_order [OF sync q] by simp_all
  have n: "n_leader k = n_leader (sp_leader l)" using next_seq_num_Some(3) [OF q] by simp
  have v: "check_valid_ballot (n_leader k) f = (True, f)"
    "handle_sequence_num q (ballot_pid (n_leader k)) f = (Expected, f\<lparr>current_seq_num := q\<rparr>)"
    using ord by (simp_all add: check_valid_ballot_True handle_sequence_num_Expected in_order_def)
  obtain i st where st: "set_stopsign (Some ss) (snd (flush_batch (sp_store f))) = Some (i, st)"
    and r: "reply_accepted (n_leader k) i (f\<lparr>current_seq_num := q, sp_store := st\<rparr>) = Some f'"
    using h v sync by (auto simp: handle_accept_stopsign_def in_sync_def)
  note t = reply_accepted_sel [OF r] and u = set_stopsign_sel [OF st]
  show ?thesis
    using sync t u seq n append_stopsign_sel [OF b, of ss] flush_pending(1) [of "sp_store f"]
      flush_batch_sel [of "sp_store f"]
    by (simp add: in_sync_def l' send_to_def)
qed

text \<open>
  Everything the leader sends on the link after a synchronisation, each message handled by
  the follower before the next one: entries stored, decisions, a stop sign.
\<close>

inductive link :: "('e, 's) env \<Rightarrow> node_id \<Rightarrow>
    ('e, 's) sequence_paxos \<Rightarrow> ('e, 's) sequence_paxos \<Rightarrow>
    ('e, 's) sequence_paxos \<Rightarrow> ('e, 's) sequence_paxos \<Rightarrow> bool" for env p where
  link_start: "link env p l f l f"
| link_entries: "link env p l f l1 f1 \<Longrightarrow>
    l2 = l1\<lparr>sp_store := snd (append_entries_without_batching es (sp_store l1)), accepted_prefix_hash := h\<rparr> \<Longrightarrow>
    get_latest_accdec_message p l2 = Some None \<Longrightarrow> acceptdecide_to es ms d h p l2 = Some l3 \<Longrightarrow>
    outgoing l3 = outgoing l1 @ [SequencePaxos m] \<Longrightarrow> sp_handle env m f1 = Some f3 \<Longrightarrow> link env p l f l3 f3"
| link_decision: "link env p l f l1 f1 \<Longrightarrow> send_decide p d False l1 = Some l3 \<Longrightarrow>
    outgoing l3 = outgoing l1 @ [SequencePaxos m] \<Longrightarrow> sp_handle env m f1 = Some f3 \<Longrightarrow> link env p l f l3 f3"
| link_stop: "link env p l f l1 f1 \<Longrightarrow> sc_batched_entries (is_cache (sp_store l1)) = [] \<Longrightarrow>
    send_accept_stopsign p ss False (l1\<lparr>sp_store := snd (append_stopsign ss (sp_store l1))\<rparr>) = Some l3 \<Longrightarrow>
    outgoing l3 = outgoing l1 @ [SequencePaxos m] \<Longrightarrow> sp_handle env m f1 = Some f3 \<Longrightarrow> link env p l f l3 f3"
| link_taken: "link env p l f l1 f1 \<Longrightarrow> l3 = snd (take_outgoing_msgs buf l1) \<Longrightarrow>
    f3 = snd (take_outgoing_msgs buf' f1) \<Longrightarrow> link env p l f l3 f3"

lemma in_sync_take:
  "in_sync p (snd (take_outgoing_msgs b l)) (snd (take_outgoing_msgs c f)) = in_sync p l f"
  by (simp add: in_sync_def take_outgoing_msgs_def reset_latest_accept_meta_def get_seq_num_def)

end
