(* ===== verification/Deciding.thy ===== *)
theory Deciding
  imports Replica_Invariants
begin

text \<open>
  Deciding on the slow path: what an \<^const>\<open>Accepted\<close> message makes the leader decide, and why
  every prepare quorum of a valid cluster contains a node that holds a decided index.
\<close>

definition accepted_frame :: "('e, 's) sequence_paxos \<Rightarrow> ('e, 's) sequence_paxos \<Rightarrow> bool" where
  "accepted_frame s t \<longleftrightarrow> sends_only s t \<and>
     accepted_indexes (sp_leader t) = accepted_indexes (sp_leader s) \<and>
     ls_quorum (sp_leader t) = ls_quorum (sp_leader s)"

lemma decide_accepted_to_frame: "decide_accepted_to d p s = Some t \<Longrightarrow> accepted_frame s t"
  by (auto simp: accepted_frame_def decide_accepted_to_def send_decide_def message_seq_num_def
      next_seq_num_def send_to_def set_outgoing_msg_def sends_only_def Let_def split: option.splits)

lemma for_each_accepted_frame:
  assumes "for_each (decide_accepted_to d) ps s = Some t"
  shows "accepted_frame s t"
  using assms
proof (rule for_each_invariant [where P = "accepted_frame s"])
  show "accepted_frame s s" by (simp add: accepted_frame_def)
next
  fix p u v assume "accepted_frame s u" "decide_accepted_to d p u = Some v"
  then show "accepted_frame s v"
    using decide_accepted_to_frame [of d p u v] sends_only_trans unfolding accepted_frame_def by metis
qed

text \<open>The two outcomes of an \<^const>\<open>Accepted\<close> message of the leader's round.\<close>

lemma handle_accepted_cases:
  assumes "handle_accepted a p s = Some t" "acc_n a = n_leader (sp_leader s)" "sp_state s = (LeaderRole, PhaseAccept)"
  obtains l where "ls_set_accepted_idx p (acc_accepted_idx a) (sp_leader s) = Some l"
      "\<not> (get_decided_idx (sp_store s) < acc_accepted_idx a \<and> is_chosen (acc_accepted_idx a) l)"
      "t = s\<lparr>sp_leader := l\<rparr>"
    | l ps where "ls_set_accepted_idx p (acc_accepted_idx a) (sp_leader s) = Some l"
      "get_decided_idx (sp_store s) < acc_accepted_idx a" "is_chosen (acc_accepted_idx a) l"
      "get_promised_followers (prune_accepted_map (acc_accepted_idx a) l) = Some ps"
      "for_each (decide_accepted_to (acc_accepted_idx a)) ps
         (s\<lparr>slow_path_decisions := slow_path_decisions s + (acc_accepted_idx a - get_decided_idx (sp_store s)),
            sp_store := set_decided_idx (acc_accepted_idx a) (sp_store s),
            sp_leader := prune_accepted_map (acc_accepted_idx a) l\<rparr>) = Some t"
  using assms by (auto simp: handle_accepted_def Let_def split: if_splits)

lemma ls_set_accepted_idx_sel:
  assumes "ls_set_accepted_idx p i l = Some l'"
  shows "accepted_indexes l' = (accepted_indexes l)[p - 1 := i]" "ls_quorum l' = ls_quorum l"
    "0 < p" "p - 1 < length (accepted_indexes l)"
  using assms by (auto simp: ls_set_accepted_idx_def pid_to_idx_def)

lemma handle_accepted_decides:
  assumes "handle_accepted a p s = Some t" "acc_n a = n_leader (sp_leader s)" "sp_state s = (LeaderRole, PhaseAccept)"
  shows "accepted_indexes (sp_leader t) = (accepted_indexes (sp_leader s))[p - 1 := acc_accepted_idx a]"
    and "ls_quorum (sp_leader t) = ls_quorum (sp_leader s)"
    and "sp_store t = (if get_decided_idx (sp_store s) < acc_accepted_idx a \<and> is_chosen (acc_accepted_idx a) (sp_leader t)
      then set_decided_idx (acc_accepted_idx a) (sp_store s) else sp_store s)"
proof -
  let ?d = "acc_accepted_idx a"
  have "accepted_indexes (sp_leader t) = (accepted_indexes (sp_leader s))[p - 1 := ?d] \<and>
    ls_quorum (sp_leader t) = ls_quorum (sp_leader s) \<and>
    sp_store t = (if get_decided_idx (sp_store s) < ?d \<and> is_chosen ?d (sp_leader t)
      then set_decided_idx ?d (sp_store s) else sp_store s)"
    using assms
  proof (cases rule: handle_accepted_cases)
    case (1 l)
    with ls_set_accepted_idx_sel [OF 1(1)] show ?thesis by auto
  next
    case (2 l ps)
    note f = for_each_accepted_frame [OF 2(5)]
    then have "sp_store t = set_decided_idx ?d (sp_store s)"
      using sends_only_sel(1) by (fastforce simp: accepted_frame_def)
    with f 2(2,3) ls_set_accepted_idx_sel [OF 2(1)] show ?thesis
      by (auto simp: accepted_frame_def is_chosen_def prune_accepted_map_def)
  qed
  then show "accepted_indexes (sp_leader t) = (accepted_indexes (sp_leader s))[p - 1 := ?d]"
    "ls_quorum (sp_leader t) = ls_quorum (sp_leader s)"
    "sp_store t = (if get_decided_idx (sp_store s) < ?d \<and> is_chosen ?d (sp_leader t)
      then set_decided_idx ?d (sp_store s) else sp_store s)" by simp_all
qed

subsection \<open>Chosen indexes\<close>

text \<open>The nodes a leader knows to have accepted up to an index.\<close>

definition accepted_by :: "nat \<Rightarrow> ('e, 's) leader_state \<Rightarrow> node_id set" where
  "accepted_by idx l = {p. 0 < p \<and> p \<le> length (accepted_indexes l) \<and> idx \<le> accepted_indexes l ! (p - 1)}"

lemma accepted_by_card: "card (accepted_by idx l) = length (filter (\<lambda>la. idx \<le> la) (accepted_indexes l))"
proof -
  let ?I = "{i. i < length (accepted_indexes l) \<and> idx \<le> accepted_indexes l ! i}"
  have "accepted_by idx l = Suc ` ?I"
    by (auto simp: accepted_by_def gr0_conv_Suc)
  then show ?thesis by (simp add: card_image length_filter_conv_card)
qed

lemma chosen_meets_prepare_quorum:
  assumes "is_chosen idx l" "valid_server cp" "ls_quorum l = server_quorum cp"
    and "accepted_by idx l \<subseteq> server_members cp"
    and "P \<subseteq> server_members cp" "is_prepare_quorum (server_quorum cp) (card P)"
  shows "P \<inter> accepted_by idx l \<noteq> {}"
proof -
  have "is_accept_quorum (server_quorum cp) (card (accepted_by idx l))"
    using assms(1,3) by (simp add: is_chosen_def accepted_by_card)
  then show ?thesis using server_quorums.quorums_meet [OF assms(2,5,4,6)] by simp
qed

subsection \<open>Appending\<close>

text \<open>Accepting an entry on the leader appends it; deciding does not touch the log.\<close>

lemma set_decided_pending [simp]: "pending_log (set_decided_idx i a) = pending_log a"
  by (simp add: pending_log_def set_decided_idx_def ms_set_decided_idx_def)

lemma try_fast_decide_pending:
  assumes "try_fast_decide_idx i s = Some (r, t)"
  shows "pending_log (sp_store t) = pending_log (sp_store s)"
  using try_fast_decide_idx_Some(2,3) [OF assms] by (cases r) auto

lemma accept_entry_leader_pending:
  assumes "accept_entry_leader e s = Some t"
  shows "pending_log (sp_store t) = pending_log (sp_store s) @ [e]"
proof -
  obtain m st where a: "append_entry_with_batching e (sp_store s) = (m, st)" by fastforce
  then have st: "pending_log st = pending_log (sp_store s) @ [e]" using append_entry_pending by (metis snd_conv)
  show ?thesis
  proof (cases m)
    case None
    then show ?thesis using assms a st by (auto simp: accept_entry_leader_def)
  next
    case (Some am)
    then obtain l u k where u: "send_acceptdecide am (s\<lparr>sp_store := st, sp_leader := l\<rparr>) = Some u"
      and t: "for_each (\<lambda>idx self. map_option snd (try_fast_decide_idx idx self))
               [k..<amd_accepted_idx am + 1] u = Some t"
      using assms a by (auto simp: accept_entry_leader_def Let_def simp del: upt_Suc)
    have "pending_log (sp_store t) = pending_log (sp_store u)"
      by (rule for_each_frame [OF t, of "\<lambda>u. pending_log (sp_store u)"]) (auto intro: try_fast_decide_pending)
    then show ?thesis using sends_only_sel(1) [OF send_acceptdecide_sends [OF u]] st by simp
  qed
qed

lemma release_on_leader_pending:
  assumes "release_on_leader env p s = Some t"
  shows "pending_log (sp_store t) = pending_log (sp_store s) @ [dp_entry p]"
proof -
  obtain u where "accept_entry_leader (dp_entry p) u = Some t" "sp_store u = sp_store s"
    using assms by (auto simp: release_on_leader_def Let_def)
  with accept_entry_leader_pending show ?thesis by metis
qed

end
