(* ===== verification/Log_Consensus.thy ===== *)
theory Log_Consensus
  imports Quorums "HOL-Library.Sublist"
begin

text \<open>
  What the slow path implements, without messages: every ballot has at most one log, started
  from the longest log of the highest round a prepare quorum has accepted, and only extended.
  Nodes promise ballots and accept prefixes of their logs. A prefix is chosen when an accept
  quorum has accepted it in one ballot; chosen prefixes of any two ballots are comparable. The
  quorums are those of a valid configuration.
\<close>

subsection \<open>State and steps\<close>

record 'e consensus =
  cs_prom :: "node_id \<Rightarrow> ballot"
  cs_acc :: "node_id \<Rightarrow> ballot \<Rightarrow> nat option"
  cs_log :: "ballot \<Rightarrow> 'e list option"
  cs_base :: "ballot \<Rightarrow> nat"

definition cs_plog :: "'e consensus \<Rightarrow> ballot \<Rightarrow> 'e list" where
  "cs_plog g b = (case cs_log g b of Some L \<Rightarrow> L | None \<Rightarrow> [])"

definition prepare_set :: "cluster_config \<times> node_id \<Rightarrow> node_id set \<Rightarrow> bool" where
  "prepare_set cp P \<longleftrightarrow> P \<subseteq> server_members cp \<and> is_prepare_quorum (server_quorum cp) (card P)"

definition accept_set :: "cluster_config \<times> node_id \<Rightarrow> node_id set \<Rightarrow> bool" where
  "accept_set cp A \<longleftrightarrow> A \<subseteq> server_members cp \<and> is_accept_quorum (server_quorum cp) (card A)"

text \<open>The log a ballot starts from: nothing in the quorum was accepted above it. The node that accepted
  it need not be in the quorum.\<close>

definition cs_highest :: "'e consensus \<Rightarrow> node_id set \<Rightarrow> ballot \<Rightarrow> 'e list \<Rightarrow> bool" where
  "cs_highest g P b xs \<longleftrightarrow>
     xs = [] \<and> (\<forall>q \<in> P. \<forall>b' < b. cs_acc g q b' = None) \<or>
     (\<exists>q r k. r < b \<and> cs_acc g q r = Some k \<and> xs = take k (cs_plog g r) \<and>
       (\<forall>q \<in> P. \<forall>b' < b. \<forall>j. cs_acc g q b' = Some j \<longrightarrow> b' < r \<or> b' = r \<and> j \<le> k))"

inductive cs_step :: "cluster_config \<times> node_id \<Rightarrow> 'e consensus \<Rightarrow> 'e consensus \<Rightarrow> bool" for cp where
  cs_promise: "cs_prom g q \<le> b \<Longrightarrow> cs_step cp g (g\<lparr>cs_prom := (cs_prom g)(q := b)\<rparr>)"
| cs_start: "cs_log g b = None \<Longrightarrow> default_ballot < b \<Longrightarrow> b \<le> cs_prom g (ballot_pid b) \<Longrightarrow>
    ballot_config_id b = configuration_id (fst cp) \<Longrightarrow> prepare_set cp P \<Longrightarrow>
    (\<forall>q \<in> P. b \<le> cs_prom g q) \<Longrightarrow> cs_highest g P b xs \<Longrightarrow>
    cs_step cp g (g\<lparr>cs_log := (cs_log g)(b \<mapsto> xs), cs_base := (cs_base g)(b := length xs)\<rparr>)"
| cs_append: "cs_log g b = Some L \<Longrightarrow> cs_step cp g (g\<lparr>cs_log := (cs_log g)(b \<mapsto> L @ es)\<rparr>)"
| cs_accept: "cs_log g b = Some L \<Longrightarrow> cs_prom g q \<le> b \<Longrightarrow> cs_base g b \<le> k \<Longrightarrow> k \<le> length L \<Longrightarrow>
    (\<forall>j. cs_acc g q b = Some j \<longrightarrow> j \<le> k) \<Longrightarrow>
    cs_step cp g (g\<lparr>cs_prom := (cs_prom g)(q := b), cs_acc := (cs_acc g)(q := (cs_acc g q)(b \<mapsto> k))\<rparr>)"

definition cs_init :: "'e consensus" where
  "cs_init = \<lparr>cs_prom = \<lambda>_. default_ballot, cs_acc = \<lambda>_ _. None, cs_log = Map.empty, cs_base = \<lambda>_. 0\<rparr>"

subsection \<open>Safety\<close>

definition cs_chosen :: "cluster_config \<times> node_id \<Rightarrow> 'e consensus \<Rightarrow> ballot \<Rightarrow> nat \<Rightarrow> bool" where
  "cs_chosen cp g b k \<longleftrightarrow>
     (\<exists>A. accept_set cp A \<and> (\<forall>q \<in> A. \<exists>j. cs_acc g q b = Some j \<and> k \<le> j))"

text \<open>What an accept quorum has accepted or may still accept.\<close>

definition cs_choosable :: "cluster_config \<times> node_id \<Rightarrow> 'e consensus \<Rightarrow> ballot \<Rightarrow> nat \<Rightarrow> bool" where
  "cs_choosable cp g b k \<longleftrightarrow>
     (\<exists>A. accept_set cp A \<and> (\<forall>q \<in> A. cs_prom g q \<le> b \<or> (\<exists>j. cs_acc g q b = Some j \<and> k \<le> j)))"

definition cs_inv :: "cluster_config \<times> node_id \<Rightarrow> 'e consensus \<Rightarrow> bool" where
  "cs_inv cp g \<longleftrightarrow>
     (\<forall>q b k. cs_acc g q b = Some k \<longrightarrow> b \<le> cs_prom g q \<and> cs_base g b \<le> k \<and>
        (\<exists>L. cs_log g b = Some L \<and> k \<le> length L)) \<and>
     (\<forall>b L. cs_log g b = Some L \<longrightarrow> cs_base g b \<le> length L \<and>
        default_ballot < b \<and> b \<le> cs_prom g (ballot_pid b) \<and> ballot_config_id b = configuration_id (fst cp)) \<and>
     (\<forall>b L b' k. cs_log g b = Some L \<longrightarrow> b' < b \<longrightarrow> cs_choosable cp g b' k \<longrightarrow>
        (\<exists>L'. cs_log g b' = Some L' \<and> k \<le> length L' \<and> prefix (take k L') (take (cs_base g b) L)))"

lemma cs_invD:
  assumes "cs_inv cp g"
  shows "cs_acc g q b = Some k \<Longrightarrow> b \<le> cs_prom g q" "cs_acc g q b = Some k \<Longrightarrow> cs_base g b \<le> k"
    "cs_acc g q b = Some k \<Longrightarrow> \<exists>L. cs_log g b = Some L \<and> k \<le> length L"
    "cs_log g b = Some L \<Longrightarrow> cs_base g b \<le> length L"
    "cs_log g b = Some L \<Longrightarrow> ballot_config_id b = configuration_id (fst cp)"
    "cs_log g b = Some L \<Longrightarrow> b' < b \<Longrightarrow> cs_choosable cp g b' k \<Longrightarrow>
        \<exists>L'. cs_log g b' = Some L' \<and> k \<le> length L' \<and> prefix (take k L') (take (cs_base g b) L)"
    "cs_log g b = Some L \<Longrightarrow> default_ballot < b" "cs_log g b = Some L \<Longrightarrow> b \<le> cs_prom g (ballot_pid b)"
  using assms unfolding cs_inv_def by blast+

lemma cs_chosen_choosable: "cs_chosen cp g b k \<Longrightarrow> cs_choosable cp g b k"
  unfolding cs_chosen_def cs_choosable_def by blast

lemma prepare_meets_accept:
  assumes "valid_server cp" "prepare_set cp P" "accept_set cp A"
  obtains q where "q \<in> P" "q \<in> A"
  using server_quorums.quorums_meet [OF assms(1)] assms(2,3)
  unfolding prepare_set_def accept_set_def by blast

text \<open>The log a new ballot starts from extends whatever may still be chosen below it.\<close>

lemma highest_extends_choosable:
  assumes inv: "cs_inv cp g" and v: "valid_server cp" and P: "prepare_set cp P" "\<forall>q \<in> P. b \<le> cs_prom g q"
    and h: "cs_highest g P b xs" and b': "b' < b" "cs_choosable cp g b' k"
  shows "\<exists>L'. cs_log g b' = Some L' \<and> k \<le> length L' \<and> prefix (take k L') xs"
proof -
  obtain A where A: "accept_set cp A" "\<forall>q \<in> A. cs_prom g q \<le> b' \<or> (\<exists>j. cs_acc g q b' = Some j \<and> k \<le> j)"
    using b'(2) unfolding cs_choosable_def by blast
  obtain q where q: "q \<in> P" "q \<in> A" using prepare_meets_accept [OF v P(1) A(1)] .
  have "\<not> cs_prom g q \<le> b'" using P(2) q(1) b'(1) by (meson order_trans less_le_not_le)
  then obtain j where j: "cs_acc g q b' = Some j" "k \<le> j" using A(2) q(2) by blast
  obtain L' where L': "cs_log g b' = Some L'" "j \<le> length L'" using cs_invD(3) [OF inv j(1)] by blast
  obtain s r m where r: "cs_acc g s r = Some m" "xs = take m (cs_plog g r)" "b' < r \<or> b' = r \<and> j \<le> m"
    using h j(1) q(1) b'(1) unfolding cs_highest_def by fastforce
  obtain L where L: "cs_log g r = Some L" "m \<le> length L" using cs_invD(3) [OF inv r(1)] by blast
  have xs: "xs = take m L" using r(2) L(1) by (simp add: cs_plog_def)
  show ?thesis
  proof (cases "b' = r \<and> j \<le> m")
    case True
    then show ?thesis using L' L j(2) xs by (auto simp: take_is_prefix min_def take_take intro!: exI [of _ L'])
      (metis min.absorb1 order.trans take_is_prefix take_take)
  next
    case False
    then have "b' < r" using r(3) by blast
    obtain M where M: "cs_log g b' = Some M" "k \<le> length M" "prefix (take k M) (take (cs_base g r) L)"
      using cs_invD(6) [OF inv L(1) \<open>b' < r\<close> b'(2)] by blast
    have "prefix (take (cs_base g r) L) (take m L)"
      using cs_invD(2) [OF inv r(1)] by (metis min.absorb1 take_is_prefix take_take)
    then show ?thesis using M xs prefix_order.trans by blast
  qed
qed


lemma choosable_antimono:
  assumes "cs_choosable cp g' b k"
    and "\<And>q. cs_prom g' q \<le> b \<or> (\<exists>j. cs_acc g' q b = Some j \<and> k \<le> j) \<Longrightarrow>
      cs_prom g q \<le> b \<or> (\<exists>j. cs_acc g q b = Some j \<and> k \<le> j)"
  shows "cs_choosable cp g b k"
  using assms unfolding cs_choosable_def by blast

lemma cs_inv_init: "cs_inv cp cs_init"
  by (simp add: cs_inv_def cs_init_def)

lemma cs_inv_owner:
  assumes "cs_inv cp g" "cs_log g b' = Some L" "cs_prom g q \<le> b"
  shows "b' \<le> ((cs_prom g)(q := b)) (ballot_pid b')"
  using cs_invD(8) [OF assms(1,2)] assms(3) order_trans by (cases "ballot_pid b' = q") auto

lemma cs_inv_promise:
  assumes "cs_inv cp g" "cs_prom g q \<le> b"
  shows "cs_inv cp (g\<lparr>cs_prom := (cs_prom g)(q := b)\<rparr>)"
proof -
  let ?g = "g\<lparr>cs_prom := (cs_prom g)(q := b)\<rparr>"
  have c: "cs_choosable cp g b' k" if "cs_choosable cp ?g b' k" for b' k
    by (rule choosable_antimono [OF that]) (use assms(2) in \<open>auto split: if_splits intro: order_trans\<close>)
  show ?thesis
    unfolding cs_inv_def
  proof (intro conjI allI impI)
    fix q' b' k assume a: "cs_acc ?g q' b' = Some k"
    then show "b' \<le> cs_prom ?g q'" "cs_base ?g b' \<le> k" "\<exists>L. cs_log ?g b' = Some L \<and> k \<le> length L"
      using cs_invD(1-3) [OF assms(1), of q' b' k] assms(2) by (auto intro: order_trans)
  next
    fix b2 L2 b' m assume a: "cs_log ?g b2 = Some L2" "b' < b2" "cs_choosable cp ?g b' m"
    then have "cs_log g b2 = Some L2" by simp
    from cs_invD(6) [OF assms(1) this a(2) c [OF a(3)]]
    show "\<exists>L'. cs_log ?g b' = Some L' \<and> m \<le> length L' \<and> prefix (take m L') (take (cs_base ?g b2) L2)" by simp
  qed (use cs_invD(4,5,7) [OF assms(1)] cs_inv_owner [OF assms(1) _ assms(2)] in \<open>auto simp del: fun_upd_apply\<close>)
qed

lemma cs_inv_start:
  assumes inv: "cs_inv cp g" and v: "valid_server cp" and b: "cs_log g b = None" "default_ballot < b" "b \<le> cs_prom g (ballot_pid b)"
      "ballot_config_id b = configuration_id (fst cp)"
    and P: "prepare_set cp P" "\<forall>q \<in> P. b \<le> cs_prom g q" and h: "cs_highest g P b xs"
  shows "cs_inv cp (g\<lparr>cs_log := (cs_log g)(b \<mapsto> xs), cs_base := (cs_base g)(b := length xs)\<rparr>)" (is "cs_inv cp ?g")
proof -
  have n: "cs_acc g q b = None" for q using cs_invD(3) [OF inv, of q b] b(1) by (cases "cs_acc g q b") auto
  have c: "cs_choosable cp ?g = cs_choosable cp g" by (simp add: cs_choosable_def fun_eq_iff)
  show ?thesis unfolding cs_inv_def c
  proof (intro conjI allI impI)
    fix q b' k assume "cs_acc ?g q b' = Some k"
    then have a: "cs_acc g q b' = Some k" "b' \<noteq> b" using n by auto
    then show "b' \<le> cs_prom ?g q" "cs_base ?g b' \<le> k" "\<exists>L. cs_log ?g b' = Some L \<and> k \<le> length L"
      using cs_invD(1-3) [OF inv a(1)] by auto
  next
    fix b' L assume "cs_log ?g b' = Some L"
    then show "cs_base ?g b' \<le> length L" "default_ballot < b'" "b' \<le> cs_prom ?g (ballot_pid b')"
        "ballot_config_id b' = configuration_id (fst cp)"
      using cs_invD(4,5,7,8) [OF inv] b(2-4) by (auto split: if_splits)
  next
    fix b2 L b' k assume a: "cs_log ?g b2 = Some L" "b' < b2" "cs_choosable cp g b' k"
    show "\<exists>L'. cs_log ?g b' = Some L' \<and> k \<le> length L' \<and> prefix (take k L') (take (cs_base ?g b2) L)"
    proof (cases "b2 = b")
      case True
      with a(1) have "L = xs" by simp
      obtain L' where L': "cs_log g b' = Some L'" "k \<le> length L'" "prefix (take k L') xs"
        using highest_extends_choosable [OF inv v P h] a True by blast
      then have "b' \<noteq> b" using b(1) by auto
      then show ?thesis using L' True \<open>L = xs\<close> by simp
    next
      case False
      then have "cs_log g b2 = Some L" using a(1) by simp
      from cs_invD(6) [OF inv this a(2,3)] obtain L' where L': "cs_log g b' = Some L'" "k \<le> length L'"
        "prefix (take k L') (take (cs_base g b2) L)" by blast
      then have "b' \<noteq> b" using b(1) by auto
      then show ?thesis using L' False by simp
    qed
  qed
qed

lemma cs_inv_append:
  assumes inv: "cs_inv cp g" and b: "cs_log g b = Some L"
  shows "cs_inv cp (g\<lparr>cs_log := (cs_log g)(b \<mapsto> L @ es)\<rparr>)" (is "cs_inv cp ?g")
proof -
  have c: "cs_choosable cp ?g = cs_choosable cp g" by (simp add: cs_choosable_def fun_eq_iff)
  show ?thesis unfolding cs_inv_def c
  proof (intro conjI allI impI)
    fix q b' k assume a: "cs_acc ?g q b' = Some k"
    show "b' \<le> cs_prom ?g q" "cs_base ?g b' \<le> k" "\<exists>L. cs_log ?g b' = Some L \<and> k \<le> length L"
      using cs_invD(1-3) [OF inv, of q b' k] a b by auto
  next
    fix b' L' assume "cs_log ?g b' = Some L'"
    then show "cs_base ?g b' \<le> length L'" "default_ballot < b'" "b' \<le> cs_prom ?g (ballot_pid b')"
        "ballot_config_id b' = configuration_id (fst cp)"
      using cs_invD(4,5,7,8) [OF inv] b by (auto split: if_splits) (meson le_add1 order_trans)
  next
    fix b2 L2 b' k assume a: "cs_log ?g b2 = Some L2" "b' < b2" "cs_choosable cp g b' k"
    obtain M where M: "cs_log g b2 = Some M" "take (cs_base g b2) L2 = take (cs_base g b2) M"
      using a(1) b cs_invD(4) [OF inv b] by (cases "b2 = b") auto
    obtain L' where L': "cs_log g b' = Some L'" "k \<le> length L'" "prefix (take k L') (take (cs_base g b2) M)"
      using cs_invD(6) [OF inv M(1) a(2,3)] by blast
    show "\<exists>L'. cs_log ?g b' = Some L' \<and> k \<le> length L' \<and> prefix (take k L') (take (cs_base ?g b2) L2)"
      using L' M(2) b by (cases "b' = b") auto
  qed
qed

lemma cs_inv_accept:
  assumes inv: "cs_inv cp g" and b: "cs_log g b = Some L" "cs_prom g q \<le> b" "cs_base g b \<le> k" "k \<le> length L"
  shows "cs_inv cp (g\<lparr>cs_prom := (cs_prom g)(q := b), cs_acc := (cs_acc g)(q := (cs_acc g q)(b \<mapsto> k))\<rparr>)"
    (is "cs_inv cp ?g")
proof -
  have c: "cs_choosable cp g b' m" if "cs_choosable cp ?g b' m" for b' m
    by (rule choosable_antimono [OF that]) (use b(2) in \<open>auto split: if_splits intro: order_trans\<close>)
  show ?thesis unfolding cs_inv_def
  proof (intro conjI allI impI)
    fix q' b' m assume a: "cs_acc ?g q' b' = Some m"
    show "b' \<le> cs_prom ?g q'" "cs_base ?g b' \<le> m" "\<exists>L. cs_log ?g b' = Some L \<and> m \<le> length L"
      using cs_invD(1-3) [OF inv, of q' b' m] a b by (auto split: if_splits intro: order_trans)
  next
    fix b' L' assume "cs_log ?g b' = Some L'"
    then show "cs_base ?g b' \<le> length L'" "default_ballot < b'" "b' \<le> cs_prom ?g (ballot_pid b')"
        "ballot_config_id b' = configuration_id (fst cp)"
      using cs_invD(4,5,7) [OF inv] cs_inv_owner [OF inv _ b(2)] by (auto simp del: fun_upd_apply)
  next
    fix b2 L2 b' m assume a: "cs_log ?g b2 = Some L2" "b' < b2" "cs_choosable cp ?g b' m"
    then have "cs_log g b2 = Some L2" by simp
    from cs_invD(6) [OF inv this a(2) c [OF a(3)]]
    show "\<exists>L'. cs_log ?g b' = Some L' \<and> m \<le> length L' \<and> prefix (take m L') (take (cs_base ?g b2) L2)" by simp
  qed
qed

lemma cs_step_inv:
  assumes "cs_step cp g g'" "cs_inv cp g" "valid_server cp"
  shows "cs_inv cp g'"
  using assms
  by (cases rule: cs_step.cases) (auto intro: cs_inv_promise cs_inv_start cs_inv_append cs_inv_accept)

lemma cs_steps_inv: "(cs_step cp)\<^sup>*\<^sup>* g g' \<Longrightarrow> cs_inv cp g \<Longrightarrow> valid_server cp \<Longrightarrow> cs_inv cp g'"
  by (induction rule: rtranclp_induct) (auto intro: cs_step_inv)

text \<open>Chosen prefixes are comparable.\<close>

lemma accept_set_nonempty:
  assumes "valid_server cp" "accept_set cp A"
  shows "A \<noteq> {}"
proof
  assume "A = {}"
  then have "is_accept_quorum (server_quorum cp) 0" using assms(2) by (simp add: accept_set_def)
  then show False
    using assms(1) by (cases cp; cases "flexible_quorum (fst cp)")
      (auto simp: server_quorum_def quorum_with_def valid_server_def valid_cluster_iff)
qed

lemma chosen_log:
  assumes "cs_inv cp g" "valid_server cp" "cs_chosen cp g b k"
  obtains L where "cs_log g b = Some L" "k \<le> length L"
proof -
  obtain A where A: "accept_set cp A" "\<forall>q \<in> A. \<exists>j. cs_acc g q b = Some j \<and> k \<le> j"
    using assms(3) unfolding cs_chosen_def by blast
  obtain q where "q \<in> A" using accept_set_nonempty [OF assms(2) A(1)] by blast
  then obtain j where j: "cs_acc g q b = Some j" "k \<le> j" using A(2) by blast
  from cs_invD(3) [OF assms(1) j(1)] j(2) that show thesis by fastforce
qed

lemma chosen_in_later_base:
  assumes "cs_inv cp g" "cs_chosen cp g b k" "b < b'" "cs_log g b' = Some L'"
  shows "prefix (take k (cs_plog g b)) (take (cs_base g b') L')"
  using cs_invD(6) [OF assms(1,4,3) cs_chosen_choosable [OF assms(2)]] by (auto simp: cs_plog_def)

lemma same_ballot:
  "ballot_config_id b = ballot_config_id b' \<Longrightarrow> b \<le> b' \<Longrightarrow> b' \<le> b \<Longrightarrow> b = b'"
  by (cases b; cases b') (auto simp: less_eq_ballot_def ballot_cmp_not_Greater ballot_cmp_Less ballot_cmp_Equal)

lemma ballots_ordered:
  assumes "ballot_config_id b = ballot_config_id b'"
  shows "b < b' \<or> b = b' \<or> b' < b"
  using same_ballot [OF assms] by (metis ballot_not_le)

text \<open>The log prefixes decided up to a round.\<close>

definition cs_committed :: "cluster_config \<times> node_id \<Rightarrow> 'e consensus \<Rightarrow> ballot \<Rightarrow> 'e list \<Rightarrow> bool" where
  "cs_committed cp g r xs \<longleftrightarrow>
     xs = [] \<or> (\<exists>b k. b \<le> r \<and> cs_chosen cp g b k \<and> prefix xs (take k (cs_plog g b)))"

lemma committed_in_later_base:
  assumes "cs_inv cp g" "cs_committed cp g r xs" "r < b" "cs_log g b = Some L"
  shows "prefix xs (take (cs_base g b) L)"
  using assms(2) unfolding cs_committed_def
proof (elim disjE exE conjE)
  fix b' k assume "b' \<le> r" "cs_chosen cp g b' k" "prefix xs (take k (cs_plog g b'))"
  with chosen_in_later_base [OF assms(1) _ _ assms(4)] assms(3) show ?thesis
    by (meson le_less_trans prefix_order.trans)
qed simp

lemma committed_in_log:
  assumes "cs_inv cp g" "cs_committed cp g b xs" "cs_log g b = Some L" "valid_server cp"
  shows "prefix xs L"
  using assms(2) unfolding cs_committed_def
proof (elim disjE exE conjE)
  fix b' k assume a: "b' \<le> b" "cs_chosen cp g b' k" "prefix xs (take k (cs_plog g b'))"
  obtain L' where L': "cs_log g b' = Some L'" using chosen_log [OF assms(1,4) a(2)] .
  have "ballot_config_id b' = ballot_config_id b" using cs_invD(5) [OF assms(1)] L' assms(3) by metis
  then consider "b' = b" | "b' < b" using same_ballot a(1) by (metis ballot_not_le)
  then show ?thesis
  proof cases
    case 1
    then show ?thesis using a(3) assms(3) by (auto simp: cs_plog_def intro: prefix_order.trans take_is_prefix)
  next
    case 2
    from chosen_in_later_base [OF assms(1) a(2) 2 assms(3)] a(3) show ?thesis
      by (meson prefix_order.trans take_is_prefix)
  qed
qed simp

lemma committed_comparable:
  assumes "cs_inv cp g" "valid_server cp" "cs_committed cp g r xs" "cs_committed cp g r' ys"
  shows "prefix xs ys \<or> prefix ys xs"
proof (cases "xs = [] \<or> ys = []")
  case False
  then obtain b k b' k' where c: "cs_chosen cp g b k" "prefix xs (take k (cs_plog g b))"
    "cs_chosen cp g b' k'" "prefix ys (take k' (cs_plog g b'))"
    using assms(3,4) unfolding cs_committed_def by blast
  obtain L L' where L: "cs_log g b = Some L" "cs_log g b' = Some L'"
    using chosen_log [OF assms(1,2)] c(1,3) by metis
  have "ballot_config_id b = ballot_config_id b'" using cs_invD(5) [OF assms(1)] L by metis
  then consider "b < b'" | "b' < b" | "b = b'" using ballots_ordered by blast
  then have "\<exists>M. prefix xs M \<and> prefix ys M"
  proof cases
    case 1
    from chosen_in_later_base [OF assms(1) c(1) 1 L(2)] c(2,4) L(2)
    show ?thesis by (auto simp: cs_plog_def intro!: exI [of _ L'] intro: prefix_order.trans take_is_prefix)
  next
    case 2
    from chosen_in_later_base [OF assms(1) c(3) 2 L(1)] c(2,4) L(1)
    show ?thesis by (auto simp: cs_plog_def intro!: exI [of _ L] intro: prefix_order.trans take_is_prefix)
  next
    case 3
    then show ?thesis using c L by (auto intro!: exI [of _ "cs_plog g b"] intro: prefix_order.trans take_is_prefix)
  qed
  then show ?thesis using prefix_same_cases by blast
qed auto

subsection \<open>What no step takes back\<close>

definition cs_le :: "'e consensus \<Rightarrow> 'e consensus \<Rightarrow> bool" where
  "cs_le g g' \<longleftrightarrow>
     (\<forall>q. cs_prom g q \<le> cs_prom g' q) \<and>
     (\<forall>q b j. cs_acc g q b = Some j \<longrightarrow> (\<exists>j'. cs_acc g' q b = Some j' \<and> j \<le> j')) \<and>
     (\<forall>q b. b < cs_prom g q \<longrightarrow> cs_acc g' q b = cs_acc g q b) \<and>
     (\<forall>b L. cs_log g b = Some L \<longrightarrow> (\<exists>L'. cs_log g' b = Some L' \<and> prefix L L') \<and> cs_base g' b = cs_base g b)"

lemma cs_leD:
  assumes "cs_le g g'"
  shows "cs_prom g q \<le> cs_prom g' q"
    "cs_acc g q b = Some j \<Longrightarrow> \<exists>j'. cs_acc g' q b = Some j' \<and> j \<le> j'"
    "b < cs_prom g q \<Longrightarrow> cs_acc g' q b = cs_acc g q b"
    "cs_log g b = Some L \<Longrightarrow> \<exists>L'. cs_log g' b = Some L' \<and> prefix L L'"
    "cs_log g b = Some L \<Longrightarrow> cs_base g' b = cs_base g b"
  using assms unfolding cs_le_def by blast+

lemma cs_le_refl [simp]: "cs_le g g"
  by (auto simp: cs_le_def)

lemma cs_le_trans:
  assumes "cs_le g h" "cs_le h k"
  shows "cs_le g k"
  unfolding cs_le_def
proof (intro conjI allI impI)
  fix q show "cs_prom g q \<le> cs_prom k q" using cs_leD(1) assms by (meson order_trans)
next
  fix q b j assume "cs_acc g q b = Some j"
  then show "\<exists>j'. cs_acc k q b = Some j' \<and> j \<le> j'" using cs_leD(2) assms by (meson order_trans)
next
  fix q b assume "b < cs_prom g q"
  then show "cs_acc k q b = cs_acc g q b" using cs_leD(1,3) assms by (metis less_le_trans)
next
  fix b L assume "cs_log g b = Some L"
  then show "\<exists>L'. cs_log k b = Some L' \<and> prefix L L'" "cs_base k b = cs_base g b"
    using cs_leD(4,5) assms by (meson prefix_order.trans, metis)
qed

lemma cs_step_le:
  assumes "cs_step cp g g'"
  shows "cs_le g g'"
  using assms
proof cases
  case (cs_accept b L q k)
  have "b' \<noteq> b" if "b' < cs_prom g q" for b' using cs_accept(3) that by (metis ballot_not_less)
  then show ?thesis using cs_accept unfolding cs_le_def by auto
qed (auto simp: cs_le_def)

lemma cs_steps_le: "(cs_step cp)\<^sup>*\<^sup>* g g' \<Longrightarrow> cs_le g g'"
  by (induction rule: rtranclp_induct) (auto intro: cs_le_trans cs_step_le)

lemma take_prefix_mono: "prefix xs ys \<Longrightarrow> prefix (take k xs) (take k ys)"
  by (auto simp: prefix_def)

lemma cs_le_plog: "cs_le g g' \<Longrightarrow> prefix (cs_plog g b) (cs_plog g' b)"
  using cs_leD(4) [of g g' b] by (cases "cs_log g b") (auto simp: cs_plog_def split: option.splits)

lemma cs_le_chosen: "cs_le g g' \<Longrightarrow> cs_chosen cp g b k \<Longrightarrow> cs_chosen cp g' b k"
  unfolding cs_chosen_def using cs_leD(2) by (meson order_trans)

lemma cs_le_committed:
  assumes "cs_le g g'" "cs_committed cp g r xs" "r \<le> r'"
  shows "cs_committed cp g' r' xs"
  using assms(2) unfolding cs_committed_def
proof (elim disjE exE conjE)
  fix b k assume "b \<le> r" "cs_chosen cp g b k" "prefix xs (take k (cs_plog g b))"
  moreover have "prefix (take k (cs_plog g b)) (take k (cs_plog g' b))"
    by (rule take_prefix_mono [OF cs_le_plog [OF assms(1)]])
  ultimately show "xs = [] \<or> (\<exists>b k. b \<le> r' \<and> cs_chosen cp g' b k \<and> prefix xs (take k (cs_plog g' b)))"
    using cs_le_chosen [OF assms(1)] assms(3) by (meson order_trans prefix_order.trans)
qed simp

end
