(* ===== verification/Cluster.thy ===== *)
theory Cluster
  imports Deciding Log_Consensus
begin

text \<open>
  A cluster of replicas on the slow path: the nodes of a configuration, each with the state and
  the handlers of Sequence Paxos, and a queue of messages per ordered pair of nodes that loses
  messages but keeps their order. After every call the outgoing messages are taken and queued.
  Nodes are elected, release proposals, resend, reconnect and restart at any time. The options
  are the defaults that matter here: no fast path, batches of one entry, no snapshots.
\<close>

subsection \<open>State and steps\<close>

record ('e, 's) cluster =
  cl_nodes :: "node_id \<Rightarrow> ('e, 's) sequence_paxos"
  cl_links :: "node_id \<Rightarrow> node_id \<Rightarrow> ('e, 's) paxos_msg list"

definition msgs_to :: "node_id \<Rightarrow> ('e, 's) message list \<Rightarrow> ('e, 's) paxos_msg list" where
  "msgs_to q ms = concat (map (\<lambda>m. case m of
       SequencePaxos x \<Rightarrow> if pm_to x = q then [pm_msg x] else []
     | BLE _ \<Rightarrow> []) ms)"

text \<open>The call on node \<open>p\<close> has returned \<open>s\<close>: its messages are taken and queued.\<close>

definition post :: "node_id \<Rightarrow> ('e, 's) sequence_paxos \<Rightarrow> ('e, 's) cluster \<Rightarrow> ('e, 's) cluster" where
  "post p s c =
     (let (ms, s') = take_outgoing_msgs [] s
      in \<lparr>cl_nodes = (cl_nodes c)(p := s'),
          cl_links = \<lambda>a b. if a = p then cl_links c a b @ msgs_to b ms else cl_links c a b\<rparr>)"

definition set_link :: "node_id \<Rightarrow> node_id \<Rightarrow> ('e, 's) paxos_msg list \<Rightarrow> ('e, 's) cluster \<Rightarrow> ('e, 's) cluster" where
  "set_link p q ms c = c\<lparr>cl_links := (cl_links c)(p := (cl_links c p)(q := ms))\<rparr>"

definition plain_env :: "('e, 's) env \<Rightarrow> bool" where
  "plain_env env \<longleftrightarrow> \<not> use_snapshots env \<and> map_iter env [] = []"

definition plain_config :: "cluster_config \<Rightarrow> node_id \<Rightarrow> sequence_paxos_config \<Rightarrow> bool" where
  "plain_config C p cfg \<longleftrightarrow> spc_pid cfg = p \<and> spc_peers cfg = peers_of C p \<and> spc_batch_size cfg = 1 \<and>
     \<not> spc_enable_fast_path cfg \<and> spc_flexible_quorum cfg = flexible_quorum C"

inductive cluster_step :: "('e, 's) env \<Rightarrow> cluster_config \<Rightarrow> ('e, 's) cluster \<Rightarrow> ('e, 's) cluster \<Rightarrow> bool"
  for env C where
  cl_deliver: "p \<in> set (nodes C) \<Longrightarrow> q \<in> set (nodes C) \<Longrightarrow> cl_links c p q = m # ms \<Longrightarrow>
    sp_handle env \<lparr>pm_from = p, pm_to = q, pm_msg = m\<rparr> (cl_nodes c q) = Some s \<Longrightarrow>
    cluster_step env C c (post q s (set_link p q ms c))"
| cl_lose: "cl_links c p q = ms @ m # ms' \<Longrightarrow> cluster_step env C c (set_link p q (ms @ ms') c)"
| cl_elect: "p \<in> set (nodes C) \<Longrightarrow> ballot_config_id b = configuration_id C \<Longrightarrow> ballot_pid b \<in> set (nodes C) \<Longrightarrow>
    handle_leader b (cl_nodes c p) = Some s \<Longrightarrow> cluster_step env C c (post p s c)"
| cl_propose: "p \<in> set (nodes C) \<Longrightarrow> append_with_id e i (cl_nodes c p) = Some (r, s) \<Longrightarrow>
    cluster_step env C c (post p s c)"
| cl_release: "p \<in> set (nodes C) \<Longrightarrow> handle_dom_release env prop (cl_nodes c p) = Some s \<Longrightarrow>
    cluster_step env C c (post p s c)"
| cl_resend: "p \<in> set (nodes C) \<Longrightarrow> resend_message_timeout (cl_nodes c p) = Some s \<Longrightarrow>
    cluster_step env C c (post p s c)"
| cl_flush: "p \<in> set (nodes C) \<Longrightarrow> flush_batch_timeout (cl_nodes c p) = Some s \<Longrightarrow>
    cluster_step env C c (post p s c)"
| cl_reconnect: "p \<in> set (nodes C) \<Longrightarrow> cluster_step env C c (post p (reconnected q (cl_nodes c p)) c)"
| cl_restart: "p \<in> set (nodes C) \<Longrightarrow> plain_config C p cfg \<Longrightarrow>
    sequence_paxos_with cfg (is_storage (sp_store (cl_nodes c p))) clock = Some s \<Longrightarrow>
    cluster_step env C c (post p s c)"

definition cluster_init :: "cluster_config \<Rightarrow> ('e, 's) cluster \<Rightarrow> bool" where
  "cluster_init C c \<longleftrightarrow>
     (\<forall>p \<in> set (nodes C). \<exists>cfg clock. plain_config C p cfg \<and>
        sequence_paxos_with cfg ms_default clock = Some (cl_nodes c p)) \<and>
     (\<forall>p q. cl_links c p q = [])"

subsection \<open>What the nodes hold\<close>

abbreviation node_promise :: "('e, 's) sequence_paxos \<Rightarrow> ballot" where
  "node_promise s \<equiv> get_promise (sp_store s)"

abbreviation node_round :: "('e, 's) sequence_paxos \<Rightarrow> ballot" where
  "node_round s \<equiv> get_accepted_round (sp_store s)"

abbreviation node_log :: "('e, 's) sequence_paxos \<Rightarrow> 'e list" where
  "node_log s \<equiv> ms_log (is_storage (sp_store s))"

abbreviation node_decided :: "('e, 's) sequence_paxos \<Rightarrow> nat" where
  "node_decided s \<equiv> get_decided_idx (sp_store s)"

text \<open>The decided part of a node's log.\<close>

definition decided_log :: "('e, 's) sequence_paxos \<Rightarrow> 'e list" where
  "decided_log s = take (node_decided s) (node_log s)"

text \<open>The storage of a node that neither batches nor compacts nor stops.\<close>

definition plain_store :: "('e, 's) internal_storage \<Rightarrow> bool" where
  "plain_store st \<longleftrightarrow> storage_wf st \<and> sc_batch_size (is_cache st) = 1 \<and> sc_batched_entries (is_cache st) = [] \<and>
     ms_compacted_idx (is_storage st) = 0 \<and> ms_stopsign (is_storage st) = None"

definition plain_leader :: "cluster_config \<Rightarrow> ('e, 's) leader_state \<Rightarrow> bool" where
  "plain_leader C l \<longleftrightarrow> ls_quorum l = quorum_with (flexible_quorum C) (length (nodes C)) \<and>
     set (latest_accept_meta l) \<subseteq> {None} \<and> pending_accept_meta l = [] \<and> set (unsynced_log_store l) \<subseteq> {[]}"

definition plain_node :: "cluster_config \<Rightarrow> node_id \<Rightarrow> ('e, 's) sequence_paxos \<Rightarrow> bool" where
  "plain_node C p s \<longleftrightarrow> sp_pid s = p \<and> sp_peers s = peers_of C p \<and> plain_store (sp_store s) \<and>
     plain_leader C (sp_leader s) \<and> \<not> enable_fast_path s \<and> unsynced_log s = [] \<and> buffered_proposals s = [] \<and>
     buffered_stopsign s = None \<and> outgoing s = [] \<and> latest_accepted_meta s = None"

text \<open>Ballots a node can have promised.\<close>

definition known :: "cluster_config \<Rightarrow> ballot \<Rightarrow> bool" where
  "known C b \<longleftrightarrow> b = default_ballot \<or> default_ballot < b \<and> ballot_config_id b = configuration_id C \<and>
     ballot_pid b \<in> set (nodes C)"

lemma default_ballot_le [simp]: "default_ballot \<le> b"
  by (cases "ballot_n b = 0"; cases "ballot_priority b = 0"; cases "ballot_pid b = 0")
    (simp_all add: less_eq_ballot_def ballot_cmp_not_Greater ballot_cmp_Less ballot_cmp_Equal default_ballot_def
      word_gt_0)

lemma known_eq: "known C a \<Longrightarrow> known C b \<Longrightarrow> a \<le> b \<Longrightarrow> b \<le> a \<Longrightarrow> a = b"
  unfolding known_def using same_ballot by (metis less_le_not_le)

lemma known_cases: "known C a \<Longrightarrow> known C b \<Longrightarrow> a < b \<or> a = b \<or> b < a"
  using known_eq by (metis ballot_not_le)

lemma known_cmp: "known C a \<Longrightarrow> known C b \<Longrightarrow> ballot_cmp a b = Equal \<longleftrightarrow> a = b"
  using known_eq ballot_cmp_le by (metis ballot_cmp_Equal)

end
