(* ===== verification/Cluster_Inv.thy ===== *)
theory Cluster_Inv
  imports Cluster
begin

text \<open>
  The simulation relation between a cluster and the message-free consensus. A ghost map records
  for every sequence number a leader has sent how long its log was; with it every message states
  what the receiver's log becomes. \<open>post_ok\<close> reduces a call on one node to what it does to
  that node and to the messages it sends.
\<close>

subsection \<open>Relation\<close>

type_synonym positions = "ballot \<Rightarrow> node_id \<Rightarrow> sequence_number \<Rightarrow> nat option"

definition cpair :: "cluster_config \<Rightarrow> cluster_config \<times> node_id" where
  "cpair C = (C, hd (nodes C))"

definition pos_ok :: "'e consensus \<Rightarrow> positions \<Rightarrow> bool" where
  "pos_ok g pos \<longleftrightarrow> (\<forall>b q n k. pos b q n = Some k \<longrightarrow>
     (\<exists>L. cs_log g b = Some L \<and> cs_base g b \<le> k \<and> k \<le> length L))"

text \<open>What node \<open>q\<close> says of its log when it promises ballot \<open>b\<close>: round, length and decided index.\<close>

definition promise_ok :: "cluster_config \<Rightarrow> 'e consensus \<Rightarrow> ballot \<Rightarrow> node_id \<Rightarrow> ballot \<Rightarrow> nat \<Rightarrow> nat \<Rightarrow> bool" where
  "promise_ok C g b q r k d \<longleftrightarrow> known C r \<and> b \<le> cs_prom g q \<and> r \<le> b \<and> d \<le> k \<and>
     cs_committed (cpair C) g r (take d (cs_plog g r)) \<and>
     (if r = b then \<exists>j. cs_acc g q b = Some j \<and> k \<le> j
      else (\<forall>b'. b' < b \<longrightarrow> cs_acc g q b' \<noteq> None \<longrightarrow> b' \<le> r) \<and>
        (case cs_acc g q r of None \<Rightarrow> r = default_ballot \<and> k = 0 | Some j \<Rightarrow> j = k))"

text \<open>A log synchronisation that turns the log \<open>own\<close> into \<open>xs\<close>.\<close>

definition sync_to :: "'e list \<Rightarrow> ('e, 's) log_sync \<Rightarrow> 'e list \<Rightarrow> bool" where
  "sync_to own y xs \<longleftrightarrow> ls_decided_snapshot y = None \<and> ls_stopsign y = None \<and>
     ls_sync_idx y \<le> length own \<and> take (ls_sync_idx y) own @ ls_suffix y = xs"

text \<open>The promise brings the log a preparing leader misses.\<close>

definition brings_log :: "'e consensus \<Rightarrow> ('e, 's) sequence_paxos \<Rightarrow> ('e, 's) promise \<Rightarrow> bool" where
  "brings_log g s x \<longleftrightarrow>
     (case prom_log_sync x of
        None \<Rightarrow> \<not> node_round s < prom_n_accepted x \<and>
          (prom_n_accepted x = node_round s \<longrightarrow> prom_accepted_idx x \<le> length (node_log s))
      | Some y \<Rightarrow> sync_to (node_log s) y (take (prom_accepted_idx x) (cs_plog g (prom_n_accepted x))))"

definition preparing :: "ballot \<Rightarrow> ('e, 's) sequence_paxos \<Rightarrow> bool" where
  "preparing b s \<longleftrightarrow> sp_state s = (LeaderRole, PhasePrepare) \<and> node_promise s = b"

definition leads :: "cluster_config \<Rightarrow> 'e consensus \<Rightarrow> node_id \<Rightarrow> ballot \<Rightarrow> bool" where
  "leads C g p b \<longleftrightarrow> known C b \<and> default_ballot < b \<and> ballot_pid b = p \<and> b \<le> cs_prom g p"

definition prom_msg_ok :: "cluster_config \<Rightarrow> 'e consensus \<Rightarrow> ('e, 's) sequence_paxos \<Rightarrow> node_id \<Rightarrow> node_id \<Rightarrow>
    ('e, 's) promise \<Rightarrow> bool" where
  "prom_msg_ok C g s q p x \<longleftrightarrow> leads C g p (prom_n x) \<and> q \<noteq> p \<and>
     promise_ok C g (prom_n x) q (prom_n_accepted x) (prom_accepted_idx x) (prom_decided_idx x) \<and>
     prom_log_unsync x = Some [] \<and> (preparing (prom_n x) s \<longrightarrow> brings_log g s x)"

definition accepts_from :: "cluster_config \<Rightarrow> 'e consensus \<Rightarrow> node_id \<Rightarrow> node_id \<Rightarrow> ballot \<Rightarrow> 'e list \<Rightarrow> nat \<Rightarrow> nat \<Rightarrow> bool" where
  "accepts_from C g p q b L d k \<longleftrightarrow> leads C g p b \<and> p \<noteq> q \<and> cs_log g b = Some L \<and> d \<le> k \<and>
     cs_committed (cpair C) g b (take d L)"

text \<open>The message with sequence number \<open>sq\<close> takes the receiver's log from length \<open>k\<close> to \<open>k'\<close>.\<close>

definition follows :: "cluster_config \<Rightarrow> 'e consensus \<Rightarrow> positions \<Rightarrow> node_id \<Rightarrow> node_id \<Rightarrow> ballot \<Rightarrow> sequence_number \<Rightarrow>
    nat \<Rightarrow> 'e list \<Rightarrow> nat \<Rightarrow> nat \<Rightarrow> bool" where
  "follows C g pos p q b sq d L k k' \<longleftrightarrow> accepts_from C g p q b L d k' \<and> 0 < counter sq \<and>
     pos b q (SequenceNumber (session sq) (counter sq - 1)) = Some k \<and> pos b q sq = Some k'"

text \<open>The synchronisation fits the receiver's log: it starts below what the receiver has accepted in
  this ballot or, before that, in a prefix the receiver shares with the leader.\<close>

definition accsync_ok :: "cluster_config \<Rightarrow> 'e consensus \<Rightarrow> positions \<Rightarrow> ('e, 's) sequence_paxos \<Rightarrow> node_id \<Rightarrow> node_id \<Rightarrow>
    ('e, 's) accept_sync \<Rightarrow> 'e list \<Rightarrow> bool" where
  "accsync_ok C g pos s p q x L \<longleftrightarrow>
     (let b = as_n x; y = as_log_sync x; i = ls_sync_idx y; k = i + length (ls_suffix y)
      in accepts_from C g p q b L (as_decided_idx x) k \<and> ls_decided_snapshot y = None \<and> ls_stopsign y = None \<and>
         pos b q (as_seq_num x) = Some k \<and> ls_suffix y = drop i (take k L) \<and> b \<le> cs_prom g q \<and>
         (i \<le> cs_base g b \<or> (\<exists>j. cs_acc g q b = Some j \<and> i \<le> j)) \<and>
         (cs_prom g q = b \<longrightarrow> cs_acc g q b = None \<longrightarrow> i \<le> length (node_log s) \<and> take i (node_log s) = take i L))"

fun msg_ok :: "cluster_config \<Rightarrow> 'e consensus \<Rightarrow> positions \<Rightarrow> (node_id \<Rightarrow> ('e, 's) sequence_paxos) \<Rightarrow>
    node_id \<Rightarrow> node_id \<Rightarrow> ('e, 's) paxos_msg \<Rightarrow> bool" where
  "msg_ok C g pos \<sigma> p q (PrepareReq x) \<longleftrightarrow> p \<noteq> q"
| "msg_ok C g pos \<sigma> p q (Prepare x) \<longleftrightarrow> leads C g p (prep_n x) \<and> p \<noteq> q \<and>
     (preparing (prep_n x) (\<sigma> p) \<longrightarrow> prep_n_accepted x = node_round (\<sigma> p) \<and>
        prep_accepted_idx x = length (node_log (\<sigma> p)) \<and> prep_decided_idx x = node_decided (\<sigma> p))"
| "msg_ok C g pos \<sigma> p q (Promise x) \<longleftrightarrow> prom_msg_ok C g (\<sigma> q) p q x"
| "msg_ok C g pos \<sigma> p q (AcceptSync x) \<longleftrightarrow> (\<exists>L. accsync_ok C g pos (\<sigma> q) p q x L)"
| "msg_ok C g pos \<sigma> p q (AcceptDecide x) \<longleftrightarrow> (\<exists>L k. follows C g pos p q (ad_n x) (ad_seq_num x) (ad_decided_idx x) L k (k + length (ad_entries x)) \<and>
     ad_entries x = drop k (take (k + length (ad_entries x)) L))"
| "msg_ok C g pos \<sigma> p q (Decide x) \<longleftrightarrow> (\<exists>L k. follows C g pos p q (dec_n x) (dec_seq_num x) (dec_decided_idx x) L k k)"
| "msg_ok C g pos \<sigma> p q (Accepted x) \<longleftrightarrow>
     (\<exists>j. cs_acc g p (acc_n x) = Some j \<and> acc_accepted_idx x \<le> j)"
| "msg_ok C g pos \<sigma> p q (NotAccepted x) \<longleftrightarrow> True"
| "msg_ok C g pos \<sigma> p q (DomPropose x) \<longleftrightarrow> True"
| "msg_ok C g pos \<sigma> p q (DomAck x) \<longleftrightarrow> True"
| "msg_ok C g pos \<sigma> p q _ \<longleftrightarrow> False"

text \<open>The ballot of an accept message and the length of the receiver's log after it.\<close>

definition msg_pos :: "positions \<Rightarrow> node_id \<Rightarrow> ('e, 's) paxos_msg \<Rightarrow> (ballot \<times> nat) option" where
  "msg_pos pos q m =
     (case m of
        AcceptSync x \<Rightarrow> map_option (Pair (as_n x)) (pos (as_n x) q (as_seq_num x))
      | AcceptDecide x \<Rightarrow> map_option (Pair (ad_n x)) (pos (ad_n x) q (ad_seq_num x))
      | Decide x \<Rightarrow> map_option (Pair (dec_n x)) (pos (dec_n x) q (dec_seq_num x))
      | _ \<Rightarrow> None)"

definition before :: "positions \<Rightarrow> node_id \<Rightarrow> ('e, 's) paxos_msg \<Rightarrow> ('e, 's) paxos_msg \<Rightarrow> bool" where
  "before pos q m m' \<longleftrightarrow> (\<forall>b k k'. msg_pos pos q m = Some (b, k) \<longrightarrow> msg_pos pos q m' = Some (b, k') \<longrightarrow> k \<le> k')"

definition link_ok :: "'e consensus \<Rightarrow> positions \<Rightarrow> node_id \<Rightarrow> ('e, 's) paxos_msg list \<Rightarrow> bool" where
  "link_ok g pos q ms \<longleftrightarrow> sorted_wrt (before pos q) ms \<and>
     (\<forall>m \<in> set ms. \<forall>b k j. msg_pos pos q m = Some (b, k) \<longrightarrow> cs_acc g q b = Some j \<longrightarrow> j \<le> k)"

definition data_ok :: "cluster_config \<Rightarrow> 'e consensus \<Rightarrow> node_id \<Rightarrow> ('e, 's) sequence_paxos \<Rightarrow> bool" where
  "data_ok C g p s \<longleftrightarrow> node_promise s = cs_prom g p \<and> known C (node_promise s) \<and> known C (node_round s) \<and>
     node_round s \<le> node_promise s \<and> (\<forall>b. cs_acc g p b \<noteq> None \<longrightarrow> b \<le> node_round s) \<and>
     (case cs_acc g p (node_round s) of
        None \<Rightarrow> node_round s = default_ballot \<and> node_log s = []
      | Some k \<Rightarrow> k = length (node_log s) \<and> prefix (node_log s) (cs_plog g (node_round s))) \<and>
     node_decided s \<le> length (node_log s) \<and> cs_committed (cpair C) g (node_round s) (decided_log s)"

text \<open>The log a leader adopts: where it comes from and how it gets it.\<close>

definition max_ok :: "cluster_config \<Rightarrow> 'e consensus \<Rightarrow> ('e, 's) sequence_paxos \<Rightarrow> bool" where
  "max_ok C g s \<longleftrightarrow>
     (let l = sp_leader s; r = pmd_n_accepted (max_promise_meta l); k = pmd_accepted_idx (max_promise_meta l)
      in max_promise_inv l \<and> known C r \<and> \<not> r < node_round s \<and> (r = node_round s \<longrightarrow> length (node_log s) \<le> k) \<and>
         (r = default_ballot \<and> k = 0 \<or> (\<exists>q \<in> set (nodes C). \<exists>d. promise_ok C g (node_promise s) q r k d)) \<and>
         (case max_promise_sync l of
            None \<Rightarrow> node_log s = take k (cs_plog g r)
          | Some y \<Rightarrow> sync_to (node_log s) y (take k (cs_plog g r))))"

definition prepare_ok :: "cluster_config \<Rightarrow> 'e consensus \<Rightarrow> positions \<Rightarrow> ('e, 's) sequence_paxos \<Rightarrow> bool" where
  "prepare_ok C g pos s \<longleftrightarrow>
     (let b = node_promise s; l = sp_leader s
      in cs_log g b = None \<and> max_ok C g s \<and>
         (\<forall>i < length (promises_meta l). \<forall>m. promises_meta l ! i = Promised m \<longrightarrow> Suc i \<in> set (nodes C) \<and>
            promise_ok C g b (Suc i) (pmd_n_accepted m) (pmd_accepted_idx m) (pmd_decided_idx m)))"

definition lead_ok :: "cluster_config \<Rightarrow> 'e consensus \<Rightarrow> positions \<Rightarrow> node_id \<Rightarrow> ('e, 's) sequence_paxos \<Rightarrow> bool" where
  "lead_ok C g pos p s \<longleftrightarrow>
     (let b = node_promise s; l = sp_leader s; mm = max_promise_meta l
      in node_round s = b \<and> cs_log g b = Some (node_log s) \<and>
         (\<forall>i < length (promises_meta l). is_promised (promises_meta l ! i) \<longrightarrow> Suc i \<noteq> p \<longrightarrow> Suc i \<in> set (nodes C) \<and>
            i < length (follower_seq_nums l) \<and> pos b (Suc i) (follower_seq_nums l ! i) = Some (length (node_log s))) \<and>
         (\<forall>q n k. pos b q n = Some k \<longrightarrow> 0 < q \<and> q - 1 < length (follower_seq_nums l) \<and>
            n \<le> follower_seq_nums l ! (q - 1)) \<and>
         known C (pmd_n_accepted mm) \<and> pmd_accepted_idx mm \<le> cs_base g b \<and> pmd_n_accepted mm < b \<and>
         take (pmd_accepted_idx mm) (cs_plog g (pmd_n_accepted mm)) = take (pmd_accepted_idx mm) (node_log s))"

definition own_pids :: "('e, 's) leader_state \<Rightarrow> bool" where
  "own_pids l \<longleftrightarrow> (\<forall>i < length (promises_meta l). \<forall>m. promises_meta l ! i = Promised m \<longrightarrow> pmd_pid m = Suc i)"

definition leader_ok :: "cluster_config \<Rightarrow> 'e consensus \<Rightarrow> positions \<Rightarrow> node_id \<Rightarrow> ('e, 's) sequence_paxos \<Rightarrow> bool" where
  "leader_ok C g pos p s \<longleftrightarrow>
     (let b = node_promise s; l = sp_leader s
      in (fst (sp_state s) = LeaderRole \<longrightarrow>
           n_leader l = b \<and> leads C g p b \<and> own_pids l \<and>
           (\<forall>i < length (accepted_indexes l). accepted_indexes l ! i = 0 \<or> Suc i \<in> set (nodes C) \<and>
              (\<exists>j. cs_acc g (Suc i) b = Some j \<and> accepted_indexes l ! i \<le> j))) \<and>
         (sp_state s = (LeaderRole, PhasePrepare) \<longrightarrow> prepare_ok C g pos s) \<and>
         (sp_state s = (LeaderRole, PhaseAccept) \<longrightarrow> lead_ok C g pos p s))"

definition follower_ok :: "cluster_config \<Rightarrow> 'e consensus \<Rightarrow> positions \<Rightarrow> node_id \<Rightarrow> ('e, 's) sequence_paxos \<Rightarrow> bool" where
  "follower_ok C g pos p s \<longleftrightarrow>
     (sp_state s = (FollowerRole, PhaseAccept) \<longrightarrow> ballot_pid (node_promise s) \<noteq> p \<longrightarrow>
        node_round s = node_promise s \<and>
        pos (node_promise s) p (current_seq_num s) = Some (length (node_log s)))"

text \<open>A promise kept for retransmission is as good as one in transit.\<close>

definition cached_ok :: "cluster_config \<Rightarrow> 'e consensus \<Rightarrow> (node_id \<Rightarrow> ('e, 's) sequence_paxos) \<Rightarrow> node_id \<Rightarrow> bool" where
  "cached_ok C g \<sigma> p \<longleftrightarrow>
     (\<forall>x. cached_promise_message (\<sigma> p) = Some x \<longrightarrow> prom_msg_ok C g (\<sigma> (ballot_pid (prom_n x))) p (ballot_pid (prom_n x)) x)"

definition node_ok :: "cluster_config \<Rightarrow> 'e consensus \<Rightarrow> positions \<Rightarrow> node_id \<Rightarrow> ('e, 's) sequence_paxos \<Rightarrow> bool" where
  "node_ok C g pos p s \<longleftrightarrow> plain_node C p s \<and> data_ok C g p s \<and> leader_ok C g pos p s \<and> follower_ok C g pos p s"

definition cluster_ok :: "cluster_config \<Rightarrow> 'e consensus \<Rightarrow> positions \<Rightarrow> ('e, 's) cluster \<Rightarrow> bool" where
  "cluster_ok C g pos c \<longleftrightarrow> cs_inv (cpair C) g \<and> pos_ok g pos \<and>
     (\<forall>p \<in> set (nodes C). node_ok C g pos p (cl_nodes c p) \<and> cached_ok C g (cl_nodes c) p) \<and>
     (\<forall>p \<in> set (nodes C). \<forall>q \<in> set (nodes C). link_ok g pos q (cl_links c p q) \<and>
        (\<forall>m \<in> set (cl_links c p q). msg_ok C g pos (cl_nodes c) p q m))"

end
