(* ===== verification/Cluster_Frame.thy ===== *)
theory Cluster_Frame
  imports Cluster_Inv
begin

text \<open>
  What a call on one node leaves alone: the promises, messages and nodes of the relation keep
  their meaning when the consensus advances, so a call only has to account for its own node and
  the messages it sends (\<open>post_ok\<close>).
\<close>

subsection \<open>Advancing the consensus\<close>

lemma plog_take: "cs_le g g' \<Longrightarrow> k \<le> length (cs_plog g r) \<Longrightarrow> take k (cs_plog g' r) = take k (cs_plog g r)"
  using cs_le_plog [of g g' r] by (auto simp: prefix_def)

lemma acc_plog: "cs_inv cp g \<Longrightarrow> cs_acc g q r = Some j \<Longrightarrow> j \<le> length (cs_plog g r)"
  using cs_invD(3) by (fastforce simp: cs_plog_def)

lemma promise_len: "cs_inv cp g \<Longrightarrow> promise_ok C g b q r k d \<Longrightarrow> k \<le> length (cs_plog g r)"
  using acc_plog [of cp g q r] unfolding promise_ok_def
  by (auto split: if_splits option.splits intro: order_trans)

lemma known_less: "known C r \<Longrightarrow> known C b \<Longrightarrow> r \<le> b \<Longrightarrow> r \<noteq> b \<Longrightarrow> r < b"
  using known_eq ballot_not_le by blast

lemma promise_ok_le:
  assumes inv: "cs_inv (cpair C) g" and le: "cs_le g g'" and p: "promise_ok C g b q r k d" and b: "known C b"
  shows "promise_ok C g' b q r k d"
proof -
  have d: "take d (cs_plog g' r) = take d (cs_plog g r)"
    using plog_take [OF le] promise_len [OF inv p] p unfolding promise_ok_def by (meson order_trans)
  have frz: "cs_acc g' q b' = cs_acc g q b'" if "b' < b" for b'
    using cs_leD(3) [OF le] p that unfolding promise_ok_def by (meson less_le_trans)
  have prom: "b \<le> cs_prom g' q" using cs_leD(1) [OF le] p unfolding promise_ok_def by (meson order_trans)
  have com: "cs_committed (cpair C) g' r (take d (cs_plog g' r))"
    unfolding d using cs_le_committed [OF le _ order_refl] p unfolding promise_ok_def by blast
  show ?thesis
  proof (cases "r = b")
    case True
    then obtain j where "cs_acc g q b = Some j" "k \<le> j" using p unfolding promise_ok_def by auto
    then have "\<exists>j. cs_acc g' q b = Some j \<and> k \<le> j" using cs_leD(2) [OF le] by (meson order_trans)
    then show ?thesis using p prom com True unfolding promise_ok_def by simp
  next
    case False
    then have "r < b" using p b known_less unfolding promise_ok_def by blast
    then show ?thesis using p prom com frz False unfolding promise_ok_def by (simp split: option.splits)
  qed
qed

lemma leads_le: "cs_le g g' \<Longrightarrow> leads C g p b \<Longrightarrow> leads C g' p b"
  unfolding leads_def using cs_leD(1) by (meson order_trans)

lemma leads_known: "leads C g p b \<Longrightarrow> known C b"
  by (simp add: leads_def)

lemma accepts_from_le:
  assumes "cs_le g g'" "accepts_from C g p q b L d k" "k \<le> length L"
  obtains L' where "accepts_from C g' p q b L' d k" "prefix L L'"
proof -
  have a: "leads C g p b" "p \<noteq> q" "cs_log g b = Some L" "d \<le> k" "cs_committed (cpair C) g b (take d L)"
    using assms(2) by (simp_all add: accepts_from_def)
  obtain L' where L': "cs_log g' b = Some L'" "prefix L L'" using cs_leD(4) [OF assms(1) a(3)] by blast
  have "take d L' = take d L" using L'(2) a(4) assms(3) by (auto simp: prefix_def)
  then have "accepts_from C g' p q b L' d k"
    using leads_le [OF assms(1) a(1)] a(2,4) L'(1) cs_le_committed [OF assms(1) a(5)] by (simp add: accepts_from_def)
  then show thesis using that L'(2) by blast
qed

lemma take_prefix_eq: "prefix L L' \<Longrightarrow> k \<le> length L \<Longrightarrow> take k L' = take k L"
  by (auto simp: prefix_def)

subsection \<open>A call on one node\<close>

definition acts :: "cluster_config \<Rightarrow> node_id \<Rightarrow> 'e consensus \<Rightarrow> 'e consensus \<Rightarrow> positions \<Rightarrow> positions \<Rightarrow> bool" where
  "acts C p g g' pos pos' \<longleftrightarrow> (cs_step (cpair C))\<^sup>*\<^sup>* g g' \<and>
     (\<forall>q. q \<noteq> p \<longrightarrow> cs_prom g' q = cs_prom g q \<and> cs_acc g' q = cs_acc g q) \<and>
     (\<forall>b. ballot_pid b \<noteq> p \<longrightarrow> cs_log g' b = cs_log g b \<and> cs_base g' b = cs_base g b \<and> pos' b = pos b) \<and>
     (\<forall>b q n k. pos b q n = Some k \<longrightarrow> pos' b q n = Some k)"

text \<open>The node stays the preparing leader it was, and keeps its log until it accepts another.\<close>

definition stays :: "'e consensus \<Rightarrow> 'e consensus \<Rightarrow> node_id \<Rightarrow> ('e, 's) sequence_paxos \<Rightarrow> ('e, 's) sequence_paxos \<Rightarrow> bool" where
  "stays g g' p s t \<longleftrightarrow>
     (\<forall>b. b \<le> cs_prom g p \<longrightarrow> preparing b t \<longrightarrow>
        preparing b s \<and> node_round t = node_round s \<and> node_log t = node_log s \<and> node_decided t = node_decided s) \<and>
     (\<forall>b. b \<le> cs_prom g p \<longrightarrow> cs_prom g' p = b \<longrightarrow> cs_acc g' p b = None \<longrightarrow>
        cs_prom g p = b \<and> cs_acc g p b = None \<and> node_log t = node_log s)"

lemma staysD:
  assumes "stays g g' p s t" "b \<le> cs_prom g p"
  shows "preparing b t \<Longrightarrow> preparing b s" "preparing b t \<Longrightarrow> node_round t = node_round s"
    "preparing b t \<Longrightarrow> node_log t = node_log s" "preparing b t \<Longrightarrow> node_decided t = node_decided s"
    "cs_prom g' p = b \<Longrightarrow> cs_acc g' p b = None \<Longrightarrow> cs_prom g p = b"
    "cs_prom g' p = b \<Longrightarrow> cs_acc g' p b = None \<Longrightarrow> cs_acc g p b = None"
    "cs_prom g' p = b \<Longrightarrow> cs_acc g' p b = None \<Longrightarrow> node_log t = node_log s"
proof -
  note d = assms(1) [unfolded stays_def]
  show "preparing b t \<Longrightarrow> preparing b s" "preparing b t \<Longrightarrow> node_round t = node_round s"
    "preparing b t \<Longrightarrow> node_log t = node_log s" "preparing b t \<Longrightarrow> node_decided t = node_decided s"
    using spec [OF conjunct1 [OF d], of b] assms(2) by simp_all
  show "cs_prom g' p = b \<Longrightarrow> cs_acc g' p b = None \<Longrightarrow> cs_prom g p = b"
    "cs_prom g' p = b \<Longrightarrow> cs_acc g' p b = None \<Longrightarrow> cs_acc g p b = None"
    "cs_prom g' p = b \<Longrightarrow> cs_acc g' p b = None \<Longrightarrow> node_log t = node_log s"
    using spec [OF conjunct2 [OF d], of b] assms(2) by simp_all
qed

lemma actsD:
  assumes "acts C p g g' pos pos'"
  shows "cs_le g g'" "q \<noteq> p \<Longrightarrow> cs_prom g' q = cs_prom g q" "q \<noteq> p \<Longrightarrow> cs_acc g' q = cs_acc g q"
    "ballot_pid b \<noteq> p \<Longrightarrow> cs_log g' b = cs_log g b" "ballot_pid b \<noteq> p \<Longrightarrow> cs_base g' b = cs_base g b"
    "ballot_pid b \<noteq> p \<Longrightarrow> pos' b = pos b" "pos b r n = Some k \<Longrightarrow> pos' b r n = Some k"
proof -
  note d = assms [unfolded acts_def]
  show "cs_le g g'" by (rule cs_steps_le [OF conjunct1 [OF d]])
  note d' = conjunct2 [OF d]
  show "q \<noteq> p \<Longrightarrow> cs_prom g' q = cs_prom g q" "q \<noteq> p \<Longrightarrow> cs_acc g' q = cs_acc g q"
    using conjunct1 [OF d'] by simp_all
  note d'' = conjunct2 [OF d']
  show "ballot_pid b \<noteq> p \<Longrightarrow> cs_log g' b = cs_log g b" "ballot_pid b \<noteq> p \<Longrightarrow> cs_base g' b = cs_base g b"
    "ballot_pid b \<noteq> p \<Longrightarrow> pos' b = pos b"
    using conjunct1 [OF d''] by simp_all
  show "pos b r n = Some k \<Longrightarrow> pos' b r n = Some k" using conjunct2 [OF d''] by simp
qed

text \<open>The setting of a call on node \<open>p\<close>, which leaves it as \<open>t\<close>.\<close>

definition call :: "cluster_config \<Rightarrow> node_id \<Rightarrow> 'e consensus \<Rightarrow> 'e consensus \<Rightarrow> positions \<Rightarrow> positions \<Rightarrow>
    (node_id \<Rightarrow> ('e, 's) sequence_paxos) \<Rightarrow> ('e, 's) sequence_paxos \<Rightarrow> bool" where
  "call C p g g' pos pos' \<sigma> t \<longleftrightarrow>
     cs_inv (cpair C) g \<and> pos_ok g pos \<and> acts C p g g' pos pos' \<and> stays g g' p (\<sigma> p) t"

lemma callD:
  assumes "call C p g g' pos pos' \<sigma> t"
  shows "cs_inv (cpair C) g" "pos_ok g pos" "acts C p g g' pos pos'" "stays g g' p (\<sigma> p) t"
  using assms by (simp_all add: call_def)

lemma brings_log_acts:
  assumes c: "call C p g g' pos pos' \<sigma> t" and "prom_msg_ok C g (\<sigma> r) q r x"
  shows "prom_msg_ok C g' ((\<sigma>(p := t)) r) q r x"
proof -
  note inv = callD(1) [OF c] and pos = callD(2) [OF c] and a = callD(3) [OF c] and st = callD(4) [OF c]
  let ?b = "prom_n x"
  have l: "leads C g r ?b" and pr: "promise_ok C g ?b q (prom_n_accepted x) (prom_accepted_idx x) (prom_decided_idx x)"
    and u: "prom_log_unsync x = Some []" "q \<noteq> r" and br: "preparing ?b (\<sigma> r) \<Longrightarrow> brings_log g (\<sigma> r) x"
    using assms by (simp_all add: prom_msg_ok_def)
  have plog: "take (prom_accepted_idx x) (cs_plog g' (prom_n_accepted x))
      = take (prom_accepted_idx x) (cs_plog g (prom_n_accepted x))"
    by (rule plog_take [OF actsD(1) [OF a] promise_len [OF inv pr]])
  have "brings_log g' ((\<sigma>(p := t)) r) x" if prep: "preparing ?b ((\<sigma>(p := t)) r)"
  proof (cases "r = p")
    case True
    then have b: "?b \<le> cs_prom g p" "preparing ?b t" using l prep by (simp_all add: leads_def)
    note staysD(1-3) [OF st b]
    then show ?thesis using br True plog by (simp add: brings_log_def split: option.splits)
  next
    case False
    then show ?thesis using br prep plog by (simp add: brings_log_def split: option.splits)
  qed
  then show ?thesis
    using leads_le [OF actsD(1) [OF a] l] promise_ok_le [OF inv actsD(1) [OF a] pr leads_known [OF l]] u
    by (simp add: prom_msg_ok_def)
qed

lemma follows_acts:
  assumes c: "call C p g g' pos pos' \<sigma> t" and "follows C g pos q r b sq d L k k'"
  obtains L' where "follows C g' pos' q r b sq d L' k k'" "take k' L' = take k' L"
proof -
  note inv = callD(1) [OF c] and pos = callD(2) [OF c] and a = callD(3) [OF c] and st = callD(4) [OF c]
  have L: "accepts_from C g q r b L d k'" and y: "pos b r sq = Some k'"
    using assms by (simp_all add: follows_def)
  have kl: "k' \<le> length L" using pos y L unfolding pos_ok_def accepts_from_def by fastforce
  obtain L' where L': "accepts_from C g' q r b L' d k'" "prefix L L'"
    using accepts_from_le [OF actsD(1) [OF a] L kl] .
  have "follows C g' pos' q r b sq d L' k k'"
    using assms L'(1) actsD(7) [OF a] unfolding follows_def by blast
  then show thesis using that take_prefix_eq [OF L'(2) kl] by blast
qed

lemma msg_ok_acts:
  assumes c: "call C p g g' pos pos' \<sigma> t" and m: "msg_ok C g pos \<sigma> q r m"
  shows "msg_ok C g' pos' (\<sigma>(p := t)) q r m"
proof -
  note inv = callD(1) [OF c] and pos = callD(2) [OF c] and a = callD(3) [OF c] and st = callD(4) [OF c]
  show ?thesis
  proof (cases m)
  case (Prepare x)
  then have l: "leads C g q (prep_n x)" "q \<noteq> r" and own: "preparing (prep_n x) (\<sigma> q) \<Longrightarrow>
      prep_n_accepted x = node_round (\<sigma> q) \<and> prep_accepted_idx x = length (node_log (\<sigma> q)) \<and>
      prep_decided_idx x = node_decided (\<sigma> q)"
    using m by simp_all
  have "prep_n_accepted x = node_round ((\<sigma>(p := t)) q) \<and> prep_accepted_idx x = length (node_log ((\<sigma>(p := t)) q)) \<and>
      prep_decided_idx x = node_decided ((\<sigma>(p := t)) q)" if prep: "preparing (prep_n x) ((\<sigma>(p := t)) q)"
  proof (cases "q = p")
    case True
    then have b: "prep_n x \<le> cs_prom g p" "preparing (prep_n x) t" using l prep by (simp_all add: leads_def)
    note staysD(1-4) [OF st b]
    then show ?thesis using own True by simp
  qed (use own prep in simp)
  then show ?thesis using leads_le [OF actsD(1) [OF a] l(1)] l(2) Prepare by simp
next
  case (Promise x)
  then show ?thesis using brings_log_acts [OF c, of r q x] m by simp
next
  case (AcceptSync x)
  let ?b = "as_n x" and ?y = "as_log_sync x"
  let ?i = "ls_sync_idx ?y"
  let ?k = "?i + length (ls_suffix ?y)"
  obtain L where ok: "accsync_ok C g pos (\<sigma> r) q r x L" using m AcceptSync by auto
  have L: "accepts_from C g q r ?b L (as_decided_idx x) ?k"
    and y: "ls_decided_snapshot ?y = None" "ls_stopsign ?y = None" "pos ?b r (as_seq_num x) = Some ?k"
      "ls_suffix ?y = drop ?i (take ?k L)" "?b \<le> cs_prom g r"
    and i: "?i \<le> cs_base g ?b \<or> (\<exists>j. cs_acc g r ?b = Some j \<and> ?i \<le> j)"
    and own: "cs_prom g r = ?b \<Longrightarrow> cs_acc g r ?b = None \<Longrightarrow> ?i \<le> length (node_log (\<sigma> r)) \<and>
       take ?i (node_log (\<sigma> r)) = take ?i L"
    using ok unfolding accsync_ok_def Let_def by blast+
  have lg: "cs_log g ?b = Some L" using L by (simp add: accepts_from_def)
  have kl: "?k \<le> length L" using pos y(3) lg unfolding pos_ok_def by fastforce
  obtain L' where L': "accepts_from C g' q r ?b L' (as_decided_idx x) ?k" "prefix L L'"
    using accepts_from_le [OF actsD(1) [OF a] L kl] .
  have tk: "take ?k L' = take ?k L" "take ?i L' = take ?i L"
    using take_prefix_eq [OF L'(2)] kl by auto
  have i': "?i \<le> cs_base g' ?b \<or> (\<exists>j. cs_acc g' r ?b = Some j \<and> ?i \<le> j)"
    using i cs_leD(2,5) [OF actsD(1) [OF a]] lg by (metis order_trans)
  have b': "?b \<le> cs_prom g' r" using y(5) cs_leD(1) [OF actsD(1) [OF a]] by (meson order_trans)
  have own': "?i \<le> length (node_log ((\<sigma>(p := t)) r)) \<and> take ?i (node_log ((\<sigma>(p := t)) r)) = take ?i L'"
    if n: "cs_prom g' r = ?b" "cs_acc g' r ?b = None"
  proof (cases "r = p")
    case True
    then have "?b \<le> cs_prom g p" using y(5) by simp
    from staysD(5-7) [OF st this] n True
    have "cs_prom g p = ?b" "cs_acc g p ?b = None" "node_log t = node_log (\<sigma> p)" by simp_all
    then show ?thesis using own True tk by simp
  next
    case False
    then show ?thesis using own n actsD(2,3) [OF a] tk by simp
  qed
  have "accsync_ok C g' pos' ((\<sigma>(p := t)) r) q r x L'"
    unfolding accsync_ok_def Let_def using L'(1) y(1,2,4) actsD(7) [OF a y(3)] tk(1) i' b' own'
    by (intro conjI impI) simp_all
  then show ?thesis using AcceptSync by auto
next
  case (AcceptDecide x)
  then obtain L k where f: "follows C g pos q r (ad_n x) (ad_seq_num x) (ad_decided_idx x) L k (k + length (ad_entries x))"
     and y: "ad_entries x = drop k (take (k + length (ad_entries x)) L)"
    using m by (simp only: msg_ok.simps) blast
  obtain L' where L': "follows C g' pos' q r (ad_n x) (ad_seq_num x) (ad_decided_idx x) L' k (k + length (ad_entries x))"
    "take (k + length (ad_entries x)) L' = take (k + length (ad_entries x)) L"
    using follows_acts [OF c f] .
  then have "ad_entries x = drop k (take (k + length (ad_entries x)) L')" using y by simp
  then show ?thesis using AcceptDecide L'(1) by (simp only: msg_ok.simps) blast
next
  case (Decide x)
  then obtain L k where f: "follows C g pos q r (dec_n x) (dec_seq_num x) (dec_decided_idx x) L k k"
    using m by (simp only: msg_ok.simps) blast
  obtain L' where L': "follows C g' pos' q r (dec_n x) (dec_seq_num x) (dec_decided_idx x) L' k k"
    using follows_acts [OF c f] .
  then show ?thesis using Decide by (simp only: msg_ok.simps) blast
next
  case (Accepted x)
  then show ?thesis using m cs_leD(2) [OF actsD(1) [OF a]] by (simp only: msg_ok.simps) (meson order_trans)
qed (use m in simp_all)
qed

lemma max_ok_acts:
  assumes c: "call C p g g' pos pos' \<sigma> t" and m: "max_ok C g s" and k: "known C (node_promise s)"
  shows "max_ok C g' s"
proof -
  note inv = callD(1) [OF c] and pos = callD(2) [OF c] and a = callD(3) [OF c] and st = callD(4) [OF c]
  let ?mm = "max_promise_meta (sp_leader s)"
  let ?r = "pmd_n_accepted ?mm" and ?k = "pmd_accepted_idx ?mm"
  note d = m [unfolded max_ok_def Let_def]
  have src: "?r = default_ballot \<and> ?k = 0 \<or> (\<exists>q \<in> set (nodes C). \<exists>d. promise_ok C g (node_promise s) q ?r ?k d)"
    using d by blast
  then have len: "?k \<le> length (cs_plog g ?r)" using promise_len [OF inv] by fastforce
  have src': "?r = default_ballot \<and> ?k = 0 \<or> (\<exists>q \<in> set (nodes C). \<exists>d. promise_ok C g' (node_promise s) q ?r ?k d)"
    using src promise_ok_le [OF inv actsD(1) [OF a] _ k] by blast
  show ?thesis unfolding max_ok_def Let_def plog_take [OF actsD(1) [OF a] len] using d src' by blast
qed

lemma leader_ok_acts:
  assumes c: "call C p g g' pos pos' \<sigma> t" and l: "leader_ok C g pos q s" and q: "q \<noteq> p" and k: "known C (node_promise s)"
  shows "leader_ok C g' pos' q s"
proof -
  note inv = callD(1) [OF c] and pos = callD(2) [OF c] and a = callD(3) [OF c] and st = callD(4) [OF c]
  let ?b = "node_promise s" and ?l = "sp_leader s"
  note d = l [unfolded leader_ok_def Let_def]
  have ld: "n_leader ?l = ?b \<and> leads C g' q ?b \<and> own_pids ?l \<and> (\<forall>i < length (accepted_indexes ?l). accepted_indexes ?l ! i = 0 \<or>
      Suc i \<in> set (nodes C) \<and> (\<exists>j. cs_acc g' (Suc i) ?b = Some j \<and> accepted_indexes ?l ! i \<le> j))"
    if "fst (sp_state s) = LeaderRole"
    using d that leads_le [OF actsD(1) [OF a]] cs_leD(2) [OF actsD(1) [OF a]] by (meson order_trans)
  have same: "cs_log g' ?b = cs_log g ?b" "cs_base g' ?b = cs_base g ?b" "pos' ?b = pos ?b"
    if "fst (sp_state s) = LeaderRole"
    using d that q actsD(4-6) [OF a, of ?b] unfolding leads_def by auto
  have prep: "prepare_ok C g' pos' s" if st: "sp_state s = (LeaderRole, PhasePrepare)"
  proof -
    have p: "prepare_ok C g pos s" using d st by blast
    show ?thesis
      using p same(1) st max_ok_acts [OF c _ k] promise_ok_le [OF inv actsD(1) [OF a] _ k]
      unfolding prepare_ok_def Let_def by auto
  qed
  have lead: "lead_ok C g' pos' q s" if st: "sp_state s = (LeaderRole, PhaseAccept)"
  proof -
    have p: "lead_ok C g pos q s" using d st by blast
    let ?k = "pmd_accepted_idx (max_promise_meta ?l)" and ?r = "pmd_n_accepted (max_promise_meta ?l)"
    have L: "cs_log g ?b = Some (node_log s)" "?k \<le> cs_base g ?b" "take ?k (cs_plog g ?r) = take ?k (node_log s)"
      using p by (simp_all add: lead_ok_def Let_def)
    have "?k \<le> length (node_log s)" using cs_invD(4) [OF inv L(1)] L(2) by simp
    then have "?k \<le> length (cs_plog g ?r)" using L(3) by (metis length_take min.absorb2 min.cobounded1)
    from plog_take [OF actsD(1) [OF a] this] show ?thesis
      using p same st unfolding lead_ok_def Let_def by simp
  qed
  show ?thesis unfolding leader_ok_def Let_def using ld prep lead by blast
qed

lemma data_ok_other:
  assumes a: "acts C p g g' pos pos'" and "data_ok C g q s" "q \<noteq> p"
  shows "data_ok C g' q s"
proof -
  note d = assms(2) [unfolded data_ok_def]
  have "prefix (node_log s) (cs_plog g (node_round s)) \<Longrightarrow> prefix (node_log s) (cs_plog g' (node_round s))"
    using cs_le_plog [OF actsD(1) [OF a]] prefix_order.trans by blast
  then show ?thesis
    using d actsD(2,3) [OF a assms(3)] cs_le_committed [OF actsD(1) [OF a] _ order_refl]
    unfolding data_ok_def by (auto split: option.splits)
qed

lemmas data_ok_acts = data_ok_other [OF callD(3)]

lemma node_ok_acts:
  assumes c: "call C p g g' pos pos' \<sigma> t" and "node_ok C g pos q s" "q \<noteq> p"
  shows "node_ok C g' pos' q s"
  using assms data_ok_acts [OF c] leader_ok_acts [OF c] actsD(7) [OF callD(3) [OF c]]
  unfolding node_ok_def follower_ok_def by (metis data_ok_def)

lemma cached_ok_acts:
  assumes c: "call C p g g' pos pos' \<sigma> t" and "cached_ok C g \<sigma> q" "q \<noteq> p"
  shows "cached_ok C g' (\<sigma>(p := t)) q"
  using assms brings_log_acts [OF c] unfolding cached_ok_def by auto

lemma msg_pos_acts:
  assumes c: "call C p g g' pos pos' \<sigma> t" and "msg_ok C g pos \<sigma> q r m"
  shows "msg_pos pos' r m = msg_pos pos r m"
proof -
  note inv = callD(1) [OF c] and pos = callD(2) [OF c] and a = callD(3) [OF c] and st = callD(4) [OF c]
  show ?thesis
  proof (cases m)
  case (AcceptSync x)
  then obtain k where "pos (as_n x) r (as_seq_num x) = Some k" using assms by (auto simp: accsync_ok_def Let_def)
  with actsD(7) [OF a this] show ?thesis by (simp add: AcceptSync msg_pos_def)
next
  case (AcceptDecide x)
  then obtain k where "pos (ad_n x) r (ad_seq_num x) = Some k" using assms by (auto simp: follows_def)
  with actsD(7) [OF a this] show ?thesis by (simp add: AcceptDecide msg_pos_def)
next
  case (Decide x)
  then obtain k where "pos (dec_n x) r (dec_seq_num x) = Some k" using assms by (auto simp: follows_def)
  with actsD(7) [OF a this] show ?thesis by (simp add: Decide msg_pos_def)
qed (simp_all add: msg_pos_def)
qed

lemma msg_pos_leads:
  assumes "msg_ok C g pos \<sigma> q r m" "msg_pos pos r m = Some (b, k)"
  shows "ballot_pid b = q" "q \<noteq> r" "known C b" "default_ballot < b"
proof -
  have "\<exists>L d k. accepts_from C g q r b L d k"
  proof (cases m)
    case (AcceptSync x)
    then obtain L where "accsync_ok C g pos (\<sigma> r) q r x L" "b = as_n x" using assms by (auto simp: msg_pos_def)
    then show ?thesis unfolding accsync_ok_def Let_def by blast
  next
    case (AcceptDecide x)
    then show ?thesis using assms by (simp add: msg_pos_def follows_def) blast
  next
    case (Decide x)
    then show ?thesis using assms by (simp add: msg_pos_def follows_def) blast
  qed (use assms(2) in \<open>simp_all add: msg_pos_def\<close>)
  then show "ballot_pid b = q" "q \<noteq> r" "known C b" "default_ballot < b" by (auto simp: accepts_from_def leads_def)
qed

lemma msgs_to_simps [simp]:
  "msgs_to q [] = []" "msgs_to q (xs @ ys) = msgs_to q xs @ msgs_to q ys"
  "msgs_to q (SequencePaxos x # ms) = (if pm_to x = q then pm_msg x # msgs_to q ms else msgs_to q ms)"
  by (simp_all add: msgs_to_def)

text \<open>What a call sends to a node: messages that are right when they leave, the accept messages at
  the end of the leader's log.\<close>

definition sends_ok :: "cluster_config \<Rightarrow> 'e consensus \<Rightarrow> positions \<Rightarrow> (node_id \<Rightarrow> ('e, 's) sequence_paxos) \<Rightarrow>
    node_id \<Rightarrow> ('e, 's) message list \<Rightarrow> bool" where
  "sends_ok C g pos \<sigma> p ms \<longleftrightarrow> (\<forall>q \<in> set (nodes C). \<forall>m \<in> set (msgs_to q ms). msg_ok C g pos \<sigma> p q m \<and>
     (\<forall>b k. msg_pos pos q m = Some (b, k) \<longrightarrow> (\<exists>L. cs_log g b = Some L \<and> k = length L)))"

definition raises_ok :: "cluster_config \<Rightarrow> node_id \<Rightarrow> 'e consensus \<Rightarrow> 'e consensus \<Rightarrow> positions \<Rightarrow> ('e, 's) cluster \<Rightarrow> bool" where
  "raises_ok C p g g' pos c \<longleftrightarrow> (\<forall>b j. cs_acc g' p b = Some j \<longrightarrow> cs_acc g p b = Some j \<or> ballot_pid b = p \<or>
     (\<forall>r \<in> set (nodes C). \<forall>m \<in> set (cl_links c r p). \<forall>k. msg_pos pos p m = Some (b, k) \<longrightarrow> j \<le> k))"

definition taken :: "('e, 's) sequence_paxos \<Rightarrow> ('e, 's) sequence_paxos" where
  "taken s = snd (take_outgoing_msgs [] s)"

lemma post_sel:
  "cl_nodes (post p s c) = (cl_nodes c)(p := taken s)"
  "cl_links (post p s c) a b = (if a = p then cl_links c a b @ msgs_to b (outgoing s) else cl_links c a b)"
  by (simp_all add: post_def taken_def take_outgoing_msgs_def)

lemma sorted_wrt_all: "(\<And>x y. y \<in> set xs \<Longrightarrow> P x y) \<Longrightarrow> sorted_wrt P xs"
  by (induction xs) simp_all

lemma post_ok:
  assumes ok: "cluster_ok C g pos c" and p: "p \<in> set (nodes C)" and v: "valid_server (cpair C)"
    and a: "acts C p g g' pos pos'" and pos': "pos_ok g' pos'"
    and st: "stays g g' p (cl_nodes c p) (taken s)" and node: "node_ok C g' pos' p (taken s)"
    and cached: "cached_ok C g' ((cl_nodes c)(p := taken s)) p"
    and raises: "raises_ok C p g g' pos c"
    and sends: "sends_ok C g' pos' ((cl_nodes c)(p := taken s)) p (outgoing s)"
  shows "cluster_ok C g' pos' (post p s c)"
proof -
  let ?\<sigma> = "(cl_nodes c)(p := taken s)"
  have inv: "cs_inv (cpair C) g" and pos: "pos_ok g pos" using ok by (simp_all add: cluster_ok_def)
  have cc: "call C p g g' pos pos' (cl_nodes c) (taken s)" using inv pos a st by (simp add: call_def)
  have inv': "cs_inv (cpair C) g'" using cs_steps_inv [OF _ inv v] a by (simp add: acts_def)
  have nodes: "node_ok C g' pos' q (?\<sigma> q) \<and> cached_ok C g' ?\<sigma> q" if "q \<in> set (nodes C)" for q
  proof (cases "q = p")
    case False
    then show ?thesis
      using ok that node_ok_acts [OF cc, of q "cl_nodes c q"] cached_ok_acts [OF cc, of q]
      by (simp add: cluster_ok_def)
  qed (use node cached in simp)
  have old: "msg_ok C g' pos' ?\<sigma> r q m" "msg_pos pos' q m = msg_pos pos q m"
    if "r \<in> set (nodes C)" "q \<in> set (nodes C)" "m \<in> set (cl_links c r q)" for r q m
  proof -
    have "msg_ok C g pos (cl_nodes c) r q m" using ok that by (simp add: cluster_ok_def)
    then show "msg_ok C g' pos' ?\<sigma> r q m" "msg_pos pos' q m = msg_pos pos q m"
      by (rule msg_ok_acts [OF cc], rule msg_pos_acts [OF cc])
  qed
  have oldpos: "j \<le> k" if rq: "r \<in> set (nodes C)" "q \<in> set (nodes C)" "m \<in> set (cl_links c r q)"
      and m: "msg_pos pos q m = Some (b, k)" and j: "cs_acc g' q b = Some j" for r q m b k j
  proof -
    have lk: "cs_acc g q b = Some j' \<Longrightarrow> j' \<le> k" for j'
      using ok rq m unfolding cluster_ok_def link_ok_def by blast
    have "msg_ok C g pos (cl_nodes c) r q m" using ok rq by (simp add: cluster_ok_def)
    note b = msg_pos_leads [OF this m]
    show ?thesis
    proof (cases "q = p")
      case True
      then show ?thesis using raises j lk b rq m unfolding raises_ok_def by blast
    next
      case False
      then show ?thesis using actsD(3) [OF a False] j lk by simp
    qed
  qed
  have new: "msg_ok C g' pos' ?\<sigma> p q m" "msg_pos pos' q m = Some (b, k) \<Longrightarrow> \<exists>L. cs_log g' b = Some L \<and> k = length L"
    if "q \<in> set (nodes C)" "m \<in> set (msgs_to q (outgoing s))" for q m b k
    using sends that unfolding sends_ok_def by blast+
  have top: "k \<le> k'" if "q \<in> set (nodes C)" "m \<in> set (msgs_to q (outgoing s))" "msg_pos pos' q m = Some (b, k')"
      "pos' b q n = Some k" for q m b k k' n
    using new(2) [OF that(1-3)] pos' that(4) unfolding pos_ok_def by fastforce
  have posn: "\<exists>n. pos' b q n = Some k" if "msg_pos pos' q m = Some (b, k)" for q m b k
    using that by (auto simp: msg_pos_def split: paxos_msg.splits)
  have link: "link_ok g' pos' q (cl_links (post p s c) r q) \<and>
      (\<forall>m \<in> set (cl_links (post p s c) r q). msg_ok C g' pos' ?\<sigma> r q m)"
    if rq: "r \<in> set (nodes C)" "q \<in> set (nodes C)" for r q
  proof -
    have srt: "sorted_wrt (before pos' q) (cl_links c r q)"
    proof (rule sorted_wrt_mono_rel)
      show "sorted_wrt (before pos q) (cl_links c r q)" using ok rq by (simp add: cluster_ok_def link_ok_def)
    qed (use old(2) [OF rq] in \<open>simp add: before_def\<close>)
    have base: "link_ok g' pos' q (cl_links c r q)"
      using srt oldpos [OF rq] old(2) [OF rq] unfolding link_ok_def by auto
    show ?thesis
    proof (cases "r = p")
      case True
      let ?ms = "msgs_to q (outgoing s)"
      have b: "before pos' q m m'" if "m' \<in> set ?ms" for m m'
        unfolding before_def using top [OF rq(2) that] posn [of q m] by blast
      have "sorted_wrt (before pos' q) (cl_links c r q @ ?ms)"
        using srt b sorted_wrt_all [of ?ms "before pos' q"] by (simp add: sorted_wrt_append)
      moreover have "j \<le> k" if "m \<in> set ?ms" "msg_pos pos' q m = Some (b, k)" "cs_acc g' q b = Some j" for m b k j
        using new(2) [OF rq(2) that(1,2)] cs_invD(3) [OF inv' that(3)] by auto
      ultimately show ?thesis using base old(1) [OF rq] new(1) [OF rq(2)] True
        unfolding link_ok_def post_sel by auto
    next
      case False
      then show ?thesis using base old(1) [OF rq] by (simp add: post_sel)
    qed
  qed
  show ?thesis unfolding cluster_ok_def using inv' pos' nodes link by (simp add: post_sel(1))
qed

lemma sorted_wrt_removed: "sorted_wrt P (xs @ y # ys) \<Longrightarrow> sorted_wrt P (xs @ ys)"
  by (simp add: sorted_wrt_append)

lemma lose_ok:
  assumes "cluster_ok C g pos c" "cl_links c p q = ms @ m # ms'"
  shows "cluster_ok C g pos (set_link p q (ms @ ms') c)"
proof -
  have l: "link_ok g pos q (ms @ ms')" if "link_ok g pos q (ms @ m # ms')"
    using that sorted_wrt_removed unfolding link_ok_def by fastforce
  have s: "cl_links (set_link p q (ms @ ms') c) a b = (if a = p \<and> b = q then ms @ ms' else cl_links c a b)"
    "cl_nodes (set_link p q (ms @ ms') c) = cl_nodes c" for a b
    by (simp_all add: set_link_def)
  have "link_ok g pos b (cl_links (set_link p q (ms @ ms') c) a b) \<and>
      (\<forall>x \<in> set (cl_links (set_link p q (ms @ ms') c) a b). msg_ok C g pos (cl_nodes c) a b x)"
    if "a \<in> set (nodes C)" "b \<in> set (nodes C)" for a b
  proof -
    have "link_ok g pos b (cl_links c a b)" "\<forall>x \<in> set (cl_links c a b). msg_ok C g pos (cl_nodes c) a b x"
      using assms(1) that unfolding cluster_ok_def by blast+
    then show ?thesis using assms(2) l s(1) [of a b] by (cases "a = p \<and> b = q") auto
  qed
  then show ?thesis using assms(1) unfolding cluster_ok_def s(2) by blast
qed

end
