(* ===== verification/Cluster_Quiet.thy ===== *)
theory Cluster_Quiet
  imports Cluster_Frame
begin

text \<open>
  The calls that leave the logs and promises of a node alone: retransmissions, reconnections,
  rejected messages, lost promises and proposals.
\<close>

definition call_ok :: "cluster_config \<Rightarrow> 'e consensus \<Rightarrow> positions \<Rightarrow> ('e, 's) cluster \<Rightarrow> node_id \<Rightarrow>
    ('e, 's) sequence_paxos \<Rightarrow> 'e consensus \<Rightarrow> positions \<Rightarrow> bool" where
  "call_ok C g pos c p s g' pos' \<longleftrightarrow> acts C p g g' pos pos' \<and> pos_ok g' pos' \<and>
     stays g g' p (cl_nodes c p) (taken s) \<and> node_ok C g' pos' p (taken s) \<and>
     cached_ok C g' ((cl_nodes c)(p := taken s)) p \<and> raises_ok C p g g' pos c \<and>
     sends_ok C g' pos' ((cl_nodes c)(p := taken s)) p (outgoing s)"

lemma post_call_ok:
  "cluster_ok C g pos c \<Longrightarrow> p \<in> set (nodes C) \<Longrightarrow> valid_server (cpair C) \<Longrightarrow> call_ok C g pos c p s g' pos' \<Longrightarrow>
   cluster_ok C g' pos' (post p s c)"
  unfolding call_ok_def by (elim conjE) (rule post_ok)

lemma taken_sel [simp]:
  "sp_store (taken s) = sp_store s" "sp_state (taken s) = sp_state s" "sp_pid (taken s) = sp_pid s"
  "sp_peers (taken s) = sp_peers s" "current_seq_num (taken s) = current_seq_num s"
  "cached_promise_message (taken s) = cached_promise_message s" "outgoing (taken s) = []"
  "unsynced_log (taken s) = unsynced_log s" "enable_fast_path (taken s) = enable_fast_path s"
  "buffered_proposals (taken s) = buffered_proposals s" "buffered_stopsign (taken s) = buffered_stopsign s"
  "latest_accepted_meta (taken s) = None" "sp_leader (taken s) = reset_latest_accept_meta (sp_leader s)"
  by (simp_all add: taken_def take_outgoing_msgs_def)

lemma reset_latest_sel [simp]:
  "n_leader (reset_latest_accept_meta l) = n_leader l" "promises_meta (reset_latest_accept_meta l) = promises_meta l"
  "follower_seq_nums (reset_latest_accept_meta l) = follower_seq_nums l"
  "accepted_indexes (reset_latest_accept_meta l) = accepted_indexes l"
  "max_promise_meta (reset_latest_accept_meta l) = max_promise_meta l"
  "max_promise_sync (reset_latest_accept_meta l) = max_promise_sync l"
  "ls_quorum (reset_latest_accept_meta l) = ls_quorum l" "max_pid (reset_latest_accept_meta l) = max_pid l"
  "pending_accept_meta (reset_latest_accept_meta l) = pending_accept_meta l"
  "unsynced_log_store (reset_latest_accept_meta l) = unsynced_log_store l"
  by (simp_all add: reset_latest_accept_meta_def)

lemma own_pids_reset [simp]: "own_pids (reset_latest_accept_meta l) = own_pids l"
  by (simp add: own_pids_def)

definition plain_rest :: "cluster_config \<Rightarrow> ('e, 's) leader_state \<Rightarrow> bool" where
  "plain_rest C l \<longleftrightarrow> ls_quorum l = quorum_with (flexible_quorum C) (length (nodes C)) \<and>
     pending_accept_meta l = [] \<and> set (unsynced_log_store l) \<subseteq> {[]}"

lemma plain_leader_reset [simp]: "plain_leader C (reset_latest_accept_meta l) = plain_rest C l"
  by (auto simp: plain_leader_def plain_rest_def reset_latest_accept_meta_def)

lemma plain_leader_rest: "plain_leader C l \<Longrightarrow> plain_rest C l"
  by (simp add: plain_leader_def plain_rest_def)

text \<open>A call after which the node is as plain as before.\<close>

lemma plain_taken:
  "plain_node C p (taken s) \<longleftrightarrow> sp_pid s = p \<and> sp_peers s = peers_of C p \<and> plain_store (sp_store s) \<and>
     plain_rest C (sp_leader s) \<and> \<not> enable_fast_path s \<and> unsynced_log s = [] \<and> buffered_proposals s = [] \<and>
     buffered_stopsign s = None"
  by (simp add: plain_node_def)

subsection \<open>Unchanged logs\<close>

text \<open>The leader's tables after losing promises.\<close>

definition shrinks :: "('e, 's) leader_state \<Rightarrow> ('e, 's) leader_state \<Rightarrow> bool" where
  "shrinks l l' \<longleftrightarrow> n_leader l' = n_leader l \<and> follower_seq_nums l' = follower_seq_nums l \<and>
     accepted_indexes l' = accepted_indexes l \<and> max_promise_meta l' = max_promise_meta l \<and>
     max_promise_sync l' = max_promise_sync l \<and> length (promises_meta l') = length (promises_meta l) \<and>
     (\<forall>i < length (promises_meta l). \<forall>m. promises_meta l' ! i = Promised m \<longrightarrow> promises_meta l ! i = Promised m)"

lemma shrinks_refl [simp]: "shrinks l l"
  by (simp add: shrinks_def)

lemma shrinks_reset [simp]: "shrinks l (reset_latest_accept_meta l') = shrinks l l'"
  by (simp add: shrinks_def)

lemma shrinks_max_inv: "shrinks l l' \<Longrightarrow> max_promise_inv l \<Longrightarrow> max_promise_inv l'"
  unfolding shrinks_def max_promise_inv_def by (metis in_set_conv_nth)

lemma shrinks_promised:
  "shrinks l l' \<Longrightarrow> i < length (promises_meta l) \<Longrightarrow> is_promised (promises_meta l' ! i) \<Longrightarrow> is_promised (promises_meta l ! i)"
  by (cases "promises_meta l' ! i") (auto simp: shrinks_def is_promised_def)

text \<open>The role stays, or the node falls back to follower outside the accept phase of a follower.\<close>

definition backs_off :: "('e, 's) sequence_paxos \<Rightarrow> ('e, 's) sequence_paxos \<Rightarrow> bool" where
  "backs_off s t \<longleftrightarrow> sp_state t = sp_state s \<or> fst (sp_state t) = FollowerRole \<and>
     (snd (sp_state t) = PhaseAccept \<longrightarrow> fst (sp_state s) = LeaderRole)"

lemma leader_ok_shrinks:
  assumes "leader_ok C g pos p s" "sp_store t = sp_store s" "backs_off s t"
    and "fst (sp_state t) = LeaderRole \<Longrightarrow> shrinks (sp_leader s) (sp_leader t)"
  shows "leader_ok C g pos p t"
proof (cases "fst (sp_state t) = LeaderRole")
  case True
  then have st: "sp_state t = sp_state s" using assms(3) unfolding backs_off_def by auto
  have sh: "shrinks (sp_leader s) (sp_leader t)" using assms(4) True by blast
  note d = assms(1) [unfolded leader_ok_def Let_def]
  have own: "own_pids (sp_leader s) \<Longrightarrow> own_pids (sp_leader t)" using sh unfolding own_pids_def shrinks_def by metis
  have "prepare_ok C g pos s \<Longrightarrow> prepare_ok C g pos t"
    using sh assms(2) shrinks_max_inv [OF sh] unfolding prepare_ok_def max_ok_def Let_def shrinks_def by (auto split: option.splits)
  moreover have "lead_ok C g pos p s \<Longrightarrow> lead_ok C g pos p t"
    using sh assms(2) shrinks_promised [OF sh] unfolding lead_ok_def Let_def shrinks_def by simp
  ultimately show ?thesis
    using d st sh own assms(2) True unfolding leader_ok_def Let_def shrinks_def by simp
next
  case False
  then show ?thesis by (cases "sp_state t") (auto simp: leader_ok_def Let_def)
qed

lemma data_ok_store: "sp_store t = sp_store s \<Longrightarrow> data_ok C g p t = data_ok C g p s"
  by (simp add: data_ok_def decided_log_def cong: option.case_cong)

definition quiet :: "('e, 's) sequence_paxos \<Rightarrow> ('e, 's) sequence_paxos \<Rightarrow> bool" where
  "quiet s t \<longleftrightarrow> sp_store t = sp_store s \<and> backs_off s t \<and>
     (fst (sp_state t) = LeaderRole \<longrightarrow> shrinks (sp_leader s) (sp_leader t)) \<and>
     ls_quorum (sp_leader t) = ls_quorum (sp_leader s) \<and> pending_accept_meta (sp_leader t) = pending_accept_meta (sp_leader s) \<and>
     unsynced_log_store (sp_leader t) = unsynced_log_store (sp_leader s) \<and>
     current_seq_num t = current_seq_num s \<and> cached_promise_message t = cached_promise_message s \<and>
     sp_pid t = sp_pid s \<and> sp_peers t = sp_peers s \<and> enable_fast_path t = enable_fast_path s \<and>
     unsynced_log t = unsynced_log s \<and> buffered_proposals t = buffered_proposals s \<and>
     buffered_stopsign t = buffered_stopsign s"

lemma quiet_refl [simp]: "quiet s s"
  by (simp add: quiet_def backs_off_def)

lemma quiet_plain: "quiet s t \<Longrightarrow> plain_node C p s \<Longrightarrow> plain_node C p (taken t)"
  unfolding plain_taken by (simp add: quiet_def plain_node_def plain_leader_def plain_rest_def)

lemma quiet_call_ok:
  assumes ok: "cluster_ok C g pos c" and p: "p \<in> set (nodes C)"
    and q: "quiet (cl_nodes c p) s"
    and sends: "cached_ok C g ((cl_nodes c)(p := taken s)) p \<Longrightarrow>
      sends_ok C g pos ((cl_nodes c)(p := taken s)) p (outgoing s)"
  shows "call_ok C g pos c p s g pos"
proof -
  have store: "sp_store s = sp_store (cl_nodes c p)" and bk: "backs_off (cl_nodes c p) s"
    and sh: "fst (sp_state s) = LeaderRole \<Longrightarrow> shrinks (sp_leader (cl_nodes c p)) (sp_leader s)"
    and same: "current_seq_num s = current_seq_num (cl_nodes c p)"
      "cached_promise_message s = cached_promise_message (cl_nodes c p)"
    using q by (simp_all add: quiet_def)
  have plain: "plain_node C p (taken s)"
    using quiet_plain [OF q] ok p by (simp add: cluster_ok_def node_ok_def)
  let ?s = "cl_nodes c p" and ?\<sigma> = "(cl_nodes c)(p := taken s)"
  have node: "node_ok C g pos p ?s" and cach: "cached_ok C g (cl_nodes c) p"
    and inv: "cs_inv (cpair C) g" and pos: "pos_ok g pos"
    using ok p by (simp_all add: cluster_ok_def)
  have acts: "acts C p g g pos pos" by (simp add: acts_def)
  have prom: "node_promise ?s = cs_prom g p" using node by (simp add: node_ok_def data_ok_def)
  have prep: "preparing b (taken s) \<Longrightarrow> preparing b ?s" for b
    using bk store by (auto simp: preparing_def backs_off_def)
  have stays: "stays g g p ?s (taken s)"
    using prep store by (simp add: stays_def)
  have data: "data_ok C g p (taken s)" using node data_ok_store [of "taken s" "cl_nodes c p" C g p] store by (simp add: node_ok_def)
  have leader: "leader_ok C g pos p (taken s)"
    by (rule leader_ok_shrinks [of _ _ _ _ ?s]) (use node store bk sh in \<open>simp_all add: node_ok_def backs_off_def\<close>)
  have follower: "follower_ok C g pos p (taken s)"
  proof (cases "sp_state s = sp_state ?s")
    case True
    then show ?thesis using node store same(1) by (simp add: node_ok_def follower_ok_def)
  next
    case False
    have "ballot_pid (node_promise ?s) = p" if "fst (sp_state ?s) = LeaderRole"
      using node that by (simp add: node_ok_def leader_ok_def leads_def Let_def)
    then show ?thesis using False bk store unfolding follower_ok_def backs_off_def by auto
  qed
  have cc: "call C p g g pos pos (cl_nodes c) (taken s)" using inv pos acts stays by (simp add: call_def)
  have "cached_ok C g ?\<sigma> p"
    using cach brings_log_acts [OF cc] same(2) unfolding cached_ok_def by simp
  then show ?thesis
    unfolding call_ok_def raises_ok_def node_ok_def
    using acts pos stays plain data leader follower sends by blast
qed

subsection \<open>Messages without content\<close>

fun harmless :: "node_id \<Rightarrow> ('e, 's) message \<Rightarrow> bool" where
  "harmless p (SequencePaxos x) \<longleftrightarrow> (case pm_msg x of
     PrepareReq _ \<Rightarrow> pm_to x \<noteq> p | NotAccepted _ \<Rightarrow> True | DomPropose _ \<Rightarrow> True | DomAck _ \<Rightarrow> True | _ \<Rightarrow> False)"
| "harmless p (BLE _) \<longleftrightarrow> True"

lemma msgs_to_mem: "m \<in> set (msgs_to q ms) \<longleftrightarrow> (\<exists>x. SequencePaxos x \<in> set ms \<and> pm_to x = q \<and> pm_msg x = m)"
  by (auto simp: msgs_to_def split: message.splits)

lemma harmless_sends_ok:
  assumes "\<forall>m \<in> set ms. harmless p m"
  shows "sends_ok C g pos \<sigma> p ms"
  unfolding sends_ok_def
proof (intro ballI conjI allI impI)
  fix q m assume "m \<in> set (msgs_to q ms)"
  then obtain x where x: "harmless p (SequencePaxos x)" "pm_to x = q" "pm_msg x = m"
    using assms by (auto simp: msgs_to_mem)
  then show "msg_ok C g pos \<sigma> p q m" by (cases m) auto
  fix b k assume "msg_pos pos q m = Some (b, k)"
  then show "\<exists>L. cs_log g b = Some L \<and> k = length L" using x by (cases m) (auto simp: msg_pos_def)
qed

lemma sends_ok_append [simp]:
  "sends_ok C g pos \<sigma> p (xs @ ys) \<longleftrightarrow> sends_ok C g pos \<sigma> p xs \<and> sends_ok C g pos \<sigma> p ys"
  unfolding sends_ok_def msgs_to_simps set_append ball_Un by blast

lemma sends_ok_Nil [simp]: "sends_ok C g pos \<sigma> p []"
  by (simp add: sends_ok_def)

lemma quiet_harmless:
  assumes "cluster_ok C g pos c" "p \<in> set (nodes C)" "quiet (cl_nodes c p) s" "\<forall>m \<in> set (outgoing s). harmless p m"
  shows "call_ok C g pos c p s g pos"
  by (rule quiet_call_ok [OF assms(1-3)]) (rule harmless_sends_ok [OF assms(4)])

lemma idle_call_ok:
  assumes "cluster_ok C g pos c" "p \<in> set (nodes C)"
  shows "call_ok C g pos c p (cl_nodes c p) g pos"
  by (rule quiet_harmless [OF assms]) (use assms in \<open>simp_all add: cluster_ok_def node_ok_def plain_node_def\<close>)

subsection \<open>Rejections and reconnections\<close>

lemma quiet_send [simp]: "quiet s (send_to r m t) = quiet s t"
  by (simp add: quiet_def backs_off_def send_to_def)

lemma quiet_reconnected [simp]: "quiet s (reconnected r s)"
  by (simp add: reconnected_def Let_def) (simp add: quiet_def backs_off_def)

lemma reconnected_harmless:
  "outgoing s = [] \<Longrightarrow> \<forall>m \<in> set (outgoing (reconnected r s)). harmless (sp_pid s) m"
  by (simp add: reconnected_def send_to_def Let_def)

lemma check_valid_ballot_False:
  assumes "check_valid_ballot b s = (False, t)" "outgoing s = []"
  shows "quiet s t" "\<forall>m \<in> set (outgoing t). harmless (sp_pid s) m"
proof -
  have t: "t = send_to (ballot_pid b) (NotAccepted \<lparr>na_n = sp_get_promise s\<rparr>) s \<or> t = reconnected (ballot_pid b) s"
    using assms(1) by (auto simp: check_valid_ballot_def Let_def split: ordering.splits)
  then show "quiet s t" by auto
  show "\<forall>m \<in> set (outgoing t). harmless (sp_pid s) m"
    using t reconnected_harmless [OF assms(2)] assms(2) by (auto simp: send_to_def)
qed

lemma check_valid_ballot_cases:
  assumes "check_valid_ballot b s = (v, t)"
  shows "v \<longleftrightarrow> ballot_cmp (node_promise s) b = Equal" "v \<Longrightarrow> t = s"
  using assms by (auto simp: check_valid_ballot_def sp_get_promise_def Let_def split: ordering.splits)

lemma handle_sequence_num_late:
  assumes "handle_sequence_num q r s = (v, t)" "v \<noteq> Expected" "outgoing s = []"
  shows "quiet s t" "\<forall>m \<in> set (outgoing t). harmless (sp_pid s) m"
proof -
  have "t = s \<or> t = reconnected r s"
    using assms(1,2) by (auto simp: handle_sequence_num_def Let_def split: message_status.splits)
  then show "quiet s t" "\<forall>m \<in> set (outgoing t). harmless (sp_pid s) m"
    using reconnected_harmless [OF assms(3)] assms(3) by auto
qed

subsection \<open>Proposals\<close>

lemma sp_handle_dom_propose_harmless:
  assumes "sp_handle_dom_propose x s = Some t" "\<forall>m \<in> set (outgoing s). harmless (sp_pid s) m"
  shows "\<forall>m \<in> set (outgoing t). harmless (sp_pid s) m"
  using assms by (auto simp: sp_handle_dom_propose_def send_to_def sp_handle_dom_ack_def Let_def split: if_splits)

lemma quiet_frame: "t = s\<lparr>sp_dom := d, outgoing := ms\<rparr> \<Longrightarrow> quiet s t"
  by (simp add: quiet_def backs_off_def)

lemma append_with_id_quiet:
  assumes "append_with_id e i s = Some (r, t)" "outgoing s = []"
  shows "quiet s t" "\<forall>m \<in> set (outgoing t). harmless (sp_pid s) m"
proof -
  show "quiet s t" by (rule quiet_frame [OF append_with_id_frame [OF assms(1)]])
  show "\<forall>m \<in> set (outgoing t). harmless (sp_pid s) m"
  proof (cases "accepted_reconfiguration s")
    case False
    with assms(1) obtain x d where "sp_handle_dom_propose x (send_to_peers (DomPropose x) (s\<lparr>sp_dom := d\<rparr>)) = Some t"
      by (auto simp: append_with_id_def send_dom_propose_def)
    from sp_handle_dom_propose_harmless [OF this] assms(2) show ?thesis by (auto simp: send_to_peers_outgoing)
  qed (use assms in \<open>simp add: append_with_id_def\<close>)
qed

subsection \<open>Retransmissions\<close>

lemma peers_not_self: "plain_node C p s \<Longrightarrow> r \<in> set (sp_peers s) \<Longrightarrow> r \<noteq> p"
  by (simp add: plain_node_def peers_of_def)

lemma fold_send_prepare:
  "fold send_prepare ps s = s\<lparr>outgoing := outgoing s @ map (\<lambda>r. SequencePaxos \<lparr>pm_from = sp_pid s, pm_to = r, pm_msg =
     Prepare \<lparr>prep_n = n_leader (sp_leader s), prep_decided_idx = get_decided_idx (sp_store s),
        prep_n_accepted = get_accepted_round (sp_store s), prep_accepted_idx = get_accepted_idx (sp_store s)\<rparr>\<rparr>) ps\<rparr>"
  by (induction ps arbitrary: s) (simp_all add: send_prepare_def send_to_def)

lemma plain_accepted_idx: "plain_store st \<Longrightarrow> get_accepted_idx st = length (ms_log (is_storage st))"
  by (simp add: plain_store_def storage_wf_def get_accepted_idx_def Let_def)

text \<open>Prepare messages of a leader that keeps its log.\<close>

lemma prepares_ok:
  fixes s :: "('c, 'd) sequence_paxos"
  assumes node: "node_ok C g pos p s" and t: "sp_store (\<sigma> p) = sp_store s"
    and lead: "fst (sp_state s) = LeaderRole" and r: "\<forall>r \<in> set ps. r \<noteq> p"
  shows "sends_ok C g pos \<sigma> p (map (\<lambda>r. SequencePaxos \<lparr>pm_from = f, pm_to = r, pm_msg =
     Prepare \<lparr>prep_n = n_leader (sp_leader s), prep_decided_idx = get_decided_idx (sp_store s),
        prep_n_accepted = get_accepted_round (sp_store s), prep_accepted_idx = get_accepted_idx (sp_store s)\<rparr>\<rparr>) ps)"
    (is "sends_ok C g pos \<sigma> p (map (\<lambda>r. SequencePaxos \<lparr>pm_from = f, pm_to = r, pm_msg = Prepare ?x\<rparr>) ps)")
  unfolding sends_ok_def
proof (intro ballI conjI allI impI)
  fix q and m :: "('c, 'd) paxos_msg" assume "m \<in> set (msgs_to q (map (\<lambda>r. SequencePaxos \<lparr>pm_from = f, pm_to = r, pm_msg = Prepare ?x\<rparr>) ps))"
  then have x: "m = Prepare ?x" "q \<noteq> p" using r by (auto simp: msgs_to_mem)
  have "leads C g p (n_leader (sp_leader s))" "plain_store (sp_store s)"
    using node lead by (simp_all add: node_ok_def leader_ok_def plain_node_def Let_def)
  then show "msg_ok C g pos \<sigma> p q m" using x t plain_accepted_idx by (auto simp: preparing_def)
  fix b k assume "msg_pos pos q m = Some (b, k)"
  then show "\<exists>L. cs_log g b = Some L \<and> k = length L" using x by (simp add: msg_pos_def)
qed

lemma get_preparable_peers_sub:
  assumes "get_preparable_peers ps l = Some rs"
  shows "set rs \<subseteq> set ps"
proof (rule for_each_invariant [of _ ps "[]" rs "\<lambda>acc. set acc \<subseteq> set ps"])
  show "for_each (\<lambda>pid acc. do {
         idx \<leftarrow> pid_to_idx pid;
         p \<leftarrow> vec_get (promises_meta l) idx;
         Some (if p = NotPromised then acc @ [pid] else acc)
       }) ps [] = Some rs" using assms by (simp add: get_preparable_peers_def)
qed (auto split: if_splits)

lemma resend_leader_eq:
  assumes "resend_messages_leader s = Some t" "plain_store (sp_store s)"
  shows "t = s \<or> (\<exists>ps. set ps \<subseteq> set (sp_peers s) \<and> t = fold send_prepare ps s)"
proof -
  have "get_stopsign (sp_store s) = None"
    using assms(2) by (simp add: plain_store_def storage_wf_def get_stopsign_def Let_def)
  then have "t = s \<or> (\<exists>ps. get_preparable_peers (sp_peers s) (sp_leader s) = Some ps \<and> t = fold send_prepare ps s)"
    using assms(1) by (auto simp: resend_messages_leader_def split: phase.splits)
  then show ?thesis using get_preparable_peers_sub by blast
qed

lemma quiet_fold_prepare [simp]: "quiet s (fold send_prepare ps t) = quiet s t"
  by (simp add: fold_send_prepare quiet_def backs_off_def)

lemma taken_outgoing_cong: "sp_store (taken (s\<lparr>outgoing := ms\<rparr>)) = sp_store s"
  by simp

lemma resend_call_ok:
  assumes ok: "cluster_ok C g pos c" and p: "p \<in> set (nodes C)"
    and s: "resend_message_timeout (cl_nodes c p) = Some s"
  shows "call_ok C g pos c p s g pos"
proof -
  let ?s = "cl_nodes c p"
  have node: "node_ok C g pos p ?s" and plain: "plain_node C p ?s"
    using ok p by (simp_all add: cluster_ok_def node_ok_def)
  then have pl: "plain_store (sp_store ?s)" "outgoing ?s = []" "sp_pid ?s = p" by (simp_all add: plain_node_def)
  show ?thesis
  proof (cases "fst (sp_state ?s)")
    case LeaderRole
    then have "resend_messages_leader ?s = Some s" using s by (simp add: resend_message_timeout_def)
    from resend_leader_eq [OF this pl(1)] consider "s = ?s" | ps where "set ps \<subseteq> set (sp_peers ?s)" "s = fold send_prepare ps ?s"
      by blast
    then show ?thesis
    proof cases
      case 1
      then show ?thesis using idle_call_ok [OF ok p] by simp
    next
      case 2
      have "quiet ?s s" using 2(2) by simp
      moreover have "sends_ok C g pos ((cl_nodes c)(p := taken s)) p (outgoing s)"
        using prepares_ok [OF node _ LeaderRole, of "(cl_nodes c)(p := taken s)" ps "sp_pid ?s"] 2 pl(2) peers_not_self [OF plain]
        by (auto simp: fold_send_prepare)
      ultimately show ?thesis by (rule quiet_call_ok [OF ok p])
    qed
  next
    case FollowerRole
    then have s: "s = resend_messages_follower ?s" using s by (simp add: resend_message_timeout_def)
    show ?thesis
    proof (cases "snd (sp_state ?s) = PhasePrepare \<and> cached_promise_message ?s \<noteq> None")
      case True
      then obtain x where x: "cached_promise_message ?s = Some x"
        "s = send_to (ballot_pid (prom_n x)) (Promise x) ?s"
        using s by (auto simp: resend_messages_follower_def)
      have "quiet ?s s" using x by simp
      moreover have "sends_ok C g pos ((cl_nodes c)(p := taken s)) p (outgoing s)"
        if "cached_ok C g ((cl_nodes c)(p := taken s)) p"
        using that x pl(2) by (auto simp: sends_ok_def cached_ok_def send_to_def msg_pos_def)
      ultimately show ?thesis by (rule quiet_call_ok [OF ok p])
    next
      case False
      have q: "quiet ?s (send_to_peers m u)" if "quiet ?s u" for m u
        using that by (simp add: send_to_peers_outgoing quiet_def backs_off_def)
      have r: "quiet ?s (?s\<lparr>sp_state := (FollowerRole, PhaseRecover)\<rparr>)" by (simp add: quiet_def backs_off_def)
      have "quiet ?s s"
        using s False FollowerRole q [OF quiet_refl] q [OF r]
        by (auto simp: resend_messages_follower_def send_preparereq_to_all_peers_def split: phase.splits option.splits)
      moreover have "\<forall>m \<in> set (outgoing s). harmless p m"
        using s False pl peers_not_self [OF plain]
        by (auto simp: resend_messages_follower_def send_preparereq_to_all_peers_def send_to_peers_outgoing
            split: phase.splits option.splits)
      ultimately show ?thesis by (rule quiet_harmless [OF ok p])
    qed
  qed
qed

subsection \<open>Lost promises\<close>

lemma set_promise_state_shrinks:
  assumes "set_promise_state x r l = Some l'" "\<not> is_promised x"
  shows "shrinks l l'" "ls_quorum l' = ls_quorum l" "pending_accept_meta l' = pending_accept_meta l"
    "unsynced_log_store l' = unsynced_log_store l" "n_leader l' = n_leader l"
  using assms by (auto simp: set_promise_state_def shrinks_def nth_list_update is_promised_def split: if_splits)

lemma set_latest_accept_meta_same:
  assumes "set_latest_accept_meta r i l = Some l'"
  shows "shrinks l l'" "ls_quorum l' = ls_quorum l" "pending_accept_meta l' = pending_accept_meta l"
    "unsynced_log_store l' = unsynced_log_store l" "n_leader l' = n_leader l"
  using assms by (auto simp: set_latest_accept_meta_def shrinks_def Let_def)

lemma shrinks_trans: "shrinks l l' \<Longrightarrow> shrinks l' l'' \<Longrightarrow> shrinks l l''"
  by (simp add: shrinks_def)

lemma quiet_leader:
  assumes "shrinks (sp_leader s) l" "ls_quorum l = ls_quorum (sp_leader s)"
    "pending_accept_meta l = pending_accept_meta (sp_leader s)" "unsynced_log_store l = unsynced_log_store (sp_leader s)"
  shows "quiet s (s\<lparr>sp_leader := l\<rparr>)"
  using assms by (simp add: quiet_def backs_off_def)

lemma preparereq_call_ok:
  assumes ok: "cluster_ok C g pos c" and p: "p \<in> set (nodes C)" and r: "r \<noteq> p"
    and s: "handle_preparereq x r (cl_nodes c p) = Some s"
  shows "call_ok C g pos c p s g pos"
proof (cases "fst (sp_state (cl_nodes c p)) = LeaderRole \<and> pr_n x \<le> n_leader (sp_leader (cl_nodes c p))")
  case True
  let ?s = "cl_nodes c p"
  have node: "node_ok C g pos p ?s" and plain: "plain_node C p ?s"
    using ok p by (simp_all add: cluster_ok_def node_ok_def)
  obtain l l' where l: "reset_promise r (sp_leader ?s) = Some l" "set_latest_accept_meta r None l = Some l'"
    and s: "s = send_prepare r (?s\<lparr>sp_leader := l'\<rparr>)"
    using s True by (auto simp: handle_preparereq_def)
  note a = set_promise_state_shrinks [OF l(1) [unfolded reset_promise_def], unfolded is_promised_def, simplified] and b = set_latest_accept_meta_same [OF l(2)]
  have "quiet ?s (?s\<lparr>sp_leader := l'\<rparr>)"
    using quiet_leader [OF shrinks_trans [OF a(1) b(1)]] a(2-4) b(2-4) by simp
  then have "quiet ?s s" by (simp add: s send_prepare_def)
  moreover have "sends_ok C g pos ((cl_nodes c)(p := taken s)) p (outgoing s)"
    using prepares_ok [OF node _ _, of "(cl_nodes c)(p := taken s)" "[r]" "sp_pid ?s"] r s True a(5) b(5) plain
    by (simp add: send_prepare_def send_to_def plain_node_def)
  ultimately show ?thesis by (rule quiet_call_ok [OF ok p])
next
  case False
  then have "s = cl_nodes c p" using s by (simp only: handle_preparereq_def if_False option.inject)
  then show ?thesis using idle_call_ok [OF ok p] by simp
qed

lemma notaccepted_call_ok:
  assumes ok: "cluster_ok C g pos c" and p: "p \<in> set (nodes C)"
    and s: "handle_notaccepted x r (cl_nodes c p) = Some s"
  shows "call_ok C g pos c p s g pos"
proof (cases "s = cl_nodes c p")
  case False
  let ?s = "cl_nodes c p"
  obtain l where l: "lost_promise r (sp_leader ?s) = Some l" and s: "s = ?s\<lparr>sp_leader := l\<rparr>"
    using s False by (auto simp: handle_notaccepted_def split: if_splits)
  note a = set_promise_state_shrinks [OF l(1) [unfolded lost_promise_def], unfolded is_promised_def, simplified]
  have "quiet ?s s" unfolding s by (rule quiet_leader [OF a(1-4)])
  moreover have "outgoing s = []" using ok p s by (simp add: cluster_ok_def node_ok_def plain_node_def)
  ultimately show ?thesis by (simp add: quiet_harmless [OF ok p])
qed (use idle_call_ok [OF ok p] in simp)

lemma become_follower_call_ok:
  assumes ok: "cluster_ok C g pos c" and p: "p \<in> set (nodes C)"
  shows "call_ok C g pos c p (become_follower (cl_nodes c p)) g pos"
proof -
  let ?s = "cl_nodes c p"
  have "quiet ?s (become_follower ?s)"
  proof (cases "fst (sp_state ?s)")
    case FollowerRole
    then have "become_follower ?s = ?s" by (cases "sp_state ?s") (simp add: become_follower_def)
    then show ?thesis by simp
  qed (simp add: quiet_def backs_off_def become_follower_def)
  moreover have "outgoing (become_follower ?s) = []"
    using ok p by (simp add: cluster_ok_def node_ok_def plain_node_def become_follower_def)
  ultimately show ?thesis by (simp add: quiet_harmless [OF ok p])
qed

subsection \<open>Nothing to flush\<close>

lemma flush_nothing:
  assumes "sc_batched_entries (is_cache st) = []"
  shows "flush_batch st = (get_accepted_idx st, st)" "flush_batch_and_get_entries st = (None, st)"
  using assms by (simp_all add: append_defs Let_def ms_append_entries_def get_accepted_idx_def)

lemma flush_call_ok:
  assumes ok: "cluster_ok C g pos c" and p: "p \<in> set (nodes C)"
    and s: "flush_batch_timeout (cl_nodes c p) = Some s"
  shows "call_ok C g pos c p s g pos"
proof -
  have "sc_batched_entries (is_cache (sp_store (cl_nodes c p))) = []"
    using ok p by (simp add: cluster_ok_def node_ok_def plain_node_def plain_store_def)
  note f = flush_nothing [OF this]
  have "s = cl_nodes c p"
    using s by (auto simp: flush_batch_timeout_def flush_batch_leader_def flush_batch_follower_def f split: if_splits)
  then show ?thesis using idle_call_ok [OF ok p] by simp
qed

end
