(* ===== verification/Cluster_Follower.thy ===== *)
theory Cluster_Follower
  imports Cluster_Quiet Fast_Path
begin

text \<open>
  The calls on a follower that change its log or its promise: preparing a ballot, and the
  synchronisation, accept and decide messages of its leader.
\<close>

subsection \<open>Storage\<close>

lemmas plain_store_defs = plain_store_def storage_wf_def get_defs Let_def

lemma plain_store_sel:
  assumes "plain_store st"
  shows "get_stopsign st = None" "ms_trimmed_idx (is_storage st) = 0" "get_compacted_idx st = 0"
    "get_accepted_idx st = length (ms_log (is_storage st))" "flush_batch st = (get_accepted_idx st, st)"
    "flush_batch_and_get_entries st = (None, st)"
  using assms flush_nothing [of st] by (simp_all add: plain_store_defs)

lemma plain_set_promise [simp]:
  "plain_store (set_promise b st) = plain_store (st\<lparr>is_cache := (is_cache st)\<lparr>sc_promise := b\<rparr>,
     is_storage := (is_storage st)\<lparr>ms_n_prom := Some b\<rparr>\<rparr>)"
  by (simp add: set_promise_def ms_set_promise_def)

lemma store_set_promise:
  assumes "plain_store st"
  shows "plain_store (set_promise b st)" "get_promise (set_promise b st) = b"
    "get_accepted_round (set_promise b st) = get_accepted_round st" "get_decided_idx (set_promise b st) = get_decided_idx st"
    "ms_log (is_storage (set_promise b st)) = ms_log (is_storage st)"
  using assms by (simp_all add: set_promise_def ms_set_promise_def plain_store_defs)

lemma store_set_decided:
  assumes "plain_store st"
  shows "plain_store (set_decided_idx d st)" "get_promise (set_decided_idx d st) = get_promise st"
    "get_accepted_round (set_decided_idx d st) = get_accepted_round st" "get_decided_idx (set_decided_idx d st) = d"
    "ms_log (is_storage (set_decided_idx d st)) = ms_log (is_storage st)"
  using assms by (simp_all add: set_decided_idx_def ms_set_decided_idx_def plain_store_defs)

lemma store_append:
  assumes "plain_store st" "append_entries_and_get_accepted_idx es st = (i, st')"
  shows "plain_store st'" "get_promise st' = get_promise st"
    "get_accepted_round st' = get_accepted_round st" "get_decided_idx st' = get_decided_idx st"
    "ms_log (is_storage st') = ms_log (is_storage st) @ es"
    "i = (if es = [] then None else Some (length (ms_log (is_storage st'))))"
proof -
  have st: "st\<lparr>is_cache := (is_cache st)\<lparr>sc_batched_entries := []\<rparr>\<rparr> = st"
    using assms(1) by (simp add: plain_store_def)
  have b: "sc_batch_size (is_cache st) = 1" "sc_batched_entries (is_cache st) = []"
    using assms(1) by (simp_all add: plain_store_def)
  show "plain_store st'" "get_promise st' = get_promise st"
    "get_accepted_round st' = get_accepted_round st" "get_decided_idx st' = get_decided_idx st"
    "ms_log (is_storage st') = ms_log (is_storage st) @ es"
    "i = (if es = [] then None else Some (length (ms_log (is_storage st'))))"
    using assms b st
    by (auto simp: append_defs Let_def ms_append_entries_def plain_store_defs not_le less_Suc_eq split: if_splits)
qed

lemma store_sync:
  assumes "plain_store st" "sync_to (ms_log (is_storage st)) y xs"
  obtains st' where "sync_log env b d (Some y) st = Some (Inr (length xs, st'))" "plain_store st'"
    "get_promise st' = get_promise st" "get_accepted_round st' = b" "get_decided_idx st' = d"
    "ms_log (is_storage st') = xs"
proof -
  have y: "ls_decided_snapshot y = None" "ls_stopsign y = None" "ls_sync_idx y \<le> length (ms_log (is_storage st))"
    "take (ls_sync_idx y) (ms_log (is_storage st)) @ ls_suffix y = xs"
    using assms(2) by (simp_all add: sync_to_def)
  have len: "length xs = ls_sync_idx y + length (ls_suffix y)" using y(3,4) by auto
  let ?c = "(is_cache st)\<lparr>sc_accepted_round := b, sc_decided_idx := d, sc_compacted_idx := 0, sc_accepted_idx := length xs\<rparr>"
  let ?m = "(is_storage st)\<lparr>ms_acc_round := Some b, ms_ld := d, ms_log := xs\<rparr>"
  have st: "sc_stopsign (is_cache st) = None" "sc_compacted_idx (is_cache st) = 0" "ms_trimmed_idx (is_storage st) = 0"
    using assms(1) by (simp_all add: plain_store_defs)
  have "sync_log env b d (Some y) st = Some (Inr (length xs, st\<lparr>is_storage := ?m, is_cache := ?c\<rparr>))"
    unfolding sync_log_def using y st len
    by (simp add: sync_snapshot_def try_res_def ms_write_atomically_def ms_append_on_prefix_def checked_sub_def
        ms_append_entries_def ms_set_accepted_round_def ms_set_decided_idx_def get_compacted_idx_def Let_def)
  moreover have "plain_store (st\<lparr>is_storage := ?m, is_cache := ?c\<rparr>)"
    using assms(1) st by (simp add: plain_store_def storage_wf_def Let_def)
  ultimately show thesis by (rule that) (simp_all add: get_defs)
qed

lemma store_no_sync:
  assumes "plain_store st"
  obtains st' where "sync_log env b d None st = Some (Inr (length (ms_log (is_storage st)), st'))" "plain_store st'"
    "get_promise st' = get_promise st" "get_accepted_round st' = b" "get_decided_idx st' = d"
    "ms_log (is_storage st') = ms_log (is_storage st)"
proof -
  let ?st = "st\<lparr>is_cache := (is_cache st)\<lparr>sc_accepted_round := b, sc_decided_idx := d\<rparr>,
     is_storage := (is_storage st)\<lparr>ms_acc_round := Some b, ms_ld := d\<rparr>\<rparr>"
  have "sc_accepted_idx (is_cache st) = length (ms_log (is_storage st))" using assms by (simp add: plain_store_defs)
  then have "sync_log env b d None st = Some (Inr (length (ms_log (is_storage st)), ?st))"
    by (simp add: sync_log_def ms_write_atomically_def ms_set_accepted_round_def ms_set_decided_idx_def Let_def)
  moreover have "plain_store ?st" using assms by (simp add: plain_store_def storage_wf_def Let_def)
  ultimately show thesis by (rule that) (simp_all add: get_defs)
qed

lemma plain_log_sync:
  assumes "plain_env env" "plain_store (sp_store s)"
  shows "create_log_sync env i d s = Some \<lparr>ls_decided_snapshot = None, ls_suffix = drop i (node_log s),
     ls_sync_idx = i, ls_stopsign = None\<rparr>"
  using assms plain_store_sel [OF assms(2)]
  by (simp add: create_log_sync_def plain_env_def get_suffix_def ms_get_suffix_def checked_sub_def Let_def)

subsection \<open>Facts of a node\<close>

lemma cluster_okD:
  assumes "cluster_ok C g pos c"
  shows "cs_inv (cpair C) g" "pos_ok g pos" "p \<in> set (nodes C) \<Longrightarrow> node_ok C g pos p (cl_nodes c p)"
    "p \<in> set (nodes C) \<Longrightarrow> cached_ok C g (cl_nodes c) p"
    "p \<in> set (nodes C) \<Longrightarrow> q \<in> set (nodes C) \<Longrightarrow> link_ok g pos q (cl_links c p q)"
    "p \<in> set (nodes C) \<Longrightarrow> q \<in> set (nodes C) \<Longrightarrow> m \<in> set (cl_links c p q) \<Longrightarrow> msg_ok C g pos (cl_nodes c) p q m"
  using assms unfolding cluster_ok_def by blast+

lemma node_okD:
  assumes "node_ok C g pos p s"
  shows "plain_node C p s" "data_ok C g p s" "leader_ok C g pos p s" "follower_ok C g pos p s"
  using assms unfolding node_ok_def by blast+

lemma plain_nodeD:
  assumes "plain_node C p s"
  shows "sp_pid s = p" "sp_peers s = peers_of C p" "plain_store (sp_store s)" "plain_leader C (sp_leader s)"
    "\<not> enable_fast_path s" "unsynced_log s = []" "buffered_proposals s = []" "buffered_stopsign s = None"
    "outgoing s = []" "latest_accepted_meta s = None" "plain_rest C (sp_leader s)"
  using assms plain_leader_rest by (auto simp: plain_node_def)

lemma data_okD:
  assumes "data_ok C g p s"
  shows "node_promise s = cs_prom g p" "known C (node_promise s)" "known C (node_round s)"
    "node_round s \<le> node_promise s" "cs_acc g p b = Some k \<Longrightarrow> b \<le> node_round s"
    "cs_acc g p (node_round s) = None \<Longrightarrow> node_round s = default_ballot"
    "cs_acc g p (node_round s) = None \<Longrightarrow> node_log s = []"
    "cs_acc g p (node_round s) = Some k \<Longrightarrow> k = length (node_log s)"
    "prefix (node_log s) (cs_plog g (node_round s))" "node_decided s \<le> length (node_log s)"
    "cs_committed (cpair C) g (node_round s) (decided_log s)"
  using assms unfolding data_ok_def by (auto split: option.splits)

lemma data_log:
  assumes "data_ok C g p s"
  shows "node_log s = take (length (node_log s)) (cs_plog g (node_round s))"
    and "decided_log s = take (node_decided s) (cs_plog g (node_round s))"
proof -
  have p: "prefix (node_log s) (cs_plog g (node_round s))" using data_okD(9) [OF assms] .
  show "node_log s = take (length (node_log s)) (cs_plog g (node_round s))" using p by (auto simp: prefix_def)
  show "decided_log s = take (node_decided s) (cs_plog g (node_round s))"
    using p data_okD(10) [OF assms] by (auto simp: prefix_def decided_log_def)
qed

text \<open>What a node may promise of its log.\<close>

lemma data_promise_ok:
  assumes d: "data_ok C g p s" and b: "b \<le> cs_prom g p" "node_round s \<le> b" "default_ballot < b"
  shows "promise_ok C g b p (node_round s) (length (node_log s)) (node_decided s)"
proof -
  have com: "cs_committed (cpair C) g (node_round s) (take (node_decided s) (cs_plog g (node_round s)))"
    using data_okD(11) [OF d] data_log(2) [OF d] by simp
  have "\<exists>j. cs_acc g p b = Some j \<and> length (node_log s) \<le> j" if "node_round s = b"
    using data_okD(6,8) [OF d] that b(3) by (cases "cs_acc g p b") auto
  moreover have "case cs_acc g p (node_round s) of None \<Rightarrow> node_round s = default_ballot \<and> length (node_log s) = 0
      | Some j \<Rightarrow> j = length (node_log s)"
    using data_okD(6-8) [OF d] by (cases "cs_acc g p (node_round s)") auto
  moreover have "\<forall>b'. b' < b \<longrightarrow> cs_acc g p b' \<noteq> None \<longrightarrow> b' \<le> node_round s" using data_okD(5) [OF d] by blast
  ultimately show ?thesis
    using com b data_okD(3,10) [OF d] unfolding promise_ok_def by simp
qed

text \<open>A decided prefix is in every log of a later round that a node has accepted.\<close>

lemma decided_below:
  assumes inv: "cs_inv (cpair C) g" and s: "data_ok C g p s" and t: "data_ok C g q t"
    and r: "node_round s < node_round t"
  shows "prefix (decided_log s) (node_log t)"
proof -
  have "node_round t \<noteq> default_ballot" using r by (metis default_ballot_le less_le_not_le)
  then obtain k where k: "cs_acc g q (node_round t) = Some k" "k = length (node_log t)"
    using data_okD(6,8) [OF t] by (cases "cs_acc g q (node_round t)") auto
  obtain L where L: "cs_log g (node_round t) = Some L" "k \<le> length L" "cs_base g (node_round t) \<le> k"
    using cs_invD(2,3) [OF inv k(1)] by blast
  have "prefix (decided_log s) (take (cs_base g (node_round t)) L)"
    by (rule committed_in_later_base [OF inv data_okD(11) [OF s] r L(1)])
  moreover have "node_log t = take k L" using data_log(1) [OF t] k(2) L(1) by (simp add: cs_plog_def)
  ultimately show ?thesis using L(3) by (metis min.absorb1 prefix_order.trans take_is_prefix take_take)
qed

text \<open>What a follower answers to a prepare message brings the log its leader misses.\<close>

lemma decided_take:
  assumes "prefix (decided_log s) xs" "data_ok C g p s"
  shows "take (node_decided s) xs = decided_log s" "node_decided s \<le> length xs"
  using assms data_okD(10) [OF assms(2)] by (auto simp: prefix_def decided_log_def)

lemma promise_brings_log:
  assumes inv: "cs_inv (cpair C) g" and ld: "data_ok C g q l" and fo: "data_ok C g p f"
    and x: "prom_n_accepted x = node_round f" "prom_accepted_idx x = length (node_log f)"
      "prom_log_sync x =
         (if node_round l < node_round f then Some \<lparr>ls_decided_snapshot = None, ls_suffix = drop (node_decided l) (node_log f),
             ls_sync_idx = node_decided l, ls_stopsign = None\<rparr>
          else if node_round f = node_round l \<and> length (node_log l) < length (node_log f) then
            Some \<lparr>ls_decided_snapshot = None, ls_suffix = drop (length (node_log l)) (node_log f),
             ls_sync_idx = length (node_log l), ls_stopsign = None\<rparr>
          else None)"
  shows "brings_log g l x"
proof -
  have f: "take (length (node_log f)) (cs_plog g (node_round f)) = node_log f" using data_log(1) [OF fo] by simp
  consider "node_round l < node_round f" | "\<not> node_round l < node_round f" "node_round f = node_round l" "length (node_log l) < length (node_log f)"
    | "\<not> node_round l < node_round f" "\<not> (node_round f = node_round l \<and> length (node_log l) < length (node_log f))" by blast
  then show ?thesis
  proof cases
    case 1
    have p: "prefix (decided_log l) (node_log f)" by (rule decided_below [OF inv ld fo 1])
    have "take (node_decided l) (node_log l) @ drop (node_decided l) (node_log f) = node_log f"
      using decided_take(1) [OF p ld] append_take_drop_id [of "node_decided l" "node_log f"]
      by (simp add: decided_log_def)
    then show ?thesis using 1 x f data_okD(10) [OF ld] by (simp add: brings_log_def sync_to_def)
  next
    case 2
    have "node_log l = take (length (node_log l)) (node_log f)"
      using data_log(1) [OF ld] data_log(1) [OF fo] 2 by (metis less_imp_le_nat min.absorb1 take_take)
    then have "node_log l @ drop (length (node_log l)) (node_log f) = node_log f" by (metis append_take_drop_id)
    then show ?thesis using 2 x f by (simp add: brings_log_def sync_to_def del: ballot_not_less)
  next
    case 3
    then show ?thesis using x by (auto simp: brings_log_def simp del: ballot_not_less)
  qed
qed

subsection \<open>Promising a ballot\<close>

lemma handle_prepare_eq:
  assumes env: "plain_env env" and plain: "plain_node C p s" and t: "handle_prepare env x r s = Some t" "t \<noteq> s"
  obtains st y where "st = set_promise (prep_n x) (sp_store s)"
    "prom_n y = prep_n x" "prom_n_accepted y = node_round s" "prom_accepted_idx y = length (node_log s)"
    "prom_decided_idx y = node_decided s" "prom_log_unsync y = Some []"
    "prom_log_sync y =
         (if prep_n_accepted x < node_round s then Some \<lparr>ls_decided_snapshot = None, ls_suffix = drop (prep_decided_idx x) (node_log s),
             ls_sync_idx = prep_decided_idx x, ls_stopsign = None\<rparr>
          else if node_round s = prep_n_accepted x \<and> prep_accepted_idx x < length (node_log s) then
            Some \<lparr>ls_decided_snapshot = None, ls_suffix = drop (prep_accepted_idx x) (node_log s),
             ls_sync_idx = prep_accepted_idx x, ls_stopsign = None\<rparr>
          else None)"
    "t = s\<lparr>sp_store := st, sp_state := (FollowerRole, PhasePrepare), current_seq_num := default_seq_num,
       cached_promise_message := Some y,
       outgoing := [SequencePaxos \<lparr>pm_from = p, pm_to = r, pm_msg = Promise y\<rparr>]\<rparr>"
    "node_promise s \<le> prep_n x"
proof -
  let ?st = "set_promise (prep_n x) (sp_store s)"
  let ?s = "s\<lparr>sp_store := ?st, sp_state := (FollowerRole, PhasePrepare), current_seq_num := default_seq_num\<rparr>"
  note pl = plain_nodeD [OF plain]
  note ps = store_set_promise [OF pl(3), of "prep_n x"] and fl = plain_store_sel(5) [OF pl(3)]
  have acc: "get_accepted_idx ?st = length (node_log s)" using plain_store_sel(4) [OF ps(1)] ps(5) by simp
  have guard: "sp_get_promise s < prep_n x \<or> sp_get_promise s = prep_n x \<and> snd (sp_state s) = PhaseRecover"
    using t by (auto simp: handle_prepare_def Let_def split: if_splits)
  define sy where "sy = (if prep_n_accepted x < node_round s then Some \<lparr>ls_decided_snapshot = None :: 'b snapshot_type option, ls_suffix = drop (prep_decided_idx x) (node_log s),
             ls_sync_idx = prep_decided_idx x, ls_stopsign = None\<rparr>
          else if node_round s = prep_n_accepted x \<and> prep_accepted_idx x < length (node_log s) then
            Some \<lparr>ls_decided_snapshot = None, ls_suffix = drop (prep_accepted_idx x) (node_log s),
             ls_sync_idx = prep_accepted_idx x, ls_stopsign = None\<rparr>
          else None)"
  define y where "y = \<lparr>prom_n = prep_n x, prom_n_accepted = node_round s, prom_decided_idx = node_decided s,
     prom_accepted_idx = length (node_log s), prom_log_sync = sy, prom_log_unsync = Some [],
     prom_log_prefix_hash = accepted_prefix_hash s\<rparr>"
  have sync: "create_log_sync env i d ?s = Some \<lparr>ls_decided_snapshot = None, ls_suffix = drop i (node_log s),
     ls_sync_idx = i, ls_stopsign = None\<rparr>" for i d
    using plain_log_sync [OF env, of ?s] ps(1,5) by simp
  have ls: "(if prep_n_accepted x < node_round s then map_option Some (create_log_sync env (prep_decided_idx x) (prep_decided_idx x) ?s)
      else if node_round s = prep_n_accepted x \<and> prep_accepted_idx x < length (node_log s)
      then map_option Some (create_log_sync env (prep_accepted_idx x) (prep_decided_idx x) ?s)
      else Some None) = Some sy"
    unfolding sy_def sync option.map by auto
  have st: "set_promise (prep_n x) (snd (flush_batch (sp_store s))) = ?st" using fl by simp
  have "t = send_to r (Promise y) (?s\<lparr>cached_promise_message := Some y\<rparr>)"
    using t(1) guard ls pl(6) unfolding handle_prepare_def Let_def st y_def
    by (auto simp: acc ps(3,4) simp del: ballot_not_less cong: if_cong)
  then have "t = s\<lparr>sp_store := ?st, sp_state := (FollowerRole, PhasePrepare), current_seq_num := default_seq_num,
       cached_promise_message := Some y,
       outgoing := [SequencePaxos \<lparr>pm_from = p, pm_to = r, pm_msg = Promise y\<rparr>]\<rparr>"
    using pl(1,9) by (simp add: send_to_def)
  moreover have "node_promise s \<le> prep_n x" using guard less_imp_le by (auto simp: sp_get_promise_def)
  ultimately show thesis by (rule that [OF refl, rotated -2]) (simp_all add: y_def sy_def)
qed

text \<open>The step of a node that promises a ballot.\<close>

definition promised_step :: "'e consensus \<Rightarrow> node_id \<Rightarrow> ballot \<Rightarrow> 'e consensus" where
  "promised_step g p b = g\<lparr>cs_prom := (cs_prom g)(p := b)\<rparr>"

lemma promised_step_sel [simp]:
  "cs_prom (promised_step g p b) = (cs_prom g)(p := b)" "cs_acc (promised_step g p b) = cs_acc g"
  "cs_log (promised_step g p b) = cs_log g" "cs_base (promised_step g p b) = cs_base g"
  "cs_plog (promised_step g p b) = cs_plog g"
  by (simp_all add: promised_step_def cs_plog_def fun_eq_iff)

lemma promised_acts: "cs_prom g p \<le> b \<Longrightarrow> acts C p g (promised_step g p b) pos pos"
  using cs_promise [of g p b "cpair C"] by (simp add: acts_def promised_step_def [symmetric])

lemma data_ok_promised:
  assumes d: "data_ok C g p s" and b: "node_promise s \<le> b" "known C b"
    and t: "node_promise t = b" "node_round t = node_round s" "node_decided t = node_decided s" "node_log t = node_log s"
  shows "data_ok C (promised_step g p b) p t"
proof -
  have "cs_prom g p \<le> b" using b(1) data_okD(1) [OF d] by simp
  then have le: "cs_le g (promised_step g p b)" using promised_acts actsD(1) by metis
  have com: "cs_committed (cpair C) (promised_step g p b) (node_round s) (decided_log s)"
    by (rule cs_le_committed [OF le data_okD(11) [OF d] order_refl])
  have "node_round s \<le> b" using data_okD(4) [OF d] b(1) by (rule order_trans)
  then show ?thesis using d b(2) t com unfolding data_ok_def by (simp add: decided_log_def split: option.splits)
qed

lemma prepare_call_ok:
  assumes env: "plain_env env" and ok: "cluster_ok C g pos c" and v: "valid_server (cpair C)"
    and p: "p \<in> set (nodes C)" "r \<in> set (nodes C)"
    and x: "msg_ok C g pos (cl_nodes c) r p (Prepare x)" and t: "handle_prepare env x r (cl_nodes c p) = Some t"
  shows "\<exists>g' pos'. call_ok C g pos c p t g' pos'"
proof (cases "t = cl_nodes c p")
  case True
  then show ?thesis using idle_call_ok [OF ok p(1)] by blast
next
  case False
  let ?s = "cl_nodes c p" and ?b = "prep_n x"
  let ?g = "promised_step g p ?b" and ?\<sigma> = "(cl_nodes c)(p := taken t)"
  note node = node_okD [OF cluster_okD(3) [OF ok p(1)]] and inv = cluster_okD(1) [OF ok] and pos = cluster_okD(2) [OF ok]
  note pl = plain_nodeD [OF node(1)] and d = data_okD [OF node(2)]
  obtain st y where st: "st = set_promise ?b (sp_store ?s)"
    and y: "prom_n y = ?b" "prom_n_accepted y = node_round ?s" "prom_accepted_idx y = length (node_log ?s)"
      "prom_decided_idx y = node_decided ?s" "prom_log_unsync y = Some []"
    and sy: "prom_log_sync y =
         (if prep_n_accepted x < node_round ?s then Some \<lparr>ls_decided_snapshot = None, ls_suffix = drop (prep_decided_idx x) (node_log ?s),
             ls_sync_idx = prep_decided_idx x, ls_stopsign = None\<rparr>
          else if node_round ?s = prep_n_accepted x \<and> prep_accepted_idx x < length (node_log ?s) then
            Some \<lparr>ls_decided_snapshot = None, ls_suffix = drop (prep_accepted_idx x) (node_log ?s),
             ls_sync_idx = prep_accepted_idx x, ls_stopsign = None\<rparr>
          else None)"
    and tq: "t = ?s\<lparr>sp_store := st, sp_state := (FollowerRole, PhasePrepare), current_seq_num := default_seq_num,
       cached_promise_message := Some y,
       outgoing := [SequencePaxos \<lparr>pm_from = p, pm_to = r, pm_msg = Promise y\<rparr>]\<rparr>"
    and le: "node_promise ?s \<le> ?b"
    by (rule handle_prepare_eq [OF env node(1) t False]) blast
  note ss = store_set_promise [OF pl(3), of ?b, folded st]
  have l: "leads C g r ?b" "r \<noteq> p" and kb: "known C ?b" "default_ballot < ?b" "ballot_pid ?b = r"
    using x by (simp_all add: leads_def)
  have le': "cs_prom g p \<le> ?b" using le d(1) by simp
  have a: "acts C p g ?g pos pos" by (rule promised_acts [OF le'])
  have stays: "stays g ?g p ?s (taken t)"
  proof -
    have "?b = cs_prom g p" if "?b \<le> cs_prom g p" using known_eq [OF kb(1) _ that le'] d(1,2) by metis
    then show ?thesis using ss tq unfolding stays_def by (auto simp: preparing_def)
  qed
  have cc: "call C p g ?g pos pos (cl_nodes c) (taken t)" using inv pos a stays by (simp add: call_def)
  have inv': "cs_inv (cpair C) ?g" using cs_steps_inv [OF _ inv v] a by (simp add: acts_def)
  have data: "data_ok C ?g p (taken t)"
    by (rule data_ok_promised [OF node(2) le kb(1)]) (use ss tq in simp_all)
  have node': "node_ok C ?g pos p (taken t)"
    using data pl ss(1) tq unfolding node_ok_def plain_taken by (simp add: leader_ok_def follower_ok_def Let_def)
  have "node_round ?s \<le> ?b" using d(4) le by (rule order_trans)
  then have pok: "promise_ok C ?g ?b p (prom_n_accepted y) (prom_accepted_idx y) (prom_decided_idx y)"
    using data_promise_ok [OF data, of ?b] kb(2) ss tq y by simp
  have br: "brings_log ?g (cl_nodes c r) y" if prep: "preparing ?b (cl_nodes c r)"
  proof -
    have dr: "data_ok C ?g r (cl_nodes c r)"
      using data_ok_acts [OF cc node_okD(2) [OF cluster_okD(3) [OF ok p(2)]] l(2)] .
    have own: "prep_n_accepted x = node_round (cl_nodes c r)" "prep_accepted_idx x = length (node_log (cl_nodes c r))"
      "prep_decided_idx x = node_decided (cl_nodes c r)" using x prep by simp_all
    show ?thesis
      by (rule promise_brings_log [OF inv' dr data]) (use ss tq y sy own in simp_all)
  qed
  have msg: "prom_msg_ok C ?g (?\<sigma> r) p r y"
    using leads_le [OF actsD(1) [OF a] l(1)] pok br y l(2) by (simp add: prom_msg_ok_def)
  have "cached_ok C ?g ?\<sigma> p" using msg tq y(1) kb(3) l(2) by (simp add: cached_ok_def)
  moreover have "sends_ok C ?g pos ?\<sigma> p (outgoing t)" using msg tq l(2) by (simp add: sends_ok_def msg_pos_def)
  moreover have "pos_ok ?g pos" using pos by (simp add: pos_ok_def)
  moreover have "raises_ok C p g ?g pos c" by (simp add: raises_ok_def)
  ultimately show ?thesis using a stays node' unfolding call_ok_def by blast
qed

subsection \<open>Accepting from the leader\<close>

definition accepted_step :: "'e consensus \<Rightarrow> node_id \<Rightarrow> ballot \<Rightarrow> nat \<Rightarrow> 'e consensus" where
  "accepted_step g p b k =
     g\<lparr>cs_prom := (cs_prom g)(p := b), cs_acc := (cs_acc g)(p := (cs_acc g p)(b \<mapsto> k))\<rparr>"

lemma accepted_step_sel [simp]:
  "cs_prom (accepted_step g p b k) = (cs_prom g)(p := b)"
  "cs_acc (accepted_step g p b k) = (cs_acc g)(p := (cs_acc g p)(b \<mapsto> k))"
  "cs_log (accepted_step g p b k) = cs_log g" "cs_base (accepted_step g p b k) = cs_base g"
  "cs_plog (accepted_step g p b k) = cs_plog g"
  by (simp_all add: accepted_step_def cs_plog_def fun_eq_iff)

text \<open>The message at the head of a link: the rest of the link comes after it.\<close>

definition head_ok :: "'e consensus \<Rightarrow> positions \<Rightarrow> ('e, 's) cluster \<Rightarrow> node_id \<Rightarrow> node_id \<Rightarrow> ('e, 's) paxos_msg \<Rightarrow> bool" where
  "head_ok g pos c p q m \<longleftrightarrow> (\<forall>m' \<in> set (cl_links c p q). before pos q m m') \<and>
     (\<forall>b k j. msg_pos pos q m = Some (b, k) \<longrightarrow> cs_acc g q b = Some j \<longrightarrow> j \<le> k)"

text \<open>The state of a follower that has accepted the log of ballot \<open>b\<close> up to length \<open>k\<close>.\<close>

definition accepted_to :: "cluster_config \<Rightarrow> 'e consensus \<Rightarrow> positions \<Rightarrow> node_id \<Rightarrow> ballot \<Rightarrow> nat \<Rightarrow> 'e list \<Rightarrow>
    ('e, 's) sequence_paxos \<Rightarrow> bool" where
  "accepted_to C g pos p b k L t \<longleftrightarrow> plain_node C p (taken t) \<and> sp_state t = (FollowerRole, PhaseAccept) \<and>
     node_promise t = b \<and> node_round t = b \<and> node_log t = take k L \<and> node_decided t \<le> k \<and>
     cs_committed (cpair C) g b (take (node_decided t) L) \<and> pos b p (current_seq_num t) = Some k \<and>
     (\<forall>q m. m \<in> set (msgs_to q (outgoing t)) \<longrightarrow> (\<exists>k' \<le> k. m = Accepted \<lparr>acc_n = b, acc_accepted_idx = k'\<rparr>))"

lemma cached_call:
  assumes c: "call C p g g' pos pos' \<sigma> t" and ok: "cached_ok C g \<sigma> p"
    and t: "cached_promise_message t = None \<or> cached_promise_message t = cached_promise_message (\<sigma> p)"
  shows "cached_ok C g' (\<sigma>(p := t)) p"
  unfolding cached_ok_def
proof (intro allI impI)
  fix x assume "cached_promise_message ((\<sigma>(p := t)) p) = Some x"
  then have "cached_promise_message (\<sigma> p) = Some x" using t by auto
  then have "prom_msg_ok C g (\<sigma> (ballot_pid (prom_n x))) p (ballot_pid (prom_n x)) x"
    using ok unfolding cached_ok_def by blast
  then show "prom_msg_ok C g' ((\<sigma>(p := t)) (ballot_pid (prom_n x))) p (ballot_pid (prom_n x)) x"
    by (rule brings_log_acts [OF c])
qed

lemma follower_accepts:
  assumes ok: "cluster_ok C g pos c" and v: "valid_server (cpair C)"
    and p: "p \<in> set (nodes C)" "r \<in> set (nodes C)"
    and m: "msg_ok C g pos (cl_nodes c) r p m" and head: "head_ok g pos c r p m"
    and mp: "msg_pos pos p m = Some (b, k)" and L: "accepts_from C g r p b L d k"
    and pr: "node_promise (cl_nodes c p) = b" and t: "accepted_to C g pos p b k L t"
    and ca: "cached_promise_message t = None \<or> cached_promise_message t = cached_promise_message (cl_nodes c p)"
  shows "\<exists>g' pos'. call_ok C g pos c p t g' pos'"
proof -
  let ?s = "cl_nodes c p" and ?g = "accepted_step g p b k" and ?\<sigma> = "(cl_nodes c)(p := taken t)"
  note node = node_okD [OF cluster_okD(3) [OF ok p(1)]] and inv = cluster_okD(1) [OF ok] and pos = cluster_okD(2) [OF ok]
  note d = data_okD [OF node(2)]
  have tt: "plain_node C p (taken t)" "sp_state t = (FollowerRole, PhaseAccept)"
    "node_promise t = b" "node_round t = b" "node_log t = take k L" "node_decided t \<le> k"
    "cs_committed (cpair C) g b (take (node_decided t) L)" "pos b p (current_seq_num t) = Some k"
    and out: "m \<in> set (msgs_to q (outgoing t)) \<Longrightarrow> \<exists>k' \<le> k. m = Accepted \<lparr>acc_n = b, acc_accepted_idx = k'\<rparr>" for q m
    using t unfolding accepted_to_def by blast+
  have lg: "cs_log g b = Some L" and kb: "known C b" and rp: "r \<noteq> p" using L by (auto simp: accepts_from_def leads_def)
  obtain n where n: "pos b p n = Some k" using tt(8) by blast
  have k: "cs_base g b \<le> k" "k \<le> length L" using pos n lg unfolding pos_ok_def by fastforce+
  have j: "\<forall>j. cs_acc g p b = Some j \<longrightarrow> j \<le> k" using head mp unfolding head_ok_def by blast
  have prom: "cs_prom g p = b" using d(1) pr by simp
  have step: "cs_step (cpair C) g ?g"
    unfolding accepted_step_def by (rule cs_accept [OF lg _ k j]) (simp add: prom)
  then have a: "acts C p g ?g pos pos" unfolding acts_def by (auto simp del: split_paired_All)
  have stays: "stays g ?g p ?s (taken t)" using tt(2) unfolding stays_def by (auto simp: preparing_def)
  have cc: "call C p g ?g pos pos (cl_nodes c) (taken t)" using inv pos a stays by (simp add: call_def)
  have below: "b' \<le> b" if acc: "cs_acc ?g p b' \<noteq> None" for b'
  proof (cases "b' = b")
    case False
    then obtain j where "cs_acc g p b' = Some j" using acc by auto
    then have "b' \<le> node_round ?s" by (rule d(5))
    also have "\<dots> \<le> b" using d(4) pr by simp
    finally show ?thesis .
  qed simp
  have plog: "cs_plog g b = L" using lg by (simp add: cs_plog_def)
  have com: "cs_committed (cpair C) ?g b (take (node_decided t) (take k L))"
    using cs_le_committed [OF cs_step_le [OF step] tt(7) order_refl] tt(6) by (simp add: min_absorb1)
  have data: "data_ok C ?g p (taken t)"
    using tt(3-6) kb k below com plog unfolding data_ok_def by (simp add: decided_log_def take_is_prefix)
  have node': "node_ok C ?g pos p (taken t)"
    using data tt(1,2,3-5,8) k(2) unfolding node_ok_def by (simp add: leader_ok_def follower_ok_def Let_def)
  have "cached_ok C ?g ?\<sigma> p"
    by (rule cached_call [OF cc cluster_okD(4) [OF ok p(1)]]) (use ca in auto)
  moreover have "raises_ok C p g ?g pos c"
    unfolding raises_ok_def
  proof (intro allI impI)
    fix b' j assume j: "cs_acc ?g p b' = Some j"
    show "cs_acc g p b' = Some j \<or> ballot_pid b' = p \<or>
       (\<forall>r \<in> set (nodes C). \<forall>m \<in> set (cl_links c r p). \<forall>k. msg_pos pos p m = Some (b', k) \<longrightarrow> j \<le> k)"
    proof (cases "b' = b")
      case True
      then have "j = k" using j by simp
      moreover have "k \<le> k'" if r': "r' \<in> set (nodes C)" "m' \<in> set (cl_links c r' p)" "msg_pos pos p m' = Some (b, k')" for r' m' k'
      proof -
        have "r' = r"
          using msg_pos_leads(1) [OF cluster_okD(6) [OF ok r'(1) p(1) r'(2)] r'(3)] msg_pos_leads(1) [OF m mp] by simp
        then show ?thesis using head r' mp unfolding head_ok_def before_def by blast
      qed
      ultimately show ?thesis using True by blast
    qed (use j in simp)
  qed
  moreover have "sends_ok C ?g pos ?\<sigma> p (outgoing t)"
    using out unfolding sends_ok_def by (fastforce simp: msg_pos_def)
  moreover have "pos_ok ?g pos" using pos by (simp add: pos_ok_def)
  ultimately show ?thesis using a stays node' unfolding call_ok_def by blast
qed

subsection \<open>Log synchronisation\<close>

lemma accsync_fits:
  assumes inv: "cs_inv (cpair C) g" and d: "data_ok C g p s" and x: "accsync_ok C g pos s r p x L"
    and pr: "node_promise s = as_n x" and k: "k = ls_sync_idx (as_log_sync x) + length (ls_suffix (as_log_sync x))"
  shows "sync_to (node_log s) (as_log_sync x) (take k L)"
proof -
  let ?b = "as_n x" and ?y = "as_log_sync x"
  let ?i = "ls_sync_idx ?y"
  have lg: "cs_log g ?b = Some L" and y: "ls_decided_snapshot ?y = None" "ls_stopsign ?y = None"
    "ls_suffix ?y = drop ?i (take k L)"
    and i: "?i \<le> cs_base g ?b \<or> (\<exists>j. cs_acc g p ?b = Some j \<and> ?i \<le> j)"
    and own: "cs_prom g p = ?b \<Longrightarrow> cs_acc g p ?b = None \<Longrightarrow> ?i \<le> length (node_log s) \<and> take ?i (node_log s) = take ?i L"
    using x unfolding accsync_ok_def accepts_from_def Let_def k by blast+
  have "?i \<le> length (node_log s) \<and> take ?i (node_log s) = take ?i L"
  proof (cases "cs_acc g p ?b")
    case None
    then show ?thesis using own data_okD(1) [OF d] pr by simp
  next
    case (Some j)
    have r: "node_round s = ?b"
      using data_okD(2-4) [OF d] data_okD(5) [OF d Some] pr known_eq by metis
    then have j: "j = length (node_log s)" using data_okD(8) [OF d] Some by simp
    have "node_log s = take j L" using data_log(1) [OF d] r lg j by (simp add: cs_plog_def)
    moreover have "?i \<le> j" using i Some cs_invD(2) [OF inv Some] by auto
    ultimately show ?thesis using j by (metis min.absorb1 take_take)
  qed
  moreover have "take ?i L @ drop ?i (take k L) = take k L"
    by (metis append_take_drop_id k le_add1 min.absorb1 take_take)
  ultimately show ?thesis using y by (simp add: sync_to_def)
qed

lemma acceptsync_call_ok:
  assumes ok: "cluster_ok C g pos c" and v: "valid_server (cpair C)"
    and p: "p \<in> set (nodes C)" "r \<in> set (nodes C)"
    and m: "msg_ok C g pos (cl_nodes c) r p (AcceptSync x)" and head: "head_ok g pos c r p (AcceptSync x)"
    and t: "handle_acceptsync env x r (cl_nodes c p) = Some t"
  shows "\<exists>g' pos'. call_ok C g pos c p t g' pos'"
proof -
  let ?s = "cl_nodes c p" and ?b = "as_n x" and ?y = "as_log_sync x"
  let ?k = "ls_sync_idx ?y + length (ls_suffix ?y)"
  note node = node_okD [OF cluster_okD(3) [OF ok p(1)]] and inv = cluster_okD(1) [OF ok] and pos = cluster_okD(2) [OF ok]
  note pl = plain_nodeD [OF node(1)] and d = data_okD [OF node(2)]
  obtain vd s1 where cv: "check_valid_ballot ?b ?s = (vd, s1)" by fastforce
  obtain L where L: "accsync_ok C g pos ?s r p x L" using m by auto
  then have af: "accepts_from C g r p ?b L (as_decided_idx x) ?k" and px: "pos ?b p (as_seq_num x) = Some ?k"
    unfolding accsync_ok_def Let_def by blast+
  have lg: "cs_log g ?b = Some L" and kb: "known C ?b" "ballot_pid ?b = r" and dk: "as_decided_idx x \<le> ?k"
    and com: "cs_committed (cpair C) g ?b (take (as_decided_idx x) L)"
    using af by (auto simp: accepts_from_def leads_def)
  show ?thesis
  proof (cases "vd \<and> sp_state s1 = (FollowerRole, PhasePrepare)")
    case False
    then have "t = s1" using t cv by (simp only: handle_acceptsync_def prod.case Let_def if_False option.inject)
    show ?thesis
    proof (cases vd)
      case True
      then have "t = ?s" using \<open>t = s1\<close> check_valid_ballot_cases(2) [OF cv] by simp
      then show ?thesis using idle_call_ok [OF ok p(1)] by blast
    next
      case False
      then show ?thesis
        using check_valid_ballot_False [of ?b ?s s1] cv pl(1,9) \<open>t = s1\<close> quiet_harmless [OF ok p(1)] by simp blast
    qed
  next
    case True
    then have s1: "s1 = ?s" using check_valid_ballot_cases(2) [OF cv] by simp
    have pr: "node_promise ?s = ?b"
      using check_valid_ballot_cases(1) [OF cv] True known_cmp [OF d(2) kb(1)] by simp
    obtain st where st: "sync_log env ?b (as_decided_idx x) (Some ?y) (sp_store ?s) = Some (Inr (length (take ?k L), st))"
      "plain_store st" "get_promise st = node_promise ?s" "get_accepted_round st = ?b" "get_decided_idx st = as_decided_idx x"
      "ms_log (is_storage st) = take ?k L"
      by (rule store_sync [OF pl(3) accsync_fits [OF inv node(2) L pr refl]]) blast
    let ?u = "?s\<lparr>cached_promise_message := None, sp_store := st, accepted_prefix_hash := as_log_prefix_hash x,
       sp_state := (FollowerRole, PhaseAccept), current_seq_num := as_seq_num x,
       latest_accepted_meta := Some (?b, length (outgoing ?s)), unsynced_log := [], unsynced_hash := default_hash\<rparr>"
    have tq: "t = send_to r (Accepted \<lparr>acc_n = ?b, acc_accepted_idx = length (take ?k L)\<rparr>) ?u"
      using t cv True s1 st(1) by (simp add: handle_acceptsync_def expect_def)
    have "accepted_to C g pos p ?b ?k L t"
      using st(2-6) pl dk com px pr unfolding accepted_to_def plain_taken tq by (simp add: send_to_def)
    moreover have "msg_pos pos p (AcceptSync x :: ('a, 'b) paxos_msg) = Some (?b, ?k)" using px by (simp add: msg_pos_def)
    moreover have "cached_promise_message t = None" by (simp add: tq send_to_def)
    ultimately show ?thesis using follower_accepts [OF ok v p m head _ af pr] by blast
  qed
qed

subsection \<open>Accept and decide messages\<close>

lemma guarded_cases:
  assumes "(let (v, u) = check_valid_ballot b s in
      if v \<and> Q u then (let (st, w) = handle_sequence_num n (ballot_pid b) u in if st = Expected then F w else Some w)
      else Some u) = Some t" "outgoing s = []"
  shows "quiet s t \<and> (\<forall>m \<in> set (outgoing t). harmless (sp_pid s) m) \<or>
    ballot_cmp (node_promise s) b = Equal \<and> Q s \<and> check_msg_status (current_seq_num s) n = Expected \<and>
    F (s\<lparr>current_seq_num := n\<rparr>) = Some t"
proof -
  obtain v u where v: "check_valid_ballot b s = (v, u)" by fastforce
  obtain st w where w: "handle_sequence_num n (ballot_pid b) u = (st, w)" by fastforce
  have t: "(if v \<and> Q u then if st = Expected then F w else Some w else Some u) = Some t"
    using assms(1) by (simp only: v w Let_def prod.case)
  show ?thesis
  proof (cases v)
    case False
    then show ?thesis using t v check_valid_ballot_False [of b s u] assms(2) by simp
  next
    case True
    then have u: "u = s" "ballot_cmp (node_promise s) b = Equal" using check_valid_ballot_cases [OF v] by simp_all
    consider "\<not> Q s" | "st \<noteq> Expected" "Q s" | "st = Expected" "Q s" by blast
    then show ?thesis
    proof cases
      case 1
      then show ?thesis using t u True assms(2) by simp
    next
      case 2
      then show ?thesis using t u True handle_sequence_num_late [of n "ballot_pid b" s st w] w assms(2) by simp
    next
      case 3
      then have "w = s\<lparr>current_seq_num := n\<rparr>" "check_msg_status (current_seq_num s) n = Expected"
        using w u by (auto simp: handle_sequence_num_def Let_def split: message_status.splits)
      then show ?thesis using t u True 3 by simp
    qed
  qed
qed

lemma update_decided_plain:
  assumes "plain_store (sp_store u)" "d \<le> length (node_log u)"
  obtains st where "update_decided_idx_and_get_accepted_idx d u = (None, u\<lparr>sp_store := st\<rparr>)" "plain_store st"
    "get_promise st = node_promise u" "get_accepted_round st = node_round u" "ms_log (is_storage st) = node_log u"
    "get_decided_idx st = max d (node_decided u)"
proof (cases "d \<le> node_decided u")
  case True
  then show thesis using that [of "sp_store u"] assms(1) by (simp add: update_decided_idx_and_get_accepted_idx_def max_def Let_def)
next
  case False
  then show thesis
    using that [of "set_decided_idx d (sp_store u)"] assms(2) store_set_decided [OF assms(1), of d] plain_store_sel(4) [OF assms(1)]
    by (simp add: update_decided_idx_and_get_accepted_idx_def max_def Let_def)
qed

lemma reply_accepted_new:
  assumes "latest_accepted_meta u = None"
  shows "reply_accepted n i u = Some (send_to (ballot_pid n) (Accepted \<lparr>acc_n = n, acc_accepted_idx = i\<rparr>)
    (u\<lparr>latest_accepted_meta := Some (n, length (outgoing u))\<rparr>))"
  using assms by (simp add: reply_accepted_def get_latest_accepted_message_def)

text \<open>A node ready for the next message of its leader.\<close>

lemma follower_ready:
  assumes ok: "cluster_ok C g pos c" and p: "p \<in> set (nodes C)"
    and f: "follows C g pos r p b sq d L k k'" and b: "ballot_cmp (node_promise (cl_nodes c p)) b = Equal"
    and st: "snd (sp_state (cl_nodes c p)) = PhaseAccept"
    and sq: "check_msg_status (current_seq_num (cl_nodes c p)) sq = Expected"
  shows "sp_state (cl_nodes c p) = (FollowerRole, PhaseAccept)" "node_promise (cl_nodes c p) = b"
    "node_round (cl_nodes c p) = b" "node_log (cl_nodes c p) = take k L" "length (node_log (cl_nodes c p)) = k"
    "node_decided (cl_nodes c p) \<le> k" "cs_committed (cpair C) g b (take (node_decided (cl_nodes c p)) L)"
proof -
  let ?s = "cl_nodes c p"
  note node = node_okD [OF cluster_okD(3) [OF ok p]]
  note d = data_okD [OF node(2)]
  have l: "leads C g r b" "r \<noteq> p" "cs_log g b = Some L" and ps: "pos b p (SequenceNumber (session sq) (counter sq - 1)) = Some k"
    using f by (auto simp: follows_def accepts_from_def)
  have kb: "known C b" "ballot_pid b = r" using l(1) by (simp_all add: leads_def)
  show pr: "node_promise ?s = b" using b known_cmp [OF d(2) kb(1)] by simp
  have "fst (sp_state ?s) \<noteq> LeaderRole"
  proof
    assume "fst (sp_state ?s) = LeaderRole"
    then have "leads C g p (node_promise ?s)" using node(3) by (simp add: leader_ok_def Let_def)
    then show False using pr kb(2) l(2) by (simp add: leads_def)
  qed
  then show state: "sp_state ?s = (FollowerRole, PhaseAccept)" using st by (cases "sp_state ?s"; cases "fst (sp_state ?s)") auto
  have "node_round ?s = b" "pos b p (current_seq_num ?s) = Some (length (node_log ?s))"
    using node(4) state pr kb(2) l(2) by (simp_all add: follower_ok_def)
  moreover have "SequenceNumber (session sq) (counter sq - 1) = current_seq_num ?s"
    using sq check_msg_status_Expected [of "current_seq_num ?s" sq] by (cases "current_seq_num ?s") simp
  ultimately show r: "node_round ?s = b" and k: "length (node_log ?s) = k" using ps by simp_all
  have pl: "cs_plog g b = L" using l(3) by (simp add: cs_plog_def)
  show "node_log ?s = take k L" using data_log(1) [OF node(2)] r k pl by simp
  show "node_decided ?s \<le> k" using d(10) k by simp
  show "cs_committed (cpair C) g b (take (node_decided ?s) L)" using d(11) data_log(2) [OF node(2)] r pl by simp
qed

lemma acceptdecide_call_ok:
  assumes env: "plain_env env" and ok: "cluster_ok C g pos c" and v: "valid_server (cpair C)"
    and p: "p \<in> set (nodes C)" "r \<in> set (nodes C)"
    and m: "msg_ok C g pos (cl_nodes c) r p (AcceptDecide x)" and head: "head_ok g pos c r p (AcceptDecide x)"
    and t: "handle_acceptdecide env x (cl_nodes c p) = Some t"
  shows "\<exists>g' pos'. call_ok C g pos c p t g' pos'"
proof -
  let ?s = "cl_nodes c p" and ?b = "ad_n x" and ?es = "ad_entries x"
  note node = node_okD [OF cluster_okD(3) [OF ok p(1)]]
  note pl = plain_nodeD [OF node(1)]
  let ?u = "?s\<lparr>current_seq_num := ad_seq_num x\<rparr>"
  obtain L k where f: "follows C g pos r p ?b (ad_seq_num x) (ad_decided_idx x) L k (k + length ?es)"
    and es: "?es = drop k (take (k + length ?es) L)"
    using m by (simp only: msg_ok.simps) blast
  let ?k = "k + length ?es"
  have af: "accepts_from C g r p ?b L (ad_decided_idx x) ?k" and px: "pos ?b p (ad_seq_num x) = Some ?k"
    using f by (auto simp: follows_def)
  from guarded_cases [OF t [unfolded handle_acceptdecide_def] pl(9)] show ?thesis
  proof (elim disjE conjE)
    assume "quiet ?s t" "\<forall>m \<in> set (outgoing t). harmless (sp_pid ?s) m"
    then show ?thesis using quiet_harmless [OF ok p(1)] pl(1) by simp blast
  next
    assume bs: "ballot_cmp (node_promise ?s) ?b = Equal" "sp_state ?s = (FollowerRole, PhaseAccept)"
      "check_msg_status (current_seq_num ?s) (ad_seq_num x) = Expected"
      and run: "(if length (ad_entry_meta x) \<noteq> length ?es then None
                 else do {
                 let (preserved_tail, self) = cleanup_fast_path_metadata env (ad_entry_meta x) ?u;
                 let (new_accepted_idx, st) = append_entries_and_get_accepted_idx ?es (sp_store self);
                 let self = self\<lparr>sp_store := st, accepted_prefix_hash := ad_log_prefix_hash x\<rparr>;
                 let (flushed_after_decide, self) = update_decided_idx_and_get_accepted_idx (ad_decided_idx x) self;
                 let new_accepted_idx = (if flushed_after_decide \<noteq> None then flushed_after_decide else new_accepted_idx);
                 let self = rebuild_unsynced_tail (get_accepted_idx (sp_store self)) preserved_tail self;
                 (case new_accepted_idx of
                    Some idx \<Rightarrow> reply_accepted ?b idx self
                  | None \<Rightarrow> Some self)
               }) = Some t"
    note rd = follower_ready [OF ok p(1) f bs(1) _ bs(3)]
    have rd: "node_promise ?s = ?b" "node_round ?s = ?b" "node_log ?s = take k L" "length (node_log ?s) = k"
      "node_decided ?s \<le> k" "cs_committed (cpair C) g ?b (take (node_decided ?s) L)"
      using rd bs(2) by simp_all
    obtain dm where cl: "cleanup_fast_path_metadata env (ad_entry_meta x) ?u =
        ([], ?u\<lparr>sp_dom := dm, unsynced_log := [], unsynced_hash := default_hash\<rparr>)"
      using env pl(6) by (simp add: cleanup_fast_path_metadata_def plain_env_def Let_def)
    obtain i st where ap: "append_entries_and_get_accepted_idx ?es (sp_store ?s) = (i, st)" by fastforce
    note sa = store_append [OF pl(3) ap]
    let ?u2 = "?u\<lparr>sp_dom := dm, unsynced_log := [], unsynced_hash := default_hash, sp_store := st,
      accepted_prefix_hash := ad_log_prefix_hash x\<rparr>"
    have lg: "ms_log (is_storage st) = take ?k L"
      using sa(5) rd(3) es by (metis append_take_drop_id le_add1 min.absorb1 take_take)
    have lk: "length (take ?k L) = ?k" using sa(5) lg rd(4) by (metis length_append)
    have dk: "ad_decided_idx x \<le> ?k" "cs_committed (cpair C) g ?b (take (ad_decided_idx x) L)"
      using af by (simp_all add: accepts_from_def)
    obtain st' where up: "update_decided_idx_and_get_accepted_idx (ad_decided_idx x) ?u2 = (None, ?u2\<lparr>sp_store := st'\<rparr>)"
      "plain_store st'" "get_promise st' = ?b" "get_accepted_round st' = ?b" "ms_log (is_storage st') = take ?k L"
      "get_decided_idx st' = max (ad_decided_idx x) (node_decided ?s)"
      by (rule update_decided_plain [of ?u2 "ad_decided_idx x"]) (use sa lg lk dk(1) rd(1,2) in simp_all)
    let ?u3 = "?u2\<lparr>sp_store := st', unsynced_hash := default_hash, unsynced_log := []\<rparr>"
    have rb: "rebuild_unsynced_tail a [] u = u\<lparr>unsynced_hash := default_hash, unsynced_log := []\<rparr>"
      for a and u :: "('a, 'b) sequence_paxos"
      by (simp add: rebuild_unsynced_tail_def)
    have tq: "t = ?u3 \<or> t = send_to (ballot_pid ?b) (Accepted \<lparr>acc_n = ?b, acc_accepted_idx = ?k\<rparr>)
        (?u3\<lparr>latest_accepted_meta := Some (?b, length (outgoing ?u3))\<rparr>)"
      using run cl ap up(1) sa(6) lg lk reply_accepted_new [of ?u3] pl(10) by (simp add: rb split: if_splits)
    have "node_decided t = max (ad_decided_idx x) (node_decided ?s)" using tq up(6) by (auto simp: send_to_def)
    then have "node_decided t \<le> ?k" "cs_committed (cpair C) g ?b (take (node_decided t) L)"
      using dk rd(5,6) by (simp_all add: max_def)
    then have "accepted_to C g pos p ?b ?k L t"
      using tq up pl px bs(2) unfolding accepted_to_def plain_taken by (auto simp: send_to_def split: if_splits)
    moreover have "msg_pos pos p (AcceptDecide x :: ('a, 'b) paxos_msg) = Some (?b, ?k)" using px by (simp add: msg_pos_def)
    moreover have "cached_promise_message t = cached_promise_message ?s" using tq by (auto simp: send_to_def)
    ultimately show ?thesis using follower_accepts [OF ok v p m head _ af rd(1)] by blast
  qed
qed

lemma decide_call_ok:
  assumes ok: "cluster_ok C g pos c" and v: "valid_server (cpair C)"
    and p: "p \<in> set (nodes C)" "r \<in> set (nodes C)"
    and m: "msg_ok C g pos (cl_nodes c) r p (Decide x)" and head: "head_ok g pos c r p (Decide x)"
    and t: "handle_decide x (cl_nodes c p) = Some t"
  shows "\<exists>g' pos'. call_ok C g pos c p t g' pos'"
proof -
  let ?s = "cl_nodes c p" and ?b = "dec_n x"
  note node = node_okD [OF cluster_okD(3) [OF ok p(1)]]
  note pl = plain_nodeD [OF node(1)]
  let ?u = "?s\<lparr>current_seq_num := dec_seq_num x\<rparr>"
  obtain L k where f: "follows C g pos r p ?b (dec_seq_num x) (dec_decided_idx x) L k k"
    using m by (simp only: msg_ok.simps) blast
  have af: "accepts_from C g r p ?b L (dec_decided_idx x) k" and px: "pos ?b p (dec_seq_num x) = Some k"
    using f by (auto simp: follows_def)
  from guarded_cases [OF t [unfolded handle_decide_def] pl(9)] show ?thesis
  proof (elim disjE conjE)
    assume "quiet ?s t" "\<forall>m \<in> set (outgoing t). harmless (sp_pid ?s) m"
    then show ?thesis using quiet_harmless [OF ok p(1)] pl(1) by simp blast
  next
    assume bs: "ballot_cmp (node_promise ?s) ?b = Equal" "snd (sp_state ?s) = PhaseAccept"
      "check_msg_status (current_seq_num ?s) (dec_seq_num x) = Expected"
      and run: "(let (new_accepted_idx, self) = update_decided_idx_and_get_accepted_idx (dec_decided_idx x) ?u
                  in case new_accepted_idx of
                       Some idx \<Rightarrow> reply_accepted ?b idx self
                     | None \<Rightarrow> Some self) = Some t"
    note rd = follower_ready [OF ok p(1) f bs]
    have dk: "dec_decided_idx x \<le> k" "cs_committed (cpair C) g ?b (take (dec_decided_idx x) L)"
      using af by (simp_all add: accepts_from_def)
    obtain st' where up: "update_decided_idx_and_get_accepted_idx (dec_decided_idx x) ?u = (None, ?u\<lparr>sp_store := st'\<rparr>)"
      "plain_store st'" "get_promise st' = ?b" "get_accepted_round st' = ?b" "ms_log (is_storage st') = take k L"
      "get_decided_idx st' = max (dec_decided_idx x) (node_decided ?s)"
      by (rule update_decided_plain [of ?u "dec_decided_idx x"]) (use rd dk(1) pl(3) in simp_all)
    have tq: "t = ?u\<lparr>sp_store := st'\<rparr>" using run up(1) by simp
    have "node_decided t \<le> k" "cs_committed (cpair C) g ?b (take (node_decided t) L)"
      using up(6) tq dk rd(6,7) by (simp_all add: max_def)
    then have "accepted_to C g pos p ?b k L t"
      using tq up pl px rd(1) unfolding accepted_to_def plain_taken by simp
    moreover have "msg_pos pos p (Decide x :: ('a, 'b) paxos_msg) = Some (?b, k)" using px by (simp add: msg_pos_def)
    moreover have "cached_promise_message t = cached_promise_message ?s" using tq by simp
    ultimately show ?thesis using follower_accepts [OF ok v p m head _ af rd(2)] by blast
  qed
qed

end
