(* ===== verification/Cluster_Election.thy ===== *)
theory Cluster_Election
  imports Cluster_Follower
begin

text \<open>
  Taking leadership and collecting promises: the calls that start a ballot on a node and those
  that add a promise before the quorum is complete.
\<close>

subsection \<open>The leader's tables\<close>

lemma set_unsynced_log_store:
  assumes "set_unsynced_log q u l = Some l'"
  shows "set (unsynced_log_store l') \<subseteq> insert u (set (unsynced_log_store l))"
  using assms by (auto simp: set_unsynced_log_def split: if_splits dest: set_update_subset_insert [THEN subsetD])

lemma ls_set_promise_same:
  assumes "ls_set_promise x q ch l = Some (r, l')"
  shows "n_leader l' = n_leader l" "follower_seq_nums l' = follower_seq_nums l" "accepted_indexes l' = accepted_indexes l"
    "ls_quorum l' = ls_quorum l" "pending_accept_meta l' = pending_accept_meta l" "max_pid l' = max_pid l"
    "latest_accept_meta l' = latest_accept_meta l"
    "prom_log_unsync x = Some [] \<Longrightarrow> set (unsynced_log_store l) \<subseteq> {[]} \<Longrightarrow> set (unsynced_log_store l') \<subseteq> {[]}"
proof -
  let ?m = "\<lparr>pmd_n_accepted = prom_n_accepted x, pmd_accepted_idx = prom_accepted_idx x,
           pmd_decided_idx = prom_decided_idx x, pmd_pid = q\<rparr>"
  define l1 where "l1 = (if ch \<and> promise_cmp ?m (max_promise_meta l) = Greater
     then l\<lparr>max_promise_meta := ?m, max_promise_sync := prom_log_sync x,
                 max_promise_accepted_hash := prom_log_prefix_hash x\<rparr> else l)"
  obtain v where v: "(case prom_log_unsync x of Some u \<Rightarrow> set_unsynced_log q u (l1\<lparr>promises_meta := v\<rparr>)
      | None \<Rightarrow> Some (l1\<lparr>promises_meta := v\<rparr>)) = Some l'"
    using assms unfolding ls_set_promise_def l1_def [symmetric] Let_def by (auto cong: option.case_cong)
  have l1: "n_leader l1 = n_leader l" "follower_seq_nums l1 = follower_seq_nums l" "accepted_indexes l1 = accepted_indexes l"
    "ls_quorum l1 = ls_quorum l" "pending_accept_meta l1 = pending_accept_meta l" "max_pid l1 = max_pid l"
    "latest_accept_meta l1 = latest_accept_meta l" "unsynced_log_store l1 = unsynced_log_store l"
    by (simp_all add: l1_def)
  have l': "l' = l1\<lparr>promises_meta := v, unsynced_log_store := unsynced_log_store l'\<rparr>"
    using v set_unsynced_log_frame [of q _ "l1\<lparr>promises_meta := v\<rparr>" l'] by (cases "prom_log_unsync x") auto
  show "n_leader l' = n_leader l" "follower_seq_nums l' = follower_seq_nums l" "accepted_indexes l' = accepted_indexes l"
    "ls_quorum l' = ls_quorum l" "pending_accept_meta l' = pending_accept_meta l" "max_pid l' = max_pid l"
    "latest_accept_meta l' = latest_accept_meta l"
    by (subst l', simp add: l1)+
  show "set (unsynced_log_store l') \<subseteq> {[]}" if "prom_log_unsync x = Some []" "set (unsynced_log_store l) \<subseteq> {[]}"
    using v that set_unsynced_log_store [of q "[]" "l1\<lparr>promises_meta := v\<rparr>" l'] l1(8) by auto
qed

text \<open>No other node has promises in a fresh table.\<close>

lemma with_sel [simp]:
  "n_leader (leader_state_with b k q) = b" "promises_meta (leader_state_with b k q) = replicate k NotPromised"
  "follower_seq_nums (leader_state_with b k q) = replicate k default_seq_num"
  "accepted_indexes (leader_state_with b k q) = replicate k 0" "ls_quorum (leader_state_with b k q) = q"
  "max_promise_meta (leader_state_with b k q) = default_promise_meta" "max_promise_sync (leader_state_with b k q) = None"
  "latest_accept_meta (leader_state_with b k q) = replicate k None" "max_pid (leader_state_with b k q) = k"
  "unsynced_log_store (leader_state_with b k q) = replicate k []" "pending_accept_meta (leader_state_with b k q) = []"
  by (simp_all add: leader_state_with_def)

lemma own_pids_promise:
  assumes "own_pids l" "ls_set_promise x q ch l = Some (r, l')"
  shows "own_pids l'"
  unfolding own_pids_def
proof (intro allI impI)
  fix i m assume a: "i < length (promises_meta l')" "promises_meta l' ! i = Promised m"
  note s = ls_set_promise_Some [OF assms(2)]
  show "pmd_pid m = Suc i"
  proof (cases "i = q - 1")
    case True
    then have "m = \<lparr>pmd_n_accepted = prom_n_accepted x, pmd_accepted_idx = prom_accepted_idx x,
           pmd_decided_idx = prom_decided_idx x, pmd_pid = q\<rparr>" "Suc i = q" using a s(1-3) by simp_all
    then show ?thesis by simp
  next
    case False
    then show ?thesis using a s(3) assms(1) by (simp add: own_pids_def)
  qed
qed

lemma own_pids_with: "own_pids (leader_state_with b k q)"
  by (simp add: own_pids_def)

subsection \<open>Taking leadership\<close>

lemma handle_leader_eq:
  assumes plain: "plain_node C p s" and t: "handle_leader b s = Some t" and p: "ballot_pid b = p"
    and g: "\<not> b \<le> n_leader (sp_leader s)" "\<not> b \<le> node_promise s"
  obtains l r y where
    "ls_set_promise y p True (leader_state_with b (max_pid (sp_leader s)) (ls_quorum (sp_leader s))) = Some (r, l)"
    "prom_n_accepted y = node_round s" "prom_accepted_idx y = length (node_log s)" "prom_decided_idx y = node_decided s"
    "prom_log_sync y = None" "prom_log_unsync y = Some []"
    "\<exists>u. set_unsynced_log p [] l = Some u \<and>
       t = s\<lparr>sp_store := set_promise b (sp_store s), sp_leader := u, sp_state := (LeaderRole, PhasePrepare),
         outgoing := map (\<lambda>r. SequencePaxos \<lparr>pm_from = p, pm_to = r, pm_msg =
     Prepare \<lparr>prep_n = b, prep_decided_idx = node_decided s,
        prep_n_accepted = node_round s, prep_accepted_idx = length (node_log s)\<rparr>\<rparr>) (sp_peers s)\<rparr>"
proof -
  note pl = plain_nodeD [OF plain]
  let ?st = "set_promise b (sp_store s)"
  note ps = store_set_promise [OF pl(3), of b] and fl = plain_store_sel(5) [OF pl(3)]
  have acc: "get_accepted_idx ?st = length (node_log s)" using plain_store_sel(4) [OF ps(1)] ps(5) by simp
  define y where "y = \<lparr>prom_n = b, prom_n_accepted = node_round s, prom_decided_idx = node_decided s,
              prom_accepted_idx = length (node_log s), prom_log_sync = None :: ('a, 'b) log_sync option,
              prom_log_unsync = Some [], prom_log_prefix_hash = accepted_prefix_hash s\<rparr>"
  obtain r l u where l: "ls_set_promise y p True (leader_state_with b (max_pid (sp_leader s)) (ls_quorum (sp_leader s))) = Some (r, l)"
    and u: "set_unsynced_log p [] l = Some u"
    and tq: "t = send_to_peers (Prepare \<lparr>prep_n = b, prep_decided_idx = node_decided s,
          prep_n_accepted = node_round s, prep_accepted_idx = length (node_log s)\<rparr>)
       (s\<lparr>sp_store := ?st, sp_leader := u, sp_state := (LeaderRole, PhasePrepare)\<rparr>)"
    using t g p pl(1,6) acc ps(3,4) fl unfolding handle_leader_def y_def
    by (auto simp: sp_get_decided_idx_def Let_def)
  have "t = s\<lparr>sp_store := ?st, sp_leader := u, sp_state := (LeaderRole, PhasePrepare),
         outgoing := map (\<lambda>r. SequencePaxos \<lparr>pm_from = p, pm_to = r, pm_msg =
     Prepare \<lparr>prep_n = b, prep_decided_idx = node_decided s,
        prep_n_accepted = node_round s, prep_accepted_idx = length (node_log s)\<rparr>\<rparr>) (sp_peers s)\<rparr>"
    unfolding tq send_to_peers_outgoing using pl(1,9) by simp
  with u have "\<exists>u. set_unsynced_log p [] l = Some u \<and>
       t = s\<lparr>sp_store := ?st, sp_leader := u, sp_state := (LeaderRole, PhasePrepare),
         outgoing := map (\<lambda>r. SequencePaxos \<lparr>pm_from = p, pm_to = r, pm_msg =
     Prepare \<lparr>prep_n = b, prep_decided_idx = node_decided s,
        prep_n_accepted = node_round s, prep_accepted_idx = length (node_log s)\<rparr>\<rparr>) (sp_peers s)\<rparr>" by blast
  moreover have "prom_n_accepted y = node_round s" "prom_accepted_idx y = length (node_log s)" "prom_decided_idx y = node_decided s"
    "prom_log_sync y = None" "prom_log_unsync y = Some []" by (simp_all add: y_def)
  ultimately show thesis using that l by blast
qed

text \<open>The tables of a new leader: its own promise is the maximum.\<close>

lemma fresh_promise:
  assumes l: "ls_set_promise y p True (leader_state_with b k q) = Some (r, l)"
    and y: "prom_log_sync y = None" "\<not> promise_cmp \<lparr>pmd_n_accepted = prom_n_accepted y, pmd_accepted_idx = prom_accepted_idx y,
      pmd_decided_idx = prom_decided_idx y, pmd_pid = p\<rparr> default_promise_meta = Greater \<longrightarrow>
      prom_n_accepted y = default_ballot \<and> prom_accepted_idx y = 0"
  shows "max_promise_inv l" "max_promise_sync l = None"
    "pmd_n_accepted (max_promise_meta l) = prom_n_accepted y" "pmd_accepted_idx (max_promise_meta l) = prom_accepted_idx y"
    "i < length (promises_meta l) \<Longrightarrow> promises_meta l ! i = Promised m \<Longrightarrow> Suc i = p \<and>
      pmd_n_accepted m = prom_n_accepted y \<and> pmd_accepted_idx m = prom_accepted_idx y \<and> pmd_decided_idx m = prom_decided_idx y"
proof -
  note s = ls_set_promise_Some [OF l]
  show "max_promise_inv l" using max_promise_inv_set_promise [OF max_promise_inv_with l] .
  show "max_promise_sync l = None" using s(5) y(1) by simp
  show "pmd_n_accepted (max_promise_meta l) = prom_n_accepted y" "pmd_accepted_idx (max_promise_meta l) = prom_accepted_idx y"
    using s(4) y(2) by (auto simp: default_promise_meta_def)
  show "Suc i = p \<and> pmd_n_accepted m = prom_n_accepted y \<and> pmd_accepted_idx m = prom_accepted_idx y \<and>
      pmd_decided_idx m = prom_decided_idx y"
    if "i < length (promises_meta l)" "promises_meta l ! i = Promised m"
    using that s(1-3) by (cases "i = p - 1") auto
qed

lemma elect_call_ok:
  assumes ok: "cluster_ok C g pos c" and v: "valid_server (cpair C)" and p: "p \<in> set (nodes C)"
    and b: "ballot_config_id b = configuration_id C" "ballot_pid b \<in> set (nodes C)"
    and t: "handle_leader b (cl_nodes c p) = Some t"
  shows "\<exists>g' pos'. call_ok C g pos c p t g' pos'"
proof -
  let ?s = "cl_nodes c p"
  note node = node_okD [OF cluster_okD(3) [OF ok p]] and inv = cluster_okD(1) [OF ok] and pos = cluster_okD(2) [OF ok]
  note pl = plain_nodeD [OF node(1)] and d = data_okD [OF node(2)]
  consider "b \<le> n_leader (sp_leader ?s) \<or> b \<le> node_promise ?s"
    | "\<not> b \<le> n_leader (sp_leader ?s)" "\<not> b \<le> node_promise ?s" "ballot_pid b = p"
    | "\<not> (b \<le> n_leader (sp_leader ?s) \<or> b \<le> node_promise ?s)" "ballot_pid b \<noteq> p" by blast
  then show ?thesis
  proof cases
    case 1
    then have "t = ?s" using t by (simp add: handle_leader_def)
    then show ?thesis using idle_call_ok [OF ok p] by blast
  next
    case 3
    have "sp_pid ?s \<noteq> ballot_pid b" using 3(2) pl(1) by simp
    then have "t = become_follower ?s" using t 3(1) by (simp only: handle_leader_def if_False option.inject)
    then show ?thesis using become_follower_call_ok [OF ok p] by blast
  next
    case 2
    let ?g = "promised_step g p b" and ?\<sigma> = "(cl_nodes c)(p := taken t)"
    obtain l r y where l: "ls_set_promise y p True (leader_state_with b (max_pid (sp_leader ?s)) (ls_quorum (sp_leader ?s))) = Some (r, l)"
      and y: "prom_n_accepted y = node_round ?s" "prom_accepted_idx y = length (node_log ?s)" "prom_decided_idx y = node_decided ?s"
        "prom_log_sync y = None" "prom_log_unsync y = Some []"
      and tt: "\<exists>u. set_unsynced_log p [] l = Some u \<and>
       t = ?s\<lparr>sp_store := set_promise b (sp_store ?s), sp_leader := u, sp_state := (LeaderRole, PhasePrepare),
         outgoing := map (\<lambda>r. SequencePaxos \<lparr>pm_from = p, pm_to = r, pm_msg =
     Prepare \<lparr>prep_n = b, prep_decided_idx = node_decided ?s,
        prep_n_accepted = node_round ?s, prep_accepted_idx = length (node_log ?s)\<rparr>\<rparr>) (sp_peers ?s)\<rparr>"
      by (rule handle_leader_eq [OF node(1) t 2(3,1,2)]) blast
    obtain u where u: "set_unsynced_log p [] l = Some u"
      and tq: "t = ?s\<lparr>sp_store := set_promise b (sp_store ?s), sp_leader := u, sp_state := (LeaderRole, PhasePrepare),
         outgoing := map (\<lambda>r. SequencePaxos \<lparr>pm_from = p, pm_to = r, pm_msg =
     Prepare \<lparr>prep_n = b, prep_decided_idx = node_decided ?s,
        prep_n_accepted = node_round ?s, prep_accepted_idx = length (node_log ?s)\<rparr>\<rparr>) (sp_peers ?s)\<rparr>"
      using tt by blast
    note ss = store_set_promise [OF pl(3), of b]
    have lt: "node_promise ?s < b" using 2(2) by simp
    have kb: "known C b" "default_ballot < b"
      using b le_less_trans [OF default_ballot_le lt] by (simp_all add: known_def)
    have le: "cs_prom g p \<le> b" and lt': "cs_prom g p < b" using lt d(1) less_imp_le by simp_all
    have a: "acts C p g ?g pos pos" by (rule promised_acts [OF le])
    have no: "\<not> b \<le> cs_prom g p" using lt' by (metis less_le_not_le)
    have prt: "node_promise t = b" using ss(2) tq by simp
    have nb: "b' \<noteq> b" if "b' \<le> cs_prom g p" for b' using that no by blast
    have stays: "stays g ?g p ?s (taken t)"
      unfolding stays_def by (auto simp: preparing_def prt dest!: nb)
    have data: "data_ok C ?g p (taken t)"
      by (rule data_ok_promised [OF node(2) less_imp_le [OF lt] kb(1)]) (use ss tq in simp_all)
    have "node_round ?s \<le> b" using d(4) less_imp_le [OF lt] by (rule order_trans)
    then have pok: "promise_ok C ?g b p (node_round ?s) (length (node_log ?s)) (node_decided ?s)"
      using data_promise_ok [OF data, of b] kb(2) ss tq by simp
    have same: "node_round (taken t) = node_round ?s" "node_log (taken t) = node_log ?s" "node_promise (taken t) = b"
      using ss tq by simp_all
    have dflt: "\<not> promise_cmp \<lparr>pmd_n_accepted = prom_n_accepted y, pmd_accepted_idx = prom_accepted_idx y,
      pmd_decided_idx = prom_decided_idx y, pmd_pid = p\<rparr> default_promise_meta = Greater \<longrightarrow>
      prom_n_accepted y = default_ballot \<and> prom_accepted_idx y = 0"
    proof
      assume "\<not> promise_cmp \<lparr>pmd_n_accepted = prom_n_accepted y, pmd_accepted_idx = prom_accepted_idx y,
        pmd_decided_idx = prom_decided_idx y, pmd_pid = p\<rparr> default_promise_meta = Greater"
      then have n: "\<not> default_ballot < node_round ?s" "node_round ?s = default_ballot \<longrightarrow> length (node_log ?s) = 0"
        using y by (simp_all add: promise_cmp_Greater default_promise_meta_def)
      have "known C default_ballot" by (simp add: known_def)
      then have "node_round ?s = default_ballot" using known_eq [of C "node_round ?s" default_ballot] d(3) n(1) by simp
      then show "prom_n_accepted y = default_ballot \<and> prom_accepted_idx y = 0" using n(2) y by simp
    qed
    note f = fresh_promise [OF l y(4) dflt]
    note fs = ls_set_promise_same [OF l]
    have u': "u = l\<lparr>unsynced_log_store := unsynced_log_store u\<rparr>" by (rule set_unsynced_log_frame [OF u])
    have us: "promises_meta u = promises_meta l" "max_promise_meta u = max_promise_meta l" "max_promise_sync u = max_promise_sync l"
      "n_leader u = b" "accepted_indexes u = replicate (max_pid (sp_leader ?s)) 0" "ls_quorum u = ls_quorum (sp_leader ?s)"
      "pending_accept_meta u = []"
      by (subst u', simp add: fs)+
    have "set (unsynced_log_store l) \<subseteq> {[]}" by (rule fs(8) [OF y(5)]) auto
    then have uu: "set (unsynced_log_store u) \<subseteq> {[]}" using set_unsynced_log_store [OF u] by blast
    have "cs_log g b = None" using cs_invD(8) [OF inv, of b] 2(3) no by (cases "cs_log g b") auto
    moreover have "max_promise_inv u" using f(1) us(1,2) by (simp add: max_promise_inv_def)
    moreover have "\<exists>q \<in> set (nodes C). \<exists>dd. promise_ok C ?g b q (node_round ?s) (length (node_log ?s)) dd" using pok p by blast
    moreover have "node_log ?s = take (length (node_log ?s)) (cs_plog g (node_round ?s))" by (rule data_log(1) [OF node(2)])
    ultimately have prep: "prepare_ok C ?g pos (taken t)"
      using f(2-5) us y pok p d(3) same tq unfolding prepare_ok_def max_ok_def Let_def
      by (simp add: max_promise_inv_def)
    have own: "own_pids u" using own_pids_promise [OF own_pids_with l] us(1) by (simp add: own_pids_def)
    have lead: "leads C ?g p b" using kb 2(3) by (simp add: leads_def)
    have node': "node_ok C ?g pos p (taken t)"
      using data pl ss(1) tq us uu prep lead own prt unfolding node_ok_def plain_taken
      by (simp add: leader_ok_def follower_ok_def Let_def plain_rest_def)
    have inv': "cs_inv (cpair C) ?g" using cs_steps_inv [OF _ inv v] a by (simp add: acts_def)
    have cc: "call C p g ?g pos pos (cl_nodes c) (taken t)" using inv pos a stays by (simp add: call_def)
    have "cached_ok C ?g ?\<sigma> p"
      by (rule cached_call [OF cc cluster_okD(4) [OF ok p]]) (use tq in simp)
    moreover have "sends_ok C ?g pos ?\<sigma> p (outgoing t)"
    proof -
      have n: "n_leader (sp_leader (taken t)) = b" "get_decided_idx (sp_store (taken t)) = node_decided ?s"
        "get_accepted_idx (sp_store (taken t)) = length (node_log ?s)"
        using tq us(4) ss(4,5) plain_store_sel(4) [OF ss(1)] by simp_all
      have o: "outgoing t = map (\<lambda>r. SequencePaxos \<lparr>pm_from = p, pm_to = r, pm_msg =
         Prepare \<lparr>prep_n = n_leader (sp_leader (taken t)), prep_decided_idx = get_decided_idx (sp_store (taken t)),
           prep_n_accepted = get_accepted_round (sp_store (taken t)),
           prep_accepted_idx = get_accepted_idx (sp_store (taken t))\<rparr>\<rparr>) (sp_peers ?s)"
        unfolding n same(1) using tq by simp
      have "fst (sp_state (taken t)) = LeaderRole" using tq by simp
      moreover have "\<forall>r \<in> set (sp_peers ?s). r \<noteq> p" using pl(2) by (simp add: peers_of_def)
      ultimately show ?thesis unfolding o by (intro prepares_ok [OF node']) simp_all
    qed
    moreover have "pos_ok ?g pos" using pos by (simp add: pos_ok_def)
    moreover have "raises_ok C p g ?g pos c" by (simp add: raises_ok_def)
    ultimately show ?thesis using a stays node' unfolding call_ok_def by blast
  qed
qed

subsection \<open>Collecting promises\<close>

lemma max_ok_better:
  assumes m: "max_ok C g s" and n: "known C (node_round s)" and q: "q \<in> set (nodes C)"
    and pr: "promise_ok C g (node_promise s) q (prom_n_accepted x) (prom_accepted_idx x) (prom_decided_idx x)"
    and br: "brings_log g s x"
    and gt: "promise_cmp \<lparr>pmd_n_accepted = prom_n_accepted x, pmd_accepted_idx = prom_accepted_idx x,
           pmd_decided_idx = prom_decided_idx x, pmd_pid = q\<rparr> (max_promise_meta (sp_leader s)) = Greater"
  shows "\<not> prom_n_accepted x < node_round s"
    "prom_n_accepted x = node_round s \<Longrightarrow> length (node_log s) \<le> prom_accepted_idx x"
    "\<exists>y. prom_log_sync x = Some y \<and> sync_to (node_log s) y (take (prom_accepted_idx x) (cs_plog g (prom_n_accepted x)))"
proof -
  let ?r = "prom_n_accepted x" and ?k = "prom_accepted_idx x"
  let ?mm = "max_promise_meta (sp_leader s)"
  have old: "\<not> pmd_n_accepted ?mm < node_round s" "pmd_n_accepted ?mm = node_round s \<Longrightarrow> length (node_log s) \<le> pmd_accepted_idx ?mm"
    using m by (simp_all add: max_ok_def Let_def)
  have kr: "known C ?r" using pr by (simp add: promise_ok_def)
  have gt': "pmd_n_accepted ?mm < ?r \<or> ?r = pmd_n_accepted ?mm \<and> pmd_accepted_idx ?mm < ?k"
    using gt by (simp add: promise_cmp_Greater)
  show nl: "\<not> ?r < node_round s" using gt' old(1) less_trans by metis
  show eq: "length (node_log s) \<le> ?k" if "?r = node_round s" using gt' old that by auto
  have "prom_log_sync x \<noteq> None"
  proof
    assume "prom_log_sync x = None"
    then have b: "\<not> node_round s < ?r" "?r = node_round s \<Longrightarrow> ?k \<le> length (node_log s)"
      using br by (simp_all add: brings_log_def)
    have "?r = node_round s" using known_cases [OF kr n] nl b(1) by blast
    then show False using gt' old b(2) by auto
  qed
  then show "\<exists>y. prom_log_sync x = Some y \<and> sync_to (node_log s) y (take ?k (cs_plog g ?r))"
    using br by (auto simp: brings_log_def)
qed

lemma prepare_ok_promise:
  assumes p: "prepare_ok C g pos s" and n: "known C (node_round s)" and q: "q \<in> set (nodes C)"
    and x: "promise_ok C g (node_promise s) q (prom_n_accepted x) (prom_accepted_idx x) (prom_decided_idx x)" "brings_log g s x"
    and l: "ls_set_promise x q True (sp_leader s) = Some (r, l)"
  shows "prepare_ok C g pos (s\<lparr>sp_leader := l\<rparr>)"
proof -
  note d = p [unfolded prepare_ok_def Let_def]
  have m: "max_ok C g s" using d by blast
  let ?m = "\<lparr>pmd_n_accepted = prom_n_accepted x, pmd_accepted_idx = prom_accepted_idx x,
           pmd_decided_idx = prom_decided_idx x, pmd_pid = q\<rparr>"
  note sp = ls_set_promise_Some [OF l]
  have inv: "max_promise_inv l"
    using max_promise_inv_set_promise [OF _ l] m by (simp add: max_ok_def Let_def)
  have m': "max_ok C g (s\<lparr>sp_leader := l\<rparr>)"
  proof (cases "promise_cmp ?m (max_promise_meta (sp_leader s)) = Greater")
    case False
    then show ?thesis using m inv sp(4,5) unfolding max_ok_def by (simp add: Let_def cong: option.case_cong)
  next
    case True
    note b = max_ok_better [OF m n q x True]
    have kr: "known C (prom_n_accepted x)" using x(1) by (simp add: promise_ok_def)
    obtain y where y: "prom_log_sync x = Some y"
      "sync_to (node_log s) y (take (prom_accepted_idx x) (cs_plog g (prom_n_accepted x)))" using b(3) by blast
    have mm: "max_promise_meta l = ?m" "max_promise_sync l = Some y" using sp(4,5) True y(1) by simp_all
    show ?thesis unfolding max_ok_def Let_def
      using inv kr b(1,2) x(1) q y(2) by (auto simp: mm)
  qed
  have tab: "Suc i \<in> set (nodes C) \<and> promise_ok C g (node_promise s) (Suc i) (pmd_n_accepted m) (pmd_accepted_idx m) (pmd_decided_idx m)"
    if "i < length (promises_meta l)" "promises_meta l ! i = Promised m" for i m
  proof (cases "i = q - 1")
    case True
    then have "m = ?m" "Suc i = q" using that sp(1-3) by simp_all
    then show ?thesis using x(1) q by simp
  next
    case False
    then show ?thesis using that d sp(3) by simp
  qed
  show ?thesis using d m' tab unfolding prepare_ok_def Let_def by simp
qed

lemma promise_waits_call_ok:
  assumes ok: "cluster_ok C g pos c" and v: "valid_server (cpair C)" and p: "p \<in> set (nodes C)" "q \<in> set (nodes C)"
    and m: "msg_ok C g pos (cl_nodes c) q p (Promise x)" and st: "sp_state (cl_nodes c p) = (LeaderRole, PhasePrepare)"
    and n: "prom_n x = n_leader (sp_leader (cl_nodes c p))"
    and l: "ls_set_promise x q True (sp_leader (cl_nodes c p)) = Some (r, l)"
  shows "call_ok C g pos c p ((cl_nodes c p)\<lparr>sp_leader := l\<rparr>) g pos"
    and "prepare_ok C g pos ((cl_nodes c p)\<lparr>sp_leader := l\<rparr>)" "plain_rest C l"
proof -
  let ?s = "cl_nodes c p"
  let ?t = "?s\<lparr>sp_leader := l\<rparr>"
  note node = node_okD [OF cluster_okD(3) [OF ok p(1)]] and inv = cluster_okD(1) [OF ok] and pos = cluster_okD(2) [OF ok]
  note pl = plain_nodeD [OF node(1)] and d = data_okD [OF node(2)]
  have ld: "n_leader (sp_leader ?s) = node_promise ?s" "leads C g p (node_promise ?s)" "prepare_ok C g pos ?s"
    "own_pids (sp_leader ?s)"
    "\<forall>i < length (accepted_indexes (sp_leader ?s)). accepted_indexes (sp_leader ?s) ! i = 0 \<or> Suc i \<in> set (nodes C) \<and>
              (\<exists>j. cs_acc g (Suc i) (node_promise ?s) = Some j \<and> accepted_indexes (sp_leader ?s) ! i \<le> j)"
    using node(3) st by (simp_all add: leader_ok_def Let_def)
  have pm: "prom_msg_ok C g ?s q p x" using m by simp
  have prep: "preparing (prom_n x) ?s" using st n ld(1) by (simp add: preparing_def)
  have x: "promise_ok C g (node_promise ?s) q (prom_n_accepted x) (prom_accepted_idx x) (prom_decided_idx x)"
    "brings_log g ?s x" "prom_log_unsync x = Some []"
    using pm prep n ld(1) by (simp_all add: prom_msg_ok_def)
  show po: "prepare_ok C g pos ?t" by (rule prepare_ok_promise [OF ld(3) d(3) p(2) x(1,2) l])
  note same = ls_set_promise_same [OF l]
  show rest: "plain_rest C l" using pl(11) same(4,5,8) x(3) by (simp add: plain_rest_def)
  have "own_pids l" by (rule own_pids_promise [OF ld(4) l])
  then have own: "own_pids (reset_latest_accept_meta l)" by (simp add: own_pids_def)
  have prep': "prepare_ok C g pos (taken ?t)"
    using po unfolding prepare_ok_def max_ok_def Let_def by (simp add: max_promise_inv_def cong: option.case_cong)
  have node': "node_ok C g pos p (taken ?t)"
    using node(2,3,4) pl rest prep' ld own st same data_ok_store [of "taken ?t" ?s C g p]
    unfolding node_ok_def plain_taken leader_ok_def Let_def by (simp add: follower_ok_def)
  have a: "acts C p g g pos pos" by (simp add: acts_def)
  have stays: "stays g g p ?s (taken ?t)" by (simp add: stays_def preparing_def)
  have cc: "call C p g g pos pos (cl_nodes c) (taken ?t)" using inv pos a stays by (simp add: call_def)
  have "cached_ok C g ((cl_nodes c)(p := taken ?t)) p"
    by (rule cached_call [OF cc cluster_okD(4) [OF ok p(1)]]) simp
  then show "call_ok C g pos c p ?t g pos"
    using a stays node' pos pl(9) unfolding call_ok_def by (simp add: raises_ok_def)
qed

end
