(* ===== verification/Cluster_Sending.thy ===== *)
theory Cluster_Sending
  imports Cluster_Election
begin

text \<open>
  What a leader in the accept phase sends: one message to each promised follower, each with the
  next sequence number of its link, which brings the receiver to the end of the leader's log.
\<close>

subsection \<open>One message to each follower\<close>

definition bump :: "(sequence_number \<Rightarrow> sequence_number) \<Rightarrow> node_id list \<Rightarrow> sequence_number list \<Rightarrow> sequence_number list" where
  "bump N ps v = map (\<lambda>i. if Suc i \<in> set ps then N (v ! i) else v ! i) [0..<length v]"

lemma bump_sel [simp]:
  "length (bump N ps v) = length v" "bump N [] v = v"
  "i < length v \<Longrightarrow> bump N ps v ! i = (if Suc i \<in> set ps then N (v ! i) else v ! i)"
  by (simp_all add: bump_def map_nth)

lemma bump_Cons: "q \<notin> set ps \<Longrightarrow> bump N ps (bump N [q] v) = bump N (q # ps) v"
  by (rule nth_equalityI) auto

definition broadcast :: "(sequence_number \<Rightarrow> sequence_number) \<Rightarrow> (node_id \<Rightarrow> sequence_number \<Rightarrow> ('e, 's) paxos_msg) \<Rightarrow>
    node_id list \<Rightarrow> ('e, 's) sequence_paxos \<Rightarrow> ('e, 's) sequence_paxos \<Rightarrow> bool" where
  "broadcast N M ps s t \<longleftrightarrow>
     (let v = follower_seq_nums (sp_leader s)
      in (\<forall>q \<in> set ps. 0 < q \<and> q - 1 < length v) \<and>
         (\<exists>am. t = s\<lparr>sp_leader := (sp_leader s)\<lparr>follower_seq_nums := bump N ps v, latest_accept_meta := am\<rparr>,
            outgoing := outgoing s @ map (\<lambda>q. SequencePaxos \<lparr>pm_from = sp_pid s, pm_to = q, pm_msg = M q (N (v ! (q - 1)))\<rparr>) ps\<rparr> \<and>
           (\<forall>i < length am. Suc i \<notin> set ps \<longrightarrow> am ! i = latest_accept_meta (sp_leader s) ! i) \<and>
           length am = length (latest_accept_meta (sp_leader s))))"

lemma broadcast_Nil: "broadcast N M [] s s"
  unfolding broadcast_def Let_def
  by (intro conjI exI [of _ "latest_accept_meta (sp_leader s)"]) simp_all

lemma broadcast_Cons:
  assumes "broadcast N M [q] s u" "broadcast N M ps u t" "q \<notin> set ps"
  shows "broadcast N M (q # ps) s t"
proof -
  let ?v = "follower_seq_nums (sp_leader s)" and ?w = "follower_seq_nums (sp_leader u)"
  obtain am where q: "0 < q" "q - 1 < length ?v"
    and u: "u = s\<lparr>sp_leader := (sp_leader s)\<lparr>follower_seq_nums := bump N [q] ?v, latest_accept_meta := am\<rparr>,
            outgoing := outgoing s @ [SequencePaxos \<lparr>pm_from = sp_pid s, pm_to = q, pm_msg = M q (N (?v ! (q - 1)))\<rparr>]\<rparr>"
    and am: "\<forall>i < length am. Suc i \<noteq> q \<longrightarrow> am ! i = latest_accept_meta (sp_leader s) ! i"
      "length am = length (latest_accept_meta (sp_leader s))"
    using assms(1) by (auto simp: broadcast_def Let_def)
  obtain bm where ps: "\<forall>q \<in> set ps. 0 < q \<and> q - 1 < length ?w"
    and t: "t = u\<lparr>sp_leader := (sp_leader u)\<lparr>follower_seq_nums := bump N ps ?w, latest_accept_meta := bm\<rparr>,
            outgoing := outgoing u @ map (\<lambda>q. SequencePaxos \<lparr>pm_from = sp_pid u, pm_to = q, pm_msg = M q (N (?w ! (q - 1)))\<rparr>) ps\<rparr>"
    and bm: "\<forall>i < length bm. Suc i \<notin> set ps \<longrightarrow> bm ! i = latest_accept_meta (sp_leader u) ! i"
      "length bm = length (latest_accept_meta (sp_leader u))"
    using assms(2) unfolding broadcast_def Let_def by blast
  have w: "?w = bump N [q] ?v" "sp_pid u = sp_pid s" "latest_accept_meta (sp_leader u) = am" using u by simp_all
  have same: "?w ! (r - 1) = ?v ! (r - 1)" if "r \<in> set ps" for r
    using that ps assms(3) w(1) by (auto simp: gr0_conv_Suc)
  have "t = s\<lparr>sp_leader := (sp_leader s)\<lparr>follower_seq_nums := bump N (q # ps) ?v, latest_accept_meta := bm\<rparr>,
            outgoing := outgoing s @ map (\<lambda>q. SequencePaxos \<lparr>pm_from = sp_pid s, pm_to = q, pm_msg = M q (N (?v ! (q - 1)))\<rparr>) (q # ps)\<rparr>"
    using t w same bump_Cons [OF assms(3)] by (simp add: u cong: map_cong)
  moreover have "\<forall>i < length bm. Suc i \<notin> set (q # ps) \<longrightarrow> bm ! i = latest_accept_meta (sp_leader s) ! i"
    using bm am w by simp
  ultimately show ?thesis
    using q ps bm(2) am(2) w unfolding broadcast_def Let_def by (intro conjI exI [of _ bm]) simp_all
qed

text \<open>Only what the messages themselves touch changes during the loop.\<close>

definition sending :: "('e, 's) sequence_paxos \<Rightarrow> ('e, 's) sequence_paxos \<Rightarrow> bool" where
  "sending s u \<longleftrightarrow> (\<exists>v am out. u = s\<lparr>sp_leader := (sp_leader s)\<lparr>follower_seq_nums := v, latest_accept_meta := am\<rparr>, outgoing := out\<rparr>)"

definition no_accept_meta :: "node_id list \<Rightarrow> ('e, 's) sequence_paxos \<Rightarrow> bool" where
  "no_accept_meta ps u \<longleftrightarrow> (\<forall>i < length (latest_accept_meta (sp_leader u)). Suc i \<in> set ps \<longrightarrow> latest_accept_meta (sp_leader u) ! i = None)"

lemma sending_refl: "sending s s"
  unfolding sending_def
  by (rule exI [of _ "follower_seq_nums (sp_leader s)"], rule exI [of _ "latest_accept_meta (sp_leader s)"], rule exI [of _ "outgoing s"]) simp

lemma sending_trans: "sending s u \<Longrightarrow> sending u w \<Longrightarrow> sending s w"
  unfolding sending_def by fastforce

lemma sending_sel:
  assumes "sending s u"
  shows "sp_store u = sp_store s" "n_leader (sp_leader u) = n_leader (sp_leader s)"
    "promises_meta (sp_leader u) = promises_meta (sp_leader s)" "max_promise_meta (sp_leader u) = max_promise_meta (sp_leader s)"
    "sp_pid u = sp_pid s" "accepted_prefix_hash u = accepted_prefix_hash s"
  using assms by (auto simp: sending_def)

lemma broadcast_sending: "broadcast N M ps s t \<Longrightarrow> sending s t"
  unfolding broadcast_def sending_def Let_def by blast

definition sends_one :: "(sequence_number \<Rightarrow> sequence_number) \<Rightarrow> (node_id \<Rightarrow> sequence_number \<Rightarrow> ('e, 's) paxos_msg) \<Rightarrow>
    (node_id \<Rightarrow> ('e, 's) sequence_paxos \<Rightarrow> ('e, 's) sequence_paxos option) \<Rightarrow> ('e, 's) sequence_paxos \<Rightarrow> bool" where
  "sends_one N M f s \<longleftrightarrow> (\<forall>q u v. sending s u \<longrightarrow> no_accept_meta [q] u \<longrightarrow> f q u = Some v \<longrightarrow> broadcast N M [q] u v)"

lemma broadcast_loop:
  assumes "sends_one N M f s" "for_each f ps s = Some t" "distinct ps" "no_accept_meta ps s"
  shows "broadcast N M ps s t"
  using assms
proof (induction ps arbitrary: s)
  case Nil
  then show ?case using broadcast_Nil by simp
next
  case (Cons q ps)
  obtain u where u: "f q s = Some u" "for_each f ps u = Some t" using Cons.prems(2) by auto
  have "no_accept_meta [q] s" using Cons.prems(4) by (simp add: no_accept_meta_def)
  then have one: "broadcast N M [q] s u"
    using Cons.prems(1) u(1) sending_refl unfolding sends_one_def by blast
  have "sends_one N M f u"
    using Cons.prems(1) sending_trans [OF broadcast_sending [OF one]] unfolding sends_one_def by blast
  moreover have "no_accept_meta ps u"
    using one Cons.prems(3,4) by (auto simp: broadcast_def no_accept_meta_def Let_def)
  ultimately have "broadcast N M ps u t" using Cons.IH [OF _ u(2)] Cons.prems(3) by simp
  then show ?case using broadcast_Cons [OF one] Cons.prems(3) by simp
qed

subsection \<open>The messages\<close>

definition next_num :: "sequence_number \<Rightarrow> sequence_number" where
  "next_num n = SequenceNumber (session n) (counter n + 1)"

definition new_session :: "sequence_number \<Rightarrow> sequence_number" where
  "new_session n = SequenceNumber (session n + 1) 1"

lemma num_increases: "n < next_num n" "n < new_session n"
  by (simp_all add: next_num_def new_session_def less_sequence_number_def)

lemma bump_one: "i < length v \<Longrightarrow> v[i := N (v ! i)] = bump N [Suc i] v"
  by (rule nth_equalityI) (auto simp: nth_list_update)

lemma broadcast_one:
  assumes "0 < q" "q - 1 < length (follower_seq_nums (sp_leader s))"
    and "t = s\<lparr>sp_leader := (sp_leader s)\<lparr>follower_seq_nums := (follower_seq_nums (sp_leader s))[q - 1 := N (follower_seq_nums (sp_leader s) ! (q - 1))],
        latest_accept_meta := am\<rparr>,
      outgoing := outgoing s @ [SequencePaxos \<lparr>pm_from = sp_pid s, pm_to = q, pm_msg = M q (N (follower_seq_nums (sp_leader s) ! (q - 1)))\<rparr>]\<rparr>"
    and "am = latest_accept_meta (sp_leader s) \<or> (\<exists>x. am = (latest_accept_meta (sp_leader s))[q - 1 := x])"
  shows "broadcast N M [q] s t"
proof -
  have "\<forall>i < length am. Suc i \<notin> set [q] \<longrightarrow> am ! i = latest_accept_meta (sp_leader s) ! i"
    "length am = length (latest_accept_meta (sp_leader s))"
    using assms(1,4) by (auto simp: nth_list_update_neq)
  then show ?thesis
    using assms(1-3) bump_one [OF assms(2), of N] unfolding broadcast_def Let_def
    by (intro conjI exI [of _ am]) simp_all
qed

lemma no_accept_meta_at:
  assumes "no_accept_meta [q] u"
  shows "get_latest_accept_meta q (sp_leader u) = None \<or> get_latest_accept_meta q (sp_leader u) = Some None"
proof (cases "get_latest_accept_meta q (sp_leader u)")
  case (Some x)
  then have "q - 1 < length (latest_accept_meta (sp_leader u))" "0 < q" "x = latest_accept_meta (sp_leader u) ! (q - 1)"
    by (auto simp: get_latest_accept_meta_def pid_to_idx_def)
  then show ?thesis using assms Some by (simp add: no_accept_meta_def)
qed simp

lemma no_accdec:
  assumes "no_accept_meta [q] u"
  shows "get_latest_accdec_message q u = None \<or> get_latest_accdec_message q u = Some None"
  using no_accept_meta_at [OF assms] by (auto simp: get_latest_accdec_message_def)

lemma acceptdecide_sends_one:
  "sends_one next_num (\<lambda>q n. AcceptDecide \<lparr>ad_n = n_leader (sp_leader s), ad_seq_num = n, ad_decided_idx = d,
             ad_entries = es, ad_entry_meta = ms, ad_log_prefix_hash = h\<rparr>) (acceptdecide_to es ms d h) s"
  unfolding sends_one_def
proof (intro allI impI)
  fix q u v assume s: "sending s u" and n: "no_accept_meta [q] u" and f: "acceptdecide_to es ms d h q u = Some v"
  let ?l = "sp_leader u"
  let ?w = "follower_seq_nums ?l"
  have none: "get_latest_accdec_message q u = Some None" using f no_accdec [OF n] by (auto simp: acceptdecide_to_def)
  obtain x l l' m where l: "set_latest_accept_meta q (Some (length (outgoing u))) ?l = Some l"
    and l': "next_seq_num q l = Some (m, l')"
    and v: "v = send_to q (AcceptDecide \<lparr>ad_n = n_leader l', ad_seq_num = m, ad_decided_idx = d,
             ad_entries = es, ad_entry_meta = ms, ad_log_prefix_hash = h\<rparr>) (u\<lparr>sp_leader := l'\<rparr>)"
    using f none by (auto simp: acceptdecide_to_def)
  obtain x where q: "0 < q" and lq: "l = ?l\<lparr>latest_accept_meta := (latest_accept_meta ?l)[q - 1 := x]\<rparr>"
    using l by (auto simp: set_latest_accept_meta_def pid_to_idx_def Let_def)
  have w: "q - 1 < length ?w" "m = next_num (?w ! (q - 1))" "l' = l\<lparr>follower_seq_nums := ?w[q - 1 := next_num (?w ! (q - 1))]\<rparr>"
    using l' q by (auto simp: next_seq_num_def pid_to_idx_def Let_def lq next_num_def)
  show "broadcast next_num (\<lambda>q n. AcceptDecide \<lparr>ad_n = n_leader (sp_leader s), ad_seq_num = n, ad_decided_idx = d,
             ad_entries = es, ad_entry_meta = ms, ad_log_prefix_hash = h\<rparr>) [q] u v"
    by (rule broadcast_one [OF q w(1), where am = "(latest_accept_meta ?l)[q - 1 := x]"])
      (use v w lq sending_sel(2) [OF s] in \<open>auto simp: send_to_def\<close>)
qed

lemma decide_sends_one:
  "sends_one next_num (\<lambda>q n. Decide \<lparr>dec_n = n_leader (sp_leader s), dec_seq_num = n, dec_decided_idx = d\<rparr>) (decide_accepted_to d) s"
  unfolding sends_one_def
proof (intro allI impI)
  fix q u v assume s: "sending s u" and n: "no_accept_meta [q] u" and f: "decide_accepted_to d q u = Some v"
  let ?l = "sp_leader u"
  let ?w = "follower_seq_nums ?l"
  have "get_latest_accdec_message q u = Some None" using f no_accdec [OF n] by (auto simp: decide_accepted_to_def)
  then obtain m l' where l': "next_seq_num q ?l = Some (m, l')"
    and v: "v = send_to q (Decide \<lparr>dec_n = n_leader l', dec_seq_num = m, dec_decided_idx = d\<rparr>) (u\<lparr>sp_leader := l'\<rparr>)"
    using f by (auto simp: decide_accepted_to_def send_decide_def message_seq_num_def)
  have w: "0 < q" "q - 1 < length ?w" "m = next_num (?w ! (q - 1))" "l' = ?l\<lparr>follower_seq_nums := ?w[q - 1 := next_num (?w ! (q - 1))]\<rparr>"
    using l' by (auto simp: next_seq_num_def pid_to_idx_def Let_def next_num_def)
  show "broadcast next_num (\<lambda>q n. Decide \<lparr>dec_n = n_leader (sp_leader s), dec_seq_num = n, dec_decided_idx = d\<rparr>) [q] u v"
    by (rule broadcast_one [OF w(1,2), where am = "latest_accept_meta ?l"])
      (use v w sending_sel(2) [OF s] in \<open>auto simp: send_to_def\<close>)
qed

text \<open>How much of a follower's log the leader takes to be valid.\<close>

definition valid_idx :: "promise_meta_data \<Rightarrow> promise_meta_data \<Rightarrow> ballot \<Rightarrow> nat" where
  "valid_idx fp mp b =
     (if pmd_n_accepted fp = b then pmd_accepted_idx fp
      else if pmd_n_accepted fp = pmd_n_accepted mp then min (pmd_accepted_idx mp) (pmd_accepted_idx fp)
      else pmd_decided_idx fp)"

definition promise_of :: "('e, 's) leader_state \<Rightarrow> node_id \<Rightarrow> promise_meta_data" where
  "promise_of l q = (case promises_meta l ! (q - 1) of Promised m \<Rightarrow> m | _ \<Rightarrow> default_promise_meta)"

definition accsync_msg :: "('e, 's) sequence_paxos \<Rightarrow> node_id \<Rightarrow> sequence_number \<Rightarrow> ('e, 's) paxos_msg" where
  "accsync_msg s q n =
     (let l = sp_leader s; i = valid_idx (promise_of l q) (max_promise_meta l) (n_leader l)
      in AcceptSync \<lparr>as_n = n_leader l, as_seq_num = n, as_decided_idx = node_decided s,
        as_log_sync = \<lparr>ls_decided_snapshot = None, ls_suffix = drop i (node_log s), ls_sync_idx = i, ls_stopsign = None\<rparr>,
        as_log_prefix_hash = accepted_prefix_hash s\<rparr>)"

lemma accsync_sends_one:
  assumes env: "plain_env env" and st: "plain_store (sp_store s)" and own: "own_pids (sp_leader s)"
  shows "sends_one new_session (accsync_msg s) (send_accsync env) s"
  unfolding sends_one_def
proof (intro allI impI)
  fix q u v assume s: "sending s u" and f: "send_accsync env q u = Some v"
  let ?l = "sp_leader u"
  let ?w = "follower_seq_nums ?l"
  note sel = sending_sel [OF s]
  obtain fp where fp: "get_promise_meta q ?l = Some fp" using f by (auto simp: send_accsync_def Let_def)
  then have q: "0 < q" "q - 1 < length (promises_meta ?l)" "promises_meta ?l ! (q - 1) = Promised fp"
    by (auto simp: get_promise_meta_def pid_to_idx_def split: promise_state.splits)
  then have pq: "pmd_pid fp = q" using own sel(3) by (auto simp: own_pids_def)
  have po: "promise_of (sp_leader s) q = fp" using q(3) sel(3) by (simp add: promise_of_def)
  have dec: "ls_get_decided_idx q ?l = Some (Some (pmd_decided_idx fp))"
    using q by (auto simp: ls_get_decided_idx_def pid_to_idx_def checked_sub_def vec_get_def)
  let ?i = "valid_idx fp (max_promise_meta ?l) (n_leader ?l)"
  have sync: "create_log_sync env i j u = Some \<lparr>ls_decided_snapshot = None, ls_suffix = drop i (node_log s), ls_sync_idx = i, ls_stopsign = None\<rparr>"
    for i j using plain_log_sync [OF env, of u] st sel(1) by simp
  obtain l m l' where l: "increment_seq_num_session q ?l = Some l" "next_seq_num q l = Some (m, l')"
    and v: "v = send_to q (AcceptSync \<lparr>as_n = n_leader ?l, as_seq_num = m, as_decided_idx = node_decided s,
        as_log_sync = \<lparr>ls_decided_snapshot = None, ls_suffix = drop ?i (node_log s), ls_sync_idx = ?i, ls_stopsign = None\<rparr>,
        as_log_prefix_hash = accepted_prefix_hash s\<rparr>) (u\<lparr>sp_leader := l'\<rparr>)"
    using f fp pq dec sel(1,6) unfolding send_accsync_def Let_def
    by (auto simp: sync sp_get_decided_idx_def valid_idx_def [symmetric])
  have w: "q - 1 < length ?w" "m = new_session (?w ! (q - 1))" "l' = ?l\<lparr>follower_seq_nums := ?w[q - 1 := new_session (?w ! (q - 1))]\<rparr>"
    using l by (auto simp: increment_seq_num_session_def next_seq_num_def pid_to_idx_def Let_def new_session_def)
  show "broadcast new_session (accsync_msg s) [q] u v"
    by (rule broadcast_one [OF q(1) w(1), where am = "latest_accept_meta ?l"])
      (use v w sel po in \<open>auto simp: send_to_def accsync_msg_def Let_def\<close>)
qed

end
