(* ===== verification/Cluster_Leader.thy ===== *)
theory Cluster_Leader
  imports Cluster_Sending
begin

text \<open>
  The calls on a leader that move the consensus: starting its ballot once the quorum of promises
  is complete, synchronising late followers, appending released proposals and deciding.
\<close>

subsection \<open>A leader that sends to its followers\<close>

definition extend_pos :: "positions \<Rightarrow> ballot \<Rightarrow> node_id list \<Rightarrow> sequence_number list \<Rightarrow> nat \<Rightarrow> positions" where
  "extend_pos pos b ps v k = (\<lambda>b' q n. if b' = b \<and> q \<in> set ps \<and> n = v ! (q - 1) then Some k else pos b' q n)"

text \<open>\<open>lead_ok\<close> before the messages to \<open>ps\<close> are out.\<close>

definition leading :: "cluster_config \<Rightarrow> 'e consensus \<Rightarrow> positions \<Rightarrow> node_id \<Rightarrow> node_id list \<Rightarrow> ('e, 's) sequence_paxos \<Rightarrow> bool" where
  "leading C g pos p ps s \<longleftrightarrow>
     (let b = node_promise s; l = sp_leader s; mm = max_promise_meta l
      in node_round s = b \<and> cs_log g b = Some (node_log s) \<and>
         (\<forall>i < length (promises_meta l). is_promised (promises_meta l ! i) \<longrightarrow> Suc i \<noteq> p \<longrightarrow> Suc i \<in> set (nodes C) \<and>
            i < length (follower_seq_nums l) \<and>
            (Suc i \<notin> set ps \<longrightarrow> pos b (Suc i) (follower_seq_nums l ! i) = Some (length (node_log s)))) \<and>
         (\<forall>q n k. pos b q n = Some k \<longrightarrow> 0 < q \<and> q - 1 < length (follower_seq_nums l) \<and>
            n \<le> follower_seq_nums l ! (q - 1)) \<and>
         known C (pmd_n_accepted mm) \<and> pmd_accepted_idx mm \<le> cs_base g b \<and> pmd_n_accepted mm < b \<and>
         take (pmd_accepted_idx mm) (cs_plog g (pmd_n_accepted mm)) = take (pmd_accepted_idx mm) (node_log s))"

lemma lead_leading: "lead_ok C g pos p s \<Longrightarrow> leading C g pos p ps s"
  unfolding lead_ok_def leading_def Let_def by blast

lemma leadingD:
  assumes "leading C g pos p ps s"
  defines "l \<equiv> sp_leader s"
  shows "node_round s = node_promise s" "cs_log g (node_promise s) = Some (node_log s)"
    "i < length (promises_meta l) \<Longrightarrow> is_promised (promises_meta l ! i) \<Longrightarrow> Suc i \<noteq> p \<Longrightarrow> Suc i \<in> set (nodes C) \<and>
      i < length (follower_seq_nums l)"
    "i < length (promises_meta l) \<Longrightarrow> is_promised (promises_meta l ! i) \<Longrightarrow> Suc i \<noteq> p \<Longrightarrow> Suc i \<notin> set ps \<Longrightarrow>
      pos (node_promise s) (Suc i) (follower_seq_nums l ! i) = Some (length (node_log s))"
    "pos (node_promise s) q n = Some k \<Longrightarrow> 0 < q \<and> q - 1 < length (follower_seq_nums l)"
    "pos (node_promise s) q n = Some k \<Longrightarrow> n \<le> follower_seq_nums l ! (q - 1)"
    "known C (pmd_n_accepted (max_promise_meta l))" "pmd_accepted_idx (max_promise_meta l) \<le> cs_base g (node_promise s)"
    "pmd_n_accepted (max_promise_meta l) < node_promise s"
    "take (pmd_accepted_idx (max_promise_meta l)) (cs_plog g (pmd_n_accepted (max_promise_meta l)))
      = take (pmd_accepted_idx (max_promise_meta l)) (node_log s)"
  using assms(1) unfolding leading_def l_def Let_def by blast+

lemma broadcast_sel:
  assumes "broadcast N M ps u t"
  shows "sp_store t = sp_store u" "sp_state t = sp_state u" "sp_pid t = sp_pid u" "sp_peers t = sp_peers u"
    "current_seq_num t = current_seq_num u" "cached_promise_message t = cached_promise_message u"
    "unsynced_log t = unsynced_log u" "enable_fast_path t = enable_fast_path u"
    "buffered_proposals t = buffered_proposals u" "buffered_stopsign t = buffered_stopsign u"
    "n_leader (sp_leader t) = n_leader (sp_leader u)" "promises_meta (sp_leader t) = promises_meta (sp_leader u)"
    "accepted_indexes (sp_leader t) = accepted_indexes (sp_leader u)"
    "max_promise_meta (sp_leader t) = max_promise_meta (sp_leader u)"
    "ls_quorum (sp_leader t) = ls_quorum (sp_leader u)" "pending_accept_meta (sp_leader t) = pending_accept_meta (sp_leader u)"
    "unsynced_log_store (sp_leader t) = unsynced_log_store (sp_leader u)"
    "follower_seq_nums (sp_leader t) = bump N ps (follower_seq_nums (sp_leader u))"
    "q \<in> set ps \<Longrightarrow> 0 < q \<and> q - 1 < length (follower_seq_nums (sp_leader u))"
    "outgoing t = outgoing u @ map (\<lambda>q. SequencePaxos \<lparr>pm_from = sp_pid u, pm_to = q,
       pm_msg = M q (follower_seq_nums (sp_leader t) ! (q - 1))\<rparr>) ps"
proof -
  let ?v = "follower_seq_nums (sp_leader u)"
  obtain am where ps: "\<forall>q \<in> set ps. 0 < q \<and> q - 1 < length ?v"
    and t: "t = u\<lparr>sp_leader := (sp_leader u)\<lparr>follower_seq_nums := bump N ps ?v, latest_accept_meta := am\<rparr>,
            outgoing := outgoing u @ map (\<lambda>q. SequencePaxos \<lparr>pm_from = sp_pid u, pm_to = q, pm_msg = M q (N (?v ! (q - 1)))\<rparr>) ps\<rparr>"
    using assms unfolding broadcast_def Let_def by blast
  show "sp_store t = sp_store u" "sp_state t = sp_state u" "sp_pid t = sp_pid u" "sp_peers t = sp_peers u"
    "current_seq_num t = current_seq_num u" "cached_promise_message t = cached_promise_message u"
    "unsynced_log t = unsynced_log u" "enable_fast_path t = enable_fast_path u"
    "buffered_proposals t = buffered_proposals u" "buffered_stopsign t = buffered_stopsign u"
    "n_leader (sp_leader t) = n_leader (sp_leader u)" "promises_meta (sp_leader t) = promises_meta (sp_leader u)"
    "accepted_indexes (sp_leader t) = accepted_indexes (sp_leader u)"
    "max_promise_meta (sp_leader t) = max_promise_meta (sp_leader u)"
    "ls_quorum (sp_leader t) = ls_quorum (sp_leader u)" "pending_accept_meta (sp_leader t) = pending_accept_meta (sp_leader u)"
    "unsynced_log_store (sp_leader t) = unsynced_log_store (sp_leader u)"
    "follower_seq_nums (sp_leader t) = bump N ps ?v"
    by (simp_all add: t)
  show "q \<in> set ps \<Longrightarrow> 0 < q \<and> q - 1 < length ?v" using ps by blast
  have "N (?v ! (q - 1)) = bump N ps ?v ! (q - 1)" if "q \<in> set ps" for q
    using that ps by (auto simp: gr0_conv_Suc)
  then show "outgoing t = outgoing u @ map (\<lambda>q. SequencePaxos \<lparr>pm_from = sp_pid u, pm_to = q,
       pm_msg = M q (follower_seq_nums (sp_leader t) ! (q - 1))\<rparr>) ps"
    by (simp add: t cong: map_cong)
qed

lemma leading_sent:
  assumes l: "leading C g pos p ps u" and bc: "broadcast N M ps u t" and N: "\<And>n. n < N n"
  shows "lead_ok C g (extend_pos pos (node_promise u) ps (follower_seq_nums (sp_leader t)) (length (node_log u))) p (taken t)"
    (is "lead_ok C g ?pos p _")
proof -
  let ?b = "node_promise u" and ?v = "follower_seq_nums (sp_leader u)" and ?w = "follower_seq_nums (sp_leader t)"
  note d = leadingD [OF l] and s = broadcast_sel [OF bc]
  have up: "?v ! i \<le> ?w ! i" if "i < length ?v" for i
    using that N by (simp add: s(18) less_imp_le)
  have promised: "Suc i \<in> set (nodes C) \<and> i < length ?w \<and> ?pos ?b (Suc i) (?w ! i) = Some (length (node_log u))"
    if "i < length (promises_meta (sp_leader u))" "is_promised (promises_meta (sp_leader u) ! i)" "Suc i \<noteq> p" for i
    using d(3,4) [OF that] by (simp add: extend_pos_def s(18))
  have bound: "0 < q \<and> q - 1 < length ?w \<and> n \<le> ?w ! (q - 1)" if "?pos ?b q n = Some k" for q n k
  proof (cases "q \<in> set ps \<and> n = ?w ! (q - 1)")
    case True
    then show ?thesis using s(19) [of q] by (simp add: s(18))
  next
    case False
    then have o: "pos ?b q n = Some k" using that by (auto simp: extend_pos_def split: if_splits)
    then show ?thesis using d(5,6) [OF o] up [of "q - 1"] by (auto simp: s(18))
  qed
  show ?thesis
    unfolding lead_ok_def Let_def using d(1,2,7-10) promised bound by (simp add: s(1,12,14))
qed

lemma extend_pos_new:
  assumes l: "leading C g pos p ps u" and bc: "broadcast N M ps u t" and N: "\<And>n. n < N n"
    and "pos b q n = Some k"
  shows "extend_pos pos (node_promise u) ps (follower_seq_nums (sp_leader t)) k' b q n = Some k"
proof (cases "b = node_promise u \<and> q \<in> set ps \<and> n = follower_seq_nums (sp_leader t) ! (q - 1)")
  case True
  let ?v = "follower_seq_nums (sp_leader u)"
  have q: "0 < q" "q - 1 < length ?v" using broadcast_sel(19) [OF bc, of q] True by auto
  have "n \<le> ?v ! (q - 1)" using leadingD(6) [OF l, of q n k] assms(4) True by simp
  moreover have "n = N (?v ! (q - 1))" using True q broadcast_sel(18) [OF bc] by (auto simp: gr0_conv_Suc)
  ultimately show ?thesis using N [of "?v ! (q - 1)"] by simp
next
  case False
  then show ?thesis using assms(4) by (auto simp: extend_pos_def)
qed

text \<open>The table of accepted indexes.\<close>

definition table_ok :: "cluster_config \<Rightarrow> 'e consensus \<Rightarrow> ballot \<Rightarrow> nat list \<Rightarrow> bool" where
  "table_ok C g b v \<longleftrightarrow> (\<forall>i < length v. v ! i = 0 \<or> Suc i \<in> set (nodes C) \<and> (\<exists>j. cs_acc g (Suc i) b = Some j \<and> v ! i \<le> j))"

lemma lead_call_ok:
  assumes ok: "cluster_ok C g pos c" and p: "p \<in> set (nodes C)"
    and a: "acts C p g g' pos pos" and pos': "pos_ok g' pos" and inv': "cs_inv (cpair C) g'"
    and u: "plain_node C p (taken u)" "data_ok C g' p u" "leading C g' pos p ps u" "sp_state u = (LeaderRole, PhaseAccept)"
      "outgoing u = []" "n_leader (sp_leader u) = node_promise u" "own_pids (sp_leader u)"
      "table_ok C g' (node_promise u) (accepted_indexes (sp_leader u))"
      "cached_promise_message u = cached_promise_message (cl_nodes c p)"
    and b: "leads C g' p (node_promise u)"
    and acc: "\<And>b'. b' \<noteq> node_promise u \<Longrightarrow> cs_acc g' p b' = cs_acc g p b'"
    and bc: "broadcast N M ps u t" and N: "\<And>n. n < N n"
    and ex: "pos2 = extend_pos pos (node_promise u) ps (follower_seq_nums (sp_leader t)) (length (node_log u))"
    and msgs: "\<And>q n. q \<in> set ps \<Longrightarrow> n = follower_seq_nums (sp_leader t) ! (q - 1) \<Longrightarrow>
      msg_ok C g' pos2 ((cl_nodes c)(p := taken t)) p q (M q n) \<and> msg_pos pos2 q (M q n) = Some (node_promise u, length (node_log u))"
  shows "call_ok C g pos c p t g' pos2"
proof -
  let ?b = "node_promise u" and ?s = "cl_nodes c p"
  note s = broadcast_sel [OF bc] and d = data_okD [OF u(2)]
  have lg: "cs_log g' ?b = Some (node_log u)" by (rule leadingD(2) [OF u(3)])
  have bp: "ballot_pid ?b = p" "default_ballot < ?b" using b by (simp_all add: leads_def)
  have a2: "acts C p g g' pos pos2"
    using a bp(1) extend_pos_new [OF u(3) bc N] unfolding acts_def ex by (auto simp: extend_pos_def fun_eq_iff)
  have pos2: "pos_ok g' pos2"
    using pos' lg cs_invD(4) [OF inv' lg] unfolding pos_ok_def ex by (auto simp: extend_pos_def)
  have own: "cs_acc g' p ?b \<noteq> None"
  proof
    assume "cs_acc g' p ?b = None"
    then show False using d(6) leadingD(1) [OF u(3)] bp(2) by simp
  qed
  have stays: "stays g g' p ?s (taken t)"
    using own d(1) s(2) u(4) unfolding stays_def by (auto simp: preparing_def)
  have data: "data_ok C g' p (taken t)" using u(2) data_ok_store [of "taken t" u C g' p] s(1) by simp
  have lead: "lead_ok C g' pos2 p (taken t)" unfolding ex by (rule leading_sent [OF u(3) bc N])
  have plain: "plain_node C p (taken t)" using u(1) s unfolding plain_taken plain_rest_def by simp
  have node': "node_ok C g' pos2 p (taken t)"
    using plain data lead b u(4,6,7,8) s unfolding node_ok_def leader_ok_def Let_def
    by (simp add: follower_ok_def own_pids_def table_ok_def)
  have cc: "call C p g g' pos pos2 (cl_nodes c) (taken t)"
    using cluster_okD(1,2) [OF ok] a2 stays by (simp add: call_def)
  have "cached_ok C g' ((cl_nodes c)(p := taken t)) p"
    by (rule cached_call [OF cc cluster_okD(4) [OF ok p]]) (use u(9) s(6) in simp)
  moreover have "raises_ok C p g g' pos c"
    unfolding raises_ok_def using acc bp(1) by metis
  moreover have "sends_ok C g' pos2 ((cl_nodes c)(p := taken t)) p (outgoing t)"
    unfolding sends_ok_def s(20) u(5) append_Nil
  proof (intro ballI)
    fix q m assume "m \<in> set (msgs_to q (map (\<lambda>q. SequencePaxos \<lparr>pm_from = sp_pid u, pm_to = q,
       pm_msg = M q (follower_seq_nums (sp_leader t) ! (q - 1))\<rparr>) ps))"
    then have m: "q \<in> set ps" "m = M q (follower_seq_nums (sp_leader t) ! (q - 1))" by (auto simp: msgs_to_mem)
    show "msg_ok C g' pos2 ((cl_nodes c)(p := taken t)) p q m \<and>
      (\<forall>b k. msg_pos pos2 q m = Some (b, k) \<longrightarrow> (\<exists>L. cs_log g' b = Some L \<and> k = length L))"
      using msgs [OF m(1) refl] lg unfolding m(2) by simp
  qed
  ultimately show ?thesis using a2 pos2 stays node' unfolding call_ok_def by blast
qed

subsection \<open>Log synchronisations fit\<close>

text \<open>The log of a node that has accepted nothing since its promise is the one it promised.\<close>

lemma promised_log:
  assumes pr: "promise_ok C g b q r k d" and rb: "r \<noteq> b" and kb: "known C b" and dq: "data_ok C g q s"
    and n: "cs_prom g q = b" "cs_acc g q b = None"
  shows "node_log s = take k (cs_plog g r)" "length (node_log s) = k"
proof -
  have kr: "known C r" "r \<le> b" using pr by (simp_all add: promise_ok_def)
  have top: "\<forall>b'. b' < b \<longrightarrow> cs_acc g q b' \<noteq> None \<longrightarrow> b' \<le> r"
    and acc: "case cs_acc g q r of None \<Rightarrow> r = default_ballot \<and> k = 0 | Some j \<Rightarrow> j = k"
    using pr rb by (simp_all add: promise_ok_def)
  have le: "node_round s \<le> b" using data_okD(1,4) [OF dq] n(1) by simp
  have "node_log s = take k (cs_plog g r) \<and> length (node_log s) = k"
  proof (cases "cs_acc g q (node_round s)")
    case None
    have "cs_acc g q r = None"
    proof (rule ccontr)
      assume a: "cs_acc g q r \<noteq> None"
      then obtain j where "cs_acc g q r = Some j" by auto
      then have "r \<le> default_ballot" using data_okD(5) [OF dq] data_okD(6) [OF dq None] by metis
      then have "r = node_round s" using data_okD(3) [OF dq] data_okD(6) [OF dq None] known_eq kr(1) default_ballot_le by metis
      then show False using None a by simp
    qed
    then show ?thesis using acc data_okD(7) [OF dq None] by simp
  next
    case (Some j)
    then have "node_round s \<noteq> b" using n(2) by auto
    then have "node_round s \<le> r" using top known_less [OF data_okD(3) [OF dq] kb le] Some by blast
    show ?thesis
    proof (cases "cs_acc g q r")
      case None
      then have "r = default_ballot" using acc by simp
      then have "node_round s = r" using \<open>node_round s \<le> r\<close> data_okD(3) [OF dq] known_eq kr(1) default_ballot_le by metis
      then show ?thesis using Some None by simp
    next
      case (Some i)
      then have "r = node_round s"
        using \<open>node_round s \<le> r\<close> data_okD(5) [OF dq Some] data_okD(3) [OF dq] known_eq kr(1) by metis
      then show ?thesis using acc data_okD(8) [OF dq] data_log(1) [OF dq] Some by simp
    qed
  qed
  then show "node_log s = take k (cs_plog g r)" "length (node_log s) = k" by blast+
qed

lemma valid_idx_fits:
  assumes inv: "cs_inv (cpair C) g" and L: "cs_log g b = Some L" and kb: "known C b"
    and pr: "promise_ok C g b q (pmd_n_accepted m) (pmd_accepted_idx m) (pmd_decided_idx m)"
    and mp: "pmd_accepted_idx mp \<le> cs_base g b" "pmd_n_accepted mp < b"
      "take (pmd_accepted_idx mp) (cs_plog g (pmd_n_accepted mp)) = take (pmd_accepted_idx mp) L"
    and dq: "data_ok C g q s"
  shows "valid_idx m mp b \<le> length L"
    and "valid_idx m mp b \<le> cs_base g b \<or> (\<exists>j. cs_acc g q b = Some j \<and> valid_idx m mp b \<le> j)"
    and "cs_prom g q = b \<Longrightarrow> cs_acc g q b = None \<Longrightarrow>
      valid_idx m mp b \<le> length (node_log s) \<and> take (valid_idx m mp b) (node_log s) = take (valid_idx m mp b) L"
proof -
  let ?i = "valid_idx m mp b" and ?r = "pmd_n_accepted m" and ?k = "pmd_accepted_idx m" and ?d = "pmd_decided_idx m"
  have base: "cs_base g b \<le> length L" by (rule cs_invD(4) [OF inv L])
  have "?i \<le> length L \<and> (?i \<le> cs_base g b \<or> (\<exists>j. cs_acc g q b = Some j \<and> ?i \<le> j)) \<and>
    (cs_prom g q = b \<longrightarrow> cs_acc g q b = None \<longrightarrow> ?i \<le> length (node_log s) \<and> take ?i (node_log s) = take ?i L)"
  proof (cases "?r = b")
    case True
    then obtain j where j: "cs_acc g q b = Some j" "?k \<le> j" using pr by (auto simp: promise_ok_def)
    obtain L' where "cs_log g b = Some L'" "j \<le> length L'" using cs_invD(3) [OF inv j(1)] by blast
    then show ?thesis using True j L by (simp add: valid_idx_def)
  next
    case False
    have kr: "known C ?r" "?r \<le> b" "?d \<le> ?k" and com: "cs_committed (cpair C) g ?r (take ?d (cs_plog g ?r))"
      using pr by (simp_all add: promise_ok_def)
    have lt: "?r < b" by (rule known_less [OF kr(1) kb kr(2) False])
    have len: "?k \<le> length (cs_plog g ?r)" by (rule promise_len [OF inv pr])
    have pre: "prefix (take ?d (cs_plog g ?r)) (take (cs_base g b) L)" by (rule committed_in_later_base [OF inv com lt L])
    have dl: "length (take ?d (cs_plog g ?r)) = ?d" using kr(3) len by simp
    then have db: "?d \<le> cs_base g b" using prefix_length_le [OF pre] by simp
    have dL: "take ?d (cs_plog g ?r) = take ?d L"
      using pre dl db by (metis append_eq_conv_conj min.absorb1 prefix_def take_take)
    have i: "?i \<le> cs_base g b" "?i \<le> ?k" "take ?i (cs_plog g ?r) = take ?i L"
    proof -
      show "?i \<le> cs_base g b" "?i \<le> ?k" using False mp(1) db kr(3) by (auto simp: valid_idx_def)
      show "take ?i (cs_plog g ?r) = take ?i L"
      proof (cases "?r = pmd_n_accepted mp")
        case True
        then have "?i \<le> pmd_accepted_idx mp" using False by (auto simp: valid_idx_def)
        then show ?thesis using mp(3) True by (metis min.absorb1 take_take)
      next
        case neq: False
        then show ?thesis using False dL by (simp add: valid_idx_def)
      qed
    qed
    show ?thesis
      using i base promised_log [OF pr False kb dq] by (auto simp: min_absorb1)
  qed
  then show "?i \<le> length L" "?i \<le> cs_base g b \<or> (\<exists>j. cs_acc g q b = Some j \<and> ?i \<le> j)"
    "cs_prom g q = b \<Longrightarrow> cs_acc g q b = None \<Longrightarrow> ?i \<le> length (node_log s) \<and> take ?i (node_log s) = take ?i L"
    by blast+
qed

lemma accsync_msg_ok:
  assumes inv: "cs_inv (cpair C) g" and u: "data_ok C g p u" "leading C g pos0 p ps u" "n_leader (sp_leader u) = node_promise u"
    and b: "leads C g p (node_promise u)" and q: "q \<noteq> p"
    and pr: "promise_ok C g (node_promise u) q (pmd_n_accepted (promise_of (sp_leader u) q))
      (pmd_accepted_idx (promise_of (sp_leader u) q)) (pmd_decided_idx (promise_of (sp_leader u) q))"
    and dq: "data_ok C g q (\<sigma> q)" and n: "pos (node_promise u) q n = Some (length (node_log u))"
  shows "msg_ok C g pos \<sigma> p q (accsync_msg u q n) \<and>
    msg_pos pos q (accsync_msg u q n) = Some (node_promise u, length (node_log u))"
proof -
  let ?b = "node_promise u" and ?L = "node_log u" and ?l = "sp_leader u"
  let ?i = "valid_idx (promise_of ?l q) (max_promise_meta ?l) ?b"
  note d = leadingD [OF u(2)] and dd = data_okD [OF u(1)]
  note f = valid_idx_fits [OF inv d(2) leads_known [OF b] pr d(8-10) dq]
  have com: "cs_committed (cpair C) g ?b (take (node_decided u) ?L)" using dd(11) d(1) by (simp add: decided_log_def)
  have af: "accepts_from C g p q ?b ?L (node_decided u) (length ?L)"
    using b q d(2) dd(10) com by (auto simp: accepts_from_def)
  have "?b \<le> cs_prom g q" using pr by (simp add: promise_ok_def)
  then have "\<exists>L. accsync_ok C g pos (\<sigma> q) p q \<lparr>as_n = ?b, as_seq_num = n, as_decided_idx = node_decided u,
        as_log_sync = \<lparr>ls_decided_snapshot = None, ls_suffix = drop ?i ?L, ls_sync_idx = ?i, ls_stopsign = None\<rparr>,
        as_log_prefix_hash = accepted_prefix_hash u\<rparr> L"
    using af n f by (intro exI [of _ ?L]) (simp add: accsync_ok_def Let_def)
  then show ?thesis using n unfolding accsync_msg_def u(3) Let_def by (simp add: msg_pos_def)
qed

subsection \<open>Late promises\<close>

lemma leader_node:
  assumes "node_ok C g pos p s" "fst (sp_state s) = LeaderRole"
  shows "n_leader (sp_leader s) = node_promise s" "leads C g p (node_promise s)" "own_pids (sp_leader s)"
    "table_ok C g (node_promise s) (accepted_indexes (sp_leader s))"
    "sp_state s = (LeaderRole, PhaseAccept) \<Longrightarrow> lead_ok C g pos p s"
  using node_okD(3) [OF assms(1)] assms(2) by (simp_all add: leader_ok_def table_ok_def Let_def)

lemma plain_no_meta: "plain_leader C (sp_leader s) \<Longrightarrow> no_accept_meta ps s"
  unfolding plain_leader_def no_accept_meta_def by (metis insertE nth_mem singletonD subsetD empty_iff)

lemma promise_accept_call_ok:
  assumes env: "plain_env env" and ok: "cluster_ok C g pos c" and v: "valid_server (cpair C)"
    and p: "p \<in> set (nodes C)" "q \<in> set (nodes C)"
    and m: "msg_ok C g pos (cl_nodes c) q p (Promise x)" and st: "sp_state (cl_nodes c p) = (LeaderRole, PhaseAccept)"
    and t: "handle_promise_accept env x q (cl_nodes c p) = Some t"
  shows "\<exists>g' pos'. call_ok C g pos c p t g' pos'"
proof (cases "prom_n x = n_leader (sp_leader (cl_nodes c p))")
  case False
  then have "t = cl_nodes c p" using t by (simp add: handle_promise_accept_def)
  then show ?thesis using idle_call_ok [OF ok p(1)] by blast
next
  case True
  let ?s = "cl_nodes c p"
  let ?b = "node_promise ?s"
  note ndok = cluster_okD(3) [OF ok p(1)] and inv = cluster_okD(1) [OF ok]
  have role: "fst (sp_state ?s) = LeaderRole" using st by simp
  note node = node_okD [OF ndok] and ld = leader_node [OF ndok role]
  have l0: "leading C g pos p [] ?s" by (rule lead_leading [OF ld(5) [OF st]])
  note pl = plain_nodeD [OF node(1)] and lead = leadingD [OF l0]
  have pm: "prom_msg_ok C g ?s q p x" using m by simp
  have x: "promise_ok C g ?b q (prom_n_accepted x) (prom_accepted_idx x) (prom_decided_idx x)"
    "prom_log_unsync x = Some []" "q \<noteq> p"
    using pm True ld(1) by (simp_all add: prom_msg_ok_def)
  obtain r l where l: "ls_set_promise x q False (sp_leader ?s) = Some (r, l)"
    and sa: "send_accsync env q (?s\<lparr>sp_leader := l\<rparr>) = Some t"
    using t True by (auto simp: handle_promise_accept_def)
  let ?u = "?s\<lparr>sp_leader := l\<rparr>"
  note sp = ls_set_promise_Some [OF l] and same = ls_set_promise_same [OF l]
  have own: "own_pids l" by (rule own_pids_promise [OF ld(3) l])
  have nm: "no_accept_meta [q] ?u" using plain_no_meta [OF pl(4), of "[q]"] same(7) by (simp add: no_accept_meta_def)
  have "sends_one new_session (accsync_msg ?u) (send_accsync env) ?u"
    by (rule accsync_sends_one [OF env]) (use pl(3) own in simp_all)
  then have bc: "broadcast new_session (accsync_msg ?u) [q] ?u t"
    using sa nm sending_refl unfolding sends_one_def by blast
  note bs = broadcast_sel [OF bc]
  have lq: "leading C g pos p [q] ?u"
    unfolding leading_def Let_def
  proof (intro conjI allI impI)
    fix i assume i: "i < length (promises_meta (sp_leader ?u))" "is_promised (promises_meta (sp_leader ?u) ! i)" "Suc i \<noteq> p"
    have sq: "0 < q" "q - 1 < length (follower_seq_nums l)" using bs(19) [of q] by simp_all
    show "Suc i \<in> set (nodes C)" "i < length (follower_seq_nums (sp_leader ?u))"
      using lead(3) [of i] i sp(3) sq p(2) by (cases "i = q - 1"; simp add: same(2))+
    show "pos (node_promise ?u) (Suc i) (follower_seq_nums (sp_leader ?u) ! i) = Some (length (node_log ?u))" if "Suc i \<notin> set [q]"
    proof -
      have "i \<noteq> q - 1" using that sq(1) by auto
      then show ?thesis using lead(4) [of i] i sp(3) by (simp add: same(2))
    qed
  qed (use lead sp(4) same(2) in \<open>simp_all\<close>)
  have po: "promise_of l q = \<lparr>pmd_n_accepted = prom_n_accepted x, pmd_accepted_idx = prom_accepted_idx x,
           pmd_decided_idx = prom_decided_idx x, pmd_pid = q\<rparr>"
    using sp(1-3) by (simp add: promise_of_def)
  have data: "data_ok C g p ?u" using node(2) data_ok_store [of ?u ?s C g p] by simp
  have rest: "plain_rest C l" using pl(11) same(4,5,8) x(2) by (simp add: plain_rest_def)
  let ?pos = "extend_pos pos ?b [q] (follower_seq_nums (sp_leader t)) (length (node_log ?u))"
  have "call_ok C g pos c p t g ?pos"
  proof (rule lead_call_ok [OF ok p(1) _ cluster_okD(2) [OF ok] inv _ data lq])
    show "acts C p g g pos pos" by (simp add: acts_def)
    show "plain_node C p (taken ?u)" using pl rest unfolding plain_taken by simp
    show "broadcast new_session (accsync_msg ?u) [q] ?u t" by (rule bc)
    show "n < new_session n" for n by (rule num_increases(2))
    show "table_ok C g (node_promise ?u) (accepted_indexes (sp_leader ?u))" using ld(4) same(3) by simp
    fix q' n assume q': "q' \<in> set [q]" "n = follower_seq_nums (sp_leader t) ! (q' - 1)"
    have "((cl_nodes c)(p := taken t)) q = cl_nodes c q" using x(3) by simp
    moreover have "data_ok C g q (cl_nodes c q)" by (rule node_okD(2) [OF cluster_okD(3) [OF ok p(2)]])
    ultimately have dq: "data_ok C g q (((cl_nodes c)(p := taken t)) q)" by simp
    have "?pos ?b q n = Some (length (node_log ?u))" using q' by (simp add: extend_pos_def)
    then show "msg_ok C g ?pos ((cl_nodes c)(p := taken t)) p q' (accsync_msg ?u q' n) \<and>
      msg_pos ?pos q' (accsync_msg ?u q' n) = Some (node_promise ?u, length (node_log ?u))"
      using accsync_msg_ok [OF inv data lq, of q "(cl_nodes c)(p := taken t)" ?pos n] ld(1,2) same(1) x(1,3) po dq q' by simp
  qed (use st pl ld own same(1) in simp_all)
  then show ?thesis by blast
qed

subsection \<open>Deciding\<close>

lemma promised_followers:
  assumes "get_promised_followers l = Some ps"
  shows "distinct ps" "q \<in> set ps \<longleftrightarrow> 0 < q \<and> q - 1 < length (promises_meta l) \<and> is_promised (promises_meta l ! (q - 1)) \<and>
    q \<noteq> ballot_pid (n_leader l)"
proof -
  let ?P = "promises_meta l" and ?b = "ballot_pid (n_leader l)"
  have "distinct ps \<and> (q \<in> set ps \<longleftrightarrow> 0 < q \<and> q - 1 < length ?P \<and> is_promised (?P ! (q - 1)) \<and> q \<noteq> ?b)"
  proof (cases "filter is_promised ?P = []")
    case True
    then have "\<not> is_promised (?P ! i)" if "i < length ?P" for i using that by (simp add: filter_empty_conv)
    then show ?thesis using assms True by (auto simp: get_promised_followers_def)
  next
    case False
    then have b: "0 < ?b" and ps: "ps = map (\<lambda>(idx, x). idx + 1) (filter (\<lambda>(idx, x). is_promised x \<and> idx \<noteq> ?b - 1) (enumerate 0 ?P))"
      using assms by (auto simp: get_promised_followers_def pid_to_idx_def checked_sub_def split: if_splits)
    have d: "distinct (map (\<lambda>(idx, x). idx + 1) (enumerate 0 ?P))"
      by (simp add: enumerate_eq_zip zip_map_fst_snd distinct_conv_nth split_beta)
    have "distinct ps" unfolding ps by (rule distinct_map_filter [OF d])
    moreover have "q \<in> set ps \<longleftrightarrow> (\<exists>i x. (i, x) \<in> set (enumerate 0 ?P) \<and> is_promised x \<and> i \<noteq> ?b - 1 \<and> q = Suc i)"
      unfolding ps by force
    moreover have "\<dots> \<longleftrightarrow> 0 < q \<and> q - 1 < length ?P \<and> is_promised (?P ! (q - 1)) \<and> q \<noteq> ?b"
      using b by (auto simp: in_set_enumerate_eq gr0_conv_Suc)
    ultimately show ?thesis by simp
  qed
  then show "distinct ps" "q \<in> set ps \<longleftrightarrow> 0 < q \<and> q - 1 < length ?P \<and> is_promised (?P ! (q - 1)) \<and> q \<noteq> ?b" by blast+
qed

lemma cluster_quorum:
  assumes "valid_server (cpair C)" "distinct (nodes C)"
  shows "server_quorum (cpair C) = quorum_with (flexible_quorum C) (length (nodes C))"
proof -
  have ne: "nodes C \<noteq> []" using assms(1) by (auto simp: cpair_def valid_server_def valid_cluster_iff)
  have "length (filter (\<lambda>x. x \<noteq> hd (nodes C)) (nodes C)) + 1 = length (nodes C)"
  proof -
    obtain x xs where n: "nodes C = x # xs" using ne by (cases "nodes C") auto
    then have "filter (\<lambda>y. y \<noteq> x) xs = xs" using assms(2) by (auto simp: filter_id_conv)
    then show ?thesis using n by simp
  qed
  then show ?thesis by (simp add: cpair_def server_quorum_def num_nodes_of_def peers_of_def)
qed

lemma table_update:
  assumes "table_ok C g b v" "i = 0 \<or> q \<in> set (nodes C) \<and> (\<exists>j. cs_acc g q b = Some j \<and> i \<le> j)" "0 < q"
  shows "table_ok C g b (v[q - 1 := i])"
  unfolding table_ok_def
proof (intro allI impI)
  fix k assume k: "k < length (v[q - 1 := i])"
  show "v[q - 1 := i] ! k = 0 \<or> Suc k \<in> set (nodes C) \<and> (\<exists>j. cs_acc g (Suc k) b = Some j \<and> v[q - 1 := i] ! k \<le> j)"
  proof (cases "k = q - 1")
    case True
    then have "Suc k = q" "v[q - 1 := i] ! k = i" using assms(3) k by simp_all
    then show ?thesis using assms(2) by simp
  next
    case False
    then show ?thesis using assms(1) k by (simp add: table_ok_def)
  qed
qed

lemma chosen_by_table:
  assumes v: "valid_server (cpair C)" "distinct (nodes C)" and tab: "table_ok C g b (accepted_indexes l)"
    and q: "plain_rest C l" and ch: "is_chosen d l" and d: "0 < d"
  shows "cs_chosen (cpair C) g b d"
proof -
  let ?A = "accepted_by d l"
  have acc: "q \<in> set (nodes C) \<and> (\<exists>j. cs_acc g q b = Some j \<and> d \<le> j)" if a: "q \<in> ?A" for q
  proof -
    have i: "0 < q" "q - 1 < length (accepted_indexes l)" "d \<le> accepted_indexes l ! (q - 1)"
      using a by (auto simp: accepted_by_def)
    then have "q \<in> set (nodes C) \<and> (\<exists>j. cs_acc g q b = Some j \<and> accepted_indexes l ! (q - 1) \<le> j)"
      using tab d unfolding table_ok_def by fastforce
    then show ?thesis using i(3) by (meson order_trans)
  qed
  have "?A \<subseteq> server_members (cpair C)" using acc by (auto simp: server_members_def cpair_def)
  moreover have "is_accept_quorum (server_quorum (cpair C)) (card ?A)"
    using ch q unfolding is_chosen_def accepted_by_card cluster_quorum [OF v] plain_rest_def by simp
  ultimately have "accept_set (cpair C) ?A" by (simp add: accept_set_def)
  then show ?thesis using acc unfolding cs_chosen_def by blast
qed

lemma ls_set_accepted_idx_same:
  "ls_set_accepted_idx p i l = Some l' \<Longrightarrow> l' = l\<lparr>accepted_indexes := (accepted_indexes l)[p - 1 := i]\<rparr> \<and> 0 < p"
  by (auto simp: ls_set_accepted_idx_def pid_to_idx_def)

lemma prune_sel [simp]:
  "n_leader (prune_accepted_map d l) = n_leader l" "promises_meta (prune_accepted_map d l) = promises_meta l"
  "follower_seq_nums (prune_accepted_map d l) = follower_seq_nums l" "accepted_indexes (prune_accepted_map d l) = accepted_indexes l"
  "max_promise_meta (prune_accepted_map d l) = max_promise_meta l" "latest_accept_meta (prune_accepted_map d l) = latest_accept_meta l"
  "ls_quorum (prune_accepted_map d l) = ls_quorum l" "pending_accept_meta (prune_accepted_map d l) = pending_accept_meta l"
  "unsynced_log_store (prune_accepted_map d l) = unsynced_log_store l"
  by (simp_all add: prune_accepted_map_def)

lemma leading_same:
  assumes "leading C g pos p ps s" "node_promise u = node_promise s" "node_round u = node_round s" "node_log u = node_log s"
    "promises_meta (sp_leader u) = promises_meta (sp_leader s)" "follower_seq_nums (sp_leader u) = follower_seq_nums (sp_leader s)"
    "max_promise_meta (sp_leader u) = max_promise_meta (sp_leader s)"
  shows "leading C g pos p ps u"
  using assms unfolding leading_def Let_def by simp

lemma leading_more: "leading C g pos p [] s \<Longrightarrow> leading C g pos p ps s"
  by (simp add: leading_def Let_def)

lemma decide_msg_ok:
  assumes u: "leading C g pos p [] u" and b: "leads C g p (node_promise u)" and d: "d \<le> length (node_log u)"
      "cs_committed (cpair C) g (node_promise u) (take d (node_log u))"
    and q: "0 < q" "q - 1 < length (promises_meta (sp_leader u))" "is_promised (promises_meta (sp_leader u) ! (q - 1))" "q \<noteq> p"
    and n: "n = next_num (follower_seq_nums (sp_leader u) ! (q - 1))" "pos' (node_promise u) q n = Some (length (node_log u))"
    and pos': "\<And>k n. pos (node_promise u) q n = Some k \<Longrightarrow> pos' (node_promise u) q n = Some k"
  shows "msg_ok C g pos' \<sigma> p q (Decide \<lparr>dec_n = node_promise u, dec_seq_num = n, dec_decided_idx = d\<rparr>) \<and>
    msg_pos pos' q (Decide \<lparr>dec_n = node_promise u, dec_seq_num = n, dec_decided_idx = d\<rparr>) = Some (node_promise u, length (node_log u))"
proof -
  let ?b = "node_promise u" and ?L = "node_log u" and ?n = "follower_seq_nums (sp_leader u) ! (q - 1)"
  have "pos ?b q ?n = Some (length ?L)" using leadingD(4) [OF u, of "q - 1"] q by simp
  then have "pos' ?b q (SequenceNumber (session n) (counter n - 1)) = Some (length ?L)" "0 < counter n"
    using pos' n(1) by (simp_all add: next_num_def)
  then have "follows C g pos' p q ?b n d ?L (length ?L) (length ?L)"
    using b q(4) d n(2) leadingD(2) [OF u] by (simp add: follows_def accepts_from_def)
  then show ?thesis using n(2) by (auto simp: msg_pos_def)
qed

lemma extend_pos_self [simp]: "extend_pos pos b [] v k = pos"
  by (simp add: extend_pos_def fun_eq_iff)

lemma data_ok_decide:
  assumes "data_ok C g p s" "node_promise u = node_promise s" "node_round u = node_round s" "node_log u = node_log s"
    "node_decided u \<le> length (node_log s)" "cs_committed (cpair C) g (node_round s) (take (node_decided u) (node_log s))"
  shows "data_ok C g p u"
  using assms(1,5,6) unfolding data_ok_def decided_log_def assms(2-4) by blast

lemma accepted_call_ok:
  assumes ok: "cluster_ok C g pos c" and v: "valid_server (cpair C)" "distinct (nodes C)"
    and p: "p \<in> set (nodes C)" "q \<in> set (nodes C)"
    and m: "msg_ok C g pos (cl_nodes c) q p (Accepted x)" and t: "handle_accepted x q (cl_nodes c p) = Some t"
  shows "\<exists>g' pos'. call_ok C g pos c p t g' pos'"
proof (cases "acc_n x = n_leader (sp_leader (cl_nodes c p)) \<and> sp_state (cl_nodes c p) = (LeaderRole, PhaseAccept)")
  case False
  then have "t = cl_nodes c p" using t by (simp only: handle_accepted_def if_False option.inject)
  then show ?thesis using idle_call_ok [OF ok p(1)] by blast
next
  case True
  let ?s = "cl_nodes c p" and ?d = "acc_accepted_idx x"
  let ?b = "node_promise ?s"
  note ndok = cluster_okD(3) [OF ok p(1)] and inv = cluster_okD(1) [OF ok]
  have st: "sp_state ?s = (LeaderRole, PhaseAccept)" and n: "acc_n x = n_leader (sp_leader ?s)" using True by simp_all
  have role: "fst (sp_state ?s) = LeaderRole" using st by simp
  note node = node_okD [OF ndok] and ld = leader_node [OF ndok role]
  have l0: "leading C g pos p [] ?s" by (rule lead_leading [OF ld(5) [OF st]])
  note pl = plain_nodeD [OF node(1)] and lead = leadingD [OF l0] and d = data_okD [OF node(2)]
  have a: "acts C p g g pos pos" by (simp add: acts_def)
  obtain j where j: "cs_acc g q ?b = Some j" "?d \<le> j" using m n ld(1) by auto
  have tab: "table_ok C g ?b ((accepted_indexes (sp_leader ?s))[q - 1 := ?d])" if "0 < q"
    by (rule table_update [OF ld(4) _ that]) (use j p(2) in blast)
  from handle_accepted_cases [OF t n st] show ?thesis
  proof cases
    case (1 l)
    have l: "l = (sp_leader ?s)\<lparr>accepted_indexes := (accepted_indexes (sp_leader ?s))[q - 1 := ?d]\<rparr>" "0 < q"
      using ls_set_accepted_idx_same [OF 1(1)] by simp_all
    have rest: "plain_rest C l" using pl(11) l(1) by (simp add: plain_rest_def)
    have own: "own_pids l" using ld(3) l(1) by (simp add: own_pids_def)
    have lt: "leading C g pos p [] t" by (rule leading_same [OF l0]) (simp_all add: 1(3) l(1))
    have "call_ok C g pos c p t g pos"
    proof (rule lead_call_ok [OF ok p(1) a cluster_okD(2) [OF ok] inv, where u = t and ps = "[]" and N = next_num])
      show "plain_node C p (taken t)" using pl rest 1(3) unfolding plain_taken by simp
      show "data_ok C g p t" using node(2) data_ok_store [of t ?s C g p] 1(3) by simp
      show "leading C g pos p [] t" by (rule lt)
      show "table_ok C g (node_promise t) (accepted_indexes (sp_leader t))" using tab [OF l(2)] 1(3) l(1) by simp
      show "broadcast next_num M [] t t" for M by (rule broadcast_Nil)
      show "n < next_num n" for n by (rule num_increases(1))
    qed (use st pl ld own l(1) 1(3) in simp_all)
    then show ?thesis by blast
  next
    case (2 l ps)
    have l: "l = (sp_leader ?s)\<lparr>accepted_indexes := (accepted_indexes (sp_leader ?s))[q - 1 := ?d]\<rparr>" "0 < q"
      using ls_set_accepted_idx_same [OF 2(1)] by simp_all
    have rest: "plain_rest C l" using pl(11) l(1) by (simp add: plain_rest_def)
    let ?u = "?s\<lparr>slow_path_decisions := slow_path_decisions ?s + (?d - node_decided ?s),
      sp_store := set_decided_idx ?d (sp_store ?s), sp_leader := prune_accepted_map ?d l\<rparr>"
    note sd = store_set_decided [OF pl(3), of ?d]
    have tabl: "table_ok C g ?b (accepted_indexes l)" using tab [OF l(2)] l(1) by simp
    have ch: "cs_chosen (cpair C) g ?b ?d" by (rule chosen_by_table [OF v tabl rest 2(3)]) (use 2(2) in simp)
    have dl: "?d \<le> length (node_log ?s)"
    proof -
      obtain L where "cs_log g ?b = Some L" "?d \<le> length L" using chosen_log [OF inv v(1) ch] .
      then show ?thesis using lead(2) by simp
    qed
    have com: "cs_committed (cpair C) g ?b (take ?d (node_log ?s))"
      unfolding cs_committed_def using ch lead(2)
      by (intro disjI2 exI [of _ ?b] exI [of _ ?d]) (simp add: cs_plog_def)
    have plog: "cs_plog g ?b = node_log ?s" using lead(2) by (simp add: cs_plog_def)
    have data: "data_ok C g p ?u"
      by (rule data_ok_decide [OF node(2)]) (use sd dl com lead(1) in simp_all)
    have lu: "leading C g pos p [] ?u" by (rule leading_same [OF l0]) (use sd l(1) in simp_all)
    have own: "own_pids (prune_accepted_map ?d l)" using ld(3) l(1) by (simp add: own_pids_def)
    note fo = promised_followers [OF 2(4)]
    have bp: "ballot_pid (n_leader (sp_leader ?s)) = p" using ld(1,2) by (simp add: leads_def)
    have nm: "no_accept_meta ps ?u" using plain_no_meta [OF pl(4), of ps] l(1) by (simp add: no_accept_meta_def)
    have bc: "broadcast next_num (\<lambda>q n. Decide \<lparr>dec_n = n_leader (sp_leader ?u), dec_seq_num = n, dec_decided_idx = ?d\<rparr>) ps ?u t"
      by (rule broadcast_loop [OF decide_sends_one 2(5) fo(1) nm])
    have lu': "leading C g pos p ps ?u" by (rule leading_more [OF lu])
    let ?pos = "extend_pos pos (node_promise ?u) ps (follower_seq_nums (sp_leader t)) (length (node_log ?u))"
    note bs = broadcast_sel [OF bc]
    have "call_ok C g pos c p t g ?pos"
    proof (rule lead_call_ok [OF ok p(1) a cluster_okD(2) [OF ok] inv _ data lu'])
      show "plain_node C p (taken ?u)" using pl rest sd(1) unfolding plain_taken by (simp add: plain_rest_def)
      show "table_ok C g (node_promise ?u) (accepted_indexes (sp_leader ?u))" using tabl sd(2) by simp
      show "broadcast next_num (\<lambda>q n. Decide \<lparr>dec_n = n_leader (sp_leader ?u), dec_seq_num = n, dec_decided_idx = ?d\<rparr>) ps ?u t"
        by (rule bc)
      show "n < next_num n" for n by (rule num_increases(1))
      fix r k assume r: "r \<in> set ps" "k = follower_seq_nums (sp_leader t) ! (r - 1)"
      have rr: "0 < r" "r - 1 < length (promises_meta (sp_leader ?u))" "is_promised (promises_meta (sp_leader ?u) ! (r - 1))" "r \<noteq> p"
        using r(1) fo(2) [of r] bp l(1) by simp_all
      have k: "k = next_num (follower_seq_nums (sp_leader ?u) ! (r - 1))"
        using r bs(18,19) by (auto simp: gr0_conv_Suc)
      have pk: "?pos (node_promise ?u) r k = Some (length (node_log ?u))" using r by (simp add: extend_pos_def)
      have nl: "n_leader (sp_leader ?u) = node_promise ?u" using ld(1) l(1) sd(2) by simp
      have f: "leads C g p (node_promise ?u)" "?d \<le> length (node_log ?u)"
        "cs_committed (cpair C) g (node_promise ?u) (take ?d (node_log ?u))" using ld(2) sd(2,5) dl com by simp_all
      show "msg_ok C g ?pos ((cl_nodes c)(p := taken t)) p r (Decide \<lparr>dec_n = n_leader (sp_leader ?u), dec_seq_num = k, dec_decided_idx = ?d\<rparr>) \<and>
        msg_pos ?pos r (Decide \<lparr>dec_n = n_leader (sp_leader ?u), dec_seq_num = k, dec_decided_idx = ?d\<rparr>) = Some (node_promise ?u, length (node_log ?u))"
        unfolding nl by (rule decide_msg_ok [where pos' = ?pos, OF lu f rr k pk]) (rule extend_pos_new [OF lu' bc num_increases(1)])
    qed (use st pl ld own l(1) sd in simp_all)
    then show ?thesis by blast
  qed
qed

end
