(* ===== verification/Cluster_Appending.thy ===== *)
theory Cluster_Appending
  imports Cluster_Leader
begin

text \<open>
  Released proposals: the leader appends the entry to the log of its ballot, accepts it and sends
  it to every promised follower.
\<close>

lemma store_append_one:
  assumes "plain_store st"
  obtains st' where "append_entry_with_batching e st = (Some \<lparr>amd_accepted_idx = length (ms_log (is_storage st)) + 1, amd_entries = [e]\<rparr>, st')"
    "plain_store st'" "get_promise st' = get_promise st" "get_accepted_round st' = get_accepted_round st"
    "get_decided_idx st' = get_decided_idx st" "ms_log (is_storage st') = ms_log (is_storage st) @ [e]"
proof -
  obtain m st' where a: "append_entry_with_batching e st = (m, st')" by fastforce
  have b: "sc_batch_size (is_cache st) = 1" "sc_batched_entries (is_cache st) = []"
    using assms by (simp_all add: plain_store_def)
  have "m = Some \<lparr>amd_accepted_idx = length (ms_log (is_storage st)) + 1, amd_entries = [e]\<rparr>"
    "plain_store st'" "get_promise st' = get_promise st" "get_accepted_round st' = get_accepted_round st"
    "get_decided_idx st' = get_decided_idx st" "ms_log (is_storage st') = ms_log (is_storage st) @ [e]"
    using a assms b by (auto simp: append_defs Let_def ms_append_entries_def plain_store_defs split: if_splits)
  then show thesis using that a by simp
qed

lemma no_fast_decisions:
  assumes "\<not> enable_fast_path s"
  shows "for_each (\<lambda>idx self. map_option snd (try_fast_decide_idx idx self)) is s = Some s"
proof (induction "is")
  case (Cons i "is")
  have "try_fast_decide_idx i s = Some (False, s)" using assms by (simp add: try_fast_decide_idx_def fast_decidable_def)
  then show ?case using Cons by simp
qed simp

lemma acceptdecide_loop_slow:
  assumes "for_each (acceptdecide_to es ms d h) ps s = Some t"
  shows "enable_fast_path t = enable_fast_path s"
  by (rule for_each_frame [OF assms, of enable_fast_path])
    (auto simp: acceptdecide_to_def send_to_def set_outgoing_msg_def split: option.splits)

lemma release_eq:
  assumes plain: "plain_node C p s" and t: "release_on_leader env prop s = Some t"
  obtains h l st ps ms where
    "get_promised_followers l = Some ps" "length ms = 1"
    "for_each (acceptdecide_to [dp_entry prop] ms (node_decided s) h) ps
       (s\<lparr>accepted_prefix_hash := h, sp_store := st, sp_leader := l\<rparr>) = Some t"
    "plain_store st" "get_promise st = node_promise s" "get_accepted_round st = node_round s"
    "get_decided_idx st = node_decided s" "ms_log (is_storage st) = node_log s @ [dp_entry prop]" "0 < p"
    "n_leader l = n_leader (sp_leader s)" "promises_meta l = promises_meta (sp_leader s)"
    "follower_seq_nums l = follower_seq_nums (sp_leader s)" "max_promise_meta l = max_promise_meta (sp_leader s)"
    "latest_accept_meta l = latest_accept_meta (sp_leader s)"
    "accepted_indexes l = (accepted_indexes (sp_leader s))[p - 1 := length (node_log s) + 1]" "plain_rest C l"
    "max_pid l = max_pid (sp_leader s)"
proof -
  note pl = plain_nodeD [OF plain]
  let ?e = "dp_entry prop"
  let ?eh = "hash_with env (dp_entry_id prop) (dp_deadline prop)"
  let ?h = "extend_hash (accepted_prefix_hash s) ?eh"
  let ?l1 = "push_pending_accept_meta \<lparr>aem_entry_id = dp_entry_id prop, aem_deadline = dp_deadline prop\<rparr> (sp_leader s)"
  obtain i where t1: "accept_entry_leader ?e (s\<lparr>accepted_prefix_hash := ?h, sp_leader := set_accepted_map (i + 1) ?eh (accepted_prefix_hash s) p False ?l1\<rparr>) = Some t"
    using t pl(1) by (auto simp: release_on_leader_def Let_def)
  let ?l2 = "set_accepted_map (i + 1) ?eh (accepted_prefix_hash s) p False ?l1"
  obtain st where st: "append_entry_with_batching ?e (sp_store s) = (Some \<lparr>amd_accepted_idx = length (node_log s) + 1, amd_entries = [?e]\<rparr>, st)"
    "plain_store st" "get_promise st = node_promise s" "get_accepted_round st = node_round s"
    "get_decided_idx st = node_decided s" "ms_log (is_storage st) = node_log s @ [?e]"
    by (rule store_append_one [OF pl(3)]) blast
  obtain l3 u where l3: "ls_set_accepted_idx p (length (node_log s) + 1) ?l2 = Some l3"
    and u: "send_acceptdecide \<lparr>amd_accepted_idx = length (node_log s) + 1, amd_entries = [?e]\<rparr>
      (s\<lparr>accepted_prefix_hash := ?h, sp_store := st, sp_leader := l3\<rparr>) = Some u"
    and tu: "for_each (\<lambda>idx self. map_option snd (try_fast_decide_idx idx self)) [length (node_log s) + 1..<length (node_log s) + 2] u = Some t"
    using t1 st(1) pl(1) by (auto simp: accept_entry_leader_def Let_def simp del: for_each.simps)
  have pend: "pending_accept_meta l3 = [\<lparr>aem_entry_id = dp_entry_id prop, aem_deadline = dp_deadline prop\<rparr>]"
    using l3 pl(11) by (auto simp: ls_set_accepted_idx_def set_accepted_map_def push_pending_accept_meta_def plain_rest_def Let_def)
  let ?l = "l3\<lparr>pending_accept_meta := []\<rparr>"
  let ?ms = "[\<lparr>aem_entry_id = dp_entry_id prop, aem_deadline = dp_deadline prop\<rparr>]"
  obtain ps where ps: "get_promised_followers ?l = Some ps"
    and fe: "for_each (acceptdecide_to [?e] ?ms (node_decided s) ?h) ps (s\<lparr>accepted_prefix_hash := ?h, sp_store := st, sp_leader := ?l\<rparr>) = Some u"
    using u pend st(5) by (auto simp: send_acceptdecide_def take_pending_accept_meta_def Let_def)
  have "enable_fast_path u = enable_fast_path s" using acceptdecide_loop_slow [OF fe] by simp
  then have "u = t" using tu no_fast_decisions [of u] pl(5) by (simp del: for_each.simps)
  have l: "0 < p" "n_leader ?l = n_leader (sp_leader s)" "promises_meta ?l = promises_meta (sp_leader s)"
    "follower_seq_nums ?l = follower_seq_nums (sp_leader s)" "max_promise_meta ?l = max_promise_meta (sp_leader s)"
    "latest_accept_meta ?l = latest_accept_meta (sp_leader s)"
    "accepted_indexes ?l = (accepted_indexes (sp_leader s))[p - 1 := length (node_log s) + 1]" "plain_rest C ?l"
    "max_pid ?l = max_pid (sp_leader s)"
    using ls_set_accepted_idx_same [OF l3] pl(11)
    by (auto simp: set_accepted_map_def push_pending_accept_meta_def plain_rest_def Let_def)
  show thesis
    by (rule that [where ms = ?ms, OF ps _ _ st(2-6) l]) (use fe \<open>u = t\<close> in simp_all)
qed

subsection \<open>The step of the consensus\<close>

definition appended_step :: "'e consensus \<Rightarrow> node_id \<Rightarrow> ballot \<Rightarrow> 'e list \<Rightarrow> 'e consensus" where
  "appended_step g p b xs = accepted_step (g\<lparr>cs_log := (cs_log g)(b \<mapsto> xs)\<rparr>) p b (length xs)"

lemma appended_step_sel [simp]:
  "cs_prom (appended_step g p b xs) = (cs_prom g)(p := b)"
  "cs_acc (appended_step g p b xs) = (cs_acc g)(p := (cs_acc g p)(b \<mapsto> length xs))"
  "cs_log (appended_step g p b xs) = (cs_log g)(b \<mapsto> xs)" "cs_base (appended_step g p b xs) = cs_base g"
  by (simp_all add: appended_step_def)

lemma appended_plog [simp]: "cs_plog (appended_step g p b xs) b' = (if b' = b then xs else cs_plog g b')"
  by (simp add: cs_plog_def)

lemma appended_steps:
  assumes inv: "cs_inv cp g" and L: "cs_log g b = Some L" and p: "cs_prom g p \<le> b"
  shows "(cs_step cp)\<^sup>*\<^sup>* g (appended_step g p b (L @ es))"
proof -
  let ?h = "g\<lparr>cs_log := (cs_log g)(b \<mapsto> L @ es)\<rparr>"
  have "cs_step cp g ?h" by (rule cs_append [OF L])
  moreover have "cs_step cp ?h (accepted_step ?h p b (length (L @ es)))"
    unfolding accepted_step_def
  proof (rule cs_accept)
    show "cs_log ?h b = Some (L @ es)" by simp
    show "cs_base ?h b \<le> length (L @ es)" using cs_invD(4) [OF inv L] by simp
    show "\<forall>j. cs_acc ?h p b = Some j \<longrightarrow> j \<le> length (L @ es)" using cs_invD(3) [OF inv] L by fastforce
  qed (use p in simp_all)
  ultimately show ?thesis unfolding appended_step_def by (meson converse_rtranclp_into_rtranclp r_into_rtranclp)
qed

lemma acceptdecide_msg_ok:
  assumes u: "leading C g pos p [] u" and b: "leads C g' p (node_promise u)"
    and L: "cs_log g' (node_promise u) = Some (node_log u @ es)"
    and d: "d \<le> length (node_log u)" "cs_committed (cpair C) g' (node_promise u) (take d (node_log u))"
    and q: "0 < q" "q - 1 < length (promises_meta (sp_leader u))" "is_promised (promises_meta (sp_leader u) ! (q - 1))" "q \<noteq> p"
    and n: "n = next_num (follower_seq_nums (sp_leader u) ! (q - 1))" "pos' (node_promise u) q n = Some (length (node_log u @ es))"
    and pos': "\<And>k n. pos (node_promise u) q n = Some k \<Longrightarrow> pos' (node_promise u) q n = Some k"
    and x: "ad_n x = node_promise u" "ad_seq_num x = n" "ad_decided_idx x = d" "ad_entries x = es"
  shows "msg_ok C g' pos' \<sigma> p q (AcceptDecide x) \<and> msg_pos pos' q (AcceptDecide x) = Some (node_promise u, length (node_log u @ es))"
proof -
  let ?b = "node_promise u" and ?L = "node_log u @ es" and ?n = "follower_seq_nums (sp_leader u) ! (q - 1)"
  have "pos ?b q ?n = Some (length (node_log u))" using leadingD(4) [OF u, of "q - 1"] q by simp
  then have "pos' ?b q (SequenceNumber (session n) (counter n - 1)) = Some (length (node_log u))" "0 < counter n"
    using pos' n(1) by (simp_all add: next_num_def)
  then have "follows C g' pos' p q ?b n d ?L (length (node_log u)) (length (node_log u) + length es)"
    using b q(4) d n(2) L by (simp add: follows_def accepts_from_def)
  then have "msg_ok C g' pos' \<sigma> p q (AcceptDecide x)"
    unfolding msg_ok.simps x by (intro exI [of _ ?L] exI [of _ "length (node_log u)"]) simp
  then show ?thesis using n(2) x by (simp add: msg_pos_def)
qed

lemma release_on_leader_call_ok:
  assumes ok: "cluster_ok C g pos c" and v: "valid_server (cpair C)" and p: "p \<in> set (nodes C)"
    and st: "sp_state (cl_nodes c p) = (LeaderRole, PhaseAccept)"
    and t: "release_on_leader env prop (cl_nodes c p) = Some t"
  shows "\<exists>g' pos'. call_ok C g pos c p t g' pos'"
proof -
  let ?s = "cl_nodes c p" and ?e = "dp_entry prop"
  let ?b = "node_promise ?s" and ?L = "node_log ?s"
  note ndok = cluster_okD(3) [OF ok p] and inv = cluster_okD(1) [OF ok] and pos = cluster_okD(2) [OF ok]
  have role: "fst (sp_state ?s) = LeaderRole" using st by simp
  note node = node_okD [OF ndok] and ld = leader_node [OF ndok role]
  have l0: "leading C g pos p [] ?s" by (rule lead_leading [OF ld(5) [OF st]])
  note pl = plain_nodeD [OF node(1)] and lead = leadingD [OF l0] and d = data_okD [OF node(2)]
  obtain h l st' ps ms where ps: "get_promised_followers l = Some ps"
    and fe: "for_each (acceptdecide_to [?e] ms (node_decided ?s) h) ps
       (?s\<lparr>accepted_prefix_hash := h, sp_store := st', sp_leader := l\<rparr>) = Some t"
    and s: "plain_store st'" "get_promise st' = ?b" "get_accepted_round st' = node_round ?s"
    "get_decided_idx st' = node_decided ?s" "ms_log (is_storage st') = ?L @ [?e]" "0 < p"
    and l: "n_leader l = n_leader (sp_leader ?s)" "promises_meta l = promises_meta (sp_leader ?s)"
    "follower_seq_nums l = follower_seq_nums (sp_leader ?s)" "max_promise_meta l = max_promise_meta (sp_leader ?s)"
    "latest_accept_meta l = latest_accept_meta (sp_leader ?s)"
    "accepted_indexes l = (accepted_indexes (sp_leader ?s))[p - 1 := length ?L + 1]" "plain_rest C l"
    by (rule release_eq [OF node(1) t]) blast
  let ?g = "appended_step g p ?b (?L @ [?e])" and ?u = "?s\<lparr>accepted_prefix_hash := h, sp_store := st', sp_leader := l\<rparr>"
  have bp: "ballot_pid ?b = p" "known C ?b" using ld(2) by (simp_all add: leads_def)
  have steps: "(cs_step (cpair C))\<^sup>*\<^sup>* g ?g" by (rule appended_steps [OF inv lead(2)]) (simp add: d(1))
  have le: "cs_le g ?g" by (rule cs_steps_le [OF steps])
  have inv': "cs_inv (cpair C) ?g" by (rule cs_steps_inv [OF steps inv v])
  have a: "acts C p g ?g pos pos" unfolding acts_def using steps bp(1) by auto
  have pos': "pos_ok ?g pos"
    unfolding pos_ok_def
  proof (intro allI impI)
    fix b q n k assume n: "pos b q n = Some k"
    obtain L where L: "cs_log g b = Some L" "cs_base g b \<le> k" "k \<le> length L"
      using pos n unfolding pos_ok_def by blast
    show "\<exists>L. cs_log ?g b = Some L \<and> cs_base ?g b \<le> k \<and> k \<le> length L"
      using L lead(2) by (cases "b = ?b") auto
  qed
  have com: "cs_committed (cpair C) ?g ?b (take (node_decided ?s) ?L)"
    using cs_le_committed [OF le d(11) order_refl] lead(1) by (simp add: decided_log_def)
  have data: "data_ok C ?g p ?u"
    using s d(4,5,10) bp(2) lead(1) com unfolding data_ok_def decided_log_def
    by (auto simp: min_absorb1)
  note fo = promised_followers [OF ps]
  have bl: "ballot_pid (n_leader l) = p" using l(1) ld(1) bp(1) by simp
  have lu: "leading C ?g pos p ps ?u"
    unfolding leading_def Let_def
  proof (intro conjI allI impI)
    fix i assume i: "i < length (promises_meta (sp_leader ?u))" "is_promised (promises_meta (sp_leader ?u) ! i)" "Suc i \<noteq> p"
    show "Suc i \<in> set (nodes C)" "i < length (follower_seq_nums (sp_leader ?u))"
      using lead(3) [of i] i l(2,3) by simp_all
    show "pos (node_promise ?u) (Suc i) (follower_seq_nums (sp_leader ?u) ! i) = Some (length (node_log ?u))" if "Suc i \<notin> set ps"
      using that fo(2) [of "Suc i"] i bl by simp
  next
    have base: "cs_base g ?b \<le> length ?L" by (rule cs_invD(4) [OF inv lead(2)])
    have "pmd_n_accepted (max_promise_meta (sp_leader ?s)) \<noteq> ?b" using lead(9) by auto
    then show "take (pmd_accepted_idx (max_promise_meta (sp_leader ?u))) (cs_plog ?g (pmd_n_accepted (max_promise_meta (sp_leader ?u))))
      = take (pmd_accepted_idx (max_promise_meta (sp_leader ?u))) (node_log ?u)"
      using lead(8,10) base l(4) s(5) by simp
  qed (use lead s l in simp_all)
  have nm: "no_accept_meta ps ?u" using plain_no_meta [OF pl(4), of ps] l(5) by (simp add: no_accept_meta_def)
  let ?M = "\<lambda>q n. AcceptDecide \<lparr>ad_n = n_leader (sp_leader ?u), ad_seq_num = n, ad_decided_idx = node_decided ?s,
             ad_entries = [?e], ad_entry_meta = ms, ad_log_prefix_hash = h\<rparr>"
  have bc: "broadcast next_num ?M ps ?u t" by (rule broadcast_loop [OF acceptdecide_sends_one fe fo(1) nm])
  note bs = broadcast_sel [OF bc]
  let ?pos = "extend_pos pos (node_promise ?u) ps (follower_seq_nums (sp_leader t)) (length (node_log ?u))"
  have "call_ok C g pos c p t ?g ?pos"
  proof (rule lead_call_ok [OF ok p a pos' inv' _ data lu])
    show "plain_node C p (taken ?u)" using pl l(7) s(1) unfolding plain_taken by simp
    show "own_pids (sp_leader ?u)" using ld(3) l(2) by (simp add: own_pids_def)
    have "table_ok C ?g ?b (accepted_indexes (sp_leader ?s))"
      using ld(4) cs_leD(2) [OF le] unfolding table_ok_def by (meson order_trans)
    then show "table_ok C ?g (node_promise ?u) (accepted_indexes (sp_leader ?u))"
      using table_update [of C ?g ?b _ "length ?L + 1" p] p s(2,6) l(6) by simp
    show "leads C ?g p (node_promise ?u)" using leads_le [OF le ld(2)] s(2) by simp
    show "cs_acc ?g p b' = cs_acc g p b'" if "b' \<noteq> node_promise ?u" for b' using that s(2) by simp
    show "broadcast next_num ?M ps ?u t" by (rule bc)
    show "n < next_num n" for n by (rule num_increases(1))
    fix r k assume r: "r \<in> set ps" "k = follower_seq_nums (sp_leader t) ! (r - 1)"
    have rr: "0 < r" "r - 1 < length (promises_meta (sp_leader ?s))" "is_promised (promises_meta (sp_leader ?s) ! (r - 1))" "r \<noteq> p"
      using r(1) fo(2) [of r] bl l(2) by simp_all
    have k: "k = next_num (follower_seq_nums (sp_leader ?s) ! (r - 1))"
      using r bs(18,19) l(3) by (auto simp: gr0_conv_Suc)
    have pk: "?pos ?b r k = Some (length (?L @ [?e]))" using r s(2,5) by (simp add: extend_pos_def)
    have nl: "n_leader (sp_leader ?u) = ?b" using ld(1) l(1) by simp
    have f: "leads C ?g p ?b" "cs_log ?g ?b = Some (?L @ [?e])" using leads_le [OF le ld(2)] by simp_all
    have "msg_ok C ?g ?pos ((cl_nodes c)(p := taken t)) p r (?M r k) \<and>
      msg_pos ?pos r (?M r k) = Some (?b, length (?L @ [?e]))"
      unfolding nl
      by (rule acceptdecide_msg_ok [where pos' = ?pos, OF l0 f d(10) com rr k pk])
        (use extend_pos_new [OF lu bc num_increases(1)] in simp_all)
    then show "msg_ok C ?g ?pos ((cl_nodes c)(p := taken t)) p r (?M r k) \<and>
      msg_pos ?pos r (?M r k) = Some (node_promise ?u, length (node_log ?u))" using s(2,5) by simp
  qed (use st pl ld l s in simp_all)
  then show ?thesis by blast
qed

lemma release_call_ok:
  assumes ok: "cluster_ok C g pos c" and v: "valid_server (cpair C)" and p: "p \<in> set (nodes C)"
    and t: "handle_dom_release env prop (cl_nodes c p) = Some t"
  shows "\<exists>g' pos'. call_ok C g pos c p t g' pos'"
proof (cases "t = cl_nodes c p")
  case True
  then show ?thesis using idle_call_ok [OF ok p] by blast
next
  case False
  have "\<not> enable_fast_path (cl_nodes c p)"
    using plain_nodeD(5) [OF node_okD(1) [OF cluster_okD(3) [OF ok p]]] .
  then have "sp_state (cl_nodes c p) = (LeaderRole, PhaseAccept)" "release_on_leader env prop (cl_nodes c p) = Some t"
    using t False by (auto simp: handle_dom_release_def release_on_follower_def split: if_splits)
  then show ?thesis by (rule release_on_leader_call_ok [OF ok v p])
qed

end
