(* ===== verification/Cluster_Starting.thy ===== *)
theory Cluster_Starting
  imports Cluster_Appending
begin

text \<open>
  The promise that completes the quorum: the leader adopts the log of the highest promise, which
  starts the log of its ballot, and synchronises its followers.
\<close>

subsection \<open>The maximal decided index\<close>

lemma iter_max_mem: "iter_max xs = Some m \<Longrightarrow> m \<in> set xs"
proof (cases xs)
  case (Cons x ys)
  have "fold (\<lambda>y m. if y < m then m else y) ys x \<in> insert x (set ys)"
  proof (induction ys arbitrary: x)
    case (Cons y ys)
    then show ?case using Cons.IH [of x] Cons.IH [of y] by auto
  qed simp
  then show "iter_max xs = Some m \<Longrightarrow> m \<in> set xs" using Cons by auto
qed simp

lemma max_decided_cases:
  "get_max_decided_idx l = 0 \<or> (\<exists>i m. i < length (promises_meta l) \<and> promises_meta l ! i = Promised m \<and>
     get_max_decided_idx l = pmd_decided_idx m)"
proof (cases "iter_max (promised_decided (promises_meta l))")
  case (Some d)
  then have "d \<in> set (promised_decided (promises_meta l))" by (rule iter_max_mem)
  then obtain x where "x \<in> set (promises_meta l)" "d \<in> set (case x of Promised m \<Rightarrow> [pmd_decided_idx m] | _ \<Rightarrow> [])"
    by (auto simp: promised_decided_def)
  then obtain m where "Promised m \<in> set (promises_meta l)" "d = pmd_decided_idx m" by (cases x) auto
  then show ?thesis using Some by (auto simp: get_max_decided_idx_def in_set_conv_nth)
qed (simp add: get_max_decided_idx_def)

subsection \<open>The code\<close>

lemma no_unsynced_recovery:
  assumes "set (unsynced_log_store (sp_leader (rec_state r))) \<subseteq> {[]}"
  shows "recovery_loop r = Some r"
proof -
  have "fold (match_entry i h) us acc = acc" if "set us \<subseteq> {[]}" for i h and acc :: "'a matched" and us
    using that by (induction us arbitrary: acc) (auto simp: match_entry_def)
  then have "get_matched_unsynced_entries i h (sp_leader (rec_state r)) = Some []" for i h
    using assms by (simp add: get_matched_unsynced_entries_def)
  then have "recovery_step r = Some None" by (simp add: recovery_step_def Let_def)
  then show ?thesis by (subst recovery_loop.simps) simp
qed

lemma majority_eq:
  assumes env: "plain_env env" and st: "plain_store (sp_store s)" and rest: "plain_rest C (sp_leader s)"
    and pl: "unsynced_log s = []" "buffered_proposals s = []" "buffered_stopsign s = None" "sp_pid s = p"
    and sync: "case max_promise_sync (sp_leader s) of None \<Rightarrow> node_log s = xs | Some y \<Rightarrow> sync_to (node_log s) y xs"
    and t: "handle_majority_promises env s = Some t"
  obtains h st' l ps where
    "get_promised_followers l = Some ps"
    "for_each (send_accsync env) ps (s\<lparr>sp_store := st', accepted_prefix_hash := h, unsynced_log := [],
       sp_state := (LeaderRole, PhaseAccept), sp_leader := l\<rparr>) = Some t"
    "plain_store st'" "get_promise st' = node_promise s" "get_accepted_round st' = n_leader (sp_leader s)"
    "get_decided_idx st' = get_max_decided_idx (sp_leader s)" "ms_log (is_storage st') = xs" "0 < p"
    "l = (sp_leader s)\<lparr>max_promise_sync := None, accepted_indexes := (accepted_indexes (sp_leader s))[p - 1 := length xs]\<rparr>"
proof -
  let ?l = "(sp_leader s)\<lparr>max_promise_sync := None\<rparr>"
  let ?d = "get_max_decided_idx (sp_leader s)"
  have gm: "get_max_decided_idx ?l = ?d" by (simp add: get_max_decided_idx_def)
  obtain st' where st': "sync_log env (n_leader (sp_leader s)) ?d (max_promise_sync (sp_leader s)) (sp_store s) = Some (Inr (length xs, st'))"
    "plain_store st'" "get_promise st' = node_promise s" "get_accepted_round st' = n_leader (sp_leader s)"
    "get_decided_idx st' = ?d" "ms_log (is_storage st') = xs"
  proof (cases "max_promise_sync (sp_leader s)")
    case None
    then show thesis using that sync store_no_sync [OF st, of env "n_leader (sp_leader s)" ?d] by auto
  next
    case (Some y)
    then have y: "sync_to (node_log s) y xs" using sync by simp
    show thesis using that Some store_sync [OF st y, of env "n_leader (sp_leader s)" ?d] by auto
  qed
  let ?r = "\<lparr>rec_state = s\<lparr>sp_leader := ?l, sp_store := st'\<rparr>, rec_prev_hash = max_promise_accepted_hash (sp_leader s), rec_ids = [],
     rec_accepted_idx = length xs\<rparr>"
  have rl: "recovery_loop ?r = Some ?r" by (rule no_unsynced_recovery) (use rest in \<open>simp add: plain_rest_def\<close>)
  let ?u = "s\<lparr>sp_leader := ?l, sp_store := st', accepted_prefix_hash := max_promise_accepted_hash (sp_leader s), unsynced_log := []\<rparr>"
  have rp: "repropose env (?u\<lparr>sp_dom := dm\<rparr>) = Some (?u\<lparr>sp_dom := dm\<rparr>)" for dm
    using env by (simp add: repropose_def plain_env_def)
  have ab: "append_buffered k (?u\<lparr>sp_dom := dm\<rparr>) = (k, ?u\<lparr>sp_dom := dm\<rparr>)" for k dm
    using pl plain_store_sel(1) [OF st'(2)] by (simp add: append_buffered_def accepted_reconfiguration_def)
  have us: "unsynced_log s = []" by (rule pl(1))
  obtain l ps where l: "ls_set_accepted_idx p (length xs) ?l = Some l" and ps: "get_promised_followers l = Some ps"
    and fe: "for_each (send_accsync env) ps ((?u\<lparr>sp_dom := sp_dom s, sp_state := (LeaderRole, PhaseAccept)\<rparr>)\<lparr>sp_leader := l\<rparr>) = Some t"
    using t pl(1,4) rp [of "sp_dom s"] ab [of "length xs" "sp_dom s"] unfolding handle_majority_promises_def take_max_promise_sync_def Let_def
    by (auto simp: gm st'(1) expect_def rl)
  have "l = (sp_leader s)\<lparr>max_promise_sync := None, accepted_indexes := (accepted_indexes (sp_leader s))[p - 1 := length xs]\<rparr>" "0 < p"
    using ls_set_accepted_idx_same [OF l] by simp_all
  then show thesis using that [OF ps _ st'(2-6), of "max_promise_accepted_hash (sp_leader s)"] fe by simp
qed

subsection \<open>The step of the consensus\<close>

definition promised_set :: "('e, 's) leader_state \<Rightarrow> node_id set" where
  "promised_set l = {q. 0 < q \<and> q - 1 < length (promises_meta l) \<and> is_promised (promises_meta l ! (q - 1))}"

lemma promised_set_card: "card (promised_set l) = length (filter is_promised (promises_meta l))"
proof -
  let ?I = "{i. i < length (promises_meta l) \<and> is_promised (promises_meta l ! i)}"
  have "promised_set l = Suc ` ?I" by (auto simp: promised_set_def gr0_conv_Suc)
  then show ?thesis by (simp add: card_image length_filter_conv_card)
qed

definition prepared :: "cluster_config \<Rightarrow> 'e consensus \<Rightarrow> ('e, 's) sequence_paxos \<Rightarrow> bool" where
  "prepared C g s \<longleftrightarrow> cs_inv (cpair C) g \<and> leads C g (ballot_pid (node_promise s)) (node_promise s) \<and>
     cs_log g (node_promise s) = None \<and> max_ok C g s \<and>
     (\<forall>q \<in> promised_set (sp_leader s). \<exists>m. promises_meta (sp_leader s) ! (q - 1) = Promised m \<and> q \<in> set (nodes C) \<and>
        promise_ok C g (node_promise s) q (pmd_n_accepted m) (pmd_accepted_idx m) (pmd_decided_idx m))"

lemma prepare_prepared:
  assumes "prepare_ok C g pos s" "cs_inv (cpair C) g" "leads C g p (node_promise s)"
  shows "prepared C g s"
proof -
  have "ballot_pid (node_promise s) = p" using assms(3) by (simp add: leads_def)
  moreover have "\<exists>m. promises_meta (sp_leader s) ! (q - 1) = Promised m \<and> q \<in> set (nodes C) \<and>
        promise_ok C g (node_promise s) q (pmd_n_accepted m) (pmd_accepted_idx m) (pmd_decided_idx m)"
    if "q \<in> promised_set (sp_leader s)" for q
  proof -
    have q: "0 < q" "q - 1 < length (promises_meta (sp_leader s))" "is_promised (promises_meta (sp_leader s) ! (q - 1))"
      using that by (simp_all add: promised_set_def)
    then obtain m where "promises_meta (sp_leader s) ! (q - 1) = Promised m"
      by (cases "promises_meta (sp_leader s) ! (q - 1)") (auto simp: is_promised_def)
    then show ?thesis using assms(1) q(1,2) unfolding prepare_ok_def Let_def by fastforce
  qed
  ultimately show ?thesis using assms unfolding prepared_def prepare_ok_def Let_def by blast
qed

text \<open>The maximum of the promises, and every collected promise below it.\<close>

lemma prepared_max:
  assumes "prepared C g s"
  defines "mm \<equiv> max_promise_meta (sp_leader s)"
  shows "known C (pmd_n_accepted mm)" "pmd_n_accepted mm < node_promise s"
    "pmd_accepted_idx mm \<le> length (cs_plog g (pmd_n_accepted mm))"
    "pmd_n_accepted mm = default_ballot \<and> pmd_accepted_idx mm = 0 \<or>
      (\<exists>q. cs_acc g q (pmd_n_accepted mm) = Some (pmd_accepted_idx mm))"
proof -
  let ?b = "node_promise s" and ?r = "pmd_n_accepted mm" and ?k = "pmd_accepted_idx mm"
  have inv: "cs_inv (cpair C) g" and l: "known C ?b" "default_ballot < ?b" and no: "cs_log g ?b = None" and m: "max_ok C g s"
    using assms(1) by (simp_all add: prepared_def leads_def)
  have noacc: "cs_acc g q ?b = None" for q using cs_invD(3) [OF inv, of q ?b] no by (cases "cs_acc g q ?b") auto
  show kr: "known C ?r" using m by (simp add: max_ok_def mm_def Let_def)
  have "?r = default_ballot \<and> ?k = 0 \<or> (\<exists>q \<in> set (nodes C). \<exists>d. promise_ok C g ?b q ?r ?k d)"
    using m unfolding max_ok_def mm_def Let_def by blast
  then have "?r < ?b \<and> ?k \<le> length (cs_plog g ?r) \<and>
    (?r = default_ballot \<and> ?k = 0 \<or> (\<exists>q. cs_acc g q ?r = Some ?k))"
  proof (elim disjE bexE exE)
    fix q d assume p: "promise_ok C g ?b q ?r ?k d"
    have "?r \<noteq> ?b" using p noacc unfolding promise_ok_def by auto
    moreover have "?r \<le> ?b" using p by (simp add: promise_ok_def)
    ultimately have "?r < ?b" using known_less kr l(1) by blast
    moreover have "case cs_acc g q ?r of None \<Rightarrow> ?r = default_ballot \<and> ?k = 0 | Some j \<Rightarrow> j = ?k"
      using p \<open>?r \<noteq> ?b\<close> by (simp add: promise_ok_def)
    ultimately show ?thesis using promise_len [OF inv p] by (auto split: option.splits)
  qed (use l in simp)
  then show "?r < ?b" "?k \<le> length (cs_plog g ?r)" "?r = default_ballot \<and> ?k = 0 \<or> (\<exists>q. cs_acc g q ?r = Some ?k)"
    by blast+
qed

lemma prepared_below:
  assumes p: "prepared C g s" and q: "q \<in> promised_set (sp_leader s)" and b': "b' < node_promise s" "cs_acc g q b' = Some j"
  defines "mm \<equiv> max_promise_meta (sp_leader s)"
  shows "b' < pmd_n_accepted mm \<or> b' = pmd_n_accepted mm \<and> j \<le> pmd_accepted_idx mm" "pmd_n_accepted mm \<noteq> default_ballot"
proof -
  let ?b = "node_promise s" and ?r = "pmd_n_accepted mm" and ?k = "pmd_accepted_idx mm"
  have inv: "cs_inv (cpair C) g" and l: "known C ?b" and no: "cs_log g ?b = None" and m: "max_ok C g s"
    using p by (simp_all add: prepared_def leads_def)
  obtain x where x: "promises_meta (sp_leader s) ! (q - 1) = Promised x"
    "promise_ok C g ?b q (pmd_n_accepted x) (pmd_accepted_idx x) (pmd_decided_idx x)"
    using p q unfolding prepared_def by blast
  let ?n = "pmd_n_accepted x"
  have nb: "?n \<noteq> ?b"
  proof
    assume "?n = ?b"
    then obtain i where "cs_acc g q ?b = Some i" using x(2) unfolding promise_ok_def by auto
    then show False using cs_invD(3) [OF inv] no by fastforce
  qed
  have kn: "known C ?n" and top: "\<forall>b'. b' < ?b \<longrightarrow> cs_acc g q b' \<noteq> None \<longrightarrow> b' \<le> ?n"
    and acc: "case cs_acc g q ?n of None \<Rightarrow> ?n = default_ballot \<and> pmd_accepted_idx x = 0 | Some j \<Rightarrow> j = pmd_accepted_idx x"
    using x(2) nb by (simp_all add: promise_ok_def)
  have kr: "known C ?r" using prepared_max(1) [OF p] by (simp add: mm_def)
  have "Promised x \<in> set (promises_meta (sp_leader s))"
    using x(1) q by (auto simp: promised_set_def in_set_conv_nth)
  then have "promise_cmp x mm \<noteq> Greater" using m by (simp add: max_ok_def max_promise_inv_def mm_def Let_def)
  then have nr: "\<not> ?r < ?n" "?n = ?r \<Longrightarrow> pmd_accepted_idx x \<le> ?k" by (auto simp: promise_cmp_Greater)
  have bn: "b' \<le> ?n" using top b' by simp
  obtain L where L: "cs_log g b' = Some L" using cs_invD(3) [OF inv b'(2)] by blast
  have d: "default_ballot < b'" "ballot_config_id b' = configuration_id C"
    using cs_invD(7,5) [OF inv L] by (simp_all add: cpair_def)
  have nd: "default_ballot < ?n" using d(1) bn by (rule less_le_trans)
  have rn: "?n < ?r \<or> ?n = ?r" using known_cases [OF kn kr] nr(1) by blast
  have rd: "default_ballot < ?r" using nd rn less_trans by metis
  then show "?r \<noteq> default_ballot" by auto
  have cr: "ballot_config_id ?r = ballot_config_id b'" using kr rd d(2) by (auto simp: known_def)
  have cn: "ballot_config_id ?n = ballot_config_id b'" using kn nd d(2) by (auto simp: known_def)
  show "b' < ?r \<or> b' = ?r \<and> j \<le> ?k"
  proof (cases "?n < ?r")
    case True
    then show ?thesis using bn le_less_trans by metis
  next
    case False
    then have "?n = ?r" using rn by blast
    show ?thesis
    proof (cases "b' < ?r")
      case False
      then have "b' = ?r" using bn \<open>?n = ?r\<close> ballots_ordered [OF cr] by (metis less_le_not_le)
      then have "cs_acc g q ?n = Some j" using b'(2) \<open>?n = ?r\<close> by simp
      then show ?thesis using acc nr(2) \<open>?n = ?r\<close> \<open>b' = ?r\<close> by simp
    qed simp
  qed
qed

lemma prepared_highest:
  assumes p: "prepared C g s"
  defines "mm \<equiv> max_promise_meta (sp_leader s)"
  shows "cs_highest g (promised_set (sp_leader s)) (node_promise s) (take (pmd_accepted_idx mm) (cs_plog g (pmd_n_accepted mm)))"
proof (cases "pmd_n_accepted mm = default_ballot \<and> pmd_accepted_idx mm = 0")
  case True
  have "cs_acc g q b' = None" if "q \<in> promised_set (sp_leader s)" "b' < node_promise s" for q b'
    using prepared_below(2) [OF p that] True unfolding mm_def by (cases "cs_acc g q b'") auto
  then show ?thesis using True by (simp add: cs_highest_def)
next
  case False
  then obtain q where q: "cs_acc g q (pmd_n_accepted mm) = Some (pmd_accepted_idx mm)"
    using prepared_max(4) [OF p] unfolding mm_def by blast
  have "\<forall>q \<in> promised_set (sp_leader s). \<forall>b' < node_promise s. \<forall>j. cs_acc g q b' = Some j \<longrightarrow>
      b' < pmd_n_accepted mm \<or> b' = pmd_n_accepted mm \<and> j \<le> pmd_accepted_idx mm"
    using prepared_below(1) [OF p] unfolding mm_def by blast
  moreover have "pmd_n_accepted mm < node_promise s" using prepared_max(2) [OF p] by (simp add: mm_def)
  ultimately show ?thesis using q unfolding cs_highest_def by blast
qed

definition started_step :: "'e consensus \<Rightarrow> node_id \<Rightarrow> ballot \<Rightarrow> 'e list \<Rightarrow> 'e consensus" where
  "started_step g p b xs =
     accepted_step (g\<lparr>cs_log := (cs_log g)(b \<mapsto> xs), cs_base := (cs_base g)(b := length xs)\<rparr>) p b (length xs)"

lemma started_step_sel [simp]:
  "cs_prom (started_step g p b xs) = (cs_prom g)(p := b)"
  "cs_acc (started_step g p b xs) = (cs_acc g)(p := (cs_acc g p)(b \<mapsto> length xs))"
  "cs_log (started_step g p b xs) = (cs_log g)(b \<mapsto> xs)" "cs_base (started_step g p b xs) = (cs_base g)(b := length xs)"
  by (simp_all add: started_step_def)

lemma started_plog [simp]: "cs_plog (started_step g p b xs) b' = (if b' = b then xs else cs_plog g b')"
  by (simp add: cs_plog_def)

lemma started_steps:
  assumes p: "prepared C g s" and xs: "cs_highest g (promised_set (sp_leader s)) (node_promise s) xs"
    and q: "prepare_set (cpair C) (promised_set (sp_leader s))" and o: "cs_prom g r \<le> node_promise s"
  shows "(cs_step (cpair C))\<^sup>*\<^sup>* g (started_step g r (node_promise s) xs)"
proof -
  let ?b = "node_promise s"
  let ?h = "g\<lparr>cs_log := (cs_log g)(?b \<mapsto> xs), cs_base := (cs_base g)(?b := length xs)\<rparr>"
  have inv: "cs_inv (cpair C) g" and l: "known C ?b" "default_ballot < ?b" "?b \<le> cs_prom g (ballot_pid ?b)"
    and no: "cs_log g ?b = None" using p by (simp_all add: prepared_def leads_def)
  have "\<forall>q \<in> promised_set (sp_leader s). ?b \<le> cs_prom g q" using p unfolding prepared_def promise_ok_def by blast
  moreover have "ballot_config_id ?b = configuration_id (fst (cpair C))" using l by (auto simp: known_def cpair_def)
  ultimately have "cs_step (cpair C) g ?h" using cs_start [OF no l(2,3) _ q _ xs] by blast
  moreover have "cs_step (cpair C) ?h (accepted_step ?h r ?b (length xs))"
    unfolding accepted_step_def
  proof (rule cs_accept)
    show "cs_log ?h ?b = Some xs" by simp
    show "\<forall>j. cs_acc ?h r ?b = Some j \<longrightarrow> j \<le> length xs" using cs_invD(3) [OF inv, of r ?b] no by auto
  qed (use o in simp_all)
  ultimately show ?thesis unfolding started_step_def by (meson converse_rtranclp_into_rtranclp r_into_rtranclp)
qed

text \<open>Whatever the promises say is decided is in the log the ballot starts from.\<close>

lemma prepared_decided:
  assumes p: "prepared C g s" and inv': "cs_inv (cpair C) g'" and le: "cs_le g g'"
    and L: "cs_log g' (node_promise s) = Some xs" "cs_base g' (node_promise s) = length xs"
  shows "get_max_decided_idx (sp_leader s) \<le> length xs"
    "cs_committed (cpair C) g' (node_promise s) (take (get_max_decided_idx (sp_leader s)) xs)"
proof -
  let ?b = "node_promise s" and ?d = "get_max_decided_idx (sp_leader s)"
  have inv: "cs_inv (cpair C) g" and l: "known C ?b" and no: "cs_log g ?b = None" using p by (simp_all add: prepared_def leads_def)
  have "?d \<le> length xs \<and> cs_committed (cpair C) g' ?b (take ?d xs)"
  proof (cases "?d = 0")
    case True
    then show ?thesis by (simp add: cs_committed_def)
  next
    case False
    then obtain i m where i: "i < length (promises_meta (sp_leader s))" "promises_meta (sp_leader s) ! i = Promised m" "?d = pmd_decided_idx m"
      using max_decided_cases [of "sp_leader s"] by auto
    have "Suc i \<in> promised_set (sp_leader s)" using i by (simp add: promised_set_def is_promised_def)
    then have pm: "promise_ok C g ?b (Suc i) (pmd_n_accepted m) (pmd_accepted_idx m) (pmd_decided_idx m)"
      using p i(2) unfolding prepared_def by fastforce
    let ?n = "pmd_n_accepted m"
    have nb: "?n \<noteq> ?b"
    proof
      assume "?n = ?b"
      then obtain j where "cs_acc g (Suc i) ?b = Some j" using pm unfolding promise_ok_def by auto
      then show False using cs_invD(3) [OF inv] no by fastforce
    qed
    have pm': "promise_ok C g' ?b (Suc i) ?n (pmd_accepted_idx m) ?d"
      using promise_ok_le [OF inv le pm l] i(3) by simp
    then have pp: "known C ?n" "?n \<le> ?b" "?d \<le> pmd_accepted_idx m" "cs_committed (cpair C) g' ?n (take ?d (cs_plog g' ?n))"
      by (simp_all add: promise_ok_def)
    have lt: "?n < ?b" by (rule known_less [OF pp(1) l pp(2) nb])
    have pre: "prefix (take ?d (cs_plog g' ?n)) xs" using committed_in_later_base [OF inv' pp(4) lt L(1)] L(2) by simp
    have len: "length (take ?d (cs_plog g' ?n)) = ?d" using pp(3) promise_len [OF inv' pm'] by simp
    have "?d \<le> length xs" using prefix_length_le [OF pre] len by simp
    moreover have "take ?d (cs_plog g' ?n) = take ?d xs" using pre len by (metis append_eq_conv_conj prefix_def)
    ultimately show ?thesis using cs_le_committed [OF cs_le_refl pp(4) pp(2)] by simp
  qed
  then show "?d \<le> length xs" "cs_committed (cpair C) g' ?b (take ?d xs)" by blast+
qed

lemma majority_call_ok:
  assumes env: "plain_env env" and ok: "cluster_ok C g pos c" and v: "valid_server (cpair C)" "distinct (nodes C)"
    and p: "p \<in> set (nodes C)" "q \<in> set (nodes C)"
    and m: "msg_ok C g pos (cl_nodes c) q p (Promise x)" and st: "sp_state (cl_nodes c p) = (LeaderRole, PhasePrepare)"
    and n: "prom_n x = n_leader (sp_leader (cl_nodes c p))"
    and l: "ls_set_promise x q True (sp_leader (cl_nodes c p)) = Some (True, l)"
    and t: "handle_majority_promises env ((cl_nodes c p)\<lparr>sp_leader := l\<rparr>) = Some t"
  shows "\<exists>g' pos'. call_ok C g pos c p t g' pos'"
proof -
  let ?s = "cl_nodes c p"
  let ?b = "node_promise ?s" and ?u0 = "?s\<lparr>sp_leader := l\<rparr>" and ?mm = "max_promise_meta l"
  let ?xs = "take (pmd_accepted_idx ?mm) (cs_plog g (pmd_n_accepted ?mm))"
  note ndok = cluster_okD(3) [OF ok p(1)] and inv = cluster_okD(1) [OF ok] and pos = cluster_okD(2) [OF ok]
  have role: "fst (sp_state ?s) = LeaderRole" using st by simp
  note node = node_okD [OF ndok] and ld = leader_node [OF ndok role]
  note pl = plain_nodeD [OF node(1)] and d = data_okD [OF node(2)]
  note w = promise_waits_call_ok [OF ok v(1) p m st n l]
  note same = ls_set_promise_same [OF l]
  have bp: "ballot_pid ?b = p" "known C ?b" using ld(2) by (simp_all add: leads_def)
  have prep: "prepared C g ?u0" by (rule prepare_prepared [OF w(2) inv]) (use ld(2) in simp)
  have sync: "case max_promise_sync (sp_leader ?u0) of None \<Rightarrow> node_log ?u0 = ?xs | Some y \<Rightarrow> sync_to (node_log ?u0) y ?xs"
    using prep by (simp add: prepared_def max_ok_def Let_def)
  obtain h st' l' ps where ps: "get_promised_followers l' = Some ps"
    and fe: "for_each (send_accsync env) ps (?u0\<lparr>sp_store := st', accepted_prefix_hash := h, unsynced_log := [],
       sp_state := (LeaderRole, PhaseAccept), sp_leader := l'\<rparr>) = Some t"
    and s: "plain_store st'" "get_promise st' = node_promise ?u0" "get_accepted_round st' = n_leader (sp_leader ?u0)"
    "get_decided_idx st' = get_max_decided_idx (sp_leader ?u0)" "ms_log (is_storage st') = ?xs" "0 < p"
    and l': "l' = (sp_leader ?u0)\<lparr>max_promise_sync := None, accepted_indexes := (accepted_indexes (sp_leader ?u0))[p - 1 := length ?xs]\<rparr>"
    by (rule majority_eq [OF env _ _ _ _ _ _ sync t, where C = C and p = p]) (use pl w(3) in simp_all)
  let ?u = "?u0\<lparr>sp_store := st', accepted_prefix_hash := h, unsynced_log := [], sp_state := (LeaderRole, PhaseAccept), sp_leader := l'\<rparr>"
  let ?g = "started_step g p ?b ?xs"
  have nl: "n_leader l = ?b" using same(1) ld(1) by simp
  have no: "cs_log g ?b = None" using prep by (simp add: prepared_def)
  have acc: "cs_acc g r ?b = None" for r using cs_invD(3) [OF inv, of r ?b] no by (cases "cs_acc g r ?b") auto
  note mx = prepared_max [OF prep, simplified]
  have ps': "prepare_set (cpair C) (promised_set l)"
  proof -
    have "promised_set l \<subseteq> set (nodes C)" using prep by (auto simp: prepared_def)
    moreover have "is_prepare_quorum (ls_quorum (sp_leader ?s)) (card (promised_set l))"
      using ls_set_promise_Some(7) [OF l] by (simp add: promised_set_card)
    ultimately show ?thesis
      using pl(11) by (simp add: prepare_set_def server_members_def cpair_def cluster_quorum [OF v, unfolded cpair_def] plain_rest_def)
  qed
  have steps: "(cs_step (cpair C))\<^sup>*\<^sup>* g ?g"
    using started_steps [OF prep prepared_highest [OF prep], of p] ps' d(1) by simp
  have le: "cs_le g ?g" by (rule cs_steps_le [OF steps])
  have inv': "cs_inv (cpair C) ?g" by (rule cs_steps_inv [OF steps inv v(1)])
  have a: "acts C p g ?g pos pos" unfolding acts_def using steps bp(1) by auto
  have pos': "pos_ok ?g pos"
    unfolding pos_ok_def
  proof (intro allI impI)
    fix b q n k assume n: "pos b q n = Some k"
    obtain L where L: "cs_log g b = Some L" "cs_base g b \<le> k" "k \<le> length L"
      using pos n unfolding pos_ok_def by blast
    then show "\<exists>L. cs_log ?g b = Some L \<and> cs_base ?g b \<le> k \<and> k \<le> length L" using no by auto
  qed
  have nopos: "pos ?b r k = None" for r k
    using pos no unfolding pos_ok_def by (cases "pos ?b r k") fastforce+
  have dec: "get_max_decided_idx l \<le> length ?xs" "cs_committed (cpair C) ?g ?b (take (get_max_decided_idx l) ?xs)"
    using prepared_decided [OF prep inv' le, of ?xs] by simp_all
  have lo: "known C ?b" "\<forall>b'. cs_acc g p b' \<noteq> None \<longrightarrow> b' \<le> ?b"
    using bp(2) d(4,5) order_trans by blast+
  have st4: "get_promise st' = ?b" "get_accepted_round st' = ?b" "get_decided_idx st' = get_max_decided_idx l"
    using s(2-4) nl by simp_all
  have data: "data_ok C ?g p ?u"
    using lo dec unfolding data_ok_def decided_log_def by (auto simp: st4 s(5))
  have ll: "n_leader l' = ?b" "promises_meta l' = promises_meta l" "follower_seq_nums l' = follower_seq_nums l"
    "max_promise_meta l' = ?mm" "latest_accept_meta l' = latest_accept_meta (sp_leader ?s)"
    "accepted_indexes l' = (accepted_indexes (sp_leader ?s))[p - 1 := length ?xs]" "plain_rest C l'" "own_pids l'"
    using l' same(3,7) nl w(3) own_pids_promise [OF ld(3) l] by (simp_all add: plain_rest_def own_pids_def)
  note fo = promised_followers [OF ps]
  have bl: "ballot_pid (n_leader l') = p" using ll(1) bp(1) by simp
  have nm: "no_accept_meta ps ?u" using plain_no_meta [OF pl(4), of ps] ll(5) by (simp add: no_accept_meta_def)
  have so: "sends_one new_session (accsync_msg ?u) (send_accsync env) ?u"
    by (rule accsync_sends_one [OF env]) (use s(1) ll(8) in simp_all)
  have bc: "broadcast new_session (accsync_msg ?u) ps ?u t" by (rule broadcast_loop [OF so fe fo(1) nm])
  note bs = broadcast_sel [OF bc]
  have tab: "Suc i \<in> set (nodes C) \<and> i < length (follower_seq_nums l') \<and> Suc i \<in> set ps"
    if i: "i < length (promises_meta l)" "is_promised (promises_meta l ! i)" "Suc i \<noteq> p" for i
  proof -
    have "Suc i \<in> promised_set l" using i by (simp add: promised_set_def)
    then have "Suc i \<in> set (nodes C)" using prep by (auto simp: prepared_def)
    moreover have "Suc i \<in> set ps" using fo(2) [of "Suc i"] i bl ll(2) by simp
    ultimately show ?thesis using bs(19) [of "Suc i"] by simp
  qed
  have lu: "leading C ?g pos p ps ?u"
    unfolding leading_def Let_def
  proof (intro conjI allI impI)
    show "take (pmd_accepted_idx (max_promise_meta (sp_leader ?u))) (cs_plog ?g (pmd_n_accepted (max_promise_meta (sp_leader ?u))))
      = take (pmd_accepted_idx (max_promise_meta (sp_leader ?u))) (node_log ?u)"
      using mx(2) ll(4) s(5) by auto
  qed (use tab nopos mx ll st4 s(5) in \<open>simp_all add: min_absorb1\<close>)
  let ?pos = "extend_pos pos (node_promise ?u) ps (follower_seq_nums (sp_leader t)) (length (node_log ?u))"
  have "call_ok C g pos c p t ?g ?pos"
  proof (rule lead_call_ok [OF ok p(1) a pos' inv' _ data lu])
    show "plain_node C p (taken ?u)" using pl ll(7) s(1) unfolding plain_taken by simp
    have "table_ok C ?g ?b (accepted_indexes (sp_leader ?s))"
      using ld(4) cs_leD(2) [OF le] unfolding table_ok_def by (meson order_trans)
    then show "table_ok C ?g (node_promise ?u) (accepted_indexes (sp_leader ?u))"
      using table_update [of C ?g ?b _ "length ?xs" p] p(1) st4 s(6) ll(6) by simp
    show "leads C ?g p (node_promise ?u)" using leads_le [OF le ld(2)] st4 by simp
    show "cs_acc ?g p b' = cs_acc g p b'" if "b' \<noteq> node_promise ?u" for b' using that st4 by simp
    show "broadcast new_session (accsync_msg ?u) ps ?u t" by (rule bc)
    show "n < new_session n" for n by (rule num_increases(2))
    fix r k assume r: "r \<in> set ps" "k = follower_seq_nums (sp_leader t) ! (r - 1)"
    have rr: "0 < r" "r - 1 < length (promises_meta l)" "is_promised (promises_meta l ! (r - 1))" "r \<noteq> p"
      using r(1) fo(2) [of r] bl ll(2) by simp_all
    then have "r \<in> promised_set l" by (simp add: promised_set_def)
    then obtain x where x: "promises_meta l ! (r - 1) = Promised x" "r \<in> set (nodes C)"
      "promise_ok C g ?b r (pmd_n_accepted x) (pmd_accepted_idx x) (pmd_decided_idx x)"
      using prep unfolding prepared_def by auto
    have po: "promise_of l' r = x" using x(1) ll(2) by (simp add: promise_of_def)
    have pr: "promise_ok C ?g ?b r (pmd_n_accepted x) (pmd_accepted_idx x) (pmd_decided_idx x)"
      by (rule promise_ok_le [OF inv le x(3) bp(2)])
    have dr: "data_ok C ?g r (((cl_nodes c)(p := taken t)) r)"
      using data_ok_other [OF a node_okD(2) [OF cluster_okD(3) [OF ok x(2)]] rr(4)] rr(4) by simp
    have pk: "?pos (node_promise ?u) r k = Some (length (node_log ?u))" using r by (simp add: extend_pos_def)
    show "msg_ok C ?g ?pos ((cl_nodes c)(p := taken t)) p r (accsync_msg ?u r k) \<and>
      msg_pos ?pos r (accsync_msg ?u r k) = Some (node_promise ?u, length (node_log ?u))"
      by (rule accsync_msg_ok [where \<sigma> = "(cl_nodes c)(p := taken t)" and pos = ?pos and q = r and n = k, OF inv' data lu _ _ rr(4) _ dr pk]) (use ll(1) st4 leads_le [OF le ld(2)] pr po in simp_all)
  qed (use st pl ll st4 in simp_all)
  then show ?thesis by blast
qed

lemma promise_call_ok:
  assumes env: "plain_env env" and ok: "cluster_ok C g pos c" and v: "valid_server (cpair C)" "distinct (nodes C)"
    and p: "p \<in> set (nodes C)" "q \<in> set (nodes C)"
    and m: "msg_ok C g pos (cl_nodes c) q p (Promise x)" and st: "sp_state (cl_nodes c p) = (LeaderRole, PhasePrepare)"
    and t: "handle_promise_prepare env x q (cl_nodes c p) = Some t"
  shows "\<exists>g' pos'. call_ok C g pos c p t g' pos'"
proof (cases "prom_n x = n_leader (sp_leader (cl_nodes c p))")
  case False
  then have "t = cl_nodes c p" using t by (simp add: handle_promise_prepare_def)
  then show ?thesis using idle_call_ok [OF ok p(1)] by blast
next
  case True
  then obtain r l where l: "ls_set_promise x q True (sp_leader (cl_nodes c p)) = Some (r, l)"
    and t: "(if r then handle_majority_promises env ((cl_nodes c p)\<lparr>sp_leader := l\<rparr>) else Some ((cl_nodes c p)\<lparr>sp_leader := l\<rparr>)) = Some t"
    using t by (auto simp: handle_promise_prepare_def Let_def)
  show ?thesis
  proof (cases r)
    case r: True
    show ?thesis by (rule majority_call_ok [OF env ok v p m st True]) (use l t r in simp_all)
  next
    case False
    then show ?thesis using promise_waits_call_ok(1) [OF ok v(1) p m st True l] t by auto
  qed
qed

end
