(* ===== verification/Cluster_Safety.thy ===== *)
theory Cluster_Safety
  imports Cluster_Starting
begin

text \<open>
  The cluster refines the message-free consensus: every step of the cluster is a sequence of
  steps of the consensus, and the relation between the two is kept.
\<close>

subsection \<open>Delivery\<close>

lemma deliver_call_ok:
  assumes env: "plain_env env" and ok: "cluster_ok C g pos c" and v: "valid_server (cpair C)" "distinct (nodes C)"
    and p: "p \<in> set (nodes C)" "q \<in> set (nodes C)"
    and m: "msg_ok C g pos (cl_nodes c) q p m" and head: "head_ok g pos c q p m"
    and t: "sp_handle env \<lparr>pm_from = q, pm_to = r, pm_msg = m\<rparr> (cl_nodes c p) = Some t"
  shows "\<exists>g' pos'. call_ok C g pos c p t g' pos'"
proof -
  let ?s = "cl_nodes c p"
  note pl = plain_nodeD [OF node_okD(1) [OF cluster_okD(3) [OF ok p(1)]]]
  show ?thesis
  proof (cases m)
    case (PrepareReq x)
    then show ?thesis using preparereq_call_ok [OF ok p(1), of q x t] t m by (auto simp: sp_handle_def)
  next
    case (Prepare x)
    show ?thesis by (rule prepare_call_ok [OF env ok v(1) p]) (use m t Prepare in \<open>simp_all add: sp_handle_def\<close>)
  next
    case (Promise x)
    consider "sp_state ?s = (LeaderRole, PhasePrepare)" | "sp_state ?s = (LeaderRole, PhaseAccept)"
      | "sp_state ?s \<noteq> (LeaderRole, PhasePrepare)" "sp_state ?s \<noteq> (LeaderRole, PhaseAccept)" by blast
    then show ?thesis
    proof cases
      case 1
      show ?thesis by (rule promise_call_ok [OF env ok v p _ 1]) (use m t Promise 1 in \<open>simp_all add: sp_handle_def\<close>)
    next
      case 2
      show ?thesis by (rule promise_accept_call_ok [OF env ok v(1) p _ 2]) (use m t Promise 2 in \<open>simp_all add: sp_handle_def\<close>)
    next
      case 3
      then have "t = ?s" using t Promise by (simp add: sp_handle_def)
      then show ?thesis using idle_call_ok [OF ok p(1)] by blast
    qed
  next
    case (AcceptSync x)
    show ?thesis
      by (rule acceptsync_call_ok [OF ok v(1) p]) (use m head t AcceptSync in \<open>simp_all add: sp_handle_def\<close>)
  next
    case (AcceptDecide x)
    show ?thesis
      by (rule acceptdecide_call_ok [OF env ok v(1) p]) (use m head t AcceptDecide in \<open>simp_all add: sp_handle_def del: msg_ok.simps\<close>)
  next
    case (Decide x)
    show ?thesis
      by (rule decide_call_ok [OF ok v(1) p]) (use m head t Decide in \<open>simp_all add: sp_handle_def del: msg_ok.simps\<close>)
  next
    case (Accepted x)
    show ?thesis
      by (rule accepted_call_ok [OF ok v p]) (use m t Accepted in \<open>simp_all add: sp_handle_def\<close>)
  next
    case (NotAccepted x)
    then show ?thesis using notaccepted_call_ok [OF ok p(1), of x q t] t by (auto simp: sp_handle_def)
  next
    case (DomPropose x)
    then have h: "sp_handle_dom_propose x ?s = Some t" using t by (simp add: sp_handle_def)
    have "quiet ?s t" by (rule quiet_frame [OF sp_handle_dom_propose_frame [OF h]])
    then show ?thesis
      using quiet_harmless [OF ok p(1)] sp_handle_dom_propose_harmless [OF h] pl(1,9) by simp blast
  next
    case (DomAck x)
    then have "t = sp_handle_dom_ack x ?s" using t by (simp add: sp_handle_def)
    then have "quiet ?s t" "outgoing t = []" using pl(9) by (simp_all add: sp_handle_dom_ack_def quiet_def backs_off_def Let_def)
    then show ?thesis using quiet_harmless [OF ok p(1), of t] by auto
  qed (use m in simp_all)
qed

lemma head_of_link:
  assumes ok: "cluster_ok C g pos c" and p: "p \<in> set (nodes C)" "q \<in> set (nodes C)" and l: "cl_links c p q = m # ms"
  shows "cluster_ok C g pos (set_link p q ms c)" "msg_ok C g pos (cl_nodes (set_link p q ms c)) p q m"
    "head_ok g pos (set_link p q ms c) p q m"
proof -
  show "cluster_ok C g pos (set_link p q ms c)" using lose_ok [OF ok, of p q "[]" m ms] l by simp
  show "msg_ok C g pos (cl_nodes (set_link p q ms c)) p q m"
    using cluster_okD(6) [OF ok p, of m] l by (simp add: set_link_def)
  have "link_ok g pos q (m # ms)" using cluster_okD(5) [OF ok p] l by simp
  then show "head_ok g pos (set_link p q ms c) p q m" by (simp add: link_ok_def head_ok_def set_link_def)
qed

subsection \<open>Starting and restarting a node\<close>

lemma store_restart:
  assumes "ms_trimmed_idx st = 0" "ms_compacted_idx st = 0" "ms_stopsign st = None"
  defines "b \<equiv> (case ms_n_prom st of Some b \<Rightarrow> b | None \<Rightarrow> default_ballot)"
  shows "plain_store (set_promise b (internal_storage_with st 1))"
    "get_promise (set_promise b (internal_storage_with st 1)) = b"
    "get_accepted_round (set_promise b (internal_storage_with st 1)) = (case ms_acc_round st of None \<Rightarrow> default_ballot | Some r \<Rightarrow> r)"
    "get_decided_idx (set_promise b (internal_storage_with st 1)) = ms_ld st"
    "ms_log (is_storage (set_promise b (internal_storage_with st 1))) = ms_log st"
  using assms(1-3)
  by (simp_all add: b_def set_promise_def ms_set_promise_def internal_storage_with_def load_cache_def sc_new_def
      plain_store_defs ms_get_log_len_def)

lemma peers_length: "distinct (nodes C) \<Longrightarrow> p \<in> set (nodes C) \<Longrightarrow> length (peers_of C p) + 1 = length (nodes C)"
proof -
  assume d: "distinct (nodes C)" "p \<in> set (nodes C)"
  have "set (peers_of C p) = set (nodes C) - {p}" "distinct (peers_of C p)" using d(1) by (auto simp: peers_of_def)
  then have "length (peers_of C p) = card (set (nodes C) - {p})" by (metis distinct_card)
  then show ?thesis using d distinct_card [OF d(1)] by (simp add: card_Diff_singleton) (metis Suc_pred card_gt_0_iff empty_iff finite_set)
qed

lemma started_node:
  assumes cfg: "plain_config C p cfg" and d: "distinct (nodes C)" "p \<in> set (nodes C)"
    and st: "ms_trimmed_idx st = 0" "ms_compacted_idx st = 0" "ms_stopsign st = None"
    and t: "sequence_paxos_with cfg st clock = Some t"
  shows "plain_node C p (taken t)" "fst (sp_state t) = FollowerRole" "snd (sp_state t) \<noteq> PhaseAccept"
    "cached_promise_message t = None"
    "sp_store t = set_promise (case ms_n_prom st of Some b \<Rightarrow> b | None \<Rightarrow> default_ballot) (internal_storage_with st 1)"
    "\<forall>m \<in> set (outgoing t). harmless p m" "ms_n_prom st = None \<Longrightarrow> t = taken t"
proof -
  have c: "spc_pid cfg = p" "spc_peers cfg = peers_of C p" "spc_batch_size cfg = 1" "\<not> spc_enable_fast_path cfg"
    "spc_flexible_quorum cfg = flexible_quorum C" using cfg by (simp_all add: plain_config_def)
  let ?b = "case ms_n_prom st of Some b \<Rightarrow> b | None \<Rightarrow> default_ballot"
  note sr = store_restart [OF st]
  obtain mx where t': "t = \<lparr>sp_dom = dom_new (spc_owd_config cfg) clock p,
           sp_store = set_promise ?b (internal_storage_with st 1),
           sp_pid = p, sp_peers = peers_of C p,
           sp_state = (FollowerRole, if ms_n_prom st = None then PhaseNone else PhaseRecover), buffered_proposals = [],
           buffered_stopsign = None,
           outgoing = (case ms_n_prom st of None \<Rightarrow> [] | Some b \<Rightarrow>
             map (\<lambda>r. SequencePaxos \<lparr>pm_from = p, pm_to = r, pm_msg = PrepareReq \<lparr>pr_n = b\<rparr>\<rparr>) (peers_of C p)),
           sp_leader = leader_state_with ?b mx (quorum_with (flexible_quorum C) (length (peers_of C p) + 1)),
           latest_accepted_meta = None, current_seq_num = default_seq_num,
           cached_promise_message = None, unsynced_log = [],
           accepted_prefix_hash = default_hash, unsynced_hash = default_hash,
           enable_fast_path = False,
           fast_path_decisions = 0, slow_path_decisions = 0\<rparr>"
    using t c by (cases "ms_n_prom st") (auto simp: sequence_paxos_with_def Let_def)
  show "fst (sp_state t) = FollowerRole" "snd (sp_state t) \<noteq> PhaseAccept" "cached_promise_message t = None"
    "sp_store t = set_promise ?b (internal_storage_with st 1)"
    by (simp_all add: t')
  have q: "quorum_with (flexible_quorum C) (length (peers_of C p) + 1) = quorum_with (flexible_quorum C) (length (nodes C))"
    using peers_length [OF d] by simp
  show "plain_node C p (taken t)"
    unfolding plain_taken using sr(1) q by (auto simp: t' plain_rest_def)
  show "\<forall>m \<in> set (outgoing t). harmless p m" by (auto simp: t' peers_of_def split: option.splits)
  show "t = taken t" if "ms_n_prom st = None"
    using that by (simp add: t' taken_def take_outgoing_msgs_def reset_latest_accept_meta_def leader_state_with_def)
qed

lemma restart_call_ok:
  assumes ok: "cluster_ok C g pos c" and d: "distinct (nodes C)" and p: "p \<in> set (nodes C)" and cfg: "plain_config C p cfg"
    and t: "sequence_paxos_with cfg (is_storage (sp_store (cl_nodes c p))) clock = Some t"
  shows "call_ok C g pos c p t g pos"
proof -
  let ?s = "cl_nodes c p"
  let ?st = "is_storage (sp_store ?s)"
  note node = node_okD [OF cluster_okD(3) [OF ok p]]
  note pl = plain_nodeD [OF node(1)]
  have wf: "ms_trimmed_idx ?st = 0" "ms_compacted_idx ?st = 0" "ms_stopsign ?st = None"
    "node_promise ?s = (case ms_n_prom ?st of Some b \<Rightarrow> b | None \<Rightarrow> default_ballot)"
    "node_round ?s = (case ms_acc_round ?st of None \<Rightarrow> default_ballot | Some r \<Rightarrow> r)" "node_decided ?s = ms_ld ?st"
    using pl(3) by (auto simp: plain_store_defs split: option.splits)
  note s = started_node [OF cfg d p wf(1-3) t] and sr = store_restart [OF wf(1-3)]
  have same: "node_promise t = node_promise ?s" "node_round t = node_round ?s" "node_log t = node_log ?s" "node_decided t = node_decided ?s"
    using s(5) sr wf(4-6) by simp_all
  have data: "data_ok C g p (taken t)"
    by (rule data_ok_decide [OF node(2)]) (use same data_okD(10,11) [OF node(2)] in \<open>simp_all add: decided_log_def\<close>)
  have "leader_ok C g pos p (taken t)" using s(2) by (cases "sp_state t") (simp add: leader_ok_def Let_def)
  moreover have "follower_ok C g pos p (taken t)" using s(3) by (auto simp: follower_ok_def)
  ultimately have node': "node_ok C g pos p (taken t)" using data s(1) by (simp add: node_ok_def)
  have "stays g g p ?s (taken t)" using s(2) same by (auto simp: stays_def preparing_def)
  moreover have "sends_ok C g pos ((cl_nodes c)(p := taken t)) p (outgoing t)" by (rule harmless_sends_ok [OF s(6)])
  ultimately show ?thesis
    using node' s(4) cluster_okD(2) [OF ok] unfolding call_ok_def by (simp add: acts_def raises_ok_def cached_ok_def)
qed

lemma init_ok:
  fixes c :: "('e, 's) cluster"
  assumes d: "distinct (nodes C)" and i: "cluster_init C c"
  shows "cluster_ok C cs_init (\<lambda>_ _ _. None) c"
proof -
  have node: "node_ok C cs_init (\<lambda>_ _ _. None) p (cl_nodes c p) \<and> cached_ok C cs_init (cl_nodes c) p" if p: "p \<in> set (nodes C)" for p
  proof -
    let ?s = "cl_nodes c p"
    obtain cfg clock where c: "plain_config C p cfg" "sequence_paxos_with cfg ms_default clock = Some ?s"
      using i p unfolding cluster_init_def by blast
    have wf: "ms_trimmed_idx ms_default = 0" "ms_compacted_idx ms_default = 0" "ms_stopsign ms_default = None"
      by (simp_all add: ms_default_def)
    note s = started_node [OF c(1) d p wf c(2)] and sr = store_restart [OF wf]
    have tk: "plain_node C p ?s" using s(1,7) by (simp add: ms_default_def)
    have same: "node_promise ?s = default_ballot" "node_round ?s = default_ballot" "node_log ?s = []" "node_decided ?s = 0"
      unfolding s(5) sr by (simp_all add: ms_default_def)
    have "data_ok C cs_init p ?s"
      unfolding data_ok_def by (simp add: same cs_init_def known_def cs_committed_def decided_log_def)
    moreover have "leader_ok C cs_init (\<lambda>_ _ _. None) p ?s" using s(2) by (cases "sp_state ?s") (simp add: leader_ok_def Let_def)
    moreover have "follower_ok C cs_init (\<lambda>_ _ _. None) p ?s" using s(3) by (auto simp: follower_ok_def)
    ultimately show ?thesis using tk s(4) by (simp add: node_ok_def cached_ok_def)
  qed
  moreover have "pos_ok (cs_init :: 'e consensus) (\<lambda>_ _ _. None)" by (simp add: pos_ok_def)
  moreover have "cl_links c p q = []" for p q using i by (simp add: cluster_init_def)
  ultimately show ?thesis using cs_inv_init by (simp add: cluster_ok_def link_ok_def)
qed

subsection \<open>Simulation\<close>

lemma call_simulated:
  assumes "cluster_ok C g pos c" "p \<in> set (nodes C)" "valid_server (cpair C)" "\<exists>g' pos'. call_ok C g pos c p s g' pos'"
  shows "\<exists>g' pos'. (cs_step (cpair C))\<^sup>*\<^sup>* g g' \<and> cluster_ok C g' pos' (post p s c)"
  using post_call_ok [OF assms(1-3)] assms(4) unfolding call_ok_def acts_def by blast

lemma cluster_step_simulated:
  assumes env: "plain_env env" and v: "valid_server (cpair C)" "distinct (nodes C)"
    and ok: "cluster_ok C g pos c" and step: "cluster_step env C c c'"
  shows "\<exists>g' pos'. (cs_step (cpair C))\<^sup>*\<^sup>* g g' \<and> cluster_ok C g' pos' c'"
  using step
proof cases
  case (cl_deliver p q m ms s)
  note h = head_of_link [OF ok cl_deliver(2,3,4)]
  have "sp_handle env \<lparr>pm_from = p, pm_to = q, pm_msg = m\<rparr> (cl_nodes (set_link p q ms c) q) = Some s"
    using cl_deliver(5) by (simp add: set_link_def)
  from deliver_call_ok [OF env h(1) v cl_deliver(3,2) h(2,3) this] show ?thesis
    unfolding cl_deliver(1) by (rule call_simulated [OF h(1) cl_deliver(3) v(1)])
next
  case (cl_lose p q ms m ms')
  then show ?thesis using lose_ok [OF ok] by blast
next
  case (cl_elect p b s)
  show ?thesis unfolding cl_elect(1)
    by (rule call_simulated [OF ok cl_elect(2) v(1) elect_call_ok [OF ok v(1) cl_elect(2-5)]])
next
  case (cl_propose p e i r s)
  have "outgoing (cl_nodes c p) = []" "sp_pid (cl_nodes c p) = p"
    using plain_nodeD(1,9) [OF node_okD(1) [OF cluster_okD(3) [OF ok cl_propose(2)]]] by simp_all
  then have "call_ok C g pos c p s g pos"
    using quiet_harmless [OF ok cl_propose(2)] append_with_id_quiet [OF cl_propose(3)] by simp
  then show ?thesis unfolding cl_propose(1) using call_simulated [OF ok cl_propose(2) v(1)] by blast
next
  case (cl_release p x s)
  show ?thesis unfolding cl_release(1)
    by (rule call_simulated [OF ok cl_release(2) v(1) release_call_ok [OF ok v(1) cl_release(2,3)]])
next
  case (cl_resend p s)
  then show ?thesis using call_simulated [OF ok cl_resend(2) v(1)] resend_call_ok [OF ok cl_resend(2,3)] by blast
next
  case (cl_flush p s)
  then show ?thesis using call_simulated [OF ok cl_flush(2) v(1)] flush_call_ok [OF ok cl_flush(2,3)] by blast
next
  case (cl_reconnect p q)
  have "outgoing (cl_nodes c p) = []" "sp_pid (cl_nodes c p) = p"
    using plain_nodeD(1,9) [OF node_okD(1) [OF cluster_okD(3) [OF ok cl_reconnect(2)]]] by simp_all
  then have "call_ok C g pos c p (reconnected q (cl_nodes c p)) g pos"
    using quiet_harmless [OF ok cl_reconnect(2) quiet_reconnected] reconnected_harmless by metis
  then show ?thesis unfolding cl_reconnect(1) using call_simulated [OF ok cl_reconnect(2) v(1)] by blast
next
  case (cl_restart p cfg clock s)
  then show ?thesis
    using call_simulated [OF ok cl_restart(2) v(1)] restart_call_ok [OF ok v(2) cl_restart(2-4)] by blast
qed

lemma cluster_steps_simulated:
  assumes "(cluster_step env C)\<^sup>*\<^sup>* c c'" "plain_env env" "valid_server (cpair C)" "distinct (nodes C)" "cluster_ok C g pos c"
  shows "\<exists>g' pos'. (cs_step (cpair C))\<^sup>*\<^sup>* g g' \<and> cluster_ok C g' pos' c'"
  using assms(1)
proof (induction rule: rtranclp_induct)
  case base
  show ?case using assms(5) by blast
next
  case (step d e)
  then obtain g1 pos1 where d: "(cs_step (cpair C))\<^sup>*\<^sup>* g g1" "cluster_ok C g1 pos1 d" by blast
  obtain g2 pos2 where e: "(cs_step (cpair C))\<^sup>*\<^sup>* g1 g2" "cluster_ok C g2 pos2 e"
    using cluster_step_simulated [OF assms(2-4) d(2) step(2)] by blast
  then show ?case using rtranclp_trans [OF d(1) e(1)] by blast
qed

lemma cluster_pair_valid: "valid_cluster C \<Longrightarrow> valid_server (cpair C)"
proof -
  assume v: "valid_cluster C"
  then have "nodes C \<noteq> []" by (auto simp: valid_cluster_iff)
  then show "valid_server (cpair C)" using v by (simp add: valid_server_def cpair_def)
qed

subsection \<open>Agreement\<close>

text \<open>The nodes of two moments of one run, related to the consensus at the later one.\<close>

lemma two_moments:
  assumes "plain_env env" "valid_cluster C" "distinct (nodes C)" "cluster_init C c0"
    "(cluster_step env C)\<^sup>*\<^sup>* c0 c1" "(cluster_step env C)\<^sup>*\<^sup>* c1 c2"
  obtains g1 g2 where "cs_inv (cpair C) g2" "cs_le g1 g2"
    "\<And>p. p \<in> set (nodes C) \<Longrightarrow> data_ok C g1 p (cl_nodes c1 p)" "\<And>p. p \<in> set (nodes C) \<Longrightarrow> data_ok C g2 p (cl_nodes c2 p)"
proof -
  note v = cluster_pair_valid [OF assms(2)]
  obtain g1 pos1 where g1: "(cs_step (cpair C))\<^sup>*\<^sup>* cs_init g1" "cluster_ok C g1 pos1 c1"
    using cluster_steps_simulated [OF assms(5,1) v assms(3) init_ok [OF assms(3,4)]] by blast
  obtain g2 pos2 where g2: "(cs_step (cpair C))\<^sup>*\<^sup>* g1 g2" "cluster_ok C g2 pos2 c2"
    using cluster_steps_simulated [OF assms(6,1) v assms(3) g1(2)] by blast
  show thesis
    using that [OF cluster_okD(1) [OF g2(2)] cs_steps_le [OF g2(1)]] node_okD(2) cluster_okD(3) [OF g1(2)] cluster_okD(3) [OF g2(2)]
    by blast
qed

lemma decided_comparable:
  assumes "plain_env env" "valid_cluster C" "distinct (nodes C)" "cluster_init C c0"
    "(cluster_step env C)\<^sup>*\<^sup>* c0 c1" "(cluster_step env C)\<^sup>*\<^sup>* c1 c2" "p \<in> set (nodes C)" "q \<in> set (nodes C)"
  shows "prefix (decided_log (cl_nodes c1 p)) (decided_log (cl_nodes c2 q)) \<or>
    prefix (decided_log (cl_nodes c2 q)) (decided_log (cl_nodes c1 p))"
proof -
  obtain g1 g2 where g: "cs_inv (cpair C) g2" "cs_le g1 g2"
    "\<And>p. p \<in> set (nodes C) \<Longrightarrow> data_ok C g1 p (cl_nodes c1 p)" "\<And>p. p \<in> set (nodes C) \<Longrightarrow> data_ok C g2 p (cl_nodes c2 p)"
    by (rule two_moments [OF assms(1-6)]) blast
  show ?thesis
    using committed_comparable [OF g(1) cluster_pair_valid [OF assms(2)]
        cs_le_committed [OF g(2) data_okD(11) [OF g(3) [OF assms(7)]] order_refl] data_okD(11) [OF g(4) [OF assms(8)]]] .
qed

lemma same_round_logs:
  assumes "plain_env env" "valid_cluster C" "distinct (nodes C)" "cluster_init C c0"
    "(cluster_step env C)\<^sup>*\<^sup>* c0 c" "p \<in> set (nodes C)" "q \<in> set (nodes C)"
    "node_round (cl_nodes c p) = node_round (cl_nodes c q)"
  shows "prefix (node_log (cl_nodes c p)) (node_log (cl_nodes c q)) \<or> prefix (node_log (cl_nodes c q)) (node_log (cl_nodes c p))"
proof -
  obtain g1 g2 where g: "\<And>p. p \<in> set (nodes C) \<Longrightarrow> data_ok C g2 p (cl_nodes c p)"
    by (rule two_moments [OF assms(1-5) rtranclp.rtrancl_refl]) blast
  show ?thesis
    using data_okD(9) [OF g [OF assms(6)]] data_okD(9) [OF g [OF assms(7)]] assms(8) prefix_same_cases by metis
qed

lemma leader_has_decided:
  assumes "plain_env env" "valid_cluster C" "distinct (nodes C)" "cluster_init C c0"
    "(cluster_step env C)\<^sup>*\<^sup>* c0 c" "p \<in> set (nodes C)" "q \<in> set (nodes C)"
    "sp_state (cl_nodes c p) = (LeaderRole, PhaseAccept)" "node_round (cl_nodes c q) \<le> node_promise (cl_nodes c p)"
  shows "prefix (decided_log (cl_nodes c q)) (node_log (cl_nodes c p))"
proof -
  note v = cluster_pair_valid [OF assms(2)]
  obtain g pos where ok: "cluster_ok C g pos c"
    using cluster_steps_simulated [OF assms(5,1) v assms(3) init_ok [OF assms(3,4)]] by blast
  have "lead_ok C g pos p (cl_nodes c p)" using leader_node(5) [OF cluster_okD(3) [OF ok assms(6)] _ assms(8)] assms(8) by simp
  then have L: "cs_log g (node_promise (cl_nodes c p)) = Some (node_log (cl_nodes c p))" by (simp add: lead_ok_def Let_def)
  have "cs_committed (cpair C) g (node_promise (cl_nodes c p)) (decided_log (cl_nodes c q))"
    by (rule cs_le_committed [OF cs_le_refl data_okD(11) [OF node_okD(2) [OF cluster_okD(3) [OF ok assms(7)]]] assms(9)])
  then show ?thesis by (rule committed_in_log [OF cluster_okD(1) [OF ok] _ L v])
qed

end
