(* ===== verification/Cluster_Progress.thy ===== *)
theory Cluster_Progress
  imports Cluster_Safety
begin

text \<open>
  Progress: a leader with an accept quorum of followers in step decides a released proposal after
  one message to each of them and one back. No call on the way panics.
\<close>

subsection \<open>The leader's calls return\<close>

text \<open>The leader's vectors have a slot for every node, as \<^const>\<open>leader_state_with\<close> makes them.\<close>

definition slots :: "cluster_config \<Rightarrow> ('e, 's) leader_state \<Rightarrow> bool" where
  "slots C l \<longleftrightarrow> (\<forall>q \<in> set (nodes C). 0 < q \<and> q \<le> max_pid l \<and> q \<le> length (follower_seq_nums l) \<and>
     q \<le> length (latest_accept_meta l) \<and> q \<le> length (accepted_indexes l))"

lemma slotsD:
  assumes "slots C l" "q \<in> set (nodes C)"
  shows "0 < q" "q - 1 < length (follower_seq_nums l)" "q - 1 < length (latest_accept_meta l)" "q - 1 < length (accepted_indexes l)"
  using assms unfolding slots_def by fastforce+

lemma slots_cong:
  assumes "slots C l" "max_pid l' = max_pid l" "length (follower_seq_nums l') = length (follower_seq_nums l)"
    "length (latest_accept_meta l') = length (latest_accept_meta l) \<or> length (latest_accept_meta l') = max_pid l'"
    "length (accepted_indexes l') = length (accepted_indexes l)"
  shows "slots C l'"
  using assms unfolding slots_def by metis

lemma broadcast_slots:
  assumes "broadcast N M ps s t"
  shows "max_pid (sp_leader t) = max_pid (sp_leader s)"
    "length (follower_seq_nums (sp_leader t)) = length (follower_seq_nums (sp_leader s))"
    "length (latest_accept_meta (sp_leader t)) = length (latest_accept_meta (sp_leader s))"
    "accepted_indexes (sp_leader t) = accepted_indexes (sp_leader s)"
  using assms by (auto simp: broadcast_def Let_def)

text \<open>A loop that sends one message to each node returns when each iteration does.\<close>

lemma sending_loop_returns:
  assumes "sends_one N M f s" "distinct ps" "no_accept_meta ps s" "slots C (sp_leader s)" "set ps \<subseteq> set (nodes C)"
    "\<And>q u. sending s u \<Longrightarrow> no_accept_meta [q] u \<Longrightarrow> slots C (sp_leader u) \<Longrightarrow> q \<in> set (nodes C) \<Longrightarrow> \<exists>v. f q u = Some v"
  shows "\<exists>t. for_each f ps s = Some t"
  using assms
proof (induction ps arbitrary: s)
  case (Cons q ps)
  have na: "no_accept_meta [q] s" using Cons.prems(3) by (simp add: no_accept_meta_def)
  obtain u where u: "f q s = Some u"
    using Cons.prems(6) [OF sending_refl na Cons.prems(4)] Cons.prems(5) by auto
  have one: "broadcast N M [q] s u"
    using Cons.prems(1) u na sending_refl unfolding sends_one_def by blast
  note tr = sending_trans [OF broadcast_sending [OF one]]
  have "sends_one N M f u" using Cons.prems(1) tr unfolding sends_one_def by blast
  moreover have "no_accept_meta ps u"
    using one Cons.prems(2,3) by (auto simp: broadcast_def no_accept_meta_def Let_def)
  moreover have "slots C (sp_leader u)"
    by (rule slots_cong [OF Cons.prems(4)]) (use broadcast_slots [OF one] in simp_all)
  moreover have "distinct ps" "set ps \<subseteq> set (nodes C)" using Cons.prems(2,5) by simp_all
  ultimately have "\<exists>t. for_each f ps u = Some t" using Cons.IH Cons.prems(6) tr by meson
  then show ?case using u by simp
qed simp

lemma no_accdec_None:
  assumes "no_accept_meta [q] u" "slots C (sp_leader u)" "q \<in> set (nodes C)"
  shows "get_latest_accdec_message q u = Some None"
proof -
  note sl = slotsD [OF assms(2,3)]
  have "get_latest_accept_meta q (sp_leader u) = Some (latest_accept_meta (sp_leader u) ! (q - 1))"
    using sl(1,3) by (simp add: get_latest_accept_meta_def pid_to_idx_def checked_sub_def vec_get_def)
  moreover have "latest_accept_meta (sp_leader u) ! (q - 1) = None"
    using assms(1) sl(1,3) by (simp add: no_accept_meta_def)
  ultimately show ?thesis by (simp add: get_latest_accdec_message_def)
qed

lemma next_seq_num_returns:
  assumes "slots C l" "q \<in> set (nodes C)"
  shows "\<exists>n l'. next_seq_num q l = Some (n, l')"
  using slotsD [OF assms] by (simp add: next_seq_num_def pid_to_idx_def checked_sub_def vec_get_def vec_set_def Let_def)

lemma acceptdecide_to_returns:
  assumes "no_accept_meta [q] u" "slots C (sp_leader u)" "q \<in> set (nodes C)"
  shows "\<exists>v. acceptdecide_to es ms d h q u = Some v"
proof -
  note sl = slotsD [OF assms(2,3)]
  obtain l where l: "set_latest_accept_meta q (Some (length (outgoing u))) (sp_leader u) = Some l"
    "max_pid l = max_pid (sp_leader u)" "follower_seq_nums l = follower_seq_nums (sp_leader u)"
    "length (latest_accept_meta l) = length (latest_accept_meta (sp_leader u))" "accepted_indexes l = accepted_indexes (sp_leader u)"
    using sl by (simp add: set_latest_accept_meta_def pid_to_idx_def checked_sub_def vec_set_def Let_def)
  have "slots C l" by (rule slots_cong [OF assms(2)]) (use l in simp_all)
  from next_seq_num_returns [OF this assms(3)] show ?thesis
    using l(1) no_accdec_None [OF assms] by (auto simp: acceptdecide_to_def)
qed

lemma decide_accepted_to_returns:
  assumes "no_accept_meta [q] u" "slots C (sp_leader u)" "q \<in> set (nodes C)"
  shows "\<exists>v. decide_accepted_to d q u = Some v"
  using next_seq_num_returns [OF assms(2,3)] no_accdec_None [OF assms]
  by (auto simp: decide_accepted_to_def send_decide_def message_seq_num_def)

lemma promised_in_nodes:
  assumes "leading C g pos p [] s" "ballot_pid (n_leader l) = p" "promises_meta l = promises_meta (sp_leader s)"
    "get_promised_followers l = Some ps"
  shows "set ps \<subseteq> set (nodes C)"
proof
  fix q assume "q \<in> set ps"
  then have "0 < q" "q - 1 < length (promises_meta (sp_leader s))" "is_promised (promises_meta (sp_leader s) ! (q - 1))" "q \<noteq> p"
    using promised_followers(2) [OF assms(4)] assms(2,3) by auto
  then show "q \<in> set (nodes C)" using leadingD(3) [OF assms(1), of "q - 1"] by simp
qed

lemma get_promised_followers_returns: "0 < ballot_pid (n_leader l) \<Longrightarrow> \<exists>ps. get_promised_followers l = Some ps"
  by (simp add: get_promised_followers_def pid_to_idx_def checked_sub_def)

lemma release_returns:
  assumes plain: "plain_node C p s" and sl: "slots C (sp_leader s)" and p: "p \<in> set (nodes C)"
    and ld: "leading C g pos p [] s" "ballot_pid (n_leader (sp_leader s)) = p"
  shows "\<exists>t. release_on_leader env prop s = Some t"
proof -
  note pl = plain_nodeD [OF plain] and slp = slotsD [OF sl p]
  let ?e = "dp_entry prop" and ?eh = "hash_with env (dp_entry_id prop) (dp_deadline prop)"
  let ?h = "extend_hash (accepted_prefix_hash s) ?eh"
  let ?l1 = "push_pending_accept_meta \<lparr>aem_entry_id = dp_entry_id prop, aem_deadline = dp_deadline prop\<rparr> (sp_leader s)"
  let ?i = "accepted_indexes (sp_leader s) ! (p - 1)"
  let ?l2 = "set_accepted_map (?i + 1) ?eh (accepted_prefix_hash s) p False ?l1"
  let ?n = "length (node_log s) + 1"
  let ?l3 = "?l2\<lparr>accepted_indexes := (accepted_indexes ?l2)[p - 1 := ?n]\<rparr>" and ?ms = "[\<lparr>aem_entry_id = dp_entry_id prop, aem_deadline = dp_deadline prop\<rparr>]"
  let ?l = "?l3\<lparr>pending_accept_meta := []\<rparr>"
  have i: "ls_get_accepted_idx p ?l1 = Some ?i"
    using slp by (simp add: ls_get_accepted_idx_def pid_to_idx_def checked_sub_def vec_get_def push_pending_accept_meta_def)
  obtain st where st: "append_entry_with_batching ?e (sp_store s) = (Some \<lparr>amd_accepted_idx = ?n, amd_entries = [?e]\<rparr>, st)"
    "get_decided_idx st = node_decided s"
    by (rule store_append_one [OF pl(3)]) blast
  have l3: "ls_set_accepted_idx p ?n ?l2 = Some ?l3"
    using slp by (simp add: ls_set_accepted_idx_def pid_to_idx_def checked_sub_def vec_set_def set_accepted_map_def
        push_pending_accept_meta_def Let_def)
  have same: "max_pid ?l = max_pid (sp_leader s)" "follower_seq_nums ?l = follower_seq_nums (sp_leader s)"
    "latest_accept_meta ?l = latest_accept_meta (sp_leader s)" "length (accepted_indexes ?l) = length (accepted_indexes (sp_leader s))"
    "n_leader ?l = n_leader (sp_leader s)" "promises_meta ?l = promises_meta (sp_leader s)" "pending_accept_meta ?l3 = ?ms"
    using pl(11) by (simp_all add: set_accepted_map_def push_pending_accept_meta_def plain_rest_def Let_def)
  let ?u = "s\<lparr>accepted_prefix_hash := ?h, sp_store := st, sp_leader := ?l\<rparr>"
  obtain ps where ps: "get_promised_followers ?l = Some ps"
    using get_promised_followers_returns [of ?l] same(5) ld(2) slp(1) by auto
  have "\<exists>t. for_each (acceptdecide_to [?e] ?ms (node_decided s) ?h) ps ?u = Some t"
  proof (rule sending_loop_returns [OF acceptdecide_sends_one promised_followers(1) [OF ps]])
    show "no_accept_meta ps ?u" using plain_no_meta [OF pl(4), of ps] same(3) by (simp add: no_accept_meta_def)
    show "slots C (sp_leader ?u)" by (rule slots_cong [OF sl]) (use same in simp_all)
    show "set ps \<subseteq> set (nodes C)" by (rule promised_in_nodes [OF ld(1) _ same(6) ps]) (use same(5) ld(2) in simp)
  qed (rule acceptdecide_to_returns)
  then obtain t where t: "for_each (acceptdecide_to [?e] ?ms (node_decided s) ?h) ps ?u = Some t" by blast
  have "\<not> enable_fast_path t" using acceptdecide_loop_slow [OF t] pl(5) by simp
  moreover have "send_acceptdecide \<lparr>amd_accepted_idx = ?n, amd_entries = [?e]\<rparr>
      (s\<lparr>accepted_prefix_hash := ?h, sp_store := st, sp_leader := ?l3\<rparr>) = Some t"
    using same(7) ps t st(2) by (simp add: send_acceptdecide_def take_pending_accept_meta_def Let_def)
  ultimately have "release_on_leader env prop s = Some t"
    using i st(1) l3 no_fast_decisions [of t] pl(1)
    by (simp add: release_on_leader_def accept_entry_leader_def checked_sub_def Let_def del: for_each.simps)
  then show ?thesis by blast
qed

lemma accepted_returns:
  assumes plain: "plain_node C p s" and sl: "slots C (sp_leader s)" and q: "q \<in> set (nodes C)" and p: "0 < p"
    and ld: "leading C g pos p [] s" "ballot_pid (n_leader (sp_leader s)) = p"
  shows "\<exists>t. handle_accepted x q s = Some t"
proof (cases "acc_n x = n_leader (sp_leader s) \<and> sp_state s = (LeaderRole, PhaseAccept)")
  case True
  note pl = plain_nodeD [OF plain]
  let ?d = "acc_accepted_idx x"
  let ?l = "(sp_leader s)\<lparr>accepted_indexes := (accepted_indexes (sp_leader s))[q - 1 := ?d]\<rparr>"
  have l: "ls_set_accepted_idx q ?d (sp_leader s) = Some ?l"
    using slotsD [OF sl q] by (simp add: ls_set_accepted_idx_def pid_to_idx_def checked_sub_def vec_set_def)
  let ?u = "s\<lparr>slow_path_decisions := slow_path_decisions s + (?d - node_decided s),
      sp_store := set_decided_idx ?d (sp_store s), sp_leader := prune_accepted_map ?d ?l\<rparr>"
  obtain ps where ps: "get_promised_followers (prune_accepted_map ?d ?l) = Some ps"
    using get_promised_followers_returns [of "prune_accepted_map ?d ?l"] p ld(2) by (auto simp: prune_accepted_map_def)
  have "\<exists>t. for_each (decide_accepted_to ?d) ps ?u = Some t"
  proof (rule sending_loop_returns [OF decide_sends_one promised_followers(1) [OF ps]])
    show "no_accept_meta ps ?u" using plain_no_meta [OF pl(4), of ps] by (simp add: no_accept_meta_def prune_accepted_map_def)
    show "slots C (sp_leader ?u)" by (rule slots_cong [OF sl]) (simp_all add: prune_accepted_map_def)
    show "set ps \<subseteq> set (nodes C)" by (rule promised_in_nodes [OF ld(1) _ _ ps]) (use ld(2) in \<open>simp_all add: prune_accepted_map_def\<close>)
  qed (rule decide_accepted_to_returns)
  then show ?thesis using True l ps by (auto simp: handle_accepted_def Let_def)
qed (auto simp: handle_accepted_def)

lemma accepted_effect:
  assumes t: "handle_accepted x q s = Some t" and n: "acc_n x = n_leader (sp_leader s)" and st: "sp_state s = (LeaderRole, PhaseAccept)"
    and plain: "plain_node C p s"
  shows "sp_state t = sp_state s" "n_leader (sp_leader t) = n_leader (sp_leader s)" "node_log t = node_log s"
    "slots C (sp_leader s) \<Longrightarrow> slots C (sp_leader (taken t))"
proof -
  have "sp_state t = sp_state s \<and> n_leader (sp_leader t) = n_leader (sp_leader s) \<and>
    node_log t = node_log s \<and> (slots C (sp_leader s) \<longrightarrow> slots C (sp_leader (taken t)))"
    using handle_accepted_cases [OF t n st]
  proof cases
    case (1 l)
    have l: "l = (sp_leader s)\<lparr>accepted_indexes := (accepted_indexes (sp_leader s))[q - 1 := acc_accepted_idx x]\<rparr>"
      using ls_set_accepted_idx_same [OF 1(1)] by simp
    have "slots C (sp_leader (taken t))" if "slots C (sp_leader s)"
      by (rule slots_cong [OF that]) (simp_all add: 1(3) l reset_latest_accept_meta_def)
    then show ?thesis using 1(3) l by simp
  next
    case (2 l ps)
    let ?d = "acc_accepted_idx x"
    have l: "l = (sp_leader s)\<lparr>accepted_indexes := (accepted_indexes (sp_leader s))[q - 1 := ?d]\<rparr>"
      using ls_set_accepted_idx_same [OF 2(1)] by simp
    let ?u = "s\<lparr>slow_path_decisions := slow_path_decisions s + (?d - node_decided s),
      sp_store := set_decided_idx ?d (sp_store s), sp_leader := prune_accepted_map ?d l\<rparr>"
    have nm: "no_accept_meta ps ?u"
      using plain_no_meta [OF plain_nodeD(4) [OF plain], of ps] l by (simp add: no_accept_meta_def prune_accepted_map_def)
    have bc: "broadcast next_num (\<lambda>q n. Decide \<lparr>dec_n = n_leader (sp_leader ?u), dec_seq_num = n, dec_decided_idx = ?d\<rparr>) ps ?u t"
      by (rule broadcast_loop [OF decide_sends_one 2(5) promised_followers(1) [OF 2(4)] nm])
    note bs = broadcast_slots [OF bc] and ss = sending_sel [OF broadcast_sending [OF bc]]
    have "slots C (sp_leader (taken t))" if "slots C (sp_leader s)"
      by (rule slots_cong [OF that]) (use bs l in \<open>simp_all add: reset_latest_accept_meta_def prune_accepted_map_def\<close>)
    moreover have "sp_state t = sp_state s" using bc by (auto simp: broadcast_def Let_def)
    moreover have "node_log t = node_log s"
      using ss(1) store_set_decided(5) [OF plain_nodeD(3) [OF plain]] by simp
    ultimately show ?thesis using ss(2) l by (simp add: prune_accepted_map_def)
  qed
  then show "sp_state t = sp_state s" "n_leader (sp_leader t) = n_leader (sp_leader s)" "node_log t = node_log s"
    "slots C (sp_leader s) \<Longrightarrow> slots C (sp_leader (taken t))" by blast+
qed

subsection \<open>The follower's answer\<close>

lemma acceptdecide_reply:
  assumes env: "plain_env env" and plain: "plain_node C q s" and st: "sp_state s = (FollowerRole, PhaseAccept)"
    and b: "ballot_cmp (node_promise s) (ad_n x) = Equal" and sq: "check_msg_status (current_seq_num s) (ad_seq_num x) = Expected"
    and es: "length (ad_entry_meta x) = length (ad_entries x)" "ad_entries x \<noteq> []"
    and d: "ad_decided_idx x \<le> length (node_log s) + length (ad_entries x)"
  shows "\<exists>t. handle_acceptdecide env x s = Some t \<and>
    outgoing t = [SequencePaxos \<lparr>pm_from = q, pm_to = ballot_pid (ad_n x),
      pm_msg = Accepted \<lparr>acc_n = ad_n x, acc_accepted_idx = length (node_log s) + length (ad_entries x)\<rparr>\<rparr>]"
proof -
  note pl = plain_nodeD [OF plain]
  let ?b = "ad_n x" and ?es = "ad_entries x" and ?u = "s\<lparr>current_seq_num := ad_seq_num x\<rparr>"
  have v: "check_valid_ballot ?b s = (True, s)" using b by (simp add: check_valid_ballot_True sp_get_promise_def)
  have w: "handle_sequence_num (ad_seq_num x) (ballot_pid ?b) s = (Expected, ?u)" using sq by (simp add: handle_sequence_num_Expected)
  obtain dm where cl: "cleanup_fast_path_metadata env (ad_entry_meta x) ?u =
      ([], ?u\<lparr>sp_dom := dm, unsynced_log := [], unsynced_hash := default_hash\<rparr>)"
    using env pl(6) by (simp add: cleanup_fast_path_metadata_def plain_env_def Let_def)
  obtain i st where ap: "append_entries_and_get_accepted_idx ?es (sp_store s) = (i, st)" by fastforce
  note sa = store_append [OF pl(3) ap]
  let ?u2 = "?u\<lparr>sp_dom := dm, unsynced_log := [], unsynced_hash := default_hash, sp_store := st,
    accepted_prefix_hash := ad_log_prefix_hash x\<rparr>"
  obtain st' where up: "update_decided_idx_and_get_accepted_idx (ad_decided_idx x) ?u2 = (None, ?u2\<lparr>sp_store := st'\<rparr>)"
    by (rule update_decided_plain [of ?u2 "ad_decided_idx x"]) (use sa(1,5) d in simp_all)
  let ?u3 = "?u2\<lparr>sp_store := st', unsynced_hash := default_hash, unsynced_log := []\<rparr>"
  have rb: "rebuild_unsynced_tail a [] u = u\<lparr>unsynced_hash := default_hash, unsynced_log := []\<rparr>"
    for a and u :: "('a, 'b) sequence_paxos"
    by (simp add: rebuild_unsynced_tail_def)
  have "handle_acceptdecide env x s = reply_accepted ?b (length (node_log s) + length ?es) ?u3"
    using v w st es cl ap up sa(5,6) by (simp add: handle_acceptdecide_def rb)
  then show ?thesis using reply_accepted_new [of ?u3] pl(1,9,10) by (simp add: send_to_def)
qed

subsection \<open>A round trip\<close>

definition awaiting :: "node_id \<Rightarrow> node_id \<Rightarrow> ('e, 's) cluster \<Rightarrow> bool" where
  "awaiting p q c \<longleftrightarrow> (\<exists>x ms. let s = cl_nodes c p; f = cl_nodes c q in
     cl_links c p q = AcceptDecide x # ms \<and> cl_links c q p = [] \<and> sp_state f = (FollowerRole, PhaseAccept) \<and>
     ad_n x = n_leader (sp_leader s) \<and> ballot_cmp (node_promise f) (ad_n x) = Equal \<and>
     check_msg_status (current_seq_num f) (ad_seq_num x) = Expected \<and>
     length (ad_entry_meta x) = length (ad_entries x) \<and> length (ad_entries x) = 1 \<and>
     Suc (length (node_log f)) = length (node_log s) \<and> ad_decided_idx x \<le> length (node_log s))"

text \<open>A leader in the accept phase that has a slot for every node.\<close>

definition leading_cluster :: "cluster_config \<Rightarrow> node_id \<Rightarrow> ('e, 's) cluster \<Rightarrow> bool" where
  "leading_cluster C p c \<longleftrightarrow> (\<exists>g pos. cluster_ok C g pos c) \<and> p \<in> set (nodes C) \<and>
     sp_state (cl_nodes c p) = (LeaderRole, PhaseAccept) \<and> slots C (sp_leader (cl_nodes c p))"

lemma leading_clusterE:
  assumes "leading_cluster C p c"
  obtains g pos where "cluster_ok C g pos c" "plain_node C p (cl_nodes c p)" "leading C g pos p [] (cl_nodes c p)"
    "n_leader (sp_leader (cl_nodes c p)) = node_promise (cl_nodes c p)" "ballot_pid (node_promise (cl_nodes c p)) = p"
    "node_decided (cl_nodes c p) \<le> length (node_log (cl_nodes c p))"
proof -
  obtain g pos where ok: "cluster_ok C g pos c" and p: "p \<in> set (nodes C)" and st: "sp_state (cl_nodes c p) = (LeaderRole, PhaseAccept)"
    using assms unfolding leading_cluster_def by blast
  note node = cluster_okD(3) [OF ok p]
  note ld = leader_node [OF node]
  show thesis
    by (rule that [OF ok node_okD(1) [OF node] lead_leading [OF ld(5)] ld(1) _ data_okD(10) [OF node_okD(2) [OF node]]])
      (use st ld(2) in \<open>simp_all add: leads_def\<close>)
qed

lemma round_trip:
  assumes env: "plain_env env" and v: "valid_server (cpair C)" "distinct (nodes C)"
    and lc: "leading_cluster C p c" and q: "q \<in> set (nodes C)" "q \<noteq> p" and aw: "awaiting p q c"
  defines "n \<equiv> length (node_log (cl_nodes c p))"
  shows "\<exists>c'. (cluster_step env C)\<^sup>*\<^sup>* c c' \<and> leading_cluster C p c' \<and> node_log (cl_nodes c' p) = node_log (cl_nodes c p) \<and>
    ls_quorum (sp_leader (cl_nodes c' p)) = ls_quorum (sp_leader (cl_nodes c p)) \<and>
    accepted_indexes (sp_leader (cl_nodes c' p)) = (accepted_indexes (sp_leader (cl_nodes c p)))[q - 1 := n] \<and>
    (is_chosen n (sp_leader (cl_nodes c' p)) \<longrightarrow> node_decided (cl_nodes c' p) = n) \<and>
    (\<forall>r. r \<noteq> p \<longrightarrow> r \<noteq> q \<longrightarrow> awaiting p r c \<longrightarrow> awaiting p r c')"
proof -
  obtain g pos where ok: "cluster_ok C g pos c" "plain_node C p (cl_nodes c p)" "leading C g pos p [] (cl_nodes c p)"
    "n_leader (sp_leader (cl_nodes c p)) = node_promise (cl_nodes c p)" "ballot_pid (node_promise (cl_nodes c p)) = p"
    "node_decided (cl_nodes c p) \<le> length (node_log (cl_nodes c p))"
    by (rule leading_clusterE [OF lc])
  have p: "p \<in> set (nodes C)" and st: "sp_state (cl_nodes c p) = (LeaderRole, PhaseAccept)" and sl: "slots C (sp_leader (cl_nodes c p))"
    using lc by (simp_all add: leading_cluster_def)
  let ?s = "cl_nodes c p" and ?f = "cl_nodes c q"
  obtain x ms where x: "cl_links c p q = AcceptDecide x # ms" "cl_links c q p = []" "sp_state ?f = (FollowerRole, PhaseAccept)"
    "ad_n x = n_leader (sp_leader ?s)" "ballot_cmp (node_promise ?f) (ad_n x) = Equal"
    "check_msg_status (current_seq_num ?f) (ad_seq_num x) = Expected"
    "length (ad_entry_meta x) = length (ad_entries x)" "length (ad_entries x) = 1"
    "Suc (length (node_log ?f)) = n" "ad_decided_idx x \<le> n"
    using aw unfolding awaiting_def Let_def n_def by blast
  have "ad_entries x \<noteq> []" "ad_decided_idx x \<le> length (node_log ?f) + length (ad_entries x)" using x(8-10) by auto
  then obtain t1 where t1: "handle_acceptdecide env x ?f = Some t1"
    "outgoing t1 = [SequencePaxos \<lparr>pm_from = q, pm_to = p, pm_msg = Accepted \<lparr>acc_n = ad_n x, acc_accepted_idx = n\<rparr>\<rparr>]"
    using acceptdecide_reply [OF env node_okD(1) [OF cluster_okD(3) [OF ok(1) q(1)]] x(3,5,6,7)] x(4,8,9) ok(4,5) by auto
  let ?y = "\<lparr>acc_n = ad_n x, acc_accepted_idx = n\<rparr>"
  let ?c1 = "post q t1 (set_link p q ms c)"
  have s1: "cluster_step env C c ?c1" by (rule cl_deliver [OF p q(1) x(1)]) (use t1(1) in \<open>simp add: sp_handle_def\<close>)
  have c1: "cl_links ?c1 q p = [Accepted ?y]" "cl_nodes ?c1 p = ?s"
    using q(2) x(2) t1(2) by (simp_all add: post_sel set_link_def msgs_to_def)
  obtain t2 where t2: "handle_accepted ?y q ?s = Some t2"
    using accepted_returns [OF ok(2) sl q(1) _ ok(3)] slotsD(1) [OF sl p] ok(4,5) by auto
  let ?c2 = "post p t2 (set_link q p [] ?c1)"
  have s2: "cluster_step env C ?c1 ?c2" by (rule cl_deliver [OF q(1) p c1(1)]) (use t2 c1(2) in \<open>simp add: sp_handle_def\<close>)
  have steps: "(cluster_step env C)\<^sup>*\<^sup>* c ?c2" using s1 s2 by (rule converse_rtranclp_into_rtranclp [OF _ r_into_rtranclp])
  have n1: "acc_n ?y = n_leader (sp_leader ?s)" using x(4) by simp
  note eff = accepted_effect [OF t2 n1 st ok(2)] and dec = handle_accepted_decides [OF t2 n1 st]
  have c2: "cl_nodes ?c2 p = taken t2" "\<And>r. r \<noteq> p \<Longrightarrow> r \<noteq> q \<Longrightarrow> cl_nodes ?c2 r = cl_nodes c r"
    "\<And>r. r \<noteq> p \<Longrightarrow> r \<noteq> q \<Longrightarrow> cl_links ?c2 r p = cl_links c r p"
    "\<And>r. r \<noteq> q \<Longrightarrow> \<exists>l. cl_links ?c2 p r = cl_links c p r @ l"
    using q(2) by (simp_all add: post_sel set_link_def)
  obtain g' pos' where ok': "cluster_ok C g' pos' ?c2" using cluster_steps_simulated [OF steps env v ok(1)] by blast
  have lc': "leading_cluster C p ?c2"
    using ok' p eff(1,4) st sl unfolding leading_cluster_def c2(1) by auto
  have log: "node_log (cl_nodes ?c2 p) = node_log ?s" using eff(3) c2(1) by simp
  have dn: "node_decided (cl_nodes ?c2 p) \<le> n"
    by (rule leading_clusterE [OF lc']) (use log in \<open>simp add: n_def\<close>)
  have "node_decided (cl_nodes ?c2 p) = n" if ch: "is_chosen n (sp_leader (cl_nodes ?c2 p))"
  proof -
    have "is_chosen n (sp_leader t2)" using ch c2(1) by (simp add: is_chosen_def reset_latest_accept_meta_def)
    then have "sp_store t2 = (if node_decided ?s < n then set_decided_idx n (sp_store ?s) else sp_store ?s)" using dec(3) by simp
    then have "n \<le> node_decided t2" using store_set_decided(4) [OF plain_nodeD(3) [OF ok(2)]] by (simp split: if_splits)
    then show ?thesis using dn c2(1) by simp
  qed
  moreover have "awaiting p r ?c2" if r: "r \<noteq> p" "r \<noteq> q" and a: "awaiting p r c" for r
  proof -
    obtain l where l: "cl_links ?c2 p r = cl_links c p r @ l" using c2(4) [OF r(2)] by blast
    have nl: "n_leader (sp_leader (cl_nodes ?c2 p)) = n_leader (sp_leader ?s)"
      using eff(2) c2(1) by (simp add: reset_latest_accept_meta_def)
    show ?thesis using a unfolding awaiting_def Let_def c2(2) [OF r] c2(3) [OF r] l log nl by auto
  qed
  moreover have "ls_quorum (sp_leader (cl_nodes ?c2 p)) = ls_quorum (sp_leader ?s)"
    "accepted_indexes (sp_leader (cl_nodes ?c2 p)) = (accepted_indexes (sp_leader ?s))[q - 1 := n]"
    using dec(1,2) c2(1) by (simp_all add: reset_latest_accept_meta_def)
  ultimately show ?thesis using steps lc' log by blast
qed

lemma round_trips:
  assumes env: "plain_env env" and v: "valid_server (cpair C)" "distinct (nodes C)"
    and "leading_cluster C p c" "set qs \<subseteq> set (nodes C) - {p}" "distinct qs" "\<And>q. q \<in> set qs \<Longrightarrow> awaiting p q c"
  defines "n \<equiv> length (node_log (cl_nodes c p))"
  shows "\<exists>c'. (cluster_step env C)\<^sup>*\<^sup>* c c' \<and> leading_cluster C p c' \<and> node_log (cl_nodes c' p) = node_log (cl_nodes c p) \<and>
    ls_quorum (sp_leader (cl_nodes c' p)) = ls_quorum (sp_leader (cl_nodes c p)) \<and>
    length (accepted_indexes (sp_leader (cl_nodes c' p))) = length (accepted_indexes (sp_leader (cl_nodes c p))) \<and>
    (\<forall>q \<in> set qs. accepted_indexes (sp_leader (cl_nodes c' p)) ! (q - 1) = n) \<and>
    (\<forall>i. Suc i \<notin> set qs \<longrightarrow> accepted_indexes (sp_leader (cl_nodes c' p)) ! i = accepted_indexes (sp_leader (cl_nodes c p)) ! i) \<and>
    (qs \<noteq> [] \<longrightarrow> is_chosen n (sp_leader (cl_nodes c' p)) \<longrightarrow> node_decided (cl_nodes c' p) = n)"
  using assms(4-7) unfolding n_def
proof (induction qs arbitrary: c)
  case Nil
  then show ?case by (intro exI [of _ c]) simp
next
  case (Cons q qs)
  let ?n = "length (node_log (cl_nodes c p))" and ?a = "accepted_indexes (sp_leader (cl_nodes c p))"
  have q: "q \<in> set (nodes C)" "q \<noteq> p" using Cons.prems(2) by auto
  obtain d where d: "(cluster_step env C)\<^sup>*\<^sup>* c d" "leading_cluster C p d" "node_log (cl_nodes d p) = node_log (cl_nodes c p)"
    "ls_quorum (sp_leader (cl_nodes d p)) = ls_quorum (sp_leader (cl_nodes c p))"
    "accepted_indexes (sp_leader (cl_nodes d p)) = ?a[q - 1 := ?n]"
    "is_chosen ?n (sp_leader (cl_nodes d p)) \<longrightarrow> node_decided (cl_nodes d p) = ?n"
    "\<forall>r. r \<noteq> p \<longrightarrow> r \<noteq> q \<longrightarrow> awaiting p r c \<longrightarrow> awaiting p r d"
    using round_trip [OF env v Cons.prems(1) q Cons.prems(4)] by auto
  have qi: "0 < q" "q - 1 < length ?a"
    using Cons.prems(1) slotsD [OF _ q(1)] unfolding leading_cluster_def by blast+
  have "awaiting p r d" if "r \<in> set qs" for r
    using that d(7) Cons.prems(2-4) by auto
  then obtain e where e: "(cluster_step env C)\<^sup>*\<^sup>* d e" "leading_cluster C p e" "node_log (cl_nodes e p) = node_log (cl_nodes d p)"
    "ls_quorum (sp_leader (cl_nodes e p)) = ls_quorum (sp_leader (cl_nodes d p))"
    "length (accepted_indexes (sp_leader (cl_nodes e p))) = length ?a"
    "\<forall>q \<in> set qs. accepted_indexes (sp_leader (cl_nodes e p)) ! (q - 1) = ?n"
    "\<forall>i. Suc i \<notin> set qs \<longrightarrow> accepted_indexes (sp_leader (cl_nodes e p)) ! i = ?a[q - 1 := ?n] ! i"
    "qs \<noteq> [] \<longrightarrow> is_chosen ?n (sp_leader (cl_nodes e p)) \<longrightarrow> node_decided (cl_nodes e p) = ?n"
    "qs = [] \<Longrightarrow> e = d"
  proof (cases "qs = []")
    case True
    show thesis by (rule that [of d]) (use True d in simp_all)
  next
    case False
    show thesis
      using Cons.IH [OF d(2)] Cons.prems(2,3) \<open>\<And>r. r \<in> set qs \<Longrightarrow> awaiting p r d\<close> d(3,5) False that by auto
  qed
  have "accepted_indexes (sp_leader (cl_nodes e p)) ! (q - 1) = ?n"
    using e(7) qi Cons.prems(3) by simp
  moreover have "accepted_indexes (sp_leader (cl_nodes e p)) ! i = ?a ! i" if "Suc i \<notin> set (q # qs)" for i
    using e(7) that qi(1) by (auto simp: nth_list_update)
  moreover have "node_decided (cl_nodes e p) = ?n" if "is_chosen ?n (sp_leader (cl_nodes e p))"
    using that e(8,9) d(6) by (cases "qs = []") simp_all
  ultimately show ?case
    using rtranclp_trans [OF d(1) e(1)] e(2-6) d(3,4) by (intro exI [of _ e]) auto
qed

subsection \<open>From the release to the decision\<close>

text \<open>A follower that has handled everything its leader has sent.\<close>

definition in_step :: "node_id \<Rightarrow> node_id \<Rightarrow> ('e, 's) cluster \<Rightarrow> bool" where
  "in_step p q c \<longleftrightarrow> (let s = cl_nodes c p; f = cl_nodes c q; l = sp_leader s in
     cl_links c p q = [] \<and> cl_links c q p = [] \<and> sp_state f = (FollowerRole, PhaseAccept) \<and>
     node_promise f = node_promise s \<and> q \<noteq> p \<and> 0 < q \<and> q \<le> length (promises_meta l) \<and> is_promised (promises_meta l ! (q - 1)) \<and>
     get_seq_num q l = Some (current_seq_num f))"

lemma msgs_to_one:
  "distinct ps \<Longrightarrow> q \<in> set ps \<Longrightarrow> msgs_to q (map (\<lambda>r. SequencePaxos \<lparr>pm_from = f, pm_to = r, pm_msg = M r\<rparr>) ps) = [M q]"
proof (induction ps)
  case (Cons r ps)
  have "q \<notin> set ps \<Longrightarrow> msgs_to q (map (\<lambda>r. SequencePaxos \<lparr>pm_from = f, pm_to = r, pm_msg = M r\<rparr>) ps) = []"
    by (induction ps) simp_all
  then show ?case using Cons by auto
qed simp

lemma release_sends:
  fixes pr :: "'e dom_propose" and c :: "('e, 's) cluster"
  assumes env: "plain_env env" and v: "valid_server (cpair C)" "distinct (nodes C)" and lc: "leading_cluster C p c"
    and fresh: "\<not> has_recovered_remote_entry_id (dp_entry_id pr) (sp_leader (cl_nodes c p))"
  defines "n \<equiv> length (node_log (cl_nodes c p)) + 1"
  shows "\<exists>c'. cluster_step env C c c' \<and> leading_cluster C p c' \<and>
    node_log (cl_nodes c' p) = node_log (cl_nodes c p) @ [dp_entry pr] \<and>
    ls_quorum (sp_leader (cl_nodes c' p)) = quorum_with (flexible_quorum C) (length (nodes C)) \<and>
    accepted_indexes (sp_leader (cl_nodes c' p)) ! (p - 1) = n \<and>
    (\<forall>q \<in> set (nodes C). in_step p q c \<longrightarrow> awaiting p q c')"
proof -
  obtain g pos where ok: "cluster_ok C g pos c" "plain_node C p (cl_nodes c p)" "leading C g pos p [] (cl_nodes c p)"
    "n_leader (sp_leader (cl_nodes c p)) = node_promise (cl_nodes c p)" "ballot_pid (node_promise (cl_nodes c p)) = p"
    "node_decided (cl_nodes c p) \<le> length (node_log (cl_nodes c p))"
    by (rule leading_clusterE [OF lc])
  have p: "p \<in> set (nodes C)" and st: "sp_state (cl_nodes c p) = (LeaderRole, PhaseAccept)" and sl: "slots C (sp_leader (cl_nodes c p))"
    using lc by (simp_all add: leading_cluster_def)
  let ?s = "cl_nodes c p" and ?e = "dp_entry pr"
  obtain t where t: "release_on_leader env pr ?s = Some t"
    using release_returns [OF ok(2) sl p ok(3)] ok(4,5) by auto
  obtain h l st' ps ms where ps: "get_promised_followers l = Some ps" "length ms = 1"
    and fe: "for_each (acceptdecide_to [?e] ms (node_decided ?s) h) ps
       (?s\<lparr>accepted_prefix_hash := h, sp_store := st', sp_leader := l\<rparr>) = Some t"
    and s: "ms_log (is_storage st') = node_log ?s @ [?e]"
    and l: "n_leader l = n_leader (sp_leader ?s)" "promises_meta l = promises_meta (sp_leader ?s)"
    "follower_seq_nums l = follower_seq_nums (sp_leader ?s)" "latest_accept_meta l = latest_accept_meta (sp_leader ?s)"
    "accepted_indexes l = (accepted_indexes (sp_leader ?s))[p - 1 := n]" "plain_rest C l" "max_pid l = max_pid (sp_leader ?s)"
    by (rule release_eq [OF ok(2) t, folded n_def]) blast
  let ?u = "?s\<lparr>accepted_prefix_hash := h, sp_store := st', sp_leader := l\<rparr>"
  let ?x = "\<lambda>k. \<lparr>ad_n = n_leader (sp_leader ?u), ad_seq_num = k, ad_decided_idx = node_decided ?s,
             ad_entries = [?e], ad_entry_meta = ms, ad_log_prefix_hash = h\<rparr>"
  have nm: "no_accept_meta ps ?u" using plain_no_meta [OF plain_nodeD(4) [OF ok(2)], of ps] l(4) by (simp add: no_accept_meta_def)
  have bc: "broadcast next_num (\<lambda>q k. AcceptDecide (?x k)) ps ?u t"
    by (rule broadcast_loop [OF acceptdecide_sends_one fe promised_followers(1) [OF ps(1)] nm])
  note bs = broadcast_sel [OF bc] and sz = broadcast_slots [OF bc]
  let ?c' = "post p t c"
  have step: "cluster_step env C c ?c'"
    by (rule cl_release [OF p, of env pr]) (use t st fresh in \<open>simp add: handle_dom_release_def\<close>)
  have sl': "slots C (sp_leader (taken t))"
    by (rule slots_cong [OF sl]) (use sz l in \<open>simp_all add: reset_latest_accept_meta_def\<close>)
  obtain g' pos' where ok': "cluster_ok C g' pos' ?c'" using cluster_step_simulated [OF env v ok(1) step] by blast
  have lc': "leading_cluster C p ?c'"
    using ok' p sl' bs(2) st unfolding leading_cluster_def post_sel by auto
  have c': "cl_nodes ?c' p = taken t" by (simp add: post_sel)
  have log: "node_log t = node_log ?s @ [?e]" using bs(1) s by simp
  have nl: "n_leader (sp_leader (taken t)) = n_leader (sp_leader ?s)" using bs(11) l(1) by (simp add: reset_latest_accept_meta_def)
  have "awaiting p q ?c'" if q: "q \<in> set (nodes C)" and i: "in_step p q c" for q
  proof -
    let ?f = "cl_nodes c q"
    have f: "cl_links c p q = []" "cl_links c q p = []" "sp_state ?f = (FollowerRole, PhaseAccept)" "node_promise ?f = node_promise ?s"
      "q \<noteq> p" "0 < q" "q \<le> length (promises_meta (sp_leader ?s))" "is_promised (promises_meta (sp_leader ?s) ! (q - 1))"
      "get_seq_num q (sp_leader ?s) = Some (current_seq_num ?f)"
      using i by (simp_all add: in_step_def Let_def)
    have inps: "q \<in> set ps" using promised_followers(2) [OF ps(1), of q] f(5-8) l(1,2) ok(4,5) by auto
    have num: "follower_seq_nums (sp_leader ?s) ! (q - 1) = current_seq_num ?f" "q - 1 < length (follower_seq_nums (sp_leader ?s))"
      using f(9) by (auto simp: get_seq_num_def pid_to_idx_def vec_get_def checked_sub_def split: if_splits)
    have sq: "follower_seq_nums (sp_leader t) ! (q - 1) = next_num (current_seq_num ?f)"
      using bs(18) num l(3) inps f(6) by simp
    have out: "cl_links ?c' p q = [AcceptDecide (?x (next_num (current_seq_num ?f)))]"
      using msgs_to_one [OF promised_followers(1) [OF ps(1)] inps, where M = "\<lambda>q. AcceptDecide (?x (follower_seq_nums (sp_leader t) ! (q - 1)))"]
        bs(20) plain_nodeD(9) [OF ok(2)] f(1) sq by (simp add: post_sel)
    have "pos (node_promise ?s) q (current_seq_num ?f) = Some (length (node_log ?s))"
      using leadingD(4) [OF ok(3), of "q - 1"] f(5-8) num(1) by simp
    moreover have "pos (node_promise ?f) q (current_seq_num ?f) = Some (length (node_log ?f))"
      using node_okD(4) [OF cluster_okD(3) [OF ok(1) q]] f(3,4,5) ok(5) by (simp add: follower_ok_def)
    ultimately have len: "length (node_log ?f) = length (node_log ?s)" using f(4) by simp
    have exp: "check_msg_status (current_seq_num ?f) (next_num (current_seq_num ?f)) = Expected"
      by (simp add: check_msg_status_Expected next_num_def)
    have cmp: "ballot_cmp (node_promise ?f) (n_leader (sp_leader ?s)) = Equal"
      using f(4) ok(4) by (simp add: ballot_cmp_Equal)
    have same: "cl_nodes ?c' q = ?f" "cl_links ?c' q p = []" using f(2,5) by (simp_all add: post_sel)
    show ?thesis
      unfolding awaiting_def Let_def same c'
      by (intro exI [of _ "?x (next_num (current_seq_num ?f))"] exI [of _ "[]"])
        (use out f(3) nl l(1) cmp exp ps(2) len log ok(6) in simp)
  qed
  moreover have "accepted_indexes (sp_leader (taken t)) ! (p - 1) = n"
    using bs(13) l(5) slotsD(4) [OF sl p] by (simp add: reset_latest_accept_meta_def)
  moreover have "ls_quorum (sp_leader (taken t)) = quorum_with (flexible_quorum C) (length (nodes C))"
    using bs(15) l(6) by (simp add: plain_rest_def reset_latest_accept_meta_def)
  ultimately show ?thesis
    by (intro exI [of _ ?c'] conjI step lc') (simp_all add: c' log)
qed

lemma chosen_by_count:
  assumes "\<forall>q \<in> set qs. 0 < q \<and> q - 1 < length (accepted_indexes l) \<and> accepted_indexes l ! (q - 1) = n" "distinct qs"
    "is_accept_quorum (ls_quorum l) (length qs)"
  shows "is_chosen n l"
proof -
  let ?I = "{i. i < length (accepted_indexes l) \<and> n \<le> accepted_indexes l ! i}"
  have "(\<lambda>q. q - 1) ` set qs \<subseteq> ?I" using assms(1) by auto
  moreover have "inj_on (\<lambda>q. q - 1) (set qs)" using assms(1) by (auto simp: inj_on_def) (metis Suc_pred)
  ultimately have "length qs \<le> card ?I"
    using card_mono [of ?I "(\<lambda>q. q - 1) ` set qs"] assms(2) by (simp add: card_image distinct_card)
  then show ?thesis
    using is_accept_quorum_mono [OF assms(3)] by (simp add: is_chosen_def length_filter_conv_card)
qed

lemma no_quorum_alone: "valid_cluster C \<Longrightarrow> \<not> is_accept_quorum (quorum_with (flexible_quorum C) (length (nodes C))) 1"
  by (auto simp: valid_cluster_iff quorum_with_def split: option.splits)

lemma progress:
  fixes pr :: "'e dom_propose" and c :: "('e, 's) cluster"
  assumes env: "plain_env env" and C: "valid_cluster C" "distinct (nodes C)" and lc: "leading_cluster C p c"
    and fresh: "\<not> has_recovered_remote_entry_id (dp_entry_id pr) (sp_leader (cl_nodes c p))"
    and qs: "set qs \<subseteq> set (nodes C)" "distinct qs" "\<And>q. q \<in> set qs \<Longrightarrow> in_step p q c"
    and quorum: "is_accept_quorum (quorum_with (flexible_quorum C) (length (nodes C))) (length qs + 1)"
  shows "\<exists>c'. (cluster_step env C)\<^sup>*\<^sup>* c c' \<and> decided_log (cl_nodes c' p) = node_log (cl_nodes c p) @ [dp_entry pr]"
proof -
  note v = cluster_pair_valid [OF C(1)]
  let ?n = "length (node_log (cl_nodes c p)) + 1"
  obtain d where d: "cluster_step env C c d" "leading_cluster C p d" "node_log (cl_nodes d p) = node_log (cl_nodes c p) @ [dp_entry pr]"
    "ls_quorum (sp_leader (cl_nodes d p)) = quorum_with (flexible_quorum C) (length (nodes C))"
    "accepted_indexes (sp_leader (cl_nodes d p)) ! (p - 1) = ?n" "\<forall>q \<in> set (nodes C). in_step p q c \<longrightarrow> awaiting p q d"
    using release_sends [OF env v C(2) lc fresh] by blast
  have "set qs \<subseteq> set (nodes C) - {p}" using qs(1,3) by (auto simp: in_step_def Let_def)
  moreover have "awaiting p q d" if "q \<in> set qs" for q using that d(6) qs(1,3) by blast
  ultimately obtain e where e: "(cluster_step env C)\<^sup>*\<^sup>* d e" "leading_cluster C p e" "node_log (cl_nodes e p) = node_log (cl_nodes d p)"
    "ls_quorum (sp_leader (cl_nodes e p)) = ls_quorum (sp_leader (cl_nodes d p))"
    "\<forall>q \<in> set qs. accepted_indexes (sp_leader (cl_nodes e p)) ! (q - 1) = ?n"
    "\<forall>i. Suc i \<notin> set qs \<longrightarrow> accepted_indexes (sp_leader (cl_nodes e p)) ! i = accepted_indexes (sp_leader (cl_nodes d p)) ! i"
    "qs \<noteq> [] \<longrightarrow> is_chosen ?n (sp_leader (cl_nodes e p)) \<longrightarrow> node_decided (cl_nodes e p) = ?n"
    using round_trips [OF env v C(2) d(2) _ qs(2)] d(3) by auto
  have p: "p \<in> set (nodes C)" and sl: "slots C (sp_leader (cl_nodes e p))" using e(2) by (simp_all add: leading_cluster_def)
  have np: "p \<notin> set qs" using qs(3) by (auto simp: in_step_def Let_def)
  have "accepted_indexes (sp_leader (cl_nodes e p)) ! (p - 1) = ?n"
    using e(6) d(5) np slotsD(1) [OF sl p] by simp
  then have "\<forall>q \<in> set (p # qs). 0 < q \<and> q - 1 < length (accepted_indexes (sp_leader (cl_nodes e p))) \<and>
    accepted_indexes (sp_leader (cl_nodes e p)) ! (q - 1) = ?n"
    using e(5) slotsD(1,4) [OF sl] p qs(1) by auto
  then have "is_chosen ?n (sp_leader (cl_nodes e p))"
    by (rule chosen_by_count) (use qs(2) np quorum e(4) d(4) in simp_all)
  moreover have "qs \<noteq> []" using no_quorum_alone [OF C(1)] quorum by auto
  ultimately have "node_decided (cl_nodes e p) = ?n" using e(7) by blast
  then have "decided_log (cl_nodes e p) = node_log (cl_nodes c p) @ [dp_entry pr]"
    using e(3) d(3) by (simp add: decided_log_def)
  with converse_rtranclp_into_rtranclp [OF d(1) e(1)] show ?thesis by blast
qed

end
