(* ===== verification/Ballot_Leader_Election.thy ===== *)
theory Ballot_Leader_Election
  imports Messages
begin

text \<open>
  Ballot leader election (\<^verbatim>\<open>ballot_leader_election.rs\<close>): heartbeat rounds, the gossip of the
  leader and of happiness, and the takeover by a server whose quorum is unhappy. The vector
  of outgoing messages is a list in the order of the pushes.
\<close>

subsection \<open>State and operations\<close>

record ble_config =
  bc_configuration_id :: u32
  bc_pid :: node_id
  bc_peers :: "node_id list"
  bc_priority :: u32
  bc_flexible_quorum :: "flexible_quorum option"

record ble =
  ble_configuration_id :: u32
  ble_pid :: node_id
  ble_peers :: "node_id list"
  hb_round :: u32
  heartbeat_replies :: "heartbeat_reply list"
  prev_replies :: "heartbeat_reply list"
  current_ballot :: ballot
  leader :: ballot
  happy :: bool
  ble_quorum :: quorum
  ble_outgoing :: "ble_message list"

definition initial_round :: u32 where "initial_round = 1"
definition recovery_round :: u32 where "recovery_round = 0"

definition new_hb_round :: "ble \<Rightarrow> ble option" where
  "new_hb_round self = do {
     let self = self\<lparr>prev_replies := heartbeat_replies self, heartbeat_replies := []\<rparr>;
     r \<leftarrow> u32_inc (hb_round self);
     let self = self\<lparr>hb_round := r\<rparr>;
     Some (self\<lparr>ble_outgoing := ble_outgoing self @
       map (\<lambda>peer. \<lparr>bm_from = ble_pid self, bm_to = peer, bm_msg = Request \<lparr>hreq_round = hb_round self\<rparr>\<rparr>)
         (ble_peers self)\<rparr>)
   }"

definition ble_with :: "ble_config \<Rightarrow> ballot option \<Rightarrow> ble option" where
  "ble_with config recovered_leader = do {
     let config_id = bc_configuration_id config;
     let pid = bc_pid config;
     let peers = bc_peers config;
     let num_nodes = length peers + 1;
     let initial_ballot = Ballot config_id initial_round (bc_priority config) pid;
     let (initial_ballot, initial_leader) =
       (case recovered_leader of
          Some b \<Rightarrow> if b \<noteq> default_ballot
            then (Ballot config_id recovery_round (bc_priority config) pid, b)
            else (initial_ballot, initial_ballot)
        | None \<Rightarrow> (initial_ballot, initial_ballot));
     new_hb_round
       \<lparr>ble_configuration_id = config_id, ble_pid = pid, ble_peers = peers, hb_round = 0,
        heartbeat_replies = [], prev_replies = [], current_ballot = initial_ballot,
        leader = initial_leader, happy = True,
        ble_quorum = quorum_with (bc_flexible_quorum config) num_nodes, ble_outgoing = []\<rparr>
   }"

definition set_priority :: "u32 \<Rightarrow> ble \<Rightarrow> ble" where
  "set_priority p self =
     self\<lparr>current_ballot := (case current_ballot self of Ballot c n _ i \<Rightarrow> Ballot c n p i)\<rparr>"

definition handle_request :: "node_id \<Rightarrow> heartbeat_request \<Rightarrow> ble \<Rightarrow> ble" where
  "handle_request from req self =
     self\<lparr>ble_outgoing := ble_outgoing self @
       [\<lparr>bm_from = ble_pid self, bm_to = from,
         bm_msg = Reply \<lparr>hrep_round = hreq_round req, hrep_ballot = current_ballot self,
                         hrep_leader = leader self, hrep_happy = happy self\<rparr>\<rparr>]\<rparr>"

definition handle_reply :: "heartbeat_reply \<Rightarrow> ble \<Rightarrow> ble" where
  "handle_reply rep self =
     (if hrep_round rep = hb_round self \<and>
         ballot_config_id (hrep_ballot rep) = ble_configuration_id self
      then self\<lparr>heartbeat_replies := heartbeat_replies self @ [rep]\<rparr> else self)"

definition ble_handle :: "ble_message \<Rightarrow> ble \<Rightarrow> ble" where
  "ble_handle m self =
     (case bm_msg m of
        Request req \<Rightarrow> handle_request (bm_from m) req self
      | Reply rep \<Rightarrow> handle_reply rep self)"

definition update_leader :: "ble \<Rightarrow> ble" where
  "update_leader self =
     (case iter_max (map hrep_ballot (heartbeat_replies self)) of
        Some m \<Rightarrow> if leader self < m then self\<lparr>leader := m\<rparr> else self
      | None \<Rightarrow> self)"

definition update_happiness :: "role \<times> phase \<Rightarrow> ble \<Rightarrow> ble" where
  "update_happiness seq_paxos_state self =
     self\<lparr>happy :=
       (if leader self = current_ballot self then
          let potential_followers =
                length (filter (\<lambda>r. hrep_leader r \<le> current_ballot self) (heartbeat_replies self));
              can_form_quorum =
                (if seq_paxos_state = (LeaderRole, PhaseAccept)
                 then is_accept_quorum (ble_quorum self) (potential_followers + 1)
                 else is_prepare_quorum (ble_quorum self) (potential_followers + 1))
          in if can_form_quorum then True
             else \<exists>r \<in> set (heartbeat_replies self).
                    current_ballot self < hrep_leader r \<and> hrep_happy r
        else \<exists>r \<in> set (heartbeat_replies self). hrep_ballot r = leader self \<and> hrep_happy r)\<rparr>"

definition check_takeover :: "ble \<Rightarrow> ble option" where
  "check_takeover self =
     (if \<not> happy self then
        let all_neighbors_unhappy = (\<forall>r \<in> set (heartbeat_replies self). \<not> hrep_happy r);
            im_quorum_connected =
              is_prepare_quorum (ble_quorum self) (length (heartbeat_replies self) + 1)
        in if all_neighbors_unhappy \<and> im_quorum_connected then do {
             n \<leftarrow> u32_inc (ballot_n (leader self));
             let self = self\<lparr>current_ballot :=
               (case current_ballot self of Ballot c _ p i \<Rightarrow> Ballot c n p i)\<rparr>;
             Some (self\<lparr>leader := current_ballot self, happy := True\<rparr>)
           } else Some self
      else Some self)"

text \<open>The last part of \<^verbatim>\<open>hb_timeout\<close>: follow a promise that overtook the elected leader.\<close>

definition sync_promise :: "ballot \<Rightarrow> ble \<Rightarrow> ble" where
  "sync_promise seq_paxos_promise self =
     (if leader self < seq_paxos_promise
      then self\<lparr>leader := seq_paxos_promise,
                current_ballot := (if ballot_pid seq_paxos_promise = ble_pid self
                                   then seq_paxos_promise else current_ballot self),
                happy := True\<rparr>
      else self)"

definition hb_timeout :: "role \<times> phase \<Rightarrow> ballot \<Rightarrow> ble \<Rightarrow> (ballot option \<times> ble) option" where
  "hb_timeout seq_paxos_state seq_paxos_promise self = do {
     let self = update_leader self;
     let self = update_happiness seq_paxos_state self;
     self \<leftarrow> check_takeover self;
     self \<leftarrow> new_hb_round self;
     let self = sync_promise seq_paxos_promise self;
     Some (if leader self = current_ballot self then Some (current_ballot self) else None, self)
   }"

subsection \<open>Invariant\<close>

text \<open>
  Every stored reply belongs to the current round and configuration; the server's own ballot
  carries its pid and never runs ahead of the leader it knows.
\<close>

definition ble_inv :: "ble \<Rightarrow> bool" where
  "ble_inv b \<longleftrightarrow>
     (\<forall>r \<in> set (heartbeat_replies b). hrep_round r = hb_round b \<and>
        ballot_config_id (hrep_ballot r) = ble_configuration_id b) \<and>
     ballot_pid (current_ballot b) = ble_pid b \<and>
     ballot_n (current_ballot b) \<le> ballot_n (leader b)"

lemma ballot_le_n: "a \<le> b \<Longrightarrow> ballot_n a \<le> ballot_n b"
  using ballot_less_n [of b a] by (metis ballot_not_less not_le)

lemma ballot_lt_n: "a < b \<Longrightarrow> ballot_n a \<le> ballot_n b"
  by (rule ballot_le_n) (rule less_imp_le)

lemma new_hb_round_Some:
  "new_hb_round b = Some c \<longleftrightarrow>
     (\<exists>r. u32_inc (hb_round b) = Some r \<and>
       c = b\<lparr>prev_replies := heartbeat_replies b, heartbeat_replies := [], hb_round := r,
            ble_outgoing := ble_outgoing b @
              map (\<lambda>p. \<lparr>bm_from = ble_pid b, bm_to = p, bm_msg = Request \<lparr>hreq_round = r\<rparr>\<rparr>) (ble_peers b)\<rparr>)"
  by (auto simp: new_hb_round_def Let_def)

lemma ble_inv_with [invar]: "ble_with c rec = Some b \<Longrightarrow> ble_inv b"
  by (auto simp: ble_with_def new_hb_round_Some ble_inv_def recovery_round_def Let_def
      split: option.splits if_splits)

lemma ble_inv_handle [invar]: "ble_inv b \<Longrightarrow> ble_inv (ble_handle m b)"
  by (auto simp: ble_inv_def ble_handle_def handle_request_def handle_reply_def
      split: heartbeat_msg.splits)

lemma ble_inv_set_priority [invar]: "ble_inv b \<Longrightarrow> ble_inv (set_priority p b)"
  by (auto simp: ble_inv_def set_priority_def split: ballot.splits)

lemma update_leader_props:
  "leader b \<le> leader (update_leader b)"
  "\<And>r. r \<in> set (heartbeat_replies b) \<Longrightarrow> hrep_ballot r \<le> leader (update_leader b)"
  "leader (update_leader b) \<in> insert (leader b) (hrep_ballot ` set (heartbeat_replies b))"
  "update_leader b = b\<lparr>leader := leader (update_leader b)\<rparr>"
proof -
  let ?bs = "map hrep_ballot (heartbeat_replies b)"
  note [simp] = update_leader_def
  show "leader b \<le> leader (update_leader b)"
    by (auto simp: less_imp_le split: option.splits)
  show "leader (update_leader b) \<in> insert (leader b) (hrep_ballot ` set (heartbeat_replies b))"
    using iter_max_ballot [of ?bs] by (auto split: option.splits)
  show "update_leader b = b\<lparr>leader := leader (update_leader b)\<rparr>" by (auto split: option.splits)
  fix r assume r: "r \<in> set (heartbeat_replies b)"
  then obtain m where m: "iter_max ?bs = Some m" by (cases "iter_max ?bs") auto
  then have "hrep_ballot r \<le> m" using iter_max_ballot [OF m] r by auto
  then show "hrep_ballot r \<le> leader (update_leader b)"
    using m by (auto intro: order_trans)
qed

lemma ble_inv_update_leader [invar]: "ble_inv b \<Longrightarrow> ble_inv (update_leader b)"
proof -
  assume b: "ble_inv b"
  have "ballot_n (leader b) \<le> ballot_n (leader (update_leader b))"
    by (rule ballot_le_n) (rule update_leader_props(1))
  moreover have "ballot_n (current_ballot b) \<le> ballot_n (leader b)" using b by (simp add: ble_inv_def)
  ultimately have "ballot_n (current_ballot b) \<le> ballot_n (leader (update_leader b))" by simp
  then show ?thesis
    using b by (subst update_leader_props(4)) (simp add: ble_inv_def)
qed

lemma update_happiness_frame [frame]:
  "update_happiness st b = b\<lparr>happy := happy (update_happiness st b)\<rparr>"
  by (simp add: update_happiness_def)

lemma ble_inv_happiness [invar]: "ble_inv (update_happiness st b) = ble_inv b"
  by (simp add: ble_inv_def update_happiness_def)

lemma check_takeover_Some:
  "check_takeover b = Some c \<longleftrightarrow>
     (if \<not> happy b \<and> (\<forall>r \<in> set (heartbeat_replies b). \<not> hrep_happy r) \<and>
         is_prepare_quorum (ble_quorum b) (length (heartbeat_replies b) + 1)
      then ballot_n (leader b) \<noteq> - 1 \<and>
        (let nb = Ballot (ballot_config_id (current_ballot b)) (ballot_n (leader b) + 1)
                   (ballot_priority (current_ballot b)) (ballot_pid (current_ballot b))
         in c = b\<lparr>current_ballot := nb, leader := nb, happy := True\<rparr>)
      else c = b)"
  by (auto simp: check_takeover_def Let_def u32_inc_def split: ballot.splits if_splits)

lemma takeover_raises:
  assumes "ballot_n l \<noteq> - 1"
  shows "l < Ballot c (ballot_n l + 1) p i"
  by (rule ballot_less_n) (use u32_inc_Some [of "ballot_n l"] assms in \<open>simp add: u32_inc_def\<close>)

lemma check_takeover_props:
  assumes "check_takeover b = Some c"
  shows "leader b \<le> leader c" "ble_inv b \<Longrightarrow> ble_inv c"
    "heartbeat_replies c = heartbeat_replies b" "ble_pid c = ble_pid b"
  using assms takeover_raises [of "leader b"]
  by (auto simp: check_takeover_Some Let_def ble_inv_def less_imp_le split: if_splits)

lemma new_hb_round_props:
  assumes "new_hb_round b = Some c"
  shows "leader c = leader b" "ble_inv b \<Longrightarrow> ble_inv c" "current_ballot c = current_ballot b"
    "ble_pid c = ble_pid b" "happy c = happy b"
  using assms by (auto simp: new_hb_round_Some ble_inv_def)

lemma sync_promise_props:
  "leader b \<le> leader (sync_promise p b)" "p \<le> leader (sync_promise p b)"
  "ble_inv b \<Longrightarrow> ble_inv (sync_promise p b)"
  using ballot_lt_n [of "leader b" p]
  by (auto simp: sync_promise_def ble_inv_def less_imp_le intro: order_trans)

lemma hb_timeout_Some:
  "hb_timeout st p b = Some (res, c) \<longleftrightarrow>
     (\<exists>d e. check_takeover (update_happiness st (update_leader b)) = Some d \<and> new_hb_round d = Some e \<and>
       c = sync_promise p e \<and>
       res = (if leader c = current_ballot c then Some (current_ballot c) else None))"
  by (auto simp: hb_timeout_def Let_def)

lemma leader_happiness [simp]: "leader (update_happiness st b) = leader b"
  by (simp add: update_happiness_def)

lemma hb_timeout_leader_le:
  assumes "hb_timeout st p b = Some (res, c)"
  shows "leader b \<le> leader c" "p \<le> leader c"
    and "\<And>r. r \<in> set (heartbeat_replies b) \<Longrightarrow> hrep_ballot r \<le> leader c"
proof -
  obtain d e where d: "check_takeover (update_happiness st (update_leader b)) = Some d"
    and e: "new_hb_round d = Some e" and c: "c = sync_promise p e"
    using assms by (auto simp: hb_timeout_Some)
  have step: "leader (update_leader b) \<le> leader c"
    using check_takeover_props(1) [OF d] new_hb_round_props(1) [OF e] sync_promise_props(1) [of e p]
    unfolding c by (auto intro: order_trans)
  show "leader b \<le> leader c" by (rule order_trans [OF update_leader_props(1) step])
  show "p \<le> leader c" unfolding c by (rule sync_promise_props(2))
  show "hrep_ballot r \<le> leader c" if "r \<in> set (heartbeat_replies b)" for r
    by (rule order_trans [OF update_leader_props(2) [OF that] step])
qed

lemma ble_inv_hb_timeout [invar]:
  assumes "ble_inv b" "hb_timeout st p b = Some (res, c)"
  shows "ble_inv c"
proof -
  obtain d e where "check_takeover (update_happiness st (update_leader b)) = Some d"
    "new_hb_round d = Some e" "c = sync_promise p e"
    using assms(2) by (auto simp: hb_timeout_Some)
  then show ?thesis
    using assms(1) ble_inv_update_leader [of b] check_takeover_props(2) new_hb_round_props(2)
      sync_promise_props(3) [of e p] by (simp add: ble_inv_happiness)
qed

text \<open>What made a server elect itself with a new ballot.\<close>

lemma hb_timeout_elected:
  assumes "hb_timeout st p b = Some (Some x, c)" "p \<le> leader b" "x \<noteq> current_ballot b"
  shows "is_prepare_quorum (ble_quorum b) (length (heartbeat_replies b) + 1)"
    and "\<And>r. r \<in> set (heartbeat_replies b) \<Longrightarrow> \<not> hrep_happy r"
    and "\<And>r. r \<in> set (heartbeat_replies b) \<Longrightarrow> hrep_ballot r < x"
    and "leader b < x" and "ballot_pid x = ballot_pid (current_ballot b)"
proof -
  let ?u = "update_happiness st (update_leader b)"
  obtain d e where d: "check_takeover ?u = Some d"
    and e: "new_hb_round d = Some e" and c: "c = sync_promise p e" and x: "current_ballot c = x"
    using assms(1) by (auto simp: hb_timeout_Some split: if_splits)
  have "p \<le> leader e"
    using assms(2) update_leader_props(1) [of b] check_takeover_props(1) [OF d] new_hb_round_props(1) [OF e]
    by (auto intro: order_trans)
  then have "c = e" unfolding c sync_promise_def by (simp flip: ballot_not_le)
  then have dx: "current_ballot d = x" using x new_hb_round_props(3) [OF e] by simp
  have u: "heartbeat_replies ?u = heartbeat_replies b" "ble_quorum ?u = ble_quorum b"
    "current_ballot ?u = current_ballot b" "leader ?u = leader (update_leader b)"
    by (subst update_leader_props(4), simp add: update_happiness_def)+
  have took: "is_prepare_quorum (ble_quorum ?u) (length (heartbeat_replies ?u) + 1)"
    "\<forall>r \<in> set (heartbeat_replies ?u). \<not> hrep_happy r" "leader ?u < x"
    "ballot_pid x = ballot_pid (current_ballot ?u)"
    using d dx assms(3) takeover_raises [of "leader ?u"] u(3)
    by (auto simp: check_takeover_Some Let_def split: if_splits)
  show "is_prepare_quorum (ble_quorum b) (length (heartbeat_replies b) + 1)"
    "\<And>r. r \<in> set (heartbeat_replies b) \<Longrightarrow> \<not> hrep_happy r"
    "ballot_pid x = ballot_pid (current_ballot b)"
    using took u by simp_all
  have lt: "leader (update_leader b) < x" using took(3) u(4) by simp
  show "\<And>r. r \<in> set (heartbeat_replies b) \<Longrightarrow> hrep_ballot r < x"
    using le_less_trans [OF update_leader_props(2) lt] .
  show "leader b < x" using le_less_trans [OF update_leader_props(1) lt] .
qed

end
