(* ===== verification/Omni_Paxos.thy ===== *)
theory Omni_Paxos
  imports Replication Ballot_Leader_Election
begin

text \<open>
  The node the user drives (\<^verbatim>\<open>omni_paxos.rs\<close>): configuration, the logical clocks
  (\<^verbatim>\<open>util.rs\<close>), ticks and polls, elections, reading, and the state shown to a user
  interface (\<^verbatim>\<open>utils/ui.rs\<close>). \<open>op_step\<close> collects every call the user can make.
\<close>

subsection \<open>Logical clocks\<close>

record logical_clock =
  lc_time :: nat
  lc_timeout :: nat

definition logical_clock_with :: "nat \<Rightarrow> logical_clock" where
  "logical_clock_with timeout = \<lparr>lc_time = 0, lc_timeout = timeout\<rparr>"

definition tick_and_check_timeout :: "logical_clock \<Rightarrow> bool \<times> logical_clock" where
  "tick_and_check_timeout self =
     (let t = lc_time self + 1
      in if t = lc_timeout self then (True, self\<lparr>lc_time := 0\<rparr>) else (False, self\<lparr>lc_time := t\<rparr>))"

text \<open>How often a clock fires in a number of ticks.\<close>

primrec firings :: "nat \<Rightarrow> logical_clock \<Rightarrow> nat" where
  "firings 0 c = 0"
| "firings (Suc n) c =
     (let (fired, c) = tick_and_check_timeout c in (if fired then 1 else 0) + firings n c)"

lemma firings_div:
  assumes "0 < lc_timeout c" "lc_time c < lc_timeout c"
  shows "firings n c = (lc_time c + n) div lc_timeout c"
  using assms
proof (induction n arbitrary: c)
  case 0
  then show ?case by simp
next
  case (Suc n)
  show ?case
  proof (cases "lc_time c + 1 = lc_timeout c")
    case True
    then have "firings (Suc n) c = 1 + n div lc_timeout c"
      using Suc by (simp add: tick_and_check_timeout_def Let_def)
    also have "\<dots> = (lc_timeout c + n) div lc_timeout c" using Suc.prems(1) by simp
    also have "lc_timeout c + n = lc_time c + Suc n" using True by simp
    finally show ?thesis .
  next
    case False
    then have "lc_time c + 1 < lc_timeout c" using Suc.prems(2) by simp
    then show ?thesis
      using Suc.IH [of "c\<lparr>lc_time := lc_time c + 1\<rparr>"] Suc.prems False
      by (simp add: tick_and_check_timeout_def Let_def)
  qed
qed

subsection \<open>The system clock\<close>

text \<open>The nanoseconds since 1970, when the system knows them, cut off at the end of the 64-bit range.\<close>

definition system_get_time :: "nat option \<Rightarrow> int" where
  "system_get_time since_epoch =
     (let nanos = (case since_epoch of Some d \<Rightarrow> int d | None \<Rightarrow> 0)
      in if i64_max < nanos then i64_max else nanos)"

definition system_get_uncertainty :: int where
  "system_get_uncertainty = 0"

definition system_get_time_with_uncertainty :: "nat option \<Rightarrow> clock_timestamp" where
  "system_get_time_with_uncertainty since_epoch = (system_get_time since_epoch, system_get_uncertainty)"

lemma system_get_time_is_i64: "is_i64 (system_get_time d) \<and> 0 \<le> system_get_time d"
  by (auto simp: system_get_time_def is_i64_def i64_min_def i64_max_def Let_def split: option.splits)

lemma system_get_time_mono: "d \<le> e \<Longrightarrow> system_get_time (Some d) \<le> system_get_time (Some e)"
  by (simp add: system_get_time_def Let_def)

subsection \<open>Configuration\<close>

record server_config =
  svc_pid :: node_id
  election_tick_timeout :: nat
  resend_message_tick_timeout :: nat
  buffer_size :: nat
  svc_batch_size :: nat
  flush_batch_tick_timeout :: nat
  release_requests_poll_timeout :: nat
  leader_priority :: u32
  owd_config :: owd_estimator_config
  svc_enable_fast_path :: bool

definition server_config_validate :: "server_config \<Rightarrow> config_error + unit" where
  "server_config_validate self =
     valid_config (svc_pid self \<noteq> 0) ''Server pid cannot be 0''
     (valid_config (buffer_size self \<noteq> 0) ''Buffer size must be greater than 0''
     (valid_config (svc_batch_size self \<noteq> 0) ''Batch size must be greater than 0''
     (valid_config (election_tick_timeout self \<noteq> 0) ''Election tick timeout must be greater than 0''
     (valid_config (resend_message_tick_timeout self \<noteq> 0)
        ''Resend message tick timeout must be greater than 0''
     (valid_config (release_requests_poll_timeout self \<noteq> 0)
        ''Release requests tick timeout must be greater than 0''
     (owd_config_validate (owd_config self)))))))"

definition server_config_default :: server_config where
  "server_config_default =
     \<lparr>svc_pid = 0, election_tick_timeout = 1, resend_message_tick_timeout = 100,
      buffer_size = 100000, svc_batch_size = 1, flush_batch_tick_timeout = 200,
      release_requests_poll_timeout = 1, leader_priority = 0, owd_config = owd_config_default,
      svc_enable_fast_path = True\<rparr>"

record omni_paxos_config =
  opc_cluster_config :: cluster_config
  opc_server_config :: server_config

definition omni_paxos_config_validate :: "omni_paxos_config \<Rightarrow> (config_error + unit) option" where
  "omni_paxos_config_validate self = do {
     r \<leftarrow> cluster_config_validate (opc_cluster_config self);
     case r of
       Inl e \<Rightarrow> Some (Inl e)
     | Inr _ \<Rightarrow>
       (case server_config_validate (opc_server_config self) of
          Inl e \<Rightarrow> Some (Inl e)
        | Inr _ \<Rightarrow>
            Some (valid_config (svc_pid (opc_server_config self) \<in> set (nodes (opc_cluster_config self)))
              ''Nodes must include own server pid'' (Inr ())))
   }"

definition ble_config_of :: "omni_paxos_config \<Rightarrow> ble_config" where
  "ble_config_of config =
     (let pid = svc_pid (opc_server_config config)
      in \<lparr>bc_configuration_id = configuration_id (opc_cluster_config config), bc_pid = pid,
          bc_peers = peers_of (opc_cluster_config config) pid,
          bc_priority = leader_priority (opc_server_config config),
          bc_flexible_quorum = flexible_quorum (opc_cluster_config config)\<rparr>)"

definition sequence_paxos_config_of :: "omni_paxos_config \<Rightarrow> sequence_paxos_config" where
  "sequence_paxos_config_of config =
     (let pid = svc_pid (opc_server_config config)
      in \<lparr>spc_pid = pid, spc_peers = peers_of (opc_cluster_config config) pid,
          spc_batch_size = svc_batch_size (opc_server_config config),
          spc_owd_config = owd_config (opc_server_config config),
          spc_enable_fast_path = svc_enable_fast_path (opc_server_config config),
          spc_flexible_quorum = flexible_quorum (opc_cluster_config config)\<rparr>)"

subsection \<open>The node\<close>

record ('e, 's) omni_paxos =
  seq_paxos :: "('e, 's) sequence_paxos"
  op_ble :: ble
  election_clock :: logical_clock
  resend_message_clock :: logical_clock
  flush_batch_clock :: logical_clock
  release_requests_clock :: logical_clock

definition omni_paxos_build :: "omni_paxos_config \<Rightarrow> ('e, 's) memory_storage \<Rightarrow>
    (nat \<Rightarrow> clock_timestamp) \<Rightarrow> (config_error + ('e, 's) omni_paxos) option" where
  "omni_paxos_build config storage clock = do {
     r \<leftarrow> omni_paxos_config_validate config;
     case r of
       Inl e \<Rightarrow> Some (Inl e)
     | Inr _ \<Rightarrow> do {
         ble \<leftarrow> ble_with (ble_config_of config) (ms_n_prom storage);
         sp \<leftarrow> sequence_paxos_with (sequence_paxos_config_of config) storage clock;
         let sc = opc_server_config config;
         Some (Inr \<lparr>seq_paxos = sp, op_ble = ble,
           election_clock = logical_clock_with (election_tick_timeout sc),
           resend_message_clock = logical_clock_with (resend_message_tick_timeout sc),
           flush_batch_clock = logical_clock_with (flush_batch_tick_timeout sc),
           release_requests_clock = logical_clock_with (release_requests_poll_timeout sc)\<rparr>)
       }
   }"

definition build_for_server :: "cluster_config \<Rightarrow> server_config \<Rightarrow> ('e, 's) memory_storage \<Rightarrow>
    (nat \<Rightarrow> clock_timestamp) \<Rightarrow> (config_error + ('e, 's) omni_paxos) option" where
  "build_for_server self sc storage clock =
     omni_paxos_build \<lparr>opc_cluster_config = self, opc_server_config = sc\<rparr> storage clock"

definition op_get_current_leader :: "('e, 's) omni_paxos \<Rightarrow> (node_id \<times> bool) option" where
  "op_get_current_leader self =
     (let promised_pid = ballot_pid (sp_get_promise (seq_paxos self))
      in if promised_pid = 0 then None
         else Some (promised_pid, snd (sp_state (seq_paxos self)) = PhaseAccept))"

definition op_get_decided_idx :: "('e, 's) omni_paxos \<Rightarrow> nat" where
  "op_get_decided_idx self = sp_get_decided_idx (seq_paxos self)"

definition op_get_compacted_idx :: "('e, 's) omni_paxos \<Rightarrow> nat" where
  "op_get_compacted_idx self = get_compacted_idx (sp_store (seq_paxos self))"

definition op_get_fast_path_ratio :: "('e, 's) omni_paxos \<Rightarrow> nat \<times> nat" where
  "op_get_fast_path_ratio self = (fast_path_decisions (seq_paxos self), slow_path_decisions (seq_paxos self))"

definition op_get_dom_owd_snapshot :: "('e, 's) omni_paxos \<Rightarrow> dom_owd_snapshot" where
  "op_get_dom_owd_snapshot self = owd_snapshot (sp_dom (seq_paxos self))"

definition op_get_promise :: "('e, 's) omni_paxos \<Rightarrow> ballot" where
  "op_get_promise self = sp_get_promise (seq_paxos self)"

definition op_is_reconfigured :: "('e, 's) omni_paxos \<Rightarrow> stop_sign option" where
  "op_is_reconfigured self = is_reconfigured (seq_paxos self)"

definition take_outgoing_messages :: "('e, 's) message list \<Rightarrow> ('e, 's) omni_paxos \<Rightarrow>
    ('e, 's) message list \<times> ('e, 's) omni_paxos" where
  "take_outgoing_messages buffer self =
     (let (buffer, sp) = take_outgoing_msgs buffer (seq_paxos self)
      in (buffer @ map BLE (ble_outgoing (op_ble self)),
          self\<lparr>seq_paxos := sp, op_ble := (op_ble self)\<lparr>ble_outgoing := []\<rparr>\<rparr>))"

definition op_read :: "nat \<Rightarrow> ('e, 's) omni_paxos \<Rightarrow> ('e, 's) log_entry option option" where
  "op_read idx self = do {
     r \<leftarrow> read (Included idx) (Excluded (idx + 1)) (sp_store (seq_paxos self));
     Some (case r of Some v \<Rightarrow> if v = [] then None else Some (last v) | None \<Rightarrow> None)
   }"

definition op_read_entries :: "bound \<Rightarrow> bound \<Rightarrow> ('e, 's) omni_paxos \<Rightarrow>
    ('e, 's) log_entry list option option" where
  "op_read_entries s e self = read s e (sp_store (seq_paxos self))"

definition op_read_decided_suffix :: "nat \<Rightarrow> ('e, 's) omni_paxos \<Rightarrow>
    ('e, 's) log_entry list option option" where
  "op_read_decided_suffix from_idx self = read_decided_suffix from_idx (sp_store (seq_paxos self))"

definition lift_sp :: "(('e, 's) sequence_paxos \<Rightarrow> ('e, 's) sequence_paxos option) \<Rightarrow>
    ('e, 's) omni_paxos \<Rightarrow> ('e, 's) omni_paxos option" where
  "lift_sp f self = map_option (\<lambda>sp. self\<lparr>seq_paxos := sp\<rparr>) (f (seq_paxos self))"

definition handle_incoming :: "('e, 's) env \<Rightarrow> ('e, 's) message \<Rightarrow> ('e, 's) omni_paxos \<Rightarrow>
    ('e, 's) omni_paxos option" where
  "handle_incoming env m self =
     (case m of
        SequencePaxos p \<Rightarrow> lift_sp (sp_handle env p) self
      | BLE b \<Rightarrow> Some (self\<lparr>op_ble := ble_handle b (op_ble self)\<rparr>))"

definition op_append_with_id :: "'e \<Rightarrow> entry_id \<Rightarrow> ('e, 's) omni_paxos \<Rightarrow>
    ('e propose_err option \<times> ('e, 's) omni_paxos) option" where
  "op_append_with_id entry i self = do {
     (r, sp) \<leftarrow> append_with_id entry i (seq_paxos self);
     Some (r, self\<lparr>seq_paxos := sp\<rparr>)
   }"

definition op_trim :: "nat option \<Rightarrow> ('e, 's) omni_paxos \<Rightarrow>
    (compaction_err option \<times> ('e, 's) omni_paxos) option" where
  "op_trim i self = do {
     (r, sp) \<leftarrow> sp_trim i (seq_paxos self);
     Some (r, self\<lparr>seq_paxos := sp\<rparr>)
   }"

definition op_snapshot :: "('e, 's) env \<Rightarrow> nat option \<Rightarrow> bool \<Rightarrow> ('e, 's) omni_paxos \<Rightarrow>
    (compaction_err option \<times> ('e, 's) omni_paxos) option" where
  "op_snapshot env i local_only self = do {
     (r, sp) \<leftarrow> sp_snapshot env i local_only (seq_paxos self);
     Some (r, self\<lparr>seq_paxos := sp\<rparr>)
   }"

definition op_reconfigure :: "cluster_config \<Rightarrow> 8 word list option \<Rightarrow> ('e, 's) omni_paxos \<Rightarrow>
    ('e propose_err option \<times> ('e, 's) omni_paxos) option" where
  "op_reconfigure new_configuration meta self = do {
     v \<leftarrow> cluster_config_validate new_configuration;
     case v of
       Inl config_error \<Rightarrow> Some (Some (ConfigError config_error new_configuration meta), self)
     | Inr _ \<Rightarrow> do {
         (r, sp) \<leftarrow> sp_reconfigure new_configuration meta (seq_paxos self);
         Some (r, self\<lparr>seq_paxos := sp\<rparr>)
       }
   }"

definition op_reconnected :: "node_id \<Rightarrow> ('e, 's) omni_paxos \<Rightarrow> ('e, 's) omni_paxos" where
  "op_reconnected pid self = self\<lparr>seq_paxos := reconnected pid (seq_paxos self)\<rparr>"

definition election_timeout :: "('e, 's) omni_paxos \<Rightarrow> ('e, 's) omni_paxos option" where
  "election_timeout self = do {
     (res, ble) \<leftarrow> hb_timeout (sp_state (seq_paxos self)) (sp_get_promise (seq_paxos self)) (op_ble self);
     let self = self\<lparr>op_ble := ble\<rparr>;
     case res of
       Some new_leader \<Rightarrow> lift_sp (handle_leader new_leader) self
     | None \<Rightarrow> Some self
   }"

definition tick :: "('e, 's) omni_paxos \<Rightarrow> ('e, 's) omni_paxos option" where
  "tick self = do {
     let (fired, c) = tick_and_check_timeout (election_clock self);
     let self = self\<lparr>election_clock := c\<rparr>;
     self \<leftarrow> (if fired then election_timeout self else Some self);
     let (fired, c) = tick_and_check_timeout (resend_message_clock self);
     let self = self\<lparr>resend_message_clock := c\<rparr>;
     self \<leftarrow> (if fired then lift_sp resend_message_timeout self else Some self);
     let (fired, c) = tick_and_check_timeout (flush_batch_clock self);
     let self = self\<lparr>flush_batch_clock := c\<rparr>;
     (if fired then lift_sp flush_batch_timeout self else Some self)
   }"

definition poll :: "('e, 's) env \<Rightarrow> ('e, 's) omni_paxos \<Rightarrow> ('e, 's) omni_paxos option" where
  "poll env self =
     (let (fired, c) = tick_and_check_timeout (release_requests_clock self);
          self = self\<lparr>release_requests_clock := c\<rparr>
      in if fired \<and> is_reconfigured (seq_paxos self) = None
         then lift_sp (release_requests env) self else Some self)"

definition try_become_leader :: "('e, 's) omni_paxos \<Rightarrow> ('e, 's) omni_paxos option" where
  "try_become_leader self = do {
     n \<leftarrow> u32_inc (ballot_n (sp_get_promise (seq_paxos self)));
     let my_ballot = (case current_ballot (op_ble self) of Ballot c _ p i \<Rightarrow> Ballot c n p i);
     lift_sp (handle_leader my_ballot) self
   }"

definition op_set_priority :: "u32 \<Rightarrow> ('e, 's) omni_paxos \<Rightarrow> ('e, 's) omni_paxos" where
  "op_set_priority p self = self\<lparr>op_ble := set_priority p (op_ble self)\<rparr>"

subsection \<open>User interface\<close>

record cluster_state =
  cs_accepted_indexes :: "nat list"
  cs_heartbeats :: "heartbeat_reply list"

record omni_paxos_states =
  ui_current_ballot :: ballot
  ui_current_leader :: "node_id option"
  ui_decided_idx :: nat
  ui_heartbeats :: "heartbeat_reply list"
  ui_cluster_state :: cluster_state

definition cluster_state_from :: "('e, 's) leader_state \<Rightarrow> cluster_state" where
  "cluster_state_from l = \<lparr>cs_accepted_indexes = 0 # accepted_indexes l, cs_heartbeats = []\<rparr>"

definition get_ui_states :: "('e, 's) omni_paxos \<Rightarrow> omni_paxos_states" where
  "get_ui_states self =
     \<lparr>ui_current_ballot = current_ballot (op_ble self),
      ui_current_leader = map_option fst (op_get_current_leader self),
      ui_decided_idx = sp_get_decided_idx (seq_paxos self),
      ui_heartbeats = prev_replies (op_ble self),
      ui_cluster_state = (cluster_state_from (sp_leader (seq_paxos self)))
        \<lparr>cs_heartbeats := prev_replies (op_ble self)\<rparr>\<rparr>"

subsection \<open>Every call of the user\<close>

text \<open>One call on a node; the results a call returns are left aside.\<close>

inductive op_step :: "('e, 's) env \<Rightarrow> ('e, 's) omni_paxos \<Rightarrow> ('e, 's) omni_paxos \<Rightarrow> bool" for env where
  step_incoming: "handle_incoming env m s = Some t \<Longrightarrow> op_step env s t"
| step_append: "op_append_with_id e i s = Some (r, t) \<Longrightarrow> op_step env s t"
| step_trim: "op_trim k s = Some (r, t) \<Longrightarrow> op_step env s t"
| step_snapshot: "op_snapshot env k l s = Some (r, t) \<Longrightarrow> op_step env s t"
| step_reconfigure: "op_reconfigure c m s = Some (r, t) \<Longrightarrow> op_step env s t"
| step_reconnected: "op_step env s (op_reconnected p s)"
| step_tick: "tick s = Some t \<Longrightarrow> op_step env s t"
| step_poll: "poll env s = Some t \<Longrightarrow> op_step env s t"
| step_become_leader: "try_become_leader s = Some t \<Longrightarrow> op_step env s t"
| step_priority: "op_step env s (op_set_priority p s)"
| step_take: "op_step env s (snd (take_outgoing_messages b s))"

definition op_promise :: "('e, 's) omni_paxos \<Rightarrow> ballot" where
  "op_promise s = get_promise (sp_store (seq_paxos s))"

text \<open>The order a call may move a node in: neither the promise nor the elected leader goes back.\<close>

definition op_le :: "('e, 's) omni_paxos \<Rightarrow> ('e, 's) omni_paxos \<Rightarrow> bool" where
  "op_le s t \<longleftrightarrow> op_promise s \<le> op_promise t \<and> leader (op_ble s) \<le> leader (op_ble t) \<and>
     (ble_inv (op_ble s) \<longrightarrow> ble_inv (op_ble t))"

lemma op_le_refl [simp]: "op_le s s"
  by (simp add: op_le_def)

lemma op_le_trans: "op_le s t \<Longrightarrow> op_le t u \<Longrightarrow> op_le s u"
  by (auto simp: op_le_def intro: order_trans)

lemma lift_sp_Some:
  "lift_sp f s = Some t \<longleftrightarrow> (\<exists>sp. f (seq_paxos s) = Some sp \<and> t = s\<lparr>seq_paxos := sp\<rparr>)"
  by (auto simp: lift_sp_def)

lemma op_le_sp:
  "get_promise (sp_store (seq_paxos s)) \<le> get_promise (sp_store sp) \<Longrightarrow> op_le s (s\<lparr>seq_paxos := sp\<rparr>)"
  by (simp add: op_le_def op_promise_def)

lemma op_le_keeps: "sp_keeps (seq_paxos s) sp \<Longrightarrow> op_le s (s\<lparr>seq_paxos := sp\<rparr>)"
  by (rule op_le_sp) (simp add: store_keeps_def)

lemma election_timeout_le:
  assumes "election_timeout s = Some t"
  shows "op_le s t"
proof -
  obtain res b where h: "hb_timeout (sp_state (seq_paxos s)) (sp_get_promise (seq_paxos s)) (op_ble s) = Some (res, b)"
    and c: "(case res of Some n \<Rightarrow> lift_sp (handle_leader n) (s\<lparr>op_ble := b\<rparr>) | None \<Rightarrow> Some (s\<lparr>op_ble := b\<rparr>)) = Some t"
    using assms by (auto simp: election_timeout_def Let_def)
  have b: "op_le s (s\<lparr>op_ble := b\<rparr>)"
    using hb_timeout_leader_le(1) [OF h] ble_inv_hb_timeout [OF _ h] by (simp add: op_le_def op_promise_def)
  show ?thesis
  proof (cases res)
    case (Some n)
    then obtain sp where "handle_leader n (seq_paxos s) = Some sp" "t = s\<lparr>op_ble := b, seq_paxos := sp\<rparr>"
      using c by (auto simp: lift_sp_Some)
    then show ?thesis
      using op_le_trans [OF b op_le_sp] handle_leader_promise by fastforce
  qed (use b c in simp)
qed

lemma op_le_clock:
  "op_le s (s\<lparr>election_clock := c\<rparr>)" "op_le s (s\<lparr>resend_message_clock := c\<rparr>)"
  "op_le s (s\<lparr>flush_batch_clock := c\<rparr>)" "op_le s (s\<lparr>release_requests_clock := c\<rparr>)"
  by (simp_all add: op_le_def op_promise_def)

lemma tick_le:
  assumes "tick s = Some t"
  shows "op_le s t"
proof -
  let ?s1 = "s\<lparr>election_clock := snd (tick_and_check_timeout (election_clock s))\<rparr>"
  obtain s2 where s2: "(if fst (tick_and_check_timeout (election_clock s)) then election_timeout ?s1 else Some ?s1) = Some s2"
    and r2: "do {
       let (fired, c) = tick_and_check_timeout (resend_message_clock s2);
       let self = s2\<lparr>resend_message_clock := c\<rparr>;
       self \<leftarrow> (if fired then lift_sp resend_message_timeout self else Some self);
       let (fired, c) = tick_and_check_timeout (flush_batch_clock self);
       let self = self\<lparr>flush_batch_clock := c\<rparr>;
       (if fired then lift_sp flush_batch_timeout self else Some self)
     } = Some t"
    using assms by (auto simp: tick_def Let_def split_beta)
  let ?s3 = "s2\<lparr>resend_message_clock := snd (tick_and_check_timeout (resend_message_clock s2))\<rparr>"
  obtain s4 where s4: "(if fst (tick_and_check_timeout (resend_message_clock s2))
      then lift_sp resend_message_timeout ?s3 else Some ?s3) = Some s4"
    and r4: "do {
       let (fired, c) = tick_and_check_timeout (flush_batch_clock s4);
       let self = s4\<lparr>flush_batch_clock := c\<rparr>;
       (if fired then lift_sp flush_batch_timeout self else Some self)
     } = Some t"
    using r2 by (auto simp: Let_def split_beta)
  let ?s5 = "s4\<lparr>flush_batch_clock := snd (tick_and_check_timeout (flush_batch_clock s4))\<rparr>"
  have "op_le ?s1 s2" using s2 election_timeout_le by (auto split: if_splits)
  then have 2: "op_le s s2" by (rule op_le_trans [OF op_le_clock(1)])
  have "op_le ?s3 s4" using s4
    by (auto simp: lift_sp_Some dest!: resend_message_timeout_store intro!: op_le_sp split: if_splits)
  then have 4: "op_le s2 s4" by (rule op_le_trans [OF op_le_clock(2)])
  have "op_le ?s5 t" using r4 flush_batch_timeout_keeps
    by (auto simp: Let_def lift_sp_Some split_beta intro!: op_le_keeps split: if_splits)
  then have 6: "op_le s4 t" by (rule op_le_trans [OF op_le_clock(3)])
  show ?thesis by (rule op_le_trans [OF 2 op_le_trans [OF 4 6]])
qed

lemma poll_le:
  assumes "poll env s = Some t"
  shows "op_le s t"
proof -
  let ?s1 = "s\<lparr>release_requests_clock := snd (tick_and_check_timeout (release_requests_clock s))\<rparr>"
  have "op_le ?s1 t" using assms release_requests_keeps
    by (auto simp: poll_def lift_sp_Some Let_def split_beta intro!: op_le_keeps split: if_splits)
  then show ?thesis by (rule op_le_trans [OF op_le_clock(4)])
qed

lemma ble_handle_leader [simp]: "leader (ble_handle m b) = leader b"
  by (auto simp: ble_handle_def handle_request_def handle_reply_def split: heartbeat_msg.splits)

lemma op_step_le: "op_step env s t \<Longrightarrow> op_le s t"
proof (induction rule: op_step.induct)
  case (step_incoming m s t)
  show ?case
  proof (cases m)
    case (SequencePaxos p)
    then obtain sp where "sp_handle env p (seq_paxos s) = Some sp" "t = s\<lparr>seq_paxos := sp\<rparr>"
      using step_incoming by (auto simp: handle_incoming_def lift_sp_Some)
    then show ?thesis using op_le_sp sp_handle_promise_le by blast
  next
    case (BLE b)
    then show ?thesis using step_incoming ble_inv_handle
      by (auto simp: handle_incoming_def op_le_def op_promise_def)
  qed
next
  case (step_append e i s r t)
  then obtain sp where sp: "append_with_id e i (seq_paxos s) = Some (r, sp)" "t = s\<lparr>seq_paxos := sp\<rparr>"
    by (auto simp: op_append_with_id_def)
  have "sp_store sp = sp_store (seq_paxos s)" by (subst append_with_id_frame [OF sp(1)]) simp
  then show ?case using sp(2) by (simp add: op_le_sp)
next
  case (step_trim k s r t)
  then show ?case using sp_trim_keeps by (fastforce simp: op_trim_def intro: op_le_keeps)
next
  case (step_snapshot k l s r t)
  then show ?case using sp_snapshot_keeps by (fastforce simp: op_snapshot_def intro: op_le_keeps)
next
  case (step_reconfigure c m s r t)
  then obtain v where v: "cluster_config_validate c = Some v"
    and cs: "(case v of Inl e \<Rightarrow> Some (Some (ConfigError e c m), s)
      | Inr _ \<Rightarrow> do { (r, sp) \<leftarrow> sp_reconfigure c m (seq_paxos s); Some (r, s\<lparr>seq_paxos := sp\<rparr>) }) = Some (r, t)"
    by (auto simp: op_reconfigure_def)
  show ?case
  proof (cases v)
    case (Inr x)
    then obtain sp where "sp_reconfigure c m (seq_paxos s) = Some (r, sp)" "t = s\<lparr>seq_paxos := sp\<rparr>"
      using cs by auto
    then show ?thesis using sp_reconfigure_keeps op_le_keeps by blast
  qed (use cs in simp)
next
  case (step_reconnected s p)
  then show ?case by (simp add: op_reconnected_def op_le_sp)
next
  case (step_tick s t)
  then show ?case by (rule tick_le)
next
  case (step_poll s t)
  then show ?case by (rule poll_le)
next
  case (step_become_leader s t)
  then obtain b sp where "handle_leader b (seq_paxos s) = Some sp" "t = s\<lparr>seq_paxos := sp\<rparr>"
    by (auto simp: try_become_leader_def lift_sp_Some)
  then show ?case using op_le_sp handle_leader_promise by blast
next
  case (step_priority s p)
  then show ?case using ble_inv_set_priority
    by (simp add: op_set_priority_def op_le_def op_promise_def) (simp add: set_priority_def)
next
  case (step_take s b)
  then show ?case by (simp add: take_outgoing_messages_def take_outgoing_msgs_def op_le_def op_promise_def ble_inv_def)
qed

lemma op_run_le: "(op_step env)\<^sup>*\<^sup>* s t \<Longrightarrow> op_le s t"
proof (induction rule: rtranclp_induct)
  case (step t u)
  then show ?case using op_step_le op_le_trans by blast
qed simp

subsection \<open>The log of a node\<close>

text \<open>
  Calls and messages that bring in no log of another server (\<^const>\<open>plain_msg\<close>) keep the
  indexes in order and never take a decision back.
\<close>

definition plain_call :: "('e, 's) env \<Rightarrow> ('e, 's) omni_paxos \<Rightarrow> ('e, 's) omni_paxos \<Rightarrow> bool" where
  "plain_call env s t \<longleftrightarrow> op_step env s t \<and>
     (\<forall>p. handle_incoming env (SequencePaxos p) s = Some t \<longrightarrow> plain_msg (pm_msg p) (seq_paxos s))"

definition log_le :: "('e, 's) omni_paxos \<Rightarrow> ('e, 's) omni_paxos \<Rightarrow> bool" where
  "log_le s t \<longleftrightarrow> (log_inv (sp_store (seq_paxos s)) \<longrightarrow>
     log_inv (sp_store (seq_paxos t)) \<and>
     get_decided_idx (sp_store (seq_paxos s)) \<le> get_decided_idx (sp_store (seq_paxos t)))"

lemma log_le_trans: "log_le s t \<Longrightarrow> log_le t u \<Longrightarrow> log_le s u"
  by (auto simp: log_le_def)

lemma log_le_keeps: "sp_keeps (seq_paxos s) (seq_paxos t) \<Longrightarrow> log_le s t"
  by (simp add: store_keeps_def log_le_def)

lemma log_le_same: "sp_store (seq_paxos t) = sp_store (seq_paxos s) \<Longrightarrow> log_le s t"
  by (simp add: log_le_def)

lemma handle_leader_log:
  assumes "handle_leader n s = Some t" "log_inv (sp_store s)"
  shows "log_inv (sp_store t) \<and> get_decided_idx (sp_store s) \<le> get_decided_idx (sp_store t)"
  using assms(1)
proof (rule handle_leader_Some)
  assume t: "sp_store t = set_promise n (snd (flush_batch (sp_store s)))"
  have "log_inv (snd (flush_batch (sp_store s))) \<and>
      get_decided_idx (sp_store s) \<le> get_decided_idx (snd (flush_batch (sp_store s)))"
    using keeps_append(4) [of "sp_store s"] assms(2) by (simp add: store_keeps_def)
  then show ?thesis unfolding t using set_promise_keeps_log by metis
qed (use assms(2) in \<open>simp_all add: become_follower_def\<close>)

lemma lift_handle_leader_log: "lift_sp (handle_leader n) s = Some t \<Longrightarrow> log_le s t"
  by (auto simp: lift_sp_Some log_le_def dest: handle_leader_log)

lemma election_timeout_log:
  assumes "election_timeout s = Some t"
  shows "log_le s t"
proof -
  obtain res b where
    c: "(case res of Some n \<Rightarrow> lift_sp (handle_leader n) (s\<lparr>op_ble := b\<rparr>) | None \<Rightarrow> Some (s\<lparr>op_ble := b\<rparr>)) = Some t"
    using assms by (auto simp: election_timeout_def Let_def)
  have b: "log_le s (s\<lparr>op_ble := b\<rparr>)" by (simp add: log_le_same)
  show ?thesis
  proof (cases res)
    case (Some n)
    with c show ?thesis using log_le_trans [OF b lift_handle_leader_log] by simp
  qed (use b c in simp)
qed

lemma tick_log:
  assumes "tick s = Some t"
  shows "log_le s t"
proof -
  let ?s1 = "s\<lparr>election_clock := snd (tick_and_check_timeout (election_clock s))\<rparr>"
  obtain s2 where s2: "(if fst (tick_and_check_timeout (election_clock s)) then election_timeout ?s1 else Some ?s1) = Some s2"
    and r2: "do {
       let (fired, c) = tick_and_check_timeout (resend_message_clock s2);
       let self = s2\<lparr>resend_message_clock := c\<rparr>;
       self \<leftarrow> (if fired then lift_sp resend_message_timeout self else Some self);
       let (fired, c) = tick_and_check_timeout (flush_batch_clock self);
       let self = self\<lparr>flush_batch_clock := c\<rparr>;
       (if fired then lift_sp flush_batch_timeout self else Some self)
     } = Some t"
    using assms by (auto simp: tick_def Let_def split_beta)
  let ?s3 = "s2\<lparr>resend_message_clock := snd (tick_and_check_timeout (resend_message_clock s2))\<rparr>"
  obtain s4 where s4: "(if fst (tick_and_check_timeout (resend_message_clock s2))
      then lift_sp resend_message_timeout ?s3 else Some ?s3) = Some s4"
    and r4: "do {
       let (fired, c) = tick_and_check_timeout (flush_batch_clock s4);
       let self = s4\<lparr>flush_batch_clock := c\<rparr>;
       (if fired then lift_sp flush_batch_timeout self else Some self)
     } = Some t"
    using r2 by (auto simp: Let_def split_beta)
  have "log_le ?s1 s2" using s2 election_timeout_log by (auto split: if_splits intro: log_le_same)
  then have 2: "log_le s s2" by (simp add: log_le_def)
  have 4: "log_le s2 s4" using s4
    by (auto simp: lift_sp_Some dest!: resend_message_timeout_store intro!: log_le_same split: if_splits)
  have 6: "log_le s4 t" using r4 flush_batch_timeout_keeps
    by (auto simp: Let_def lift_sp_Some split_beta intro!: log_le_keeps split: if_splits)
  show ?thesis by (rule log_le_trans [OF 2 log_le_trans [OF 4 6]])
qed

lemma plain_call_log:
  assumes "plain_call env s t"
  shows "log_le s t"
proof -
  from assms have st: "op_step env s t" by (simp add: plain_call_def)
  then show ?thesis
  proof cases
    case (step_incoming m)
    show ?thesis
    proof (cases m)
      case (SequencePaxos p)
      then obtain sp where "sp_handle env p (seq_paxos s) = Some sp" "t = s\<lparr>seq_paxos := sp\<rparr>"
        using step_incoming by (auto simp: handle_incoming_def lift_sp_Some)
      moreover have "plain_msg (pm_msg p) (seq_paxos s)"
        using assms step_incoming SequencePaxos by (simp add: plain_call_def)
      ultimately show ?thesis using sp_handle_log by (auto simp: log_le_def)
    qed (use step_incoming in \<open>auto simp: handle_incoming_def intro: log_le_same\<close>)
  next
    case (step_append e i r)
    then obtain sp where sp: "append_with_id e i (seq_paxos s) = Some (r, sp)" "t = s\<lparr>seq_paxos := sp\<rparr>"
      by (auto simp: op_append_with_id_def)
    have "sp_store sp = sp_store (seq_paxos s)" by (subst append_with_id_frame [OF sp(1)]) simp
    then show ?thesis using sp(2) by (simp add: log_le_same)
  next
    case (step_trim k r)
    then show ?thesis using sp_trim_keeps by (fastforce simp: op_trim_def intro: log_le_keeps)
  next
    case (step_snapshot k l r)
    then show ?thesis using sp_snapshot_keeps by (fastforce simp: op_snapshot_def intro: log_le_keeps)
  next
    case (step_reconfigure c m r)
    then obtain v where "cluster_config_validate c = Some v" and cs: "(case v of Inl e \<Rightarrow> Some (Some (ConfigError e c m), s)
        | Inr _ \<Rightarrow> do { (r, sp) \<leftarrow> sp_reconfigure c m (seq_paxos s); Some (r, s\<lparr>seq_paxos := sp\<rparr>) }) = Some (r, t)"
      by (auto simp: op_reconfigure_def)
    show ?thesis
    proof (cases v)
      case (Inr x)
      then obtain sp where "sp_reconfigure c m (seq_paxos s) = Some (r, sp)" "t = s\<lparr>seq_paxos := sp\<rparr>"
        using cs by auto
      then show ?thesis by (auto intro!: log_le_keeps sp_reconfigure_keeps)
    qed (use cs in \<open>simp add: log_le_def\<close>)
  next
    case (step_reconnected p)
    then show ?thesis by (simp add: op_reconnected_def log_le_same)
  next
    case step_tick
    then show ?thesis by (rule tick_log)
  next
    case step_poll
    then show ?thesis using release_requests_keeps
      by (auto simp: poll_def lift_sp_Some Let_def split_beta log_le_same intro!: log_le_keeps split: if_splits)
  next
    case step_become_leader
    then obtain b where "lift_sp (handle_leader b) s = Some t" by (auto simp: try_become_leader_def)
    then show ?thesis by (rule lift_handle_leader_log)
  next
    case (step_priority p)
    then show ?thesis by (simp add: op_set_priority_def log_le_same)
  next
    case (step_take b)
    then show ?thesis by (simp add: take_outgoing_messages_def take_outgoing_msgs_def log_le_same)
  qed
qed

lemma plain_run_log: "(plain_call env)\<^sup>*\<^sup>* s t \<Longrightarrow> log_le s t"
proof (induction rule: rtranclp_induct)
  case (step t u)
  then show ?case using plain_call_log log_le_trans by blast
qed (simp add: log_le_def)

text \<open>A node built on an empty storage starts consistent.\<close>

lemma sequence_paxos_with_store:
  assumes "sequence_paxos_with c st clock = Some sp" "ms_n_prom st = None"
  shows "sp_store sp = set_promise default_ballot (internal_storage_with st (spc_batch_size c))"
  using assms by (auto simp: sequence_paxos_with_def Let_def)

lemma build_default_inv:
  assumes "omni_paxos_build config ms_default clock = Some (Inr s)"
  shows "log_inv (sp_store (seq_paxos s))" "ble_inv (op_ble s)"
proof -
  define st :: "('a, 'b) memory_storage" where "st = ms_default"
  have b: "ble_with (ble_config_of config) (ms_n_prom st) = Some (op_ble s)"
    and sp: "sequence_paxos_with (sequence_paxos_config_of config) st clock = Some (seq_paxos s)"
    using assms unfolding st_def [symmetric] by (auto simp: omni_paxos_build_def Let_def simp del: bind_Some
        split: bind_split_asm sum.split_asm)
  show "ble_inv (op_ble s)" by (rule ble_inv_with [OF b])
  have "ms_n_prom st = None" by (simp add: st_def ms_default_def)
  from sequence_paxos_with_store [OF sp this]
  show "log_inv (sp_store (seq_paxos s))"
    by (simp add: st_def log_inv_defs set_promise_def internal_storage_with_def load_cache_def
        ms_default_def ms_set_promise_def ms_get_log_len_def)
qed

end
