(* ===== verification/Fast_Votes.thy ===== *)
theory Fast_Votes
  imports Fast_Path
begin

text \<open>
  The votes a leader collects for the fast path (\<^verbatim>\<open>set_accepted_map\<close> in \<^verbatim>\<open>util.rs\<close>, counted
  by \<^verbatim>\<open>try_fast_decide_idx\<close>): the map is the tally of the votes cast so far, and what it counts
  at an index depends on whose vote came first there.
\<close>

subsection \<open>The tally\<close>

text \<open>
  One call of \<^const>\<open>set_accepted_map\<close>; the map it builds is a function of the votes in the
  order of their arrival: the candidate of an index is that of the first vote.
\<close>

datatype vote = Vote (vote_idx: nat) (vote_hash: dom_hash) (vote_prefix: dom_hash) (vote_pid: node_id)
  (vote_fast: bool)

definition cast_vote :: "vote \<Rightarrow> ('e, 's) leader_state \<Rightarrow> ('e, 's) leader_state" where
  "cast_vote v = set_accepted_map (vote_idx v) (vote_hash v) (vote_prefix v) (vote_pid v) (vote_fast v)"

definition fast_voters_of :: "vote list \<Rightarrow> nat \<Rightarrow> dom_hash \<times> dom_hash \<Rightarrow> node_id set" where
  "fast_voters_of vs idx k = {p. \<exists>v \<in> set vs. vote_idx v = idx \<and> vote_fast v \<and>
     (vote_prefix v, vote_hash v) = k \<and> vote_pid v = p}"

definition slow_voters_of :: "vote list \<Rightarrow> nat \<Rightarrow> node_id set" where
  "slow_voters_of vs idx = {p. \<exists>v \<in> set vs. vote_idx v = idx \<and> \<not> vote_fast v \<and> vote_pid v = p}"

definition tally :: "vote list \<Rightarrow> nat \<Rightarrow> accepted_map_entry option" where
  "tally vs idx =
     (case filter (\<lambda>v. vote_idx v = idx) vs of
        [] \<Rightarrow> None
      | v # _ \<Rightarrow> Some \<lparr>ame_entry_hash = vote_hash v, ame_prefix_hash = vote_prefix v,
          ame_fast = (\<lambda>k. if fast_voters_of vs idx k = {} then None else Some (fast_voters_of vs idx k)),
          ame_slow = slow_voters_of vs idx\<rparr>)"

lemma voters_of_snoc:
  "fast_voters_of (vs @ [v]) idx k =
     (if vote_idx v = idx \<and> vote_fast v \<and> (vote_prefix v, vote_hash v) = k
      then insert (vote_pid v) (fast_voters_of vs idx k) else fast_voters_of vs idx k)"
  "slow_voters_of (vs @ [v]) idx =
     (if vote_idx v = idx \<and> \<not> vote_fast v then insert (vote_pid v) (slow_voters_of vs idx)
      else slow_voters_of vs idx)"
  by (auto simp: fast_voters_of_def slow_voters_of_def)

lemma voters_of_other:
  assumes "filter (\<lambda>v. vote_idx v = idx) vs = []"
  shows "fast_voters_of vs idx k = {}" "slow_voters_of vs idx = {}"
  using assms by (auto simp: fast_voters_of_def slow_voters_of_def filter_empty_conv)

lemma tally_cast:
  assumes "accepted_map l = tally vs"
  shows "accepted_map (cast_vote v l) = tally (vs @ [v])"
proof
  fix idx
  show "accepted_map (cast_vote v l) idx = tally (vs @ [v]) idx"
  proof (cases "vote_idx v = idx")
    case False
    then have "fast_voters_of (vs @ [v]) idx = fast_voters_of vs idx"
      "slow_voters_of (vs @ [v]) idx = slow_voters_of vs idx"
      by (auto simp: voters_of_snoc)
    with False show ?thesis
      by (simp add: cast_vote_def set_accepted_map_def Let_def assms tally_def split: list.split cong: if_cong)
  next
    case True
    show ?thesis
    proof (cases "filter (\<lambda>v. vote_idx v = idx) vs")
      case Nil
      then show ?thesis
        using True voters_of_other [OF Nil]
        by (auto simp: cast_vote_def set_accepted_map_def Let_def assms tally_def voters_of_snoc
            intro!: accepted_map_entry.equality ext)
    next
      case (Cons w ws)
      then show ?thesis
        using True
        by (auto simp: cast_vote_def set_accepted_map_def Let_def assms tally_def voters_of_snoc
            intro!: accepted_map_entry.equality ext)
    qed
  qed
qed

lemma tally_votes:
  assumes "accepted_map l = Map.empty"
  shows "accepted_map (fold cast_vote vs l) = tally vs"
proof (induction vs rule: rev_induct)
  case Nil
  then show ?case using assms by (auto simp: tally_def)
next
  case (snoc v vs)
  then show ?case by (simp add: tally_cast)
qed

text \<open>
  When the leader's own vote is the first at an index, the votes counted there are those for
  the leader's candidate.
\<close>

definition counted_voters :: "accepted_map_entry \<Rightarrow> node_id set" where
  "counted_voters a =
     (case ame_fast a (ame_prefix_hash a, ame_entry_hash a) of Some v \<Rightarrow> v | None \<Rightarrow> {}) \<union> ame_slow a"

lemma tally_first:
  assumes "tally vs idx = Some a" "filter (\<lambda>v. vote_idx v = idx) vs = Vote idx h pre ldr False # ws"
  shows "a = \<lparr>ame_entry_hash = h, ame_prefix_hash = pre,
    ame_fast = (\<lambda>k. if fast_voters_of vs idx k = {} then None else Some (fast_voters_of vs idx k)),
    ame_slow = slow_voters_of vs idx\<rparr>"
  using assms(1) by (simp add: tally_def assms(2))

lemma tally_slow:
  assumes "tally vs idx = Some a" "filter (\<lambda>v. vote_idx v = idx) vs = Vote idx h pre ldr False # ws"
    and "\<forall>w \<in> set ws. vote_fast w"
  shows "ame_slow a = {ldr}"
proof -
  have "p \<in> slow_voters_of vs idx \<longleftrightarrow> (\<exists>v \<in> set (filter (\<lambda>v. vote_idx v = idx) vs). \<not> vote_fast v \<and> vote_pid v = p)" for p
    by (auto simp: slow_voters_of_def)
  then have "slow_voters_of vs idx = {ldr}" using assms(3) unfolding assms(2) by auto
  then show ?thesis by (subst tally_first [OF assms(1,2)]) simp
qed

lemma counted_votes:
  assumes "tally vs idx = Some a" "filter (\<lambda>v. vote_idx v = idx) vs = Vote idx h pre ldr False # ws"
    and "\<forall>w \<in> set ws. vote_fast w"
  shows "counted_voters a = insert ldr
    {vote_pid w |w. w \<in> set vs \<and> vote_idx w = idx \<and> vote_hash w = h \<and> vote_prefix w = pre \<and> vote_fast w}"
proof -
  have "ame_entry_hash a = h" "ame_prefix_hash a = pre"
    "ame_fast a = (\<lambda>k. if fast_voters_of vs idx k = {} then None else Some (fast_voters_of vs idx k))"
    by (subst tally_first [OF assms(1,2)], simp)+
  then have "counted_voters a = insert ldr (fast_voters_of vs idx (pre, h))"
    by (simp add: counted_voters_def tally_slow [OF assms])
  also have "fast_voters_of vs idx (pre, h) =
      {vote_pid w |w. w \<in> set vs \<and> vote_idx w = idx \<and> vote_hash w = h \<and> vote_prefix w = pre \<and> vote_fast w}"
    by (auto simp: fast_voters_of_def)
  finally show ?thesis .
qed

lemma fast_decidable_counted:
  "fast_decidable idx s \<longleftrightarrow>
     enable_fast_path s \<and> sp_state s = (LeaderRole, PhaseAccept) \<and>
     get_decided_idx (sp_store s) < idx \<and> idx \<le> get_accepted_idx (sp_store s) \<and>
     (\<exists>a. accepted_map (sp_leader s) idx = Some a \<and> sp_pid s \<in> ame_slow a \<and>
        fast_quorum (length (sp_peers s) + 1) \<le> card (counted_voters a))"
  by (auto simp: fast_decidable_def Let_def counted_voters_def split: option.splits)

end
