(* ===== verification/Kv_Store.thy ===== *)
theory Kv_Store
  imports Compaction
begin

text \<open>
  The replicated key-value store of the benchmark: commands and snapshots
  (\<^verbatim>\<open>benchmark/src/common.rs\<close>, module \<^verbatim>\<open>kv\<close>) and the database a server applies decided
  commands to (\<^verbatim>\<open>benchmark/src/server/database.rs\<close>). A snapshot taken from scratch is the
  database; a snapshot of a later part of the log, merged into an earlier one, is so exactly when
  no key of that part is deleted at the end with every deletion following a put.
\<close>

subsection \<open>Commands and the database\<close>

datatype kv_command = Put string string | Delete string | Get string

record command =
  client_id :: nat
  coordinator_id :: node_id
  cmd_id :: nat
  kv_cmd :: kv_command

record database =
  db :: "string \<rightharpoonup> string"

definition database_new :: database where
  "database_new = \<lparr>db = Map.empty\<rparr>"

text \<open>The result is \<^verbatim>\<open>Option<Option<String>>\<close>: what a read returns.\<close>

definition handle_command :: "kv_command \<Rightarrow> database \<Rightarrow> string option option \<times> database" where
  "handle_command command self =
     (case command of
        Put key value \<Rightarrow> (None, self\<lparr>db := (db self)(key \<mapsto> value)\<rparr>)
      | Delete key \<Rightarrow> (None, self\<lparr>db := (db self)(key := None)\<rparr>)
      | Get key \<Rightarrow> (Some (db self key), self))"

definition run_commands :: "command list \<Rightarrow> database \<Rightarrow> database" where
  "run_commands es d = fold (\<lambda>e d. snd (handle_command (kv_cmd e) d)) es d"

subsection \<open>Snapshots\<close>

record kv_snapshot =
  snapshotted :: "string \<rightharpoonup> string"
  deleted_keys :: "string list"

definition kv_create_step :: "command \<Rightarrow> kv_snapshot \<Rightarrow> kv_snapshot" where
  "kv_create_step e s =
     (case kv_cmd e of
        Put key value \<Rightarrow> s\<lparr>snapshotted := (snapshotted s)(key \<mapsto> value)\<rparr>
      | Delete key \<Rightarrow>
          (let s' = s\<lparr>snapshotted := (snapshotted s)(key := None)\<rparr>
           in if snapshotted s key = None then s'\<lparr>deleted_keys := deleted_keys s @ [key]\<rparr> else s')
      | Get _ \<Rightarrow> s)"

definition kv_create :: "command list \<Rightarrow> kv_snapshot" where
  "kv_create entries =
     (let s = fold kv_create_step entries \<lparr>snapshotted = Map.empty, deleted_keys = []\<rparr>
      in s\<lparr>deleted_keys := filter (\<lambda>k. snapshotted s k = None) (deleted_keys s)\<rparr>)"

text \<open>The keys of a map are distinct, so the order in which the loop inserts them does not matter.\<close>

definition kv_merge :: "kv_snapshot \<Rightarrow> kv_snapshot \<Rightarrow> kv_snapshot" where
  "kv_merge self delta =
     self\<lparr>snapshotted := fold (\<lambda>k m. m(k := None)) (deleted_keys delta) (snapshotted self ++ snapshotted delta),
          deleted_keys := []\<rparr>"

definition kv_use_snapshots :: bool where
  "kv_use_snapshots = True"

text \<open>The snapshot functions of a node whose commands name \<^verbatim>\<open>KVSnapshot\<close> as their snapshot type. The
  benchmark's \<^verbatim>\<open>Command\<close> does not: it derives \<^verbatim>\<open>Entry\<close> without the attribute, so its nodes run with
  \<^verbatim>\<open>NoSnapshot\<close>.\<close>

definition kv_env :: "(command, kv_snapshot) env \<Rightarrow> (command, kv_snapshot) env" where
  "kv_env env = env\<lparr>snap_create := Some \<circ> kv_create, snap_merge := (\<lambda>a b. Some (kv_merge a b)),
     use_snapshots := kv_use_snapshots\<rparr>"

subsection \<open>The writes to one key\<close>

text \<open>The writes to a key in order: \<^term>\<open>True\<close> is a put, \<^term>\<open>False\<close> a deletion.\<close>

definition writes :: "string \<Rightarrow> command list \<Rightarrow> bool list" where
  "writes k es = map (\<lambda>e. case kv_cmd e of Put _ _ \<Rightarrow> True | _ \<Rightarrow> False)
     (filter (\<lambda>e. case kv_cmd e of Put i _ \<Rightarrow> i = k | Delete i \<Rightarrow> i = k | Get _ \<Rightarrow> False) es)"

text \<open>Some deletion finds the key absent.\<close>

fun deleted_absent :: "bool \<Rightarrow> bool list \<Rightarrow> bool" where
  "deleted_absent present [] = False"
| "deleted_absent present (True # ws) = deleted_absent True ws"
| "deleted_absent present (False # ws) = (\<not> present \<or> deleted_absent False ws)"

definition lost_deletion :: "bool list \<Rightarrow> bool" where
  "lost_deletion ws \<longleftrightarrow> ws \<noteq> [] \<and> \<not> last ws \<and> \<not> deleted_absent False ws"

lemma writes_snoc:
  "writes k (es @ [e]) = writes k es @
     (case kv_cmd e of Put i _ \<Rightarrow> if i = k then [True] else []
      | Delete i \<Rightarrow> if i = k then [False] else [] | Get _ \<Rightarrow> [])"
  by (auto simp: writes_def split: kv_command.split)

lemma deleted_absent_snoc:
  "deleted_absent p (ws @ [w]) \<longleftrightarrow> deleted_absent p ws \<or> \<not> w \<and> \<not> (if ws = [] then p else last ws)"
  by (induction p ws rule: deleted_absent.induct) (cases w; auto)+

lemma run_commands_snoc:
  "run_commands (es @ [e]) d = snd (handle_command (kv_cmd e) (run_commands es d))"
  by (simp add: run_commands_def)

lemma run_commands_at:
  "db (run_commands es d) k =
     (if writes k es = [] then db d k
      else if last (writes k es) then db (run_commands es database_new) k else None)"
proof (induction es rule: rev_induct)
  case (snoc e es)
  then show ?case
    by (cases "kv_cmd e") (auto simp: run_commands_snoc handle_command_def writes_snoc database_new_def)
qed (simp add: run_commands_def writes_def)

lemma create_fold:
  defines "s es \<equiv> fold kv_create_step es \<lparr>snapshotted = Map.empty, deleted_keys = []\<rparr>"
  shows "snapshotted (s es) = db (run_commands es database_new)"
    and "snapshotted (s es) k = None \<longleftrightarrow> writes k es = [] \<or> \<not> last (writes k es)"
    and "k \<in> set (deleted_keys (s es)) \<longleftrightarrow> deleted_absent False (writes k es)"
proof -
  have "snapshotted (s es) = db (run_commands es database_new) \<and>
    (\<forall>k. snapshotted (s es) k = None \<longleftrightarrow> writes k es = [] \<or> \<not> last (writes k es)) \<and>
    (\<forall>k. k \<in> set (deleted_keys (s es)) \<longleftrightarrow> deleted_absent False (writes k es))"
  proof (induction es rule: rev_induct)
    case Nil
    show ?case by (simp add: s_def run_commands_def database_new_def writes_def)
  next
    case (snoc e es)
    have e: "s (es @ [e]) = kv_create_step e (s es)" by (simp add: s_def)
    show ?case
      using snoc unfolding e
      by (cases "kv_cmd e")
        (auto simp: kv_create_step_def run_commands_snoc handle_command_def writes_snoc deleted_absent_snoc
          Let_def split: if_splits)
  qed
  then show "snapshotted (s es) = db (run_commands es database_new)"
    and "snapshotted (s es) k = None \<longleftrightarrow> writes k es = [] \<or> \<not> last (writes k es)"
    and "k \<in> set (deleted_keys (s es)) \<longleftrightarrow> deleted_absent False (writes k es)" by blast+
qed

lemma fold_delete: "fold (\<lambda>k m. m(k := None)) ks m k = (if k \<in> set ks then None else m k)"
  by (induction ks arbitrary: m) auto

lemma merge_at:
  "snapshotted (kv_merge s (kv_create es)) k =
     (if lost_deletion (writes k es) then snapshotted s k
      else db (run_commands es \<lparr>db = snapshotted s\<rparr>) k)"
proof -
  let ?f = "fold kv_create_step es \<lparr>snapshotted = Map.empty, deleted_keys = []\<rparr>"
  note c = create_fold(1) [of es] create_fold(2,3) [where es = es and k = k]
  have m: "snapshotted (kv_merge s (kv_create es)) k =
    (if k \<in> set (deleted_keys ?f) \<and> snapshotted ?f k = None then None
     else if snapshotted ?f k \<noteq> None then snapshotted ?f k else snapshotted s k)"
    by (auto simp: kv_merge_def kv_create_def Let_def fold_delete map_add_def split: option.split)
  show ?thesis
    unfolding m run_commands_at [of es "\<lparr>db = snapshotted s\<rparr>"]
    using c by (auto simp: lost_deletion_def)
qed

end
