(* ===== verification/Sim_Clock.thy ===== *)
theory Sim_Clock
  imports Prelude
begin

text \<open>
  The clock of the benchmark (\<^verbatim>\<open>benchmark/src/clock.rs\<close>), which a server hands to the library as
  its \<^verbatim>\<open>PhysicalClock\<close>: a clock that drifts from the true time and is set right at every
  synchronisation. The random generator and the reading of the true time are parameters: the
  time elapsed since the clock was built is an argument of every operation, the generator's
  \<^verbatim>\<open>gen_range\<close> a function. Whatever the drift, readings never go back and stay within the
  configured uncertainty of the true time.
\<close>

subsection \<open>Times\<close>

text \<open>\<^verbatim>\<open>d.as_secs() as i64\<close> wraps; a duration is its seconds and its microseconds below a second.\<close>

definition i64_of_u64 :: "nat \<Rightarrow> int" where
  "i64_of_u64 n = (if n < 2 ^ 63 then int n else int n - 2 ^ 64)"

definition duration_to_us :: "nat \<times> nat \<Rightarrow> int" where
  "duration_to_us d = i64_saturating_add (i64_saturating_mul (i64_of_u64 (fst d)) 1000000) (int (snd d))"

text \<open>The system time in microseconds since the epoch; none when the clock is before it.\<close>

definition system_time_us :: "nat option \<Rightarrow> int" where
  "system_time_us since_epoch =
     (case since_epoch of
        Some us \<Rightarrow> if i64_max < int us then i64_max else int us
      | None \<Rightarrow> 0)"

definition abs_i64 :: "int \<Rightarrow> int" where
  "abs_i64 v = (if v < 0 then min (- v) i64_max else v)"

subsection \<open>The clock\<close>

record clock_config =
  cc_node_id :: node_id
  drift_rate_us_per_sec :: int
  sync_uncertainty_us :: int
  sync_period_us :: int
  seed :: "nat option"

record 'r clock_state =
  base_sim_offset_us :: int
  last_sim_us :: int
  next_resync_sim_us :: int
  rng :: 'r
  last_sync_true_time :: int
  last_true_time :: int
  last_sim_time :: int

record 'r clock =
  clk_cfg :: clock_config
  base_epoch_us :: int
  clk_state :: "'r clock_state"

text \<open>A failed \<^verbatim>\<open>assert!\<close> is a panic. The generator of a seed and a random seed are parameters.\<close>

definition clock_new :: "(nat \<Rightarrow> 'r) \<Rightarrow> nat \<Rightarrow> nat option \<Rightarrow> clock_config \<Rightarrow> 'r clock option" where
  "clock_new seed_from_u64 random_seed since_epoch cfg =
     (if \<not> 0 \<le> sync_uncertainty_us cfg \<or> \<not> 0 < sync_period_us cfg then None
      else
        let base = system_time_us since_epoch;
            sd = (case seed cfg of Some s \<Rightarrow> s | None \<Rightarrow> random_seed)
        in Some \<lparr>clk_cfg = cfg, base_epoch_us = base,
             clk_state = \<lparr>base_sim_offset_us = 0, last_sim_us = base,
               next_resync_sim_us = i64_saturating_add base (sync_period_us cfg),
               rng = seed_from_u64 sd, last_sync_true_time = base, last_true_time = base,
               last_sim_time = base\<rparr>\<rparr>)"

definition compute_true_time :: "nat \<times> nat \<Rightarrow> 'r clock \<Rightarrow> int" where
  "compute_true_time elapsed self = i64_saturating_add (base_epoch_us self) (duration_to_us elapsed)"

definition compute_sim_time :: "int \<Rightarrow> int \<Rightarrow> int \<Rightarrow> clock_config \<Rightarrow> int" where
  "compute_sim_time true_time offset last_sync cfg =
     (let sim_elapsed_us = i64_saturating_sub true_time last_sync;
          drift_us = rust_div (i64_saturating_mul sim_elapsed_us (drift_rate_us_per_sec cfg)) 1000000
      in i64_saturating_add (i64_saturating_add true_time offset) drift_us)"

definition allowed_range :: "int \<Rightarrow> clock_config \<Rightarrow> int \<times> int" where
  "allowed_range true_time cfg =
     (let bound = max (sync_uncertainty_us cfg) 0
      in (i64_saturating_sub true_time bound, i64_saturating_add true_time bound))"

definition clamp_sim_time :: "int \<Rightarrow> int \<Rightarrow> int \<Rightarrow> 'r clock_state \<Rightarrow> (int \<times> 'r clock_state) option" where
  "clamp_sim_time sim_time min_allowed max_allowed state =
     (let lower = max (last_sim_us state) min_allowed;
          clamped = (if sim_time < lower then lower
                     else if max_allowed < sim_time then max_allowed else sim_time)
      in if clamped \<noteq> sim_time then do {
           d \<leftarrow> i64_sub clamped sim_time;
           Some (clamped, state\<lparr>base_sim_offset_us := i64_saturating_add (base_sim_offset_us state) d\<rparr>)
         } else Some (clamped, state))"

text \<open>The loops may run forever at the end of the time range: then they have no value.\<close>

partial_function (option) next_resync :: "int \<Rightarrow> int \<Rightarrow> int \<Rightarrow> int option" where
  "next_resync true_time period nxt =
     (if nxt \<le> true_time then next_resync true_time period (i64_saturating_add nxt period) else Some nxt)"

definition resync_at :: "int \<Rightarrow> clock_config \<Rightarrow> 'r clock_state \<Rightarrow> 'r clock_state option" where
  "resync_at true_time cfg state = do {
     let (min_allowed, max_allowed) = allowed_range true_time cfg;
     let target_time = i64_saturating_add true_time 0;
     let clamped_target = (if target_time < min_allowed then min_allowed
                           else if max_allowed < target_time then max_allowed else target_time);
     let period = sync_period_us cfg;
     nxt \<leftarrow> (if 0 < period then next_resync true_time period (next_resync_sim_us state)
            else Some (next_resync_sim_us state));
     Some (state\<lparr>base_sim_offset_us := i64_saturating_sub clamped_target true_time,
                 last_sync_true_time := true_time, next_resync_sim_us := nxt\<rparr>)
   }"

partial_function (option) resync_loop :: "int \<Rightarrow> clock_config \<Rightarrow> 'r clock_state \<Rightarrow> 'r clock_state option" where
  "resync_loop true_time cfg state =
     (if next_resync_sim_us state \<le> true_time
      then Option.bind (resync_at (next_resync_sim_us state) cfg state) (resync_loop true_time cfg)
      else Some state)"

text \<open>The part \<^verbatim>\<open>get_time\<close> and \<^verbatim>\<open>get_time_with_uncertainty\<close> share.\<close>

definition read_clock :: "int \<Rightarrow> clock_config \<Rightarrow> 'r clock_state \<Rightarrow> (int \<times> 'r clock_state) option" where
  "read_clock true_time cfg state = do {
     state \<leftarrow> resync_loop true_time cfg state;
     let sim_time = compute_sim_time true_time (base_sim_offset_us state) (last_sync_true_time state) cfg;
     let (min_allowed, max_allowed) = allowed_range true_time cfg;
     (clamped, state) \<leftarrow> clamp_sim_time sim_time min_allowed max_allowed state;
     Some (clamped, state\<lparr>last_sim_us := clamped, last_true_time := true_time, last_sim_time := clamped\<rparr>)
   }"

definition clk_get_time :: "nat \<times> nat \<Rightarrow> 'r clock \<Rightarrow> (int \<times> 'r clock) option" where
  "clk_get_time elapsed self = do {
     (t, state) \<leftarrow> read_clock (compute_true_time elapsed self) (clk_cfg self) (clk_state self);
     Some (t, self\<lparr>clk_state := state\<rparr>)
   }"

text \<open>The random uncertainty between the actual error and the configured bound.\<close>

definition draw_uncertainty :: "('r \<Rightarrow> int \<Rightarrow> int \<Rightarrow> int \<times> 'r) \<Rightarrow> clock_config \<Rightarrow> 'r clock_state \<Rightarrow>
    (int \<times> 'r clock_state) option" where
  "draw_uncertainty gen_range cfg state = do {
     d \<leftarrow> i64_sub (last_sim_time state) (last_true_time state);
     let error_abs = abs_i64 d;
     let upper = max (sync_uncertainty_us cfg) error_abs;
     Some (if upper = 0 \<or> upper = error_abs then (upper, state)
           else let (u, r) = gen_range (rng state) error_abs upper in (u, state\<lparr>rng := r\<rparr>))
   }"

definition clk_get_uncertainty :: "('r \<Rightarrow> int \<Rightarrow> int \<Rightarrow> int \<times> 'r) \<Rightarrow> 'r clock \<Rightarrow> (int \<times> 'r clock) option" where
  "clk_get_uncertainty gen_range self = do {
     (u, state) \<leftarrow> draw_uncertainty gen_range (clk_cfg self) (clk_state self);
     Some (u, self\<lparr>clk_state := state\<rparr>)
   }"

definition clk_get_time_with_uncertainty :: "('r \<Rightarrow> int \<Rightarrow> int \<Rightarrow> int \<times> 'r) \<Rightarrow> nat \<times> nat \<Rightarrow> 'r clock \<Rightarrow>
    ((int \<times> int) \<times> 'r clock) option" where
  "clk_get_time_with_uncertainty gen_range elapsed self = do {
     (t, state) \<leftarrow> read_clock (compute_true_time elapsed self) (clk_cfg self) (clk_state self);
     (u, state) \<leftarrow> draw_uncertainty gen_range (clk_cfg self) state;
     Some ((t, u), self\<lparr>clk_state := state\<rparr>)
   }"

definition get_last_true_time :: "'r clock \<Rightarrow> int" where
  "get_last_true_time self = last_true_time (clk_state self)"

subsection \<open>Synchronisation terminates\<close>

lemma next_resync_total:
  assumes "0 < period" "true_time < i64_max" "is_i64 true_time" "i64_min \<le> nxt"
  shows "\<exists>n. next_resync true_time period nxt = Some n \<and> true_time < n \<and> nxt \<le> n"
  using assms(4)
proof (induction "nat (true_time + 1 - nxt)" arbitrary: nxt rule: less_induct)
  case less
  show ?case
  proof (cases "nxt \<le> true_time")
    case True
    let ?n = "i64_saturating_add nxt period"
    have "nxt < ?n" using True assms less.prems by (auto simp: i64_saturating_add_def i64_clamp_def)
    then obtain n where "next_resync true_time period ?n = Some n" "true_time < n" "?n \<le> n"
      using less.hyps [of ?n] True less.prems by auto
    then show ?thesis using True \<open>nxt < ?n\<close> by (subst next_resync.simps) auto
  qed (subst next_resync.simps, simp)
qed

lemma resync_at_frame:
  assumes "resync_at t cfg s = Some s'"
  shows "last_sim_us s' = last_sim_us s" "last_true_time s' = last_true_time s" "last_sim_time s' = last_sim_time s"
    "rng s' = rng s"
  using assms by (auto simp: resync_at_def Let_def allowed_range_def split: if_splits)

lemma resync_at_total:
  assumes "0 < sync_period_us cfg" "true_time < i64_max" "is_i64 true_time" "i64_min \<le> next_resync_sim_us s"
  shows "\<exists>s'. resync_at true_time cfg s = Some s' \<and> true_time < next_resync_sim_us s'"
  using next_resync_total [OF assms] assms(1) by (auto simp: resync_at_def Let_def allowed_range_def)

lemma resync_loop_total:
  assumes "0 < sync_period_us cfg" "true_time < i64_max" "i64_min \<le> next_resync_sim_us s"
  shows "\<exists>s'. resync_loop true_time cfg s = Some s' \<and> true_time < next_resync_sim_us s' \<and>
    last_sim_us s' = last_sim_us s \<and> last_true_time s' = last_true_time s \<and>
    last_sim_time s' = last_sim_time s \<and> rng s' = rng s"
  using assms(3)
proof (induction "nat (true_time + 1 - next_resync_sim_us s)" arbitrary: s rule: less_induct)
  case less
  show ?case
  proof (cases "next_resync_sim_us s \<le> true_time")
    case True
    then have "next_resync_sim_us s < i64_max" "is_i64 (next_resync_sim_us s)"
      using assms(2) less.prems by (auto simp: is_i64_def)
    from resync_at_total [OF assms(1) this less.prems] obtain s1 where
      s1: "resync_at (next_resync_sim_us s) cfg s = Some s1" "next_resync_sim_us s < next_resync_sim_us s1" by blast
    then show ?thesis
      using less.hyps [of s1] less.prems True resync_at_frame [OF s1(1)]
      by (subst resync_loop.simps) auto
  qed (subst resync_loop.simps, simp)
qed

lemma resync_loop_idle: "t < next_resync_sim_us s \<Longrightarrow> resync_loop t cfg s = Some s"
  by (subst resync_loop.simps) simp

subsection \<open>Readings\<close>

text \<open>The last reading did not exceed the last true time by more than the uncertainty.\<close>

definition clock_inv :: "'r clock \<Rightarrow> bool" where
  "clock_inv c \<longleftrightarrow>
     0 \<le> sync_uncertainty_us (clk_cfg c) \<and> 0 < sync_period_us (clk_cfg c) \<and>
     i64_min \<le> next_resync_sim_us (clk_state c) \<and>
     last_sim_us (clk_state c) \<le> last_true_time (clk_state c) + sync_uncertainty_us (clk_cfg c)"

lemma clock_new_inv [invar]:
  "clock_new sd r now cfg = Some c \<Longrightarrow> clock_inv c"
  by (auto simp: clock_new_def clock_inv_def Let_def i64_saturating_add_def i64_clamp_def split: if_splits)

lemma read_clock_props:
  assumes "read_clock t cfg s = Some (r, s')"
    and "0 \<le> sync_uncertainty_us cfg" "0 < sync_period_us cfg" "i64_min \<le> next_resync_sim_us s"
    and "last_sim_us s \<le> last_true_time s + sync_uncertainty_us cfg" "last_true_time s \<le> t" "t < i64_max"
    and "is_i64 (t - sync_uncertainty_us cfg)" "is_i64 (t + sync_uncertainty_us cfg)"
  shows "last_sim_us s \<le> r" "t - sync_uncertainty_us cfg \<le> r" "r \<le> t + sync_uncertainty_us cfg"
    "last_sim_us s' = r" "last_true_time s' = t" "last_sim_time s' = r" "t < next_resync_sim_us s'" "rng s' = rng s"
proof -
  obtain s1 where s1: "resync_loop t cfg s = Some s1" "t < next_resync_sim_us s1"
    "last_sim_us s1 = last_sim_us s" "rng s1 = rng s"
    using resync_loop_total [OF assms(3,7,4)] by blast
  let ?e = "sync_uncertainty_us cfg"
  have range: "allowed_range t cfg = (t - ?e, t + ?e)"
    using assms(2,8,9) by (simp add: allowed_range_def Let_def i64_saturating_add_def i64_saturating_sub_def i64_clamp_id)
  obtain s2 where c: "clamp_sim_time (compute_sim_time t (base_sim_offset_us s1) (last_sync_true_time s1) cfg)
      (t - ?e) (t + ?e) s1 = Some (r, s2)"
    and s': "s' = s2\<lparr>last_sim_us := r, last_true_time := t, last_sim_time := r\<rparr>"
    using assms(1) s1(1) range by (auto simp: read_clock_def Let_def)
  have s2: "next_resync_sim_us s2 = next_resync_sim_us s1" "rng s2 = rng s1"
    using c by (auto simp: clamp_sim_time_def Let_def split: if_splits)
  have "last_sim_us s \<le> t + ?e" using assms(5,6) by linarith
  then show "last_sim_us s \<le> r" "t - ?e \<le> r" "r \<le> t + ?e"
    using c assms(2) s1(3) by (auto simp: clamp_sim_time_def Let_def split: if_splits)
  show "last_sim_us s' = r" "last_true_time s' = t" "last_sim_time s' = r" "t < next_resync_sim_us s'" "rng s' = rng s"
    using s1(2,4) s2 by (simp_all add: s')
qed

end
