(* ===== verification/Examples.thy ===== *)
theory Examples
  imports Omni_Paxos Fast_Votes Kv_Store Sim_Clock
begin

text \<open>
  A concrete cluster of three nodes: node 1 leads, nodes 2 and 3 follow, log entries are
  numbers. The properties are applied to these states.
\<close>

subsection \<open>States\<close>

definition ex_env :: "(nat, nat list) env" where
  "ex_env = \<lparr>snap_create = Some, snap_merge = (\<lambda>a b. Some (a @ b)), use_snapshots = False,
     hash_with = (\<lambda>i d. of_nat (command_id i + 1)), map_iter = id\<rparr>"

definition ex_cluster :: cluster_config where
  "ex_cluster = \<lparr>configuration_id = 1, nodes = [1, 2, 3], flexible_quorum = None\<rparr>"

definition ex_config :: "nat \<Rightarrow> omni_paxos_config" where
  "ex_config p = \<lparr>opc_cluster_config = ex_cluster, opc_server_config = server_config_default\<lparr>svc_pid := p\<rparr>\<rparr>"

definition ex_clock :: "nat \<Rightarrow> clock_timestamp" where
  "ex_clock k = (int k * 1000, 0)"

definition ex_ballot :: ballot where
  "ex_ballot = Ballot 1 1 0 1"

definition ex_storage :: "ballot \<Rightarrow> nat list \<Rightarrow> nat \<Rightarrow> (nat, nat list) internal_storage" where
  "ex_storage b l d =
     \<lparr>is_storage = \<lparr>ms_log = l, ms_n_prom = Some b, ms_acc_round = Some b, ms_ld = d,
        ms_trimmed_idx = 0, ms_compacted_idx = 0, ms_snapshot = None, ms_stopsign = None\<rparr>,
      is_cache = \<lparr>sc_batch_size = 1, sc_batched_entries = [], sc_promise = b, sc_accepted_round = b,
        sc_decided_idx = d, sc_accepted_idx = length l, sc_compacted_idx = 0, sc_stopsign = None\<rparr>\<rparr>"

definition ex_node :: "nat \<Rightarrow> role \<times> phase \<Rightarrow> (nat, nat list) sequence_paxos" where
  "ex_node p st =
     \<lparr>sp_dom = dom_new (owd_config_default\<lparr>strategy := Fixed\<rparr>) ex_clock p,
      sp_store = ex_storage ex_ballot [7, 8] 1, sp_pid = p, sp_peers = peers_of ex_cluster p,
      sp_state = st, buffered_proposals = [], buffered_stopsign = None, outgoing = [],
      sp_leader = leader_state_with ex_ballot 3 (Majority 2),
      latest_accepted_meta = None, current_seq_num = SequenceNumber 1 1,
      cached_promise_message = None, unsynced_log = [], accepted_prefix_hash = 5,
      unsynced_hash = 0, enable_fast_path = True, fast_path_decisions = 0, slow_path_decisions = 0\<rparr>"

definition ex_promised :: "nat \<Rightarrow> promise_state" where
  "ex_promised p = Promised \<lparr>pmd_n_accepted = ex_ballot, pmd_accepted_idx = 2, pmd_decided_idx = 1, pmd_pid = p\<rparr>"

definition ex_leader :: "(nat, nat list) sequence_paxos" where
  "ex_leader = (ex_node 1 (LeaderRole, PhaseAccept))\<lparr>
     sp_leader := (leader_state_with ex_ballot 3 (Majority 2))\<lparr>
       promises_meta := map ex_promised [1, 2, 3], accepted_indexes := [2, 2, 2],
       follower_seq_nums := [default_seq_num, SequenceNumber 1 1, SequenceNumber 1 1]\<rparr>\<rparr>"

definition ex_follower :: "nat \<Rightarrow> (nat, nat list) sequence_paxos" where
  "ex_follower p = ex_node p (FollowerRole, PhaseAccept)"

lemmas ex_defs = ex_env_def ex_cluster_def ex_clock_def ex_ballot_def ex_storage_def ex_node_def
  ex_promised_def ex_leader_def ex_follower_def leader_state_with_def dom_new_def owd_config_default_def
  owd_estimator_with_config_def outgoing_owd_tracker_new_def eb_new_def peers_of_def

definition ex_omni :: "nat \<Rightarrow> (nat, nat list) sequence_paxos \<Rightarrow> (nat, nat list) omni_paxos" where
  "ex_omni p sp =
     \<lparr>seq_paxos = sp,
      op_ble = \<lparr>ble_configuration_id = 1, ble_pid = p, ble_peers = peers_of ex_cluster p, hb_round = 1,
        heartbeat_replies = [], prev_replies = [], current_ballot = Ballot 1 1 0 p, leader = ex_ballot,
        happy = True, ble_quorum = Majority 2, ble_outgoing = []\<rparr>,
      election_clock = logical_clock_with 5, resend_message_clock = logical_clock_with 100,
      flush_batch_clock = logical_clock_with 200, release_requests_clock = logical_clock_with 1\<rparr>"

lemma ex_follower_sel [simp]:
  "unsynced_log (ex_follower p) = []" "enable_fast_path (ex_follower p)" "unsynced_inv (ex_follower p)"
  "get_accepted_idx (sp_store (ex_follower p)) = 2"
  by (simp_all add: unsynced_inv_def ex_defs default_hash_def get_defs)

lemma ex_valid [simp]: "valid_server (ex_cluster, Suc 0)"
  by (simp add: valid_server_def valid_cluster_iff ex_cluster_def)

lemma ex_members [simp]: "server_members (ex_cluster, Suc 0) = {1, 2, 3}" "server_num_nodes (ex_cluster, Suc 0) = 3"
  by (auto simp: server_members_def server_num_nodes_def num_nodes_of_def peers_of_def ex_cluster_def)

lemma ex_in_sync: "p = 2 \<or> p = 3 \<Longrightarrow> in_sync p ex_leader (ex_follower p)"
  by (auto simp: in_sync_def ex_defs pending_log_def get_defs ballot_cmp_Equal get_seq_num_def pid_to_idx_def vec_get_def checked_sub_def numeral_2_eq_2 numeral_3_eq_3)

lemma ex_storage_inv: "d \<le> length l \<Longrightarrow> log_inv (ex_storage b l d)"
  by (simp add: log_inv_def storage_wf_def ex_storage_def get_defs)

definition ex_unsynced :: "nat unsynced_log_entry" where
  "ex_unsynced = \<lparr>ule_entry = 100, ule_entry_id = EntryId 9 1, ule_deadline = 4000, ule_entry_hash = 2,
     ule_prefix_hash = 5\<rparr>"

text \<open>Node 2 has collected the promises of itself and of node 3.\<close>

definition ex_recovering :: "(nat, nat list) sequence_paxos" where
  "ex_recovering = (ex_node 2 (LeaderRole, PhasePrepare))\<lparr>
     sp_store := set_promise (Ballot 1 2 0 2) (ex_storage ex_ballot [7, 8] 1),
     sp_leader := (leader_state_with (Ballot 1 2 0 2) 3 (Majority 2))\<lparr>
       promises_meta := [NotPromised, ex_promised 2, ex_promised 3],
       max_promise_meta := \<lparr>pmd_n_accepted = ex_ballot, pmd_accepted_idx = 2, pmd_decided_idx = 1, pmd_pid = 2\<rparr>,
       max_promise_accepted_hash := 5,
       unsynced_log_store := [[], [(3, ex_unsynced)], [(3, ex_unsynced)]]\<rparr>,
     unsynced_log := [(3, ex_unsynced)]\<rparr>"

lemma ex_recovering_sel:
  "unsynced_log_store (sp_leader ex_recovering) = [[], [(3, ex_unsynced)], [(3, ex_unsynced)]]"
  "max_promise_accepted_hash (sp_leader ex_recovering) = 5" "length (sp_peers ex_recovering) = 2"
  by (simp_all add: ex_recovering_def ex_defs)

lemma ex_reports:
  "reports (sp_leader ex_recovering) k x g p \<longleftrightarrow> (p = 2 \<or> p = 3) \<and> k = 3 \<and> x = 5 \<and> g = 2"
  by (auto simp: reports_def ex_recovering_sel ex_unsynced_def less_Suc_eq numeral_3_eq_3 nth_Cons'
      split: if_splits)

lemma ex_reported:
  "p = 2 \<or> p = 3 \<Longrightarrow> map_of (unsynced_log_store (sp_leader ex_recovering) ! (p - 1)) 3 = Some ex_unsynced"
  by (auto simp: ex_recovering_sel numeral_2_eq_2 numeral_3_eq_3)

lemma ex_fast_decisions: "fast_decisions (ex_cluster, Suc 0) {2, 3} (sp_leader ex_recovering) 2 5 [(2, EntryId 9 1, 100)]"
proof -
  have "\<exists>F \<subseteq> {1, 2, 3::nat}. fast_quorum 3 \<le> card F"
    by (intro exI [of _ "{1, 2, 3}"]) (simp add: fast_quorum_def)
  then show ?thesis
    by (auto simp: fast_decided_def ex_reports ex_recovering_sel ex_unsynced_def)
qed

subsection \<open>Evaluation\<close>

text \<open>The definitions the simplifier unfolds to run the handlers on concrete states.\<close>

lemma recovery_loop_unfold:
  "recovery_step r = Some (Some q) \<Longrightarrow> recovery_loop r = recovery_loop q"
  "recovery_step r = Some None \<Longrightarrow> recovery_loop r = Some r"
  by (subst recovery_loop.simps, simp)+

lemma remove_loop_unfold:
  "remove_loop i [] n r = (r, n)"
  "remove_loop i (e # h) n r =
     (if dp_entry_id (eb_proposal e) = i then remove_loop i h n (Some (eb_proposal e))
      else remove_loop i h (heap_push e n) r)"
  by (subst remove_loop.simps, simp)+

lemmas majority_evals = handle_majority_promises_def take_max_promise_sync_def get_max_decided_idx_def
  promised_decided_def sync_log_def ms_defs recovery_loop_unfold recovery_step_def get_matched_unsynced_entries_def
  match_entry_def recover_threshold_def append_defs get_defs repropose_def append_buffered_def
  ls_set_accepted_idx_def get_promised_followers_def send_accsync_def get_promise_meta_def ls_get_decided_idx_def
  create_log_sync_def increment_seq_num_session_def next_seq_num_def pid_to_idx_def vec_get_def vec_set_def
  checked_sub_def accepted_reconfiguration_def is_promised_def sp_get_decided_idx_def set_promise_def
  insert_recovered_remote_entry_id_def expect_def Let_def remove_from_buffers_def eb_remove_def remove_loop_unfold


definition ex_prop :: "nat \<Rightarrow> nat \<Rightarrow> int \<Rightarrow> nat dom_propose" where
  "ex_prop k e dl = \<lparr>dp_entry_id = EntryId 9 k, dp_sender = 2, dp_sent_time = (0, 0), dp_deadline = dl, dp_entry = e\<rparr>"

definition ex_voter :: "nat \<Rightarrow> (nat, nat list) sequence_paxos" where
  "ex_voter p = release_on_follower ex_env (ex_prop 1 100 4000) (ex_follower p)"

definition ex_vote :: "nat \<Rightarrow> (nat, nat list) paxos_message" where
  "ex_vote p = \<lparr>pm_from = p, pm_to = 1, pm_msg = FastAccepted
     \<lparr>fa_n = ex_ballot, fa_idx = 3, fa_entry_hash = 2, fa_prefix_hash = 5\<rparr>\<rparr>"

lemma ex_voter_sends: "outgoing (ex_voter p) = [SequencePaxos (ex_vote p)]"
  "unsynced_log (ex_voter p) = [(3, ex_unsynced)]"
  by (simp_all add: ex_voter_def ex_vote_def ex_defs ex_prop_def ex_unsynced_def release_on_follower_def
     Let_def send_to_def get_current_leader_def sp_get_promise_def get_defs extend_hash_def)

lemmas leader_evals = sp_handle_def handle_fast_accepted_def set_accepted_map_def try_fast_decide_idx_def
  fast_decidable_def handle_dom_release_def release_on_leader_def accept_entry_leader_def
  send_acceptdecide_def acceptdecide_to_def get_latest_accdec_message_def get_latest_accept_meta_def
  take_pending_accept_meta_def push_pending_accept_meta_def ls_get_accepted_idx_def set_latest_accept_meta_def
  prune_accepted_map_def send_decide_def message_seq_num_def has_recovered_remote_entry_id_def fast_quorum_def
  set_decided_idx_def

lemmas takeover_evals = handle_leader_def handle_prepare_def handle_promise_prepare_def ls_set_promise_def
  promise_cmp_def less_eq_ballot_def less_ballot_def ballot_cmp_def cmp_def then_cmp_def set_unsynced_log_def
  sp_get_promise_def send_to_peers_outgoing default_ballot_def default_promise_meta_def

lemma ex_lists: "replicate 3 x = [x, x, x]" "[a, b, c][2 := x] = [a, b, x]" "[a, b, c][Suc 0 := x] = [a, x, c]"
  by (simp_all add: numeral_3_eq_3 numeral_2_eq_2)

definition ex_acceptdecide :: "sequence_number \<Rightarrow> nat accept_decide" where
  "ex_acceptdecide q = \<lparr>ad_n = ex_ballot, ad_seq_num = q, ad_decided_idx = 2, ad_entries = [9],
     ad_entry_meta = [\<lparr>aem_entry_id = EntryId 9 5, aem_deadline = 3000\<rparr>], ad_log_prefix_hash = 6\<rparr>"

definition ex_accept :: "sequence_number \<Rightarrow> (nat, nat list) paxos_message" where
  "ex_accept q = \<lparr>pm_from = 1, pm_to = 2, pm_msg = AcceptDecide (ex_acceptdecide q)\<rparr>"

lemma ex_accept_sel: "pm_msg (ex_accept q) = AcceptDecide (ex_acceptdecide q)"
  by (simp add: ex_accept_def)

lemmas follower_evals = sp_handle_def handle_acceptdecide_def check_valid_ballot_def handle_sequence_num_def
  check_msg_status_def less_eq_sequence_number_def cleanup_fast_path_metadata_def rebuild_unsynced_tail_def
  update_decided_idx_and_get_accepted_idx_def reply_accepted_def get_latest_accepted_message_def
  reconnected_def get_current_leader_def handle_decide_def sp_get_promise_def get_defs
  ballot_cmp_def then_cmp_def cmp_def Let_def remove_from_buffers_def eb_remove_def remove_loop_unfold
  append_defs ms_defs set_decided_idx_def

lemmas build_evals = omni_paxos_build_def omni_paxos_config_validate_def cluster_config_validate_def
  server_config_validate_def server_config_default_def owd_config_default_def owd_config_validate_def
  ble_config_of_def sequence_paxos_config_of_def ble_with_def sequence_paxos_with_def new_hb_round_def
  valid_config_def peers_of_def Let_def u32_inc_def logical_clock_with_def

text \<open>A leader that has decided a stop sign, and a node that knows more to be decided than its leader.\<close>

definition ex_stopsign :: stop_sign where
  "ex_stopsign = stop_sign_with ex_cluster None"

definition ex_stopped :: "(nat, nat list) sequence_paxos" where
  "ex_stopped = ex_leader\<lparr>
     sp_store := set_decided_idx 3 (snd (append_stopsign ex_stopsign (ex_storage ex_ballot [7, 8] 1)))\<rparr>"

definition ex_behind :: "nat \<Rightarrow> (nat, nat list) sequence_paxos" where
  "ex_behind d = (ex_node 3 (FollowerRole, PhasePrepare))\<lparr>sp_store := ex_storage ex_ballot [7, 8] d\<rparr>"

lemmas read_evals = read_decided_suffix_def read_def read_range_def get_entry_type_def
  create_read_log_entries_def append_stopsign_def sc_append_stopsign_def
  flush_if_full_batch_def set_decided_idx_def slice_def Let_def

lemmas sync_evals = send_accsync_def get_promise_meta_def ls_get_decided_idx_def create_log_sync_def
  increment_seq_num_session_def next_seq_num_def pid_to_idx_def vec_get_def vec_set_def checked_sub_def
  sp_get_decided_idx_def handle_acceptsync_def sync_log_def expect_def sync_snapshot_def try_res_def
  check_valid_ballot_def sp_get_promise_def ballot_cmp_def then_cmp_def cmp_def get_defs ms_defs Let_def

text \<open>Node 2 hears from node 3 only; neither hears from the leader any more.\<close>

definition ex_candidate :: ble where
  "ex_candidate = \<lparr>ble_configuration_id = 1, ble_pid = 2, ble_peers = [1, 3], hb_round = 1,
     heartbeat_replies = [\<lparr>hrep_round = 1, hrep_ballot = Ballot 1 0 0 3, hrep_leader = ex_ballot, hrep_happy = False\<rparr>],
     prev_replies = [], current_ballot = Ballot 1 0 0 2, leader = ex_ballot, happy = True,
     ble_quorum = Majority 2, ble_outgoing = []\<rparr>"

lemmas ble_evals = update_leader_def update_happiness_def sync_promise_def new_hb_round_Some
  less_eq_ballot_def less_ballot_def ballot_cmp_def cmp_def then_cmp_def u32_inc_def Let_def

text \<open>A log of three commands on one key, and a clock that gains half a second every second.\<close>

definition ex_command :: "kv_command \<Rightarrow> command" where
  "ex_command c = \<lparr>client_id = 1, coordinator_id = 1, cmd_id = 1, kv_cmd = c\<rparr>"

definition ex_kv_storage :: "(command, kv_snapshot) internal_storage" where
  "ex_kv_storage =
     (let l = map ex_command [Put ''a'' ''1'', Put ''a'' ''2'', Delete ''a''] in
     \<lparr>is_storage = \<lparr>ms_log = l, ms_n_prom = Some ex_ballot, ms_acc_round = Some ex_ballot, ms_ld = 3,
        ms_trimmed_idx = 0, ms_compacted_idx = 0, ms_snapshot = None, ms_stopsign = None\<rparr>,
      is_cache = \<lparr>sc_batch_size = 1, sc_batched_entries = [], sc_promise = ex_ballot, sc_accepted_round = ex_ballot,
        sc_decided_idx = 3, sc_accepted_idx = 3, sc_compacted_idx = 0, sc_stopsign = None\<rparr>\<rparr>)"

definition ex_sim_clock :: "nat clock" where
  "ex_sim_clock =
     \<lparr>clk_cfg = \<lparr>cc_node_id = 1, drift_rate_us_per_sec = 500000, sync_uncertainty_us = 100,
        sync_period_us = 1000000, seed = Some 0\<rparr>,
      base_epoch_us = 1000,
      clk_state = \<lparr>base_sim_offset_us = 0, last_sim_us = 1000, next_resync_sim_us = 1001000, rng = 0,
        last_sync_true_time = 1000, last_true_time = 1000, last_sim_time = 1000\<rparr>\<rparr>"

lemma ex_true_time: "compute_true_time (0, 1000) ex_sim_clock = 2000"
  by (simp add: ex_sim_clock_def compute_true_time_def duration_to_us_def i64_of_u64_def i64_saturating_add_def
      i64_saturating_mul_def i64_clamp_def i64_min_def i64_max_def)

definition ex_read_state :: "nat clock_state" where
  "ex_read_state = \<lparr>base_sim_offset_us = - 400, last_sim_us = 2100, next_resync_sim_us = 1001000, rng = 0,
     last_sync_true_time = 1000, last_true_time = 2000, last_sim_time = 2100\<rparr>"

lemma ex_read_clock:
  "read_clock 2000 (clk_cfg ex_sim_clock) (clk_state ex_sim_clock) = Some (2100, ex_read_state)"
proof -
  have "compute_sim_time 2000 0 1000 (clk_cfg ex_sim_clock) = 2500"
    "allowed_range 2000 (clk_cfg ex_sim_clock) = (1900, 2100)"
    by (simp_all add: ex_sim_clock_def compute_sim_time_def allowed_range_def i64_saturating_add_def
        i64_saturating_sub_def i64_saturating_mul_def i64_clamp_def i64_min_def i64_max_def Let_def rust_div_def)
  moreover have "clamp_sim_time 2500 1900 2100 (clk_state ex_sim_clock) =
    Some (2100, (clk_state ex_sim_clock)\<lparr>base_sim_offset_us := - 400\<rparr>)"
    by (simp add: ex_sim_clock_def clamp_sim_time_def Let_def is_i64_def i64_saturating_add_def i64_clamp_def
        i64_min_def i64_max_def)
  ultimately show ?thesis
    by (simp add: read_clock_def resync_loop_idle) (simp add: ex_sim_clock_def resync_loop_idle ex_read_state_def)
qed

lemma ex_clock_reading:
  "clk_get_time_with_uncertainty (\<lambda>g lo hi. (hi, g)) (0, 1000) ex_sim_clock =
     Some ((2100, 100), ex_sim_clock\<lparr>clk_state := ex_read_state\<rparr>)"
  by (simp add: clk_get_time_with_uncertainty_def ex_true_time ex_read_clock)
    (simp add: draw_uncertainty_def ex_read_state_def abs_i64_def is_i64_def i64_min_def i64_max_def ex_sim_clock_def)

section \<open>Retransmission\<close>

declare recovery_loop.simps [code]

text \<open>The messages to one node, and the promise of node 3 to the example leader once more.\<close>

definition ex_to :: "nat \<Rightarrow> (nat, nat list) message list \<Rightarrow> (nat, nat list) paxos_message list" where
  "ex_to p ms = List.map_filter (\<lambda>m. case m of SequencePaxos q \<Rightarrow> if pm_to q = p then Some q else None | _ \<Rightarrow> None) ms"

definition ex_promise :: "(nat, nat list) paxos_message" where
  "ex_promise = \<lparr>pm_from = 3, pm_to = 1, pm_msg = Promise \<lparr>prom_n = ex_ballot, prom_n_accepted = ex_ballot,
     prom_decided_idx = 1, prom_accepted_idx = 2, prom_log_sync = None, prom_log_unsync = Some [],
     prom_log_prefix_hash = 5\<rparr>\<rparr>"

end
