(* ===== verification/Cluster_Runs.thy ===== *)
theory Cluster_Runs
  imports Cluster_Progress Examples
begin

text \<open>
  The cluster as a program: a schedule of actions is run step by step. The steps of the relation
  are exactly the actions that succeed. A run of three nodes with two leaders is the concrete
  instance of the properties of the cluster.
\<close>

subsection \<open>Schedules\<close>

datatype 'e cluster_action =
  Deliver node_id node_id
| Lose node_id node_id nat
| Elect node_id ballot
| ProposeAt node_id 'e entry_id
| ReleaseAt node_id "'e dom_propose"
| Resend node_id
| Flush node_id
| Reconnect node_id node_id
| Restart node_id sequence_paxos_config "nat \<Rightarrow> clock_timestamp"

definition on_node :: "cluster_config \<Rightarrow> node_id \<Rightarrow> ('e, 's) sequence_paxos option \<Rightarrow> ('e, 's) cluster \<Rightarrow> ('e, 's) cluster option" where
  "on_node C p r c = (if p \<in> set (nodes C) then map_option (\<lambda>s. post p s c) r else None)"

fun run_action :: "('e, 's) env \<Rightarrow> cluster_config \<Rightarrow> 'e cluster_action \<Rightarrow> ('e, 's) cluster \<Rightarrow> ('e, 's) cluster option" where
  "run_action env C (Deliver p q) c =
     (case cl_links c p q of
        [] \<Rightarrow> None
      | m # ms \<Rightarrow> if p \<in> set (nodes C)
          then on_node C q (sp_handle env \<lparr>pm_from = p, pm_to = q, pm_msg = m\<rparr> (cl_nodes c q)) (set_link p q ms c) else None)"
| "run_action env C (Lose p q i) c =
     (if i < length (cl_links c p q)
      then Some (set_link p q (take i (cl_links c p q) @ drop (Suc i) (cl_links c p q)) c) else None)"
| "run_action env C (Elect p b) c =
     (if ballot_config_id b = configuration_id C \<and> ballot_pid b \<in> set (nodes C)
      then on_node C p (handle_leader b (cl_nodes c p)) c else None)"
| "run_action env C (ProposeAt p e i) c = on_node C p (map_option snd (append_with_id e i (cl_nodes c p))) c"
| "run_action env C (ReleaseAt p prop) c = on_node C p (handle_dom_release env prop (cl_nodes c p)) c"
| "run_action env C (Resend p) c = on_node C p (resend_message_timeout (cl_nodes c p)) c"
| "run_action env C (Flush p) c = on_node C p (flush_batch_timeout (cl_nodes c p)) c"
| "run_action env C (Reconnect p q) c = on_node C p (Some (reconnected q (cl_nodes c p))) c"
| "run_action env C (Restart p cfg clock) c =
     (if plain_config C p cfg then on_node C p (sequence_paxos_with cfg (is_storage (sp_store (cl_nodes c p))) clock) c
      else None)"

lemma on_node_Some: "on_node C p r c = Some c' \<longleftrightarrow> p \<in> set (nodes C) \<and> (\<exists>s. r = Some s \<and> c' = post p s c)"
  by (auto simp: on_node_def)

lemma run_action_step:
  assumes "run_action env C a c = Some c'"
  shows "cluster_step env C c c'"
proof (cases a)
  case (Deliver p q)
  then obtain m ms where "cl_links c p q = m # ms" using assms by (cases "cl_links c p q") auto
  then show ?thesis using assms Deliver by (auto simp: on_node_Some set_link_def [of p q ms c] split: if_splits intro: cl_deliver [unfolded set_link_def])
next
  case (Lose p q i)
  then have "i < length (cl_links c p q)" using assms by (auto split: if_splits)
  then have "cl_links c p q = take i (cl_links c p q) @ cl_links c p q ! i # drop (Suc i) (cl_links c p q)"
    by (rule id_take_nth_drop)
  from cl_lose [OF this] show ?thesis using assms Lose by (auto split: if_splits)
qed (use assms in \<open>auto simp: on_node_Some split: if_splits intro: cluster_step.intros\<close>)

lemma step_run_action:
  assumes "cluster_step env C c c'"
  shows "\<exists>a. run_action env C a c = Some c'"
  using assms
proof cases
  case (cl_deliver p q m ms s)
  then show ?thesis by (intro exI [of _ "Deliver p q"]) (auto simp: on_node_def set_link_def)
next
  case (cl_lose p q ms m ms')
  then show ?thesis by (intro exI [of _ "Lose p q (length ms)"]) simp
next
  case (cl_elect p b s)
  then show ?thesis by (intro exI [of _ "Elect p b"]) (simp add: on_node_def)
next
  case (cl_propose p e i r s)
  then show ?thesis by (intro exI [of _ "ProposeAt p e i"]) (simp add: on_node_def)
next
  case (cl_release p x s)
  then show ?thesis by (intro exI [of _ "ReleaseAt p x"]) (simp add: on_node_def)
next
  case (cl_resend p s)
  then show ?thesis by (intro exI [of _ "Resend p"]) (simp add: on_node_def)
next
  case (cl_flush p s)
  then show ?thesis by (intro exI [of _ "Flush p"]) (simp add: on_node_def)
next
  case (cl_reconnect p q)
  then show ?thesis by (intro exI [of _ "Reconnect p q"]) (simp add: on_node_def)
next
  case (cl_restart p cfg clock s)
  then show ?thesis by (intro exI [of _ "Restart p cfg clock"]) (simp add: on_node_def)
qed

lemma run_steps: "for_each (run_action env C) as c = Some c' \<Longrightarrow> (cluster_step env C)\<^sup>*\<^sup>* c c'"
proof (induction as arbitrary: c)
  case (Cons a as)
  then obtain d where "run_action env C a c = Some d" "for_each (run_action env C) as d = Some c'" by auto
  then show ?case using Cons.IH run_action_step converse_rtranclp_into_rtranclp by metis
qed simp

subsection \<open>A run\<close>

definition ex_slow_config :: "nat \<Rightarrow> sequence_paxos_config" where
  "ex_slow_config p = \<lparr>spc_pid = p, spc_peers = peers_of ex_cluster p, spc_batch_size = 1,
     spc_owd_config = owd_config_default, spc_enable_fast_path = False, spc_flexible_quorum = None\<rparr>"

definition ex_new :: "nat \<Rightarrow> ('e, 's) sequence_paxos" where
  "ex_new p = the (sequence_paxos_with (ex_slow_config p) ms_default ex_clock)"

definition ex_started :: "('e, 's) cluster" where
  "ex_started = \<lparr>cl_nodes = (\<lambda>_. ex_new 1)(2 := ex_new 2, 3 := ex_new 3), cl_links = \<lambda>_ _. []\<rparr>"

text \<open>Node \<open>p\<close> becomes leader with the promise of node 2, releases a proposal and decides it; the
  acceptance of the first synchronisation is lost.\<close>

definition ex_term :: "node_id \<Rightarrow> ballot \<Rightarrow> 'e dom_propose \<Rightarrow> 'e cluster_action list" where
  "ex_term p b x = [Elect p b, Deliver p 2, Deliver 2 p, Deliver p 2, ReleaseAt p x,
     Deliver p 2, Lose 2 p 0, Deliver 2 p, Deliver p 2]"

definition ex_first_leader :: "nat cluster_action list" where
  "ex_first_leader = ex_term 1 (Ballot 1 1 0 1) (ex_prop 11 21 100)"

definition ex_second_leader :: "nat cluster_action list" where
  "ex_second_leader = ex_term 3 (Ballot 1 2 0 3) (ex_prop 12 22 200)"

text \<open>What the nodes show after a run.\<close>

definition ex_shown :: "(nat, nat list) cluster \<Rightarrow> ((role \<times> phase) \<times> ballot \<times> ballot \<times> nat list \<times> nat list) list" where
  "ex_shown c = map (\<lambda>p. (sp_state (cl_nodes c p), node_promise (cl_nodes c p), node_round (cl_nodes c p),
     node_log (cl_nodes c p), decided_log (cl_nodes c p))) [1, 2, 3]"

lemma ex_first_run: "map_option (\<lambda>c. (ex_shown c, slots ex_cluster (sp_leader (cl_nodes c 1)), in_step 1 2 c,
      has_recovered_remote_entry_id (EntryId 9 12) (sp_leader (cl_nodes c 1))))
    (for_each (run_action ex_env ex_cluster) ex_first_leader ex_started) =
  Some ([((LeaderRole, PhaseAccept), Ballot 1 1 0 1, Ballot 1 1 0 1, [21], [21]),
         ((FollowerRole, PhaseAccept), Ballot 1 1 0 1, Ballot 1 1 0 1, [21], [21]),
         ((FollowerRole, PhaseNone), default_ballot, default_ballot, [], [])], True, True, False)"
  by code_simp

lemma ex_second_run: "map_option ex_shown (for_each (run_action ex_env ex_cluster) (take 8 ex_first_leader @ take 3 ex_second_leader) ex_started) =
   Some [((LeaderRole, PhaseAccept), Ballot 1 1 0 1, Ballot 1 1 0 1, [21], [21]),
         ((FollowerRole, PhasePrepare), Ballot 1 2 0 3, Ballot 1 1 0 1, [21], []),
         ((LeaderRole, PhaseAccept), Ballot 1 2 0 3, Ballot 1 2 0 3, [21], [])]"
  by code_simp

lemma ex_cluster_plain:
  "plain_env ex_env" "valid_cluster ex_cluster" "distinct (nodes ex_cluster)"
  by (simp_all add: plain_env_def ex_env_def valid_cluster_iff) (simp_all add: ex_cluster_def)

lemma ex_started_init: "cluster_init ex_cluster ex_started"
proof -
  have "plain_config ex_cluster p (ex_slow_config p)" for p
    by (simp add: plain_config_def ex_slow_config_def ex_cluster_def)
  moreover have "sequence_paxos_with (ex_slow_config p) ms_default ex_clock = Some (ex_new p)" for p
  proof -
    have "spc_peers (ex_slow_config p) \<noteq> []" by (simp add: ex_slow_config_def ex_cluster_def peers_of_def)
    then obtain m where "iter_max (spc_peers (ex_slow_config p)) = Some m" by (cases "spc_peers (ex_slow_config p)") auto
    then show ?thesis by (simp add: ex_new_def sequence_paxos_with_def Let_def ms_default_def)
  qed
  ultimately show ?thesis unfolding cluster_init_def
    by (auto simp: ex_started_def ex_cluster_def fun_upd_def intro!: exI [of _ "ex_clock"])
qed

text \<open>The states the two runs end in.\<close>

lemma ex_first_reached:
  "\<exists>c. (cluster_step ex_env ex_cluster)\<^sup>*\<^sup>* ex_started c \<and> ex_shown c =
     [((LeaderRole, PhaseAccept), Ballot 1 1 0 1, Ballot 1 1 0 1, [21], [21]),
      ((FollowerRole, PhaseAccept), Ballot 1 1 0 1, Ballot 1 1 0 1, [21], [21]),
      ((FollowerRole, PhaseNone), default_ballot, default_ballot, [], [])] \<and>
     slots ex_cluster (sp_leader (cl_nodes c 1)) \<and> in_step 1 2 c \<and>
     \<not> has_recovered_remote_entry_id (EntryId 9 12) (sp_leader (cl_nodes c 1))"
proof -
  obtain c where c: "for_each (run_action ex_env ex_cluster) ex_first_leader ex_started = Some c"
    "(ex_shown c, slots ex_cluster (sp_leader (cl_nodes c 1)), in_step 1 2 c,
      has_recovered_remote_entry_id (EntryId 9 12) (sp_leader (cl_nodes c 1))) =
     ([((LeaderRole, PhaseAccept), Ballot 1 1 0 1, Ballot 1 1 0 1, [21], [21]),
       ((FollowerRole, PhaseAccept), Ballot 1 1 0 1, Ballot 1 1 0 1, [21], [21]),
       ((FollowerRole, PhaseNone), default_ballot, default_ballot, [], [])], True, True, False)"
    by (rule exE [OF ex_first_run [unfolded map_option_eq_Some]]) (elim conjE, rule that)
  then show ?thesis using run_steps [OF c(1)] by (intro exI [of _ c]) simp
qed

lemma ex_second_reached:
  "\<exists>c. (cluster_step ex_env ex_cluster)\<^sup>*\<^sup>* ex_started c \<and> ex_shown c =
     [((LeaderRole, PhaseAccept), Ballot 1 1 0 1, Ballot 1 1 0 1, [21], [21]),
      ((FollowerRole, PhasePrepare), Ballot 1 2 0 3, Ballot 1 1 0 1, [21], []),
      ((LeaderRole, PhaseAccept), Ballot 1 2 0 3, Ballot 1 2 0 3, [21], [])]"
  using ex_second_run run_steps by fastforce

lemma ex_shown_nth:
  "ex_shown c = [a, b, d] \<longleftrightarrow>
     a = (sp_state (cl_nodes c 1), node_promise (cl_nodes c 1), node_round (cl_nodes c 1), node_log (cl_nodes c 1), decided_log (cl_nodes c 1)) \<and>
     b = (sp_state (cl_nodes c 2), node_promise (cl_nodes c 2), node_round (cl_nodes c 2), node_log (cl_nodes c 2), decided_log (cl_nodes c 2)) \<and>
     d = (sp_state (cl_nodes c 3), node_promise (cl_nodes c 3), node_round (cl_nodes c 3), node_log (cl_nodes c 3), decided_log (cl_nodes c 3))"
  unfolding ex_shown_def by auto

end
