(* ===== verification/Kv_Server.thy ===== *)
theory Kv_Server
  imports Kv_Store Omni_Paxos "HOL-Library.Sublist"
begin

text \<open>
  A server of the benchmark (\<^verbatim>\<open>benchmark/src/server/server.rs\<close>): an OmniPaxos node and a
  database. After every message for the node the server applies the newly decided commands to the
  database and answers the clients it coordinates. The network is the list of messages handed to
  it; the connected clients are a parameter. \<^verbatim>\<open>Command\<close> derives \<^verbatim>\<open>Entry\<close> without a snapshot type, so
  the node runs with \<^verbatim>\<open>NoSnapshot\<close>. Statistics and output files are left out.
\<close>

subsection \<open>Messages\<close>

datatype cluster_message =
  OmniPaxosMessage "(command, no_snapshot) message"
| LeaderStartSignal int

datatype client_message = Append nat kv_command

datatype server_message = Write nat | Read nat "string option" | StartSignal int

fun server_command_id :: "server_message \<Rightarrow> nat option" where
  "server_command_id (Write i) = Some i"
| "server_command_id (Read i _) = Some i"
| "server_command_id (StartSignal _) = None"

text \<open>What the server hands to its network.\<close>

datatype kv_sent = ToCluster node_id cluster_message | ToClient nat server_message

text \<open>What a node takes from its entry type, for commands.\<close>

definition command_env :: "(entry_id \<Rightarrow> int \<Rightarrow> dom_hash) \<Rightarrow> (command unsynced_map \<Rightarrow> command unsynced_map) \<Rightarrow>
    (command, no_snapshot) env" where
  "command_env hash iter = \<lparr>snap_create = no_snapshot_create, snap_merge = no_snapshot_merge, use_snapshots = False,
     hash_with = hash, map_iter = iter\<rparr>"

subsection \<open>The server\<close>

record kv_server =
  os_id :: node_id
  os_database :: database
  os_omnipaxos :: "(command, no_snapshot) omni_paxos"
  current_decided_idx :: nat
  os_peers :: "node_id list"
  os_network :: "kv_sent list"

definition kv_server_new :: "node_id \<Rightarrow> node_id list \<Rightarrow> (command, no_snapshot) omni_paxos \<Rightarrow> kv_server" where
  "kv_server_new i peers op = \<lparr>os_id = i, os_database = database_new, os_omnipaxos = op, current_decided_idx = 0,
     os_peers = peers, os_network = []\<rparr>"

definition get_peers :: "node_id list \<Rightarrow> node_id \<Rightarrow> node_id list" where
  "get_peers ns n = filter (\<lambda>i. i \<noteq> n) ns"

definition send_to_client :: "nat \<Rightarrow> server_message \<Rightarrow> kv_server \<Rightarrow> kv_server" where
  "send_to_client c m self = self\<lparr>os_network := os_network self @ [ToClient c m]\<rparr>"

definition send_to_cluster :: "node_id \<Rightarrow> cluster_message \<Rightarrow> kv_server \<Rightarrow> kv_server" where
  "send_to_cluster p m self = self\<lparr>os_network := os_network self @ [ToCluster p m]\<rparr>"

definition update_database_and_respond :: "command list \<Rightarrow> kv_server \<Rightarrow> kv_server" where
  "update_database_and_respond commands self =
     fold (\<lambda>c s.
       let (read, d) = handle_command (kv_cmd c) (os_database s); s = s\<lparr>os_database := d\<rparr>
       in if coordinator_id c = os_id s
          then send_to_client (client_id c)
            (case read of Some read_result \<Rightarrow> Read (cmd_id c) read_result | None \<Rightarrow> Write (cmd_id c)) s
          else s) commands self"

definition decided_command :: "('e, 's) log_entry \<Rightarrow> 'e option" where
  "decided_command e = (case e of Decided cmd \<Rightarrow> Some cmd | _ \<Rightarrow> None)"

text \<open>\<^verbatim>\<open>unwrap\<close> and \<^verbatim>\<open>unreachable!\<close> panic.\<close>

definition handle_decided_entries :: "kv_server \<Rightarrow> kv_server option" where
  "handle_decided_entries self =
     (let new_decided_idx = op_get_decided_idx (os_omnipaxos self)
      in if current_decided_idx self < new_decided_idx
         then do {
           r \<leftarrow> op_read_decided_suffix (current_decided_idx self) (os_omnipaxos self);
           decided_entries \<leftarrow> r;
           decided_commands \<leftarrow> those (map decided_command decided_entries);
           Some (update_database_and_respond decided_commands (self\<lparr>current_decided_idx := new_decided_idx\<rparr>))
         }
         else Some self)"

definition send_outgoing_msgs :: "kv_server \<Rightarrow> kv_server" where
  "send_outgoing_msgs self =
     (let (buffer, op) = take_outgoing_messages [] (os_omnipaxos self)
      in fold (\<lambda>m. send_to_cluster (get_receiver m) (OmniPaxosMessage m)) buffer (self\<lparr>os_omnipaxos := op\<rparr>))"

definition append_to_log :: "nat \<Rightarrow> nat \<Rightarrow> kv_command \<Rightarrow> kv_server \<Rightarrow> kv_server option" where
  "append_to_log frm c_id kv_command self = do {
     let c = \<lparr>client_id = frm, coordinator_id = os_id self, cmd_id = c_id, kv_cmd = kv_command\<rparr>;
     (err, op) \<leftarrow> op_append_with_id c (EntryId frm c_id) (os_omnipaxos self);
     if err = None then Some (self\<lparr>os_omnipaxos := op\<rparr>) else None
   }"

definition send_cluster_start_signals :: "int \<Rightarrow> kv_server \<Rightarrow> kv_server" where
  "send_cluster_start_signals t self = fold (\<lambda>p. send_to_cluster p (LeaderStartSignal t)) (os_peers self) self"

definition send_client_start_signals :: "nat list \<Rightarrow> int \<Rightarrow> kv_server \<Rightarrow> kv_server" where
  "send_client_start_signals conns t self = fold (\<lambda>c. send_to_client c (StartSignal t)) conns self"

definition handle_client_messages :: "(nat \<times> client_message) list \<Rightarrow> kv_server \<Rightarrow> kv_server option" where
  "handle_client_messages messages self = do {
     self \<leftarrow> for_each (\<lambda>(frm, m). case m of Append i c \<Rightarrow> append_to_log frm i c) messages self;
     Some (send_outgoing_msgs self)
   }"

definition handle_cluster_message :: "(command, no_snapshot) env \<Rightarrow> nat list \<Rightarrow> node_id \<times> cluster_message \<Rightarrow>
    bool \<times> kv_server \<Rightarrow> (bool \<times> kv_server) option" where
  "handle_cluster_message env conns msg rs =
     (let (received_start_signal, self) = rs
      in case snd msg of
           OmniPaxosMessage m \<Rightarrow> do {
             op \<leftarrow> handle_incoming env m (os_omnipaxos self);
             self \<leftarrow> handle_decided_entries (self\<lparr>os_omnipaxos := op\<rparr>);
             Some (received_start_signal, self) }
         | LeaderStartSignal t \<Rightarrow> Some (True, send_client_start_signals conns t self))"

definition handle_cluster_messages :: "(command, no_snapshot) env \<Rightarrow> nat list \<Rightarrow> (node_id \<times> cluster_message) list \<Rightarrow>
    kv_server \<Rightarrow> (bool \<times> kv_server) option" where
  "handle_cluster_messages env conns messages self = do {
     (received_start_signal, self) \<leftarrow> for_each (handle_cluster_message env conns) messages (False, self);
     Some (received_start_signal, send_outgoing_msgs self)
   }"

text \<open>The arms of the event loop, and the attempt of the configured node to take leadership.\<close>

datatype server_event =
  ElectionTick
| PollTick
| ClusterMessages "(node_id \<times> cluster_message) list"
| ClientMessages "(nat \<times> client_message) list"

definition server_event_step :: "(command, no_snapshot) env \<Rightarrow> nat list \<Rightarrow> server_event \<Rightarrow> kv_server \<Rightarrow> kv_server option" where
  "server_event_step env conns ev self =
     (case ev of
        ElectionTick \<Rightarrow> do {
          op \<leftarrow> tick (os_omnipaxos self);
          Some (send_outgoing_msgs (self\<lparr>os_omnipaxos := op\<rparr>)) }
      | PollTick \<Rightarrow> do {
          op \<leftarrow> poll env (os_omnipaxos self);
          Some (send_outgoing_msgs (self\<lparr>os_omnipaxos := op\<rparr>)) }
      | ClusterMessages ms \<Rightarrow> map_option snd (handle_cluster_messages env conns ms self)
      | ClientMessages ms \<Rightarrow> handle_client_messages ms self)"

definition leader_takeover :: "nat list \<Rightarrow> int \<Rightarrow> kv_server \<Rightarrow> (bool \<times> kv_server) option" where
  "leader_takeover conns start_time self =
     (if op_get_current_leader (os_omnipaxos self) = Some (os_id self, True)
      then Some (True, send_client_start_signals conns start_time (send_cluster_start_signals start_time self))
      else do {
        op \<leftarrow> try_become_leader (os_omnipaxos self);
        Some (False, send_outgoing_msgs (self\<lparr>os_omnipaxos := op\<rparr>)) })"

subsection \<open>Applying decided commands\<close>

text \<open>The answers a server gives for commands it coordinates, starting from a database.\<close>

fun client_answers :: "node_id \<Rightarrow> command list \<Rightarrow> database \<Rightarrow> kv_sent list" where
  "client_answers p [] d = []"
| "client_answers p (c # cs) d =
     (if coordinator_id c = p
      then [ToClient (client_id c) (case kv_cmd c of Get k \<Rightarrow> Read (cmd_id c) (db d k) | _ \<Rightarrow> Write (cmd_id c))]
      else []) @ client_answers p cs (snd (handle_command (kv_cmd c) d))"

lemma run_commands_Cons: "run_commands (c # cs) d = run_commands cs (snd (handle_command (kv_cmd c) d))"
  by (simp add: run_commands_def)

lemma run_commands_append: "run_commands (xs @ ys) d = run_commands ys (run_commands xs d)"
  by (simp add: run_commands_def)

lemma client_answers_append: "client_answers p (xs @ ys) d = client_answers p xs d @ client_answers p ys (run_commands xs d)"
  by (induction xs arbitrary: d) (simp_all add: run_commands_def)

lemma update_database_and_respond_eq:
  "update_database_and_respond cs s =
     s\<lparr>os_database := run_commands cs (os_database s), os_network := os_network s @ client_answers (os_id s) cs (os_database s)\<rparr>"
proof (induction cs arbitrary: s)
  case Nil
  show ?case by (simp add: update_database_and_respond_def run_commands_def)
next
  case (Cons c cs)
  let ?r = "fst (handle_command (kv_cmd c) (os_database s))" and ?d = "snd (handle_command (kv_cmd c) (os_database s))"
  define t where "t = s\<lparr>os_database := ?d, os_network := os_network s @ client_answers (os_id s) [c] (os_database s)\<rparr>"
  have "update_database_and_respond (c # cs) s = update_database_and_respond cs t"
    by (cases "kv_cmd c") (simp_all add: update_database_and_respond_def t_def handle_command_def send_to_client_def Let_def)
  then show ?case by (simp add: Cons.IH t_def run_commands_Cons)
qed

definition applied_log :: "command list \<Rightarrow> kv_server \<Rightarrow> bool" where
  "applied_log xs s \<longleftrightarrow> current_decided_idx s = length xs \<and> os_database s = run_commands xs database_new \<and>
     os_network s = client_answers (os_id s) xs database_new"

lemma decided_commands: "those (map (decided_command \<circ> Decided) xs) = Some xs"
  by (induction xs) (simp_all add: decided_command_def)

text \<open>The decided entries of a log that is neither compacted nor stopped.\<close>

lemma read_decided_suffix_plain:
  assumes "storage_wf st" "get_compacted_idx st = 0" "get_stopsign st = None"
    "i < get_decided_idx st" "get_decided_idx st \<le> length (ms_log (is_storage st))" "sc_batched_entries (is_cache st) = []"
  shows "read_decided_suffix i st = Some (Some (map Decided (drop i (take (get_decided_idx st) (ms_log (is_storage st))))))"
proof -
  let ?d = "get_decided_idx st" and ?L = "ms_log (is_storage st)"
  have len: "length (log_view st) = get_accepted_idx st" "length (log_view st) = length ?L"
    using length_log_view [OF assms(1)] assms(2,3) by (simp_all add: log_view_def)
  have view: "take ?d (log_view st) = map Decided (take ?d ?L)"
    by (rule nth_equalityI) (use assms in \<open>auto simp: log_view_def nth_enumerate_eq\<close>)
  have "read_decided_suffix i st = read_range i ?d st" using assms(4) by (simp add: read_decided_suffix_def read_def)
  also have "\<dots> = Some (Some (take (?d - i) (drop i (log_view st))))"
    using read_range_view [OF assms(1) _ assms(4)] assms(2,5) len by simp
  also have "take (?d - i) (drop i (log_view st)) = drop i (take ?d (log_view st))" by (simp add: drop_take)
  finally show ?thesis by (simp add: view drop_map)
qed

lemma handle_decided_entries_applies:
  assumes "storage_wf st" "get_compacted_idx st = 0" "get_stopsign st = None"
    "get_decided_idx st \<le> length (ms_log (is_storage st))" "sc_batched_entries (is_cache st) = []"
    "st = sp_store (seq_paxos (os_omnipaxos s))" "applied_log xs s"
    "length xs < get_decided_idx st \<Longrightarrow> prefix xs (take (get_decided_idx st) (ms_log (is_storage st)))"
  shows "\<exists>t. handle_decided_entries s = Some t \<and> os_omnipaxos t = os_omnipaxos s \<and> os_id t = os_id s \<and>
    applied_log (if length xs < get_decided_idx st then take (get_decided_idx st) (ms_log (is_storage st)) else xs) t"
proof (cases "length xs < get_decided_idx st")
  case False
  then show ?thesis using assms(6,7)
    by (simp add: handle_decided_entries_def op_get_decided_idx_def applied_log_def sp_get_decided_idx_def)
next
  case True
  let ?ys = "take (get_decided_idx st) (ms_log (is_storage st))"
  obtain zs where zs: "?ys = xs @ zs" using assms(8) [OF True] by (auto simp: prefix_def)
  have cur: "current_decided_idx s = length xs" using assms(7) by (simp add: applied_log_def)
  have "op_read_decided_suffix (length xs) (os_omnipaxos s) = Some (Some (map Decided zs))"
    using read_decided_suffix_plain [OF assms(1-3) True assms(4,5)] assms(6) zs by (simp add: op_read_decided_suffix_def)
  then have "handle_decided_entries s =
    Some (update_database_and_respond zs (s\<lparr>current_decided_idx := get_decided_idx st\<rparr>))"
    using True cur assms(6) by (simp add: handle_decided_entries_def op_get_decided_idx_def sp_get_decided_idx_def Let_def decided_commands)
  moreover have "get_decided_idx st = length (xs @ zs)" using arg_cong [OF zs, of length] assms(4) by simp
  ultimately show ?thesis using True assms(7) zs
    by (simp add: update_database_and_respond_eq applied_log_def run_commands_append client_answers_append)
qed

end
