(* ===== verification/Kv_Cluster.thy ===== *)
theory Kv_Cluster
  imports Kv_Server Cluster_Safety
begin

text \<open>
  The replicated key-value store: every node of a cluster is served by a server of the benchmark,
  which applies what its node decided whenever it looks. Whatever the cluster does in between, the
  databases of all servers are states of one sequence of commands.
\<close>

subsection \<open>Servers on a cluster\<close>

record kv_cluster =
  kc_cluster :: "(command, no_snapshot) cluster"
  kc_servers :: "node_id \<Rightarrow> kv_server"

text \<open>The server of a node, holding the node as the cluster has it.\<close>

definition attach :: "node_id \<Rightarrow> kv_cluster \<Rightarrow> kv_server" where
  "attach p k = (kc_servers k p)\<lparr>os_omnipaxos :=
     (os_omnipaxos (kc_servers k p))\<lparr>seq_paxos := cl_nodes (kc_cluster k) p\<rparr>\<rparr>"

inductive kv_step :: "(command, no_snapshot) env \<Rightarrow> cluster_config \<Rightarrow> kv_cluster \<Rightarrow> kv_cluster \<Rightarrow> bool"
  for env C where
  kv_node: "cluster_step env C (kc_cluster k) c \<Longrightarrow> kv_step env C k (k\<lparr>kc_cluster := c\<rparr>)"
| kv_apply: "p \<in> set (nodes C) \<Longrightarrow> handle_decided_entries (attach p k) = Some s \<Longrightarrow>
    kv_step env C k (k\<lparr>kc_servers := (kc_servers k)(p := s)\<rparr>)"
| kv_restart: "p \<in> set (nodes C) \<Longrightarrow>
    kv_step env C k (k\<lparr>kc_servers := (kc_servers k)(p := kv_server_new p (get_peers (nodes C) p) op)\<rparr>)"

definition kv_init :: "cluster_config \<Rightarrow> kv_cluster \<Rightarrow> bool" where
  "kv_init C k \<longleftrightarrow> cluster_init C (kc_cluster k) \<and>
     (\<forall>p \<in> set (nodes C). \<exists>op. kc_servers k p = kv_server_new p (get_peers (nodes C) p) op)"

subsection \<open>The invariant\<close>

definition server_ok :: "cluster_config \<Rightarrow> command consensus \<Rightarrow> node_id \<Rightarrow> kv_server \<Rightarrow> bool" where
  "server_ok C g p s \<longleftrightarrow> os_id s = p \<and> (\<exists>xs b. cs_committed (cpair C) g b xs \<and> applied_log xs s)"

definition kv_ok :: "cluster_config \<Rightarrow> kv_cluster \<Rightarrow> bool" where
  "kv_ok C k \<longleftrightarrow> (\<exists>g pos. cluster_ok C g pos (kc_cluster k) \<and> (\<forall>p \<in> set (nodes C). server_ok C g p (kc_servers k p)))"

lemma server_ok_new: "server_ok C g p (kv_server_new p ps op)"
  unfolding server_ok_def
  by (intro conjI exI [of _ "[]"]) (simp_all add: kv_server_new_def applied_log_def cs_committed_def run_commands_def)

lemma kv_ok_init:
  assumes "distinct (nodes C)" "kv_init C k"
  shows "kv_ok C k"
  unfolding kv_ok_def using init_ok [OF assms(1)] assms(2) server_ok_new unfolding kv_init_def by metis

lemma apply_committed:
  assumes ok: "cluster_ok C g pos (kc_cluster k)" and v: "valid_server (cpair C)" and p: "p \<in> set (nodes C)"
    and xs: "cs_committed (cpair C) g b xs" "applied_log xs (kc_servers k p)" "os_id (kc_servers k p) = p"
  defines "n \<equiv> cl_nodes (kc_cluster k) p"
  shows "\<exists>t. handle_decided_entries (attach p k) = Some t \<and> os_id t = p \<and>
    applied_log (if length xs < node_decided n then decided_log n else xs) t"
    and "cs_committed (cpair C) g (node_round n) (decided_log n)" "length (decided_log n) = node_decided n"
proof -
  note node = node_okD [OF cluster_okD(3) [OF ok p]]
  note store = plain_nodeD(3) [OF node(1)] and data = data_okD [OF node(2)]
  show dec: "cs_committed (cpair C) g (node_round n) (decided_log n)" unfolding n_def by (rule data(11))
  show len: "length (decided_log n) = node_decided n" using data(10) by (simp add: decided_log_def n_def)
  have pre: "prefix xs (decided_log n)" if l: "length xs < node_decided n"
  proof -
    have "\<not> prefix (decided_log n) xs" using prefix_length_le [of "decided_log n" xs] l len by linarith
    then show ?thesis using committed_comparable [OF cluster_okD(1) [OF ok] v xs(1) dec] by blast
  qed
  have at: "applied_log xs (attach p k)" "os_id (attach p k) = p" "sp_store n = sp_store (seq_paxos (os_omnipaxos (attach p k)))"
    using xs(2,3) by (simp_all add: applied_log_def attach_def n_def)
  have st: "storage_wf (sp_store n)" "sc_batched_entries (is_cache (sp_store n)) = []"
    using store by (simp_all add: plain_store_def n_def)
  note store = store [folded n_def] and data = data(10) [folded n_def]
  have "\<exists>t. handle_decided_entries (attach p k) = Some t \<and> os_omnipaxos t = os_omnipaxos (attach p k) \<and> os_id t = os_id (attach p k) \<and>
    applied_log (if length xs < node_decided n then decided_log n else xs) t"
    unfolding decided_log_def
    by (rule handle_decided_entries_applies [OF st(1) plain_store_sel(3,1) [OF store] data st(2) at(3,1) pre [unfolded decided_log_def]])
  then show "\<exists>t. handle_decided_entries (attach p k) = Some t \<and> os_id t = p \<and>
    applied_log (if length xs < node_decided n then decided_log n else xs) t" using at(2) by metis
qed

lemma apply_ok:
  assumes ok: "cluster_ok C g pos (kc_cluster k)" and v: "valid_server (cpair C)" and p: "p \<in> set (nodes C)"
    and s: "server_ok C g p (kc_servers k p)"
  shows "\<exists>t. handle_decided_entries (attach p k) = Some t \<and> server_ok C g p t \<and>
    current_decided_idx t = max (current_decided_idx (kc_servers k p)) (node_decided (cl_nodes (kc_cluster k) p))"
proof -
  obtain xs b where xs: "cs_committed (cpair C) g b xs" "applied_log xs (kc_servers k p)" "os_id (kc_servers k p) = p"
    using s unfolding server_ok_def by blast
  note a = apply_committed [OF ok v p xs]
  obtain t where t: "handle_decided_entries (attach p k) = Some t" "os_id t = p" "applied_log (if length xs < node_decided
      (cl_nodes (kc_cluster k) p) then decided_log (cl_nodes (kc_cluster k) p) else xs) t" using a(1) by blast
  then have "server_ok C g p t" using xs(1) a(2) unfolding server_ok_def by metis
  with t xs(2) a(3) show ?thesis by (auto simp: applied_log_def max_def)
qed

lemma server_ok_mono: "server_ok C g p s \<Longrightarrow> cs_le g g' \<Longrightarrow> server_ok C g' p s"
  unfolding server_ok_def using cs_le_committed order_refl by metis

lemma kv_step_ok:
  assumes "plain_env env" "valid_server (cpair C)" "distinct (nodes C)" "kv_ok C k" "kv_step env C k k'"
  shows "kv_ok C k'"
proof -
  obtain g pos where ok: "cluster_ok C g pos (kc_cluster k)" "\<And>p. p \<in> set (nodes C) \<Longrightarrow> server_ok C g p (kc_servers k p)"
    using assms(4) unfolding kv_ok_def by blast
  show ?thesis
    using assms(5)
  proof cases
    case (kv_node c)
    obtain g' pos' where g': "(cs_step (cpair C))\<^sup>*\<^sup>* g g'" "cluster_ok C g' pos' c"
      using cluster_step_simulated [OF assms(1-3) ok(1) kv_node(2)] by blast
    then show ?thesis
      using server_ok_mono [OF ok(2) cs_steps_le] unfolding kv_ok_def kv_node(1) by fastforce
  next
    case (kv_apply p s)
    then have "server_ok C g p s" using apply_ok [OF ok(1) assms(2) kv_apply(2) ok(2)] by fastforce
    then show ?thesis using ok unfolding kv_ok_def kv_apply(1) by fastforce
  next
    case (kv_restart p op)
    then show ?thesis using ok server_ok_new unfolding kv_ok_def kv_restart(1) by fastforce
  qed
qed

lemma kv_steps_ok:
  assumes "plain_env env" "valid_server (cpair C)" "distinct (nodes C)" "(kv_step env C)\<^sup>*\<^sup>* k k'" "kv_ok C k"
  shows "kv_ok C k'"
  using assms(4,5) by (induction rule: rtranclp_induct) (auto intro: kv_step_ok [OF assms(1-3)])

subsection \<open>One log\<close>

lemma longest_comparable:
  assumes "finite A" "\<And>p q. p \<in> A \<Longrightarrow> q \<in> A \<Longrightarrow> prefix (f p) (f q) \<or> prefix (f q) (f p)"
  shows "\<exists>L. \<forall>p \<in> A. prefix (f p) L"
  using assms
proof (induction A rule: finite_induct)
  case (insert a A)
  then obtain L where L: "\<forall>p \<in> A. prefix (f p) L" by blast
  show ?case
  proof (cases "\<exists>q \<in> A. prefix (f a) (f q)")
    case True
    then have "prefix (f a) L" using L prefix_order.trans by blast
    with L show ?thesis by blast
  next
    case False
    then have "\<forall>q \<in> A. prefix (f q) (f a)" using insert.prems by blast
    then show ?thesis by (intro exI [of _ "f a"]) simp
  qed
qed simp

lemma one_log:
  assumes "kv_ok C k" "valid_server (cpair C)"
  shows "\<exists>L. \<forall>p \<in> set (nodes C). let s = kc_servers k p; n = current_decided_idx s in
    n \<le> length L \<and> os_database s = run_commands (take n L) database_new \<and>
    os_network s = client_answers p (take n L) database_new"
proof -
  obtain g pos where ok: "cluster_ok C g pos (kc_cluster k)" "\<And>p. p \<in> set (nodes C) \<Longrightarrow> server_ok C g p (kc_servers k p)"
    using assms(1) unfolding kv_ok_def by blast
  obtain f b where f: "\<And>p. p \<in> set (nodes C) \<Longrightarrow> cs_committed (cpair C) g (b p) (f p) \<and> applied_log (f p) (kc_servers k p) \<and> os_id (kc_servers k p) = p"
    using ok(2) unfolding server_ok_def by metis
  obtain L where L: "\<And>p. p \<in> set (nodes C) \<Longrightarrow> prefix (f p) L"
    using longest_comparable [of "set (nodes C)" f] committed_comparable [OF cluster_okD(1) [OF ok(1)] assms(2)] f by blast
  have "take (length (f p)) L = f p" "length (f p) \<le> length L" if "p \<in> set (nodes C)" for p
    using L [OF that] by (auto simp: prefix_def)
  then show ?thesis using f by (intro exI [of _ L]) (simp add: applied_log_def Let_def)
qed

lemma first_application:
  assumes "kv_ok C k" "valid_server (cpair C)" "p \<in> set (nodes C)" "applied_log [] (kc_servers k p)" "os_id (kc_servers k p) = p"
  shows "\<exists>t. handle_decided_entries (attach p k) = Some t \<and> os_id t = p \<and>
    applied_log (decided_log (cl_nodes (kc_cluster k) p)) t"
proof -
  obtain g pos where ok: "cluster_ok C g pos (kc_cluster k)" using assms(1) unfolding kv_ok_def by blast
  have "cs_committed (cpair C) g default_ballot []" by (simp add: cs_committed_def)
  note a = apply_committed [OF ok assms(2,3) this assms(4,5)]
  have "node_decided (cl_nodes (kc_cluster k) p) = 0 \<Longrightarrow> decided_log (cl_nodes (kc_cluster k) p) = []"
    by (simp add: decided_log_def)
  with a(1) show ?thesis by (cases "node_decided (cl_nodes (kc_cluster k) p)") auto
qed

lemma apply_total:
  assumes "kv_ok C k" "valid_server (cpair C)" "p \<in> set (nodes C)"
  shows "\<exists>t. handle_decided_entries (attach p k) = Some t \<and>
    current_decided_idx t = max (current_decided_idx (kc_servers k p)) (node_decided (cl_nodes (kc_cluster k) p))"
  using assms apply_ok unfolding kv_ok_def by blast

end
