(* ===== verification/Kv_Runs.thy ===== *)
theory Kv_Runs
  imports Kv_Cluster Cluster_Runs
begin

text \<open>
  A run of the replicated store on three nodes: a client's put is decided and applied by two servers.
\<close>

definition ex_kv_env :: "(command, no_snapshot) env" where
  "ex_kv_env = command_env (\<lambda>i d. of_nat (command_id i + 1)) id"

definition ex_put :: command where
  "ex_put = \<lparr>client_id = 7, coordinator_id = 1, cmd_id = 9, kv_cmd = Put ''x'' ''1''\<rparr>"

definition ex_put_proposal :: "command dom_propose" where
  "ex_put_proposal = \<lparr>dp_entry_id = EntryId 7 9, dp_sender = 1, dp_sent_time = (0, 0), dp_deadline = 100, dp_entry = ex_put\<rparr>"

definition ex_kv_started :: "(command, no_snapshot) omni_paxos \<Rightarrow> kv_cluster" where
  "ex_kv_started op = \<lparr>kc_cluster = ex_started,
     kc_servers = \<lambda>p. kv_server_new p (get_peers (nodes ex_cluster) p) op\<rparr>"

lemma ex_kv_run: "map_option (\<lambda>c. map (\<lambda>p. decided_log (cl_nodes c p)) [1, 2])
    (for_each (run_action ex_kv_env ex_cluster) (ex_term 1 (Ballot 1 1 0 1) ex_put_proposal) ex_started) =
  Some [[ex_put], [ex_put]]"
  by code_simp

lemma ex_kv_plain: "plain_env ex_kv_env" "valid_cluster ex_cluster" "distinct (nodes ex_cluster)"
  by (simp add: plain_env_def ex_kv_env_def command_env_def) (rule ex_cluster_plain)+

lemma ex_kv_started_init: "kv_init ex_cluster (ex_kv_started op)"
  using ex_started_init by (auto simp: kv_init_def ex_kv_started_def)

lemma kv_cluster_steps:
  assumes "(cluster_step env C)\<^sup>*\<^sup>* (kc_cluster k) c"
  shows "(kv_step env C)\<^sup>*\<^sup>* k (k\<lparr>kc_cluster := c\<rparr>)"
  using assms
proof (induction rule: rtranclp_induct)
  case (step c d)
  then have "kv_step env C (k\<lparr>kc_cluster := c\<rparr>) ((k\<lparr>kc_cluster := c\<rparr>)\<lparr>kc_cluster := d\<rparr>)" by (intro kv_node) simp
  with step.IH show ?case by simp
qed simp

lemma ex_kv_served:
  "\<exists>k. (kv_step ex_kv_env ex_cluster)\<^sup>*\<^sup>* (ex_kv_started op) k \<and>
     applied_log [ex_put] (kc_servers k 1) \<and> applied_log [ex_put] (kc_servers k 2) \<and> os_id (kc_servers k 1) = 1"
proof -
  let ?k0 = "ex_kv_started op"
  obtain c where c: "for_each (run_action ex_kv_env ex_cluster) (ex_term 1 (Ballot 1 1 0 1) ex_put_proposal) ex_started = Some c"
    "map (\<lambda>p. decided_log (cl_nodes c p)) [1, 2] = [[ex_put], [ex_put]]"
    by (rule exE [OF ex_kv_run [unfolded map_option_eq_Some]]) (elim conjE, rule that)
  have dec: "decided_log (cl_nodes c 1) = [ex_put]" "decided_log (cl_nodes c 2) = [ex_put]" using c(2) by simp_all
  let ?k1 = "?k0\<lparr>kc_cluster := c\<rparr>"
  have r1: "(kv_step ex_kv_env ex_cluster)\<^sup>*\<^sup>* ?k0 ?k1"
    by (rule kv_cluster_steps) (use run_steps [OF c(1)] in \<open>simp add: ex_kv_started_def\<close>)
  have v: "valid_server (cpair ex_cluster)" by (rule cluster_pair_valid [OF ex_kv_plain(2)])
  note inv = kv_steps_ok [OF ex_kv_plain(1) v ex_kv_plain(3) _ kv_ok_init [OF ex_kv_plain(3) ex_kv_started_init]]
  have fresh: "applied_log [] (kc_servers ?k1 p)" "os_id (kc_servers ?k1 p) = p" for p
    by (simp_all add: ex_kv_started_def kv_server_new_def applied_log_def run_commands_def)
  have in_c: "1 \<in> set (nodes ex_cluster)" "2 \<in> set (nodes ex_cluster)" by (simp_all add: ex_cluster_def)
  obtain t1 where t1: "handle_decided_entries (attach 1 ?k1) = Some t1" "applied_log [ex_put] t1" "os_id t1 = 1"
    using first_application [OF inv [OF r1] v in_c(1) fresh] dec(1) by auto
  let ?k2 = "?k1\<lparr>kc_servers := (kc_servers ?k1)(1 := t1)\<rparr>"
  have r2: "(kv_step ex_kv_env ex_cluster)\<^sup>*\<^sup>* ?k0 ?k2"
    by (rule rtranclp.rtrancl_into_rtrancl [OF r1 kv_apply [OF in_c(1) t1(1)]])
  have two: "kc_servers ?k2 2 = kc_servers ?k1 2" by simp
  obtain t2 where t2: "handle_decided_entries (attach 2 ?k2) = Some t2" "applied_log [ex_put] t2"
    using first_application [OF inv [OF r2] v in_c(2), unfolded two, OF fresh] dec(2) by auto
  let ?k3 = "?k2\<lparr>kc_servers := (kc_servers ?k2)(2 := t2)\<rparr>"
  have "(kv_step ex_kv_env ex_cluster)\<^sup>*\<^sup>* ?k0 ?k3"
    by (rule rtranclp.rtrancl_into_rtrancl [OF r2 kv_apply [OF in_c(2) t2(1)]])
  moreover have "applied_log [ex_put] (kc_servers ?k3 1)" "applied_log [ex_put] (kc_servers ?k3 2)"
    "os_id (kc_servers ?k3 1) = 1"
    using t1(2,3) t2(2) by simp_all
  ultimately show ?thesis by blast
qed

end
