(* ===== verification/Spec2Isabelle.thy ===== *)
theory Spec2Isabelle
  imports Example_Libraries Compaction Replication Cluster_Runs Kv_Runs
begin

text \<open>
  Clock-Assisted OmniPaxos: a replicated log. A node (\<^verbatim>\<open>omni_paxos.rs\<close>) runs a ballot leader
  election (\<^verbatim>\<open>ballot_leader_election.rs\<close>) next to Sequence Paxos (\<^verbatim>\<open>sequence_paxos/\<close>), which
  replicates the log of the elected leader. Proposals travel with a deadline to every node
  (\<^verbatim>\<open>dom/\<close>, deadline-ordered multicast); each node releases them from its early buffer in the order
  of their deadlines. The leader appends a released proposal to its log and sends
  \<^verbatim>\<open>AcceptDecide\<close> (slow path); a follower puts it in its \<^emph>\<open>unsynced log\<close> and votes for it with
  \<^verbatim>\<open>FastAccepted\<close>, which carries a hash of the entry and of the log below it. The leader decides
  an index when an accept quorum has accepted it, or when a fast quorum voted for its own entry
  and prefix. All file names below are relative to \<^verbatim>\<open>lib/omnipaxos/src\<close> unless a longer path is given.

  \<^bold>\<open>Theories.\<close>
  Prelude: machine integers, the option monad for panics, loops over vectors.
  Ballots: \<^verbatim>\<open>Ballot\<close> and its order, \<^verbatim>\<open>SequenceNumber\<close>, message status (\<^verbatim>\<open>util.rs\<close>).
  Quorums: \<^verbatim>\<open>ClusterConfig\<close>, its validation, \<^verbatim>\<open>Quorum\<close>, the fast-path thresholds, and the locales
  of quorum systems, interpreted on validated configurations.
  Dom_Hash: \<^verbatim>\<open>DOMHash\<close>, with the locale of XOR chains. Messages: \<^verbatim>\<open>messages.rs\<close>.
  Memory_Storage: \<^verbatim>\<open>lib/omnipaxos_storage/src/memory_storage.rs\<close>, with the locale of log backends.
  Internal_Storage: \<^verbatim>\<open>storage/internal_storage.rs\<close> and \<^verbatim>\<open>storage/state_cache.rs\<close>.
  Compaction: snapshots stand for the log. Owd_Estimator, Early_Buffer, Dom: \<^verbatim>\<open>dom/\<close>, with the
  locale of priority queues. Ballot_Leader_Election. Leader_State: \<^verbatim>\<open>LeaderState\<close> of \<^verbatim>\<open>util.rs\<close>.
  Replica, Paxos_Follower, Paxos_Leader, Sequence_Paxos: \<^verbatim>\<open>sequence_paxos/mod.rs\<close>, \<^verbatim>\<open>follower.rs\<close>,
  \<^verbatim>\<open>leader.rs\<close>; the record \<^verbatim>\<open>sequence_paxos\<close> has the fields of the struct \<^verbatim>\<open>SequencePaxos\<close> and
  every handler is one function of it. Omni_Paxos: \<^verbatim>\<open>omni_paxos.rs\<close>, \<^verbatim>\<open>utils/ui.rs\<close> and the logical
  clocks of \<^verbatim>\<open>util.rs\<close>. Byte_Keys and Persistent_Storage:
  \<^verbatim>\<open>lib/omnipaxos_storage/src/persistent_storage.rs\<close>; Storage_Refinement: it refines the in-memory
  storage. Unicache, Lru_Unicache, Lfu_Cache, Lfu_Unicache: \<^verbatim>\<open>unicache/\<close>, the caches that encode the
  fields of entries; Derive_Entry: \<^verbatim>\<open>lib/omnipaxos_macros/src/lib.rs\<close>, the derive macro and the
  caches it generates. Kv_Store and Sim_Clock: the replicated store and the simulated clock of
  \<^verbatim>\<open>benchmark/src\<close>. Replica_Invariants, Deciding, Fast_Path, Fast_Votes and Replication hold the
  invariants and lemmas that span several of these; Examples holds the concrete cluster the
  properties are applied to, Example_Libraries lists that behave as the libraries are documented to.
  Log_Consensus: a consensus on logs without messages and its agreement proof. Cluster: the nodes of a
  configuration with one queue of messages per ordered pair of nodes, and the step relation.
  Cluster_Inv: the simulation relation. Cluster_Frame, Cluster_Quiet, Cluster_Sending: what calls
  leave alone and what they send. Cluster_Follower, Cluster_Election, Cluster_Leader,
  Cluster_Appending, Cluster_Starting: one lemma per kind of call, that it keeps the relation.
  Cluster_Safety: the simulation and agreement. Cluster_Progress: that a leader with a quorum in step
  decides. Cluster_Runs: schedules, as a program, and a run. Kv_Server: the server of the benchmark
  (\<^verbatim>\<open>benchmark/src/server/server.rs\<close>), which applies decided commands to its database and answers
  clients. Kv_Cluster, Kv_Runs: such servers on a cluster, the invariant of their databases, and a run.

  \<^bold>\<open>How the code is modelled.\<close>
  A function that takes \<^verbatim>\<open>&mut self\<close> returns the new state. A panic (a failed \<^verbatim>\<open>expect\<close>, an index out
  of range, an arithmetic overflow, which a debug build checks) is \<^term>\<open>None\<close>; \<^verbatim>\<open>Err\<close> is \<^term>\<open>Inl\<close>.
  Node ids, log indexes and counters of sequence numbers are natural numbers, \<^verbatim>\<open>u32\<close> values are
  words, \<^verbatim>\<open>i64\<close> times are integers with checked or saturating operations, hashes are 64-bit words.
  A mutable reference into the outgoing messages is the index and the message found there; the
  binary heap is a list sorted by the keys; a \<^verbatim>\<open>HashMap\<close> is a map, or an association list where
  its iteration order matters. The record \<^verbatim>\<open>env\<close> holds what is not in the repository: the
  \<^verbatim>\<open>Snapshot\<close> functions of the application, the default hasher of the standard library, the
  iteration order of hash maps. The crates \<^verbatim>\<open>lru\<close>, \<^verbatim>\<open>linked_hash_set\<close>, RocksDB and the serialisers are
  records of their operations, with their documented behaviour as named hypotheses (\<open>lru_laws\<close>,
  \<open>lhs_laws\<close>, \<open>rocksdb_laws\<close>, \<open>codec_laws\<close>). The physical clock is a function from the number of a reading.
  Features off by default (\<^verbatim>\<open>unicache\<close>, \<^verbatim>\<open>logging\<close>, \<^verbatim>\<open>toml_config\<close>) are off in the model of a node.

  \<^bold>\<open>Loops.\<close> The recovery loop of a new leader and the resynchronisation loops of the clock are
  partial functions, so that a run without end has no value; that they return is proved
  (\<open>recovery_terminates\<close>, \<open>resync_loop_total\<close>, the latter before the end of the 64-bit time range,
  where the code does loop for ever). All other loops are structural or have a measure. There is no fuel.

  \<^bold>\<open>The cluster.\<close> A step of \<open>cluster_step\<close> delivers the first message of a queue, loses any message,
  elects a node with any ballot of the configuration (\<open>handle_leader\<close>), appends or releases a
  proposal, resends or flushes on a timeout, reconnects or restarts a node from its storage; after
  each call the outgoing messages are taken and queued. The leader election is not trusted: ballots
  may be elected in any order and by several nodes. The nodes are configured with the slow path, the
  default batch size of one entry and no snapshots, and never reconfigured or trimmed. Every step is
  simulated by steps of the abstract consensus, whence agreement. That messages are taken after
  every call matters: \<open>repeated_promise_loses_entry\<close> shows two calls with one send after them that
  break it (a server of the benchmark handles up to 100 messages before it sends). With the fast path agreement fails by \<open>early_votes_break_agreement\<close>.

  \<^bold>\<open>What the lemmas show.\<close> Replica_Invariants: which operations keep the promise and the order of
  the indexes. Deciding: the slow path decides by quorum. Fast_Path: unsynced logs are hash
  chains, recovery returns, adds only what enough promises report and restores fast decisions.
  Fast_Votes: what the leader's table of votes counts. Replication: a follower in order copies
  the leader. Storage_Refinement: transactions, direct operations, reads and restarts of the
  persistent storage agree with the in-memory one. Unicache, Lru_Unicache, Lfu_Unicache,
  Derive_Entry: an encoding and a decoding cache stay in step (\<open>keeps_step\<close>), for one field and for
  whole entries. The properties below state these of the messages and calls of the program, add the
  properties of the storage, of the deadline-ordered multicast, of the leader election, of the
  configuration, of the benchmark's store and clock, and show where the code does not keep what it
  promises: early votes, releases after a stop sign, delta snapshots, late and repeated promises, unused node
  ids, deletions in snapshots, transactions that fail, cloned caches.

  \<^bold>\<open>Not modelled.\<close> The calls of the caches by Sequence Paxos (with the feature \<^verbatim>\<open>unicache\<close> the crate
  does not compile), the parsing and printing of tokens by the macros, logging,
  \<^verbatim>\<open>Display\<close> of errors, loading a configuration from a file, the statistics and output files of the
  benchmark's servers, its network and its clients (asynchronous input and output). Agreement is stated for the configuration
  above only, on links that keep the order of messages, as the connections of the benchmark do.
\<close>

section \<open>Agreement\<close>

text \<open>C1: The decided logs of a cluster agree. Start the nodes of a valid configuration, deliver messages
  in the order sent and lose any, elect any node with any ballot of its configuration, release
  proposals, resend, reconnect and restart nodes, in any order: the log one node has decided and
  the log another (or the same) node has decided then or later are one a prefix of the other.
  The nodes run the slow path with the default batch size and without snapshots.\<close>

theorem decided_logs_agree:
  assumes "plain_env env" "valid_cluster C" "distinct (nodes C)" "cluster_init C c0"
    and "(cluster_step env C)\<^sup>*\<^sup>* c0 c1" "(cluster_step env C)\<^sup>*\<^sup>* c1 c2"
    and "p \<in> set (nodes C)" "q \<in> set (nodes C)"
  shows "prefix (decided_log (cl_nodes c1 p)) (decided_log (cl_nodes c2 q)) \<or>
    prefix (decided_log (cl_nodes c2 q)) (decided_log (cl_nodes c1 p))"
  by (rule decided_comparable [OF assms])

theorem decided_logs_agree_witness:
  "\<exists>c. (cluster_step ex_env ex_cluster)\<^sup>*\<^sup>* ex_started c \<and> decided_log (cl_nodes c 1) = [21] \<and>
     (prefix [21] (decided_log (cl_nodes c 2)) \<or> prefix (decided_log (cl_nodes c 2)) [21])"
proof -
  obtain c where c: "(cluster_step ex_env ex_cluster)\<^sup>*\<^sup>* ex_started c" "decided_log (cl_nodes c 1) = [21]"
    using ex_first_reached unfolding ex_shown_nth by auto
  have "1 \<in> set (nodes ex_cluster)" "2 \<in> set (nodes ex_cluster)" by (simp_all add: ex_cluster_def)
  from decided_logs_agree [OF ex_cluster_plain ex_started_init c(1) rtranclp.rtrancl_refl this] c show ?thesis by auto
qed

text \<open>C2: A leader that has prepared its log holds everything decided below its ballot: when a node is
  leader in the accept phase, the decided log of every node whose accepted round is not above the
  leader's ballot is a prefix of the leader's log.\<close>

theorem leader_log_has_decided:
  assumes "plain_env env" "valid_cluster C" "distinct (nodes C)" "cluster_init C c0"
    and "(cluster_step env C)\<^sup>*\<^sup>* c0 c" "p \<in> set (nodes C)" "q \<in> set (nodes C)"
    and "sp_state (cl_nodes c p) = (LeaderRole, PhaseAccept)"
    and "node_round (cl_nodes c q) \<le> node_promise (cl_nodes c p)"
  shows "prefix (decided_log (cl_nodes c q)) (node_log (cl_nodes c p))"
  by (rule leader_has_decided [OF assms])

theorem leader_log_has_decided_witness:
  "\<exists>c. (cluster_step ex_env ex_cluster)\<^sup>*\<^sup>* ex_started c \<and> node_promise (cl_nodes c 3) = Ballot 1 2 0 3 \<and>
     decided_log (cl_nodes c 1) = [21] \<and> prefix [21] (node_log (cl_nodes c 3))"
proof -
  obtain c where c: "(cluster_step ex_env ex_cluster)\<^sup>*\<^sup>* ex_started c" "decided_log (cl_nodes c 1) = [21]"
    "sp_state (cl_nodes c 3) = (LeaderRole, PhaseAccept)" "node_promise (cl_nodes c 3) = Ballot 1 2 0 3"
    "node_round (cl_nodes c 1) = Ballot 1 1 0 1"
    using ex_second_reached unfolding ex_shown_nth by auto
  have "3 \<in> set (nodes ex_cluster)" "1 \<in> set (nodes ex_cluster)" by (simp_all add: ex_cluster_def)
  moreover have "node_round (cl_nodes c 1) \<le> node_promise (cl_nodes c 3)"
    unfolding c(4,5) by (simp add: less_eq_ballot_def ballot_cmp_def cmp_def then_cmp_def)
  ultimately have "prefix (decided_log (cl_nodes c 1)) (node_log (cl_nodes c 3))"
    by (intro leader_log_has_decided [OF ex_cluster_plain ex_started_init c(1) _ _ c(3)])
  with c(1,2,4) show ?thesis by metis
qed

text \<open>C3: The cluster refines a consensus without messages. The abstract state has per ballot the log
  of its leader and per node its promise and how much of which leader's log it accepted; its steps
  are to promise, to start a ballot with the log of the highest round a prepare quorum accepted,
  to append, to accept and to decide with an accept quorum. The first state of the cluster is
  related to the first abstract one, and every step of the cluster is a sequence of abstract steps
  between related states.\<close>

theorem cluster_refines_consensus:
  assumes "plain_env env" "valid_cluster C" "distinct (nodes C)"
  shows "(cluster_init C c0 \<longrightarrow> cluster_ok C cs_init (\<lambda>_ _ _. None) c0) \<and>
    (cluster_ok C g pos c \<and> cluster_step env C c c' \<longrightarrow>
       (\<exists>g' pos'. (cs_step (cpair C))\<^sup>*\<^sup>* g g' \<and> cluster_ok C g' pos' c'))"
  using init_ok [OF assms(3)] cluster_step_simulated [OF assms(1) cluster_pair_valid [OF assms(2)] assms(3)] by blast

theorem cluster_refines_consensus_witness:
  "cluster_ok ex_cluster cs_init (\<lambda>_ _ _. None) (ex_started :: (nat, nat list) cluster) \<and>
   (\<exists>g pos. (cs_step (cpair ex_cluster))\<^sup>*\<^sup>* cs_init g \<and>
      cluster_ok ex_cluster g pos (post 1 (reconnected 2 (ex_new 1)) (ex_started :: (nat, nat list) cluster)))"
proof -
  let ?c = "ex_started :: (nat, nat list) cluster"
  note refines = cluster_refines_consensus [OF ex_cluster_plain, of ?c cs_init _ ?c]
  have start: "cluster_ok ex_cluster cs_init (\<lambda>_ _ _. None) ?c" using refines ex_started_init by blast
  have "cl_nodes ?c 1 = ex_new 1" by (simp add: ex_started_def)
  moreover have "cluster_step ex_env ex_cluster ?c (post 1 (reconnected 2 (cl_nodes ?c 1)) ?c)"
    by (rule cl_reconnect) (simp add: ex_cluster_def)
  ultimately show ?thesis using refines start by auto
qed

text \<open>C4: Nodes of one round share one log: at any time of any run, the logs of two nodes with the same
  accepted round are one a prefix of the other.\<close>

theorem same_round_logs_comparable:
  assumes "plain_env env" "valid_cluster C" "distinct (nodes C)" "cluster_init C c0"
    and "(cluster_step env C)\<^sup>*\<^sup>* c0 c" "p \<in> set (nodes C)" "q \<in> set (nodes C)"
    and "node_round (cl_nodes c p) = node_round (cl_nodes c q)"
  shows "prefix (node_log (cl_nodes c p)) (node_log (cl_nodes c q)) \<or>
    prefix (node_log (cl_nodes c q)) (node_log (cl_nodes c p))"
  by (rule same_round_logs [OF assms])

theorem same_round_logs_comparable_witness:
  "\<exists>c. (cluster_step ex_env ex_cluster)\<^sup>*\<^sup>* ex_started c \<and> node_round (cl_nodes c 2) = Ballot 1 1 0 1 \<and>
     node_log (cl_nodes c 1) = [21] \<and>
     (prefix [21] (node_log (cl_nodes c 2)) \<or> prefix (node_log (cl_nodes c 2)) [21])"
proof -
  obtain c where c: "(cluster_step ex_env ex_cluster)\<^sup>*\<^sup>* ex_started c" "node_log (cl_nodes c 1) = [21]"
    "node_round (cl_nodes c 1) = node_round (cl_nodes c 2)" "node_round (cl_nodes c 2) = Ballot 1 1 0 1"
    using ex_second_reached unfolding ex_shown_nth by auto
  have "1 \<in> set (nodes ex_cluster)" "2 \<in> set (nodes ex_cluster)" by (simp_all add: ex_cluster_def)
  from same_round_logs_comparable [OF ex_cluster_plain ex_started_init c(1) this c(3)] c show ?thesis by auto
qed



section \<open>The replicated store\<close>



text \<open>C7: Applying decided entries never panics: in every reachable state of the store each server reads
  the decided suffix of its node, finds only decided entries in it (neither the \<^verbatim>\<open>unwrap\<close> nor the
  \<^verbatim>\<open>unreachable!\<close> of \<^verbatim>\<open>handle_decided_entries\<close> fires), and has then caught up with the node.\<close>

theorem applying_decided_entries_succeeds:
  assumes "plain_env env" "valid_cluster C" "distinct (nodes C)" "kv_init C k0" "(kv_step env C)\<^sup>*\<^sup>* k0 k"
    and "p \<in> set (nodes C)"
  shows "\<exists>s. handle_decided_entries (attach p k) = Some s \<and>
    current_decided_idx s = max (current_decided_idx (kc_servers k p)) (node_decided (cl_nodes (kc_cluster k) p))"
  using apply_total [OF kv_steps_ok [OF assms(1) cluster_pair_valid [OF assms(2)] assms(3,5) kv_ok_init [OF assms(3,4)]]
      cluster_pair_valid [OF assms(2)] assms(6)] .

theorem applying_decided_entries_succeeds_witness:
  "\<forall>op. \<exists>k s. (kv_step ex_kv_env ex_cluster)\<^sup>*\<^sup>* (ex_kv_started op) k \<and> handle_decided_entries (attach 1 k) = Some s \<and>
     1 \<le> current_decided_idx s"
proof
  fix op :: "(command, no_snapshot) omni_paxos"
  obtain k where k: "(kv_step ex_kv_env ex_cluster)\<^sup>*\<^sup>* (ex_kv_started op) k" "applied_log [ex_put] (kc_servers k 1)"
    using ex_kv_served by blast
  have "1 \<in> set (nodes ex_cluster)" by (simp add: ex_cluster_def)
  from applying_decided_entries_succeeds [OF ex_kv_plain ex_kv_started_init k(1) this] k show "\<exists>k s. (kv_step ex_kv_env ex_cluster)\<^sup>*\<^sup>* (ex_kv_started op) k \<and> handle_decided_entries (attach 1 k) = Some s \<and>
     1 \<le> current_decided_idx s"
    by (auto simp: applied_log_def)
qed

section \<open>The fast path\<close>

text \<open>C8: A new leader keeps what was decided on the fast path. When the promised servers form a
  prepare quorum of a valid cluster and every entry of a run of fast decisions was reported by the
  members of some fast quorum among them, the log of the new leader continues, right after the
  log it synchronised, with exactly these entries in order.\<close>

theorem fast_decisions_survive_leader_change:
  assumes m: "handle_majority_promises env s = Some t"
    and sync: "sync_log env (n_leader (sp_leader s)) (get_max_decided_idx (sp_leader s))
       (max_promise_sync (sp_leader s)) (sp_store s) = Some (Inr (i, st))"
    and v: "valid_server cp" and P: "P \<subseteq> server_members cp" "is_prepare_quorum (server_quorum cp) (card P)"
    and n: "length (sp_peers s) + 1 = server_num_nodes cp"
    and only: "\<forall>k x g p. reports (sp_leader s) k x g p \<longrightarrow> p \<in> P"
    and dec: "fast_decisions cp P (sp_leader s) i (max_promise_accepted_hash (sp_leader s)) ds"
    and ids: "distinct (map (fst \<circ> snd) ds)"
  shows "\<exists>rest. ms_log (is_storage (sp_store t)) = ms_log (is_storage st) @ map (snd \<circ> snd) ds @ rest"
proof -
  let ?l = "(sp_leader s)\<lparr>max_promise_sync := None\<rparr>"
  let ?r = "\<lparr>rec_state = s\<lparr>sp_leader := ?l, sp_store := st\<rparr>,
        rec_prev_hash = max_promise_accepted_hash (sp_leader s), rec_ids = [], rec_accepted_idx = i\<rparr>"
  obtain r rest where r: "recovery_loop ?r = Some r"
    "ms_log (is_storage (sp_store t)) = ms_log (is_storage (sp_store (rec_state r))) @ rest"
    using handle_majority_promises_log [OF m sync] .
  have l: "unsynced_log_store ?l = unsynced_log_store (sp_leader s)" by simp
  have "\<exists>rest. ms_log (is_storage (sp_store (rec_state r))) =
      ms_log (is_storage (sp_store (rec_state ?r))) @ map (snd \<circ> snd) ds @ rest"
    using fast_decisions_recovered [OF v P _ _ _ _ ids _ r(1)] n only dec sync_log_frame(4) [OF sync]
    by (simp add: reports_cong [OF l] fast_decisions_cong [OF l])
  with r(2) show ?thesis by auto
qed

theorem fast_decisions_survive_leader_change_witness:
  "\<exists>t rest. handle_majority_promises ex_env ex_recovering = Some t \<and>
     ms_log (is_storage (sp_store t)) = [7, 8, 100] @ rest"
proof -
  obtain t where t: "handle_majority_promises ex_env ex_recovering = Some t"
    by (simp add: ex_recovering_def ex_unsynced_def ex_defs majority_evals)
  obtain st where st: "sync_log ex_env (n_leader (sp_leader ex_recovering))
      (get_max_decided_idx (sp_leader ex_recovering)) (max_promise_sync (sp_leader ex_recovering))
      (sp_store ex_recovering) = Some (Inr (2, st))" "ms_log (is_storage st) = [7, 8]"
    by (simp add: ex_recovering_def ex_defs majority_evals)
  have quorum: "is_prepare_quorum (server_quorum (ex_cluster, Suc 0)) (card {2, 3::nat})"
    by (simp add: server_quorum_def quorum_with_def num_nodes_of_def peers_of_def ex_cluster_def)
  have "\<forall>k x g p. reports (sp_leader ex_recovering) k x g p \<longrightarrow> p \<in> {2, 3}" by (simp add: ex_reports)
  from fast_decisions_survive_leader_change [OF t st(1) ex_valid _ quorum _ this
      ex_fast_decisions [folded ex_recovering_sel(2)]] t st(2)
  show ?thesis by (simp add: ex_recovering_sel)
qed

text \<open>C9: Recovery of the unsynced entries terminates without a panic, in a state where no further
  entry is recovered: every round adds an entry id out of the finitely many reported ones.\<close>

theorem recovery_terminates: "\<exists>r'. recovery_loop r = Some r' \<and> recovery_step r' = Some None"
  using recovery_loop_total [of r] recovery_loop_recovers by blast

text \<open>C10: Recovery adds to the log only entries that at least the recovery threshold of the
  unsynced logs report at that index on the hash chain built so far, and no entry id twice.\<close>

theorem recovery_adds_supported_entries:
  assumes "recovery_loop r = Some r'" "distinct (rec_ids r)"
  shows "\<exists>es. recovers r es r' \<and> distinct (rec_ids r') \<and> length (rec_ids r') = length (rec_ids r) + length es \<and>
    ms_log (is_storage (sp_store (rec_state r'))) = ms_log (is_storage (sp_store (rec_state r))) @ es"
  using recovery_loop_recovers [OF assms(1)] recovers_log assms(2) by blast

theorem recovery_adds_supported_entries_witness:
  "\<exists>r' es. recovery_loop \<lparr>rec_state = ex_recovering, rec_prev_hash = 5, rec_ids = [], rec_accepted_idx = 2\<rparr>
      = Some r' \<and> distinct (rec_ids r') \<and> ms_log (is_storage (sp_store (rec_state r'))) = [7, 8] @ es"
proof -
  let ?r = "\<lparr>rec_state = ex_recovering, rec_prev_hash = 5, rec_ids = [], rec_accepted_idx = 2\<rparr>"
  obtain r' where r: "recovery_loop ?r = Some r'" using recovery_loop_total by blast
  from recovery_adds_supported_entries [OF this] show ?thesis
    using r by (auto simp: ex_recovering_def ex_defs set_promise_def ms_set_promise_def)
qed

text \<open>C11: Votes that arrive before the leader has registered its own entry break agreement. Nodes 2
  and 3 vote for entry 100 at index 3; the leader handles both votes, then releases entry 200 at
  index 3, counts them for its own entry and decides it. When node 2 takes over with the promise
  of node 3, it recovers entry 100 at index 3.\<close>

theorem early_votes_break_agreement:
  "(\<exists>l1 l2 l3. sp_handle ex_env (ex_vote 2) ex_leader = Some l1 \<and> sp_handle ex_env (ex_vote 3) l1 = Some l2 \<and>
      handle_dom_release ex_env (ex_prop 2 200 5000) l2 = Some l3 \<and> get_decided_idx (sp_store l3) = 3 \<and>
      ms_log (is_storage (sp_store l3)) = [7, 8, 200]) \<and>
   outgoing (ex_voter 2) = [SequencePaxos (ex_vote 2)] \<and> outgoing (ex_voter 3) = [SequencePaxos (ex_vote 3)] \<and>
   (\<exists>g2 g3 m t. handle_leader (Ballot 1 2 0 2) (ex_voter 2) = Some g2 \<and>
      sp_handle ex_env \<lparr>pm_from = 2, pm_to = 3, pm_msg = Prepare \<lparr>prep_n = Ballot 1 2 0 2,
         prep_decided_idx = 1, prep_n_accepted = ex_ballot, prep_accepted_idx = 2\<rparr>\<rparr> (ex_voter 3) = Some g3 \<and>
      outgoing g3 = outgoing (ex_voter 3) @ [SequencePaxos m] \<and>
      sp_handle ex_env m g2 = Some t \<and> ms_log (is_storage (sp_store t)) = [7, 8, 100])"
proof (intro conjI)
  show "\<exists>l1 l2 l3. sp_handle ex_env (ex_vote 2) ex_leader = Some l1 \<and> sp_handle ex_env (ex_vote 3) l1 = Some l2 \<and>
      handle_dom_release ex_env (ex_prop 2 200 5000) l2 = Some l3 \<and> get_decided_idx (sp_store l3) = 3 \<and>
      ms_log (is_storage (sp_store l3)) = [7, 8, 200]"
    by (simp add: ex_vote_def ex_defs ex_prop_def leader_evals majority_evals send_to_def extend_hash_def)
  show "\<exists>g2 g3 m t. handle_leader (Ballot 1 2 0 2) (ex_voter 2) = Some g2 \<and>
      sp_handle ex_env \<lparr>pm_from = 2, pm_to = 3, pm_msg = Prepare \<lparr>prep_n = Ballot 1 2 0 2,
         prep_decided_idx = 1, prep_n_accepted = ex_ballot, prep_accepted_idx = 2\<rparr>\<rparr> (ex_voter 3) = Some g3 \<and>
      outgoing g3 = outgoing (ex_voter 3) @ [SequencePaxos m] \<and>
      sp_handle ex_env m g2 = Some t \<and> ms_log (is_storage (sp_store t)) = [7, 8, 100]"
    by (simp add: ex_voter_def ex_defs ex_prop_def release_on_follower_def takeover_evals leader_evals
        majority_evals send_to_def extend_hash_def default_hash_def ex_lists)
qed (simp_all add: ex_voter_sends)

text \<open>C12: When the leader's own vote is the first at an index, a fast decision there rests on a fast
  quorum of nodes that all voted for the entry and the prefix of the leader, the leader included.\<close>

theorem fast_decision_rests_on_fast_quorum:
  assumes "sp_leader s = fold cast_vote vs l0" "accepted_map l0 = Map.empty" "fast_decidable idx s"
    and "filter (\<lambda>v. vote_idx v = idx) vs = Vote idx h pre ldr False # ws" "\<forall>w \<in> set ws. vote_fast w"
  shows "sp_pid s = ldr \<and> fast_quorum (length (sp_peers s) + 1) \<le> card (insert ldr
    {vote_pid w |w. w \<in> set vs \<and> vote_idx w = idx \<and> vote_hash w = h \<and> vote_prefix w = pre \<and> vote_fast w})"
proof
  obtain a where a: "tally vs idx = Some a" "sp_pid s \<in> ame_slow a"
    "fast_quorum (length (sp_peers s) + 1) \<le> card (counted_voters a)"
    using assms(3) tally_votes [OF assms(2), of vs] unfolding fast_decidable_counted assms(1) by auto
  show "fast_quorum (length (sp_peers s) + 1) \<le> card (insert ldr
    {vote_pid w |w. w \<in> set vs \<and> vote_idx w = idx \<and> vote_hash w = h \<and> vote_prefix w = pre \<and> vote_fast w})"
    using counted_votes [OF a(1) assms(4,5)] a(3) by simp
  show "sp_pid s = ldr" using a(2) tally_slow [OF a(1) assms(4,5)] by simp
qed

theorem fast_decision_rests_on_fast_quorum_witness:
  "\<exists>s :: (nat, nat list) sequence_paxos. fast_decidable 2 s \<and> fast_quorum (length (sp_peers s) + 1) \<le> card (insert 1
    {vote_pid w |w. w \<in> set [Vote 2 9 4 1 False, Vote 2 9 4 2 True, Vote 2 9 4 3 True] \<and>
       vote_idx w = 2 \<and> vote_hash w = 9 \<and> vote_prefix w = 4 \<and> vote_fast w})"
proof -
  let ?vs = "[Vote 2 9 4 1 False, Vote 2 9 4 2 True, Vote 2 9 4 3 True]"
  let ?s = "ex_leader\<lparr>sp_leader := fold cast_vote ?vs (sp_leader ex_leader)\<rparr>"
  have e: "accepted_map (sp_leader ex_leader) = Map.empty" by (simp add: ex_defs)
  have d: "fast_decidable 2 ?s"
    by (simp add: fast_decidable_def cast_vote_def set_accepted_map_def Let_def ex_defs get_defs fast_quorum_def)
  have f: "filter (\<lambda>v. vote_idx v = 2) ?vs = Vote 2 9 4 1 False # [Vote 2 9 4 2 True, Vote 2 9 4 3 True]"
    by simp
  from fast_decision_rests_on_fast_quorum [of ?s ?vs "sp_leader ex_leader" 2, OF _ e d f] d
  show ?thesis by (intro exI [of _ ?s]) simp
qed



text \<open>What a follower votes for is what it will report on recovery: releasing a proposal appends
  to the unsynced log the entry at the index, with the entry hash and the prefix hash, that the
  vote sent to the leader carries; the prefix hash covers the accepted log and the unsynced log.\<close>

lemma vote_matches_unsynced_log:
  assumes "unsynced_inv s" "enable_fast_path s" "t = release_on_follower env p s"
  shows "\<exists>v u. unsynced_log t = unsynced_log s @ [(fa_idx v, u)] \<and>
    outgoing t = outgoing s @ [SequencePaxos \<lparr>pm_from = sp_pid s, pm_to = get_current_leader s, pm_msg = FastAccepted v\<rparr>] \<and>
    fa_n v = get_promise (sp_store s) \<and>
    fa_idx v = get_accepted_idx (sp_store s) + length (unsynced_log s) + 1 \<and>
    ule_entry_hash u = fa_entry_hash v \<and> ule_prefix_hash u = fa_prefix_hash v \<and>
    fa_prefix_hash v = extend_hash (accepted_prefix_hash s) (hash_of_list (chain_hashes (unsynced_log s))) \<and>
    ule_entry u = dp_entry p \<and> ule_entry_id u = dp_entry_id p"
proof -
  have c: "chain (get_accepted_idx (sp_store s)) (accepted_prefix_hash s) (unsynced_log s)"
    using assms(1) by (simp add: unsynced_inv_def)
  show ?thesis
    using assms(1,2) chain_update_next [OF c]
    by (intro exI [of _ "\<lparr>fa_n = get_promise (sp_store s),
          fa_idx = get_accepted_idx (sp_store s) + length (unsynced_log s) + 1,
          fa_entry_hash = hash_with env (dp_entry_id p) (dp_deadline p),
          fa_prefix_hash = extend_hash (unsynced_hash s) (accepted_prefix_hash s)\<rparr>"])
      (simp add: assms(3) release_on_follower_def Let_def send_to_def unsynced_inv_def dom_xor.extend_comm
        get_current_leader_def sp_get_promise_def)
qed

lemma vote_matches_unsynced_log_witness:
  "\<exists>u. unsynced_log (ex_voter 2) = [(3, u)] \<and> ule_entry u = 100"
  using vote_matches_unsynced_log [OF ex_follower_sel(3) ex_follower_sel(2) ex_voter_def [of 2]]
  by (auto simp: ex_prop_def)

section \<open>Nodes over time\<close>

text \<open>C14: Neither the ballot a node has promised nor the leader its election module knows ever goes
  back, whatever sequence of calls and messages the node handles.\<close>

theorem promise_and_leader_never_go_back:
  assumes "(op_step env)\<^sup>*\<^sup>* s t"
  shows "op_promise s \<le> op_promise t \<and> leader (op_ble s) \<le> leader (op_ble t)"
  using op_run_le [OF assms] by (simp_all add: op_le_def)

theorem promise_and_leader_never_go_back_witness:
  "\<exists>t. try_become_leader (ex_omni 2 (ex_follower 2)) = Some t \<and> ex_ballot \<le> op_promise t"
proof -
  obtain t where t: "try_become_leader (ex_omni 2 (ex_follower 2)) = Some t"
    by (simp add: try_become_leader_def lift_sp_def ex_omni_def ex_defs u32_inc_def takeover_evals
        leader_evals majority_evals ex_lists)
  then have "(op_step ex_env)\<^sup>*\<^sup>* (ex_omni 2 (ex_follower 2)) t" by (blast intro: step_become_leader)
  from promise_and_leader_never_go_back [OF this] t show ?thesis
    by (simp add: op_promise_def ex_omni_def ex_follower_def ex_node_def ex_storage_def get_promise_def)
qed



section \<open>Replication\<close>

text \<open>C16: An accept, synchronisation, stop-sign or decide message of a ballot below the promise
  changes nothing but the outgoing messages: the sender is told the promised ballot.\<close>

theorem stale_ballot_rejected:
  assumes "msg_ballot (pm_msg m) = Some b" "b < get_promise (sp_store s)"
  shows "sp_handle env m s =
    Some (send_to (ballot_pid b) (NotAccepted \<lparr>na_n = get_promise (sp_store s)\<rparr>) s)"
proof -
  have "ballot_cmp (sp_get_promise s) b = Greater"
    using assms(2) ballot_cmp_Greater by (simp add: less_ballot_def sp_get_promise_def)
  then have c: "check_valid_ballot b s =
      (False, send_to (ballot_pid b) (NotAccepted \<lparr>na_n = get_promise (sp_store s)\<rparr>) s)"
    by (simp add: check_valid_ballot_def Let_def sp_get_promise_def)
  show ?thesis
    using assms(1) c
    by (auto simp: msg_ballot_def sp_handle_def handle_acceptsync_def handle_acceptdecide_def
        handle_accept_stopsign_def handle_decide_def split: paxos_msg.splits)
qed

theorem stale_ballot_rejected_witness:
  "sp_handle ex_env \<lparr>pm_from = 1, pm_to = 2, pm_msg = Decide \<lparr>dec_n = default_ballot, dec_seq_num = SequenceNumber 1 2,
      dec_decided_idx = 2\<rparr>\<rparr> (ex_follower 2) =
   Some (send_to 0 (NotAccepted \<lparr>na_n = get_promise (sp_store (ex_follower 2))\<rparr>) (ex_follower 2))"
  using stale_ballot_rejected [of "\<lparr>pm_from = 1, pm_to = 2, pm_msg = Decide \<lparr>dec_n = default_ballot,
      dec_seq_num = SequenceNumber 1 2, dec_decided_idx = 2\<rparr>\<rparr>" default_ballot "ex_follower 2" ex_env]
  by (simp add: msg_ballot_def ex_follower_def ex_node_def ex_storage_def ex_ballot_def get_promise_def
      default_ballot_def less_ballot_def ballot_cmp_Less)

text \<open>An accept message of the promised ballot with the next sequence number appends exactly its
  entries to the log (stored or batched) and takes over its sequence number and prefix hash.\<close>

lemma accept_in_order_appends:
  assumes "sp_handle env m s = Some t" "pm_msg m = AcceptDecide ad" "sp_state s = (FollowerRole, PhaseAccept)"
    and "in_order (ad_n ad) (ad_seq_num ad) s"
  shows "pending_log (sp_store t) = pending_log (sp_store s) @ ad_entries ad \<and>
    current_seq_num t = ad_seq_num ad \<and> accepted_prefix_hash t = ad_log_prefix_hash ad \<and>
    get_promise (sp_store t) = get_promise (sp_store s) \<and> sp_state t = sp_state s"
proof -
  have "handle_acceptdecide env ad s = Some t" using assms(1,2) by (simp add: sp_handle_def)
  note a = handle_acceptdecide_appends [OF this assms(3,4)]
  show ?thesis by (intro conjI a)
qed

lemma accept_in_order_appends_witness:
  "\<exists>t. sp_handle ex_env (ex_accept (SequenceNumber 1 2)) (ex_follower 2) = Some t \<and>
     pending_log (sp_store t) = [7, 8, 9]"
proof -
  obtain t where t: "sp_handle ex_env (ex_accept (SequenceNumber 1 2)) (ex_follower 2) = Some t"
    by (simp add: ex_accept_def ex_acceptdecide_def ex_defs follower_evals)
  have "in_order (ad_n (ex_acceptdecide (SequenceNumber 1 2))) (ad_seq_num (ex_acceptdecide (SequenceNumber 1 2))) (ex_follower 2)"
    by (simp add: in_order_def ex_acceptdecide_def ex_defs sp_get_promise_def get_defs ballot_cmp_Equal check_msg_status_def)
  from accept_in_order_appends [OF t ex_accept_sel _ this] t show ?thesis
    by (simp add: ex_acceptdecide_def ex_defs pending_log_def)
qed

text \<open>An accept message that is out of order leaves the log and the unsynced log untouched.\<close>

lemma accept_out_of_order_ignored:
  assumes "sp_handle env m s = Some t" "pm_msg m = AcceptDecide ad" "\<not> in_order (ad_n ad) (ad_seq_num ad) s"
  shows "sp_store t = sp_store s \<and> unsynced_log t = unsynced_log s"
proof -
  have "handle_acceptdecide env ad s = Some t" using assms(1,2) by (simp add: sp_handle_def)
  then have "unlogged s t" by (cases rule: handle_acceptdecide_cases) (use assms(3) in simp_all)
  then show ?thesis by (intro conjI unlogged_sel)
qed

lemma accept_out_of_order_ignored_witness:
  "\<exists>t. sp_handle ex_env (ex_accept (SequenceNumber 1 4)) (ex_follower 2) = Some t \<and>
     sp_store t = sp_store (ex_follower 2)"
proof -
  obtain t where t: "sp_handle ex_env (ex_accept (SequenceNumber 1 4)) (ex_follower 2) = Some t"
    by (simp add: ex_accept_def ex_acceptdecide_def ex_defs follower_evals)
  have "\<not> in_order ex_ballot (SequenceNumber 1 4) (ex_follower 2)"
    by (simp add: in_order_def ex_defs check_msg_status_def)
  from accept_out_of_order_ignored [OF t ex_accept_sel] this t show ?thesis
    by (simp add: ex_acceptdecide_def)
qed

text \<open>C17: A gap in the sequence numbers makes a follower recover: it leaves the accept phase and asks
  the leader to prepare it again, and changes nothing else.\<close>

theorem gap_triggers_resync:
  assumes "pm_msg m = AcceptDecide ad" "sp_state s = (FollowerRole, PhaseAccept)"
    and "ballot_cmp (get_promise (sp_store s)) (ad_n ad) = Equal" "ballot_pid (ad_n ad) \<noteq> sp_pid s"
    and "check_msg_status (current_seq_num s) (ad_seq_num ad) = DroppedPreceding"
  shows "sp_handle env m s = Some (send_to (ballot_pid (ad_n ad)) (PrepareReq \<lparr>pr_n = get_promise (sp_store s)\<rparr>)
    (s\<lparr>sp_state := (FollowerRole, PhaseRecover)\<rparr>))"
proof -
  have "ballot_pid (get_promise (sp_store s)) = ballot_pid (ad_n ad)"
    using assms(3) by (simp add: ballot_cmp_Equal)
  then show ?thesis
    using assms by (simp add: sp_handle_def handle_acceptdecide_def check_valid_ballot_def
        handle_sequence_num_def reconnected_def get_current_leader_def sp_get_promise_def Let_def)
qed

theorem gap_triggers_resync_witness:
  "sp_handle ex_env (ex_accept (SequenceNumber 1 4)) (ex_follower 2) =
   Some (send_to 1 (PrepareReq \<lparr>pr_n = ex_ballot\<rparr>) ((ex_follower 2)\<lparr>sp_state := (FollowerRole, PhaseRecover)\<rparr>))"
  using gap_triggers_resync [OF ex_accept_sel, of "ex_follower 2" "SequenceNumber 1 4" ex_env]
  by (simp add: ex_acceptdecide_def ex_follower_def ex_node_def ex_storage_def ex_ballot_def get_promise_def
      ballot_cmp_Equal check_msg_status_def less_eq_sequence_number_def)



text \<open>C19: Synchronisation. A follower whose log agrees with the leader's below the index the leader
  chose holds the leader's whole log and decided index once it has handled the leader's
  \<^verbatim>\<open>AcceptSync\<close>, and expects exactly what the leader sends next.\<close>

theorem send_accsync_syncs:
  assumes send: "send_accsync env p l = Some l'"
    and m: "outgoing l' = outgoing l @ [SequencePaxos m]" "pm_msg m = AcceptSync a"
    and f': "sp_handle env m f = Some f'"
    and snap: "\<not> use_snapshots env"
    and wf: "storage_wf (sp_store l)" "storage_wf (sp_store f)"
    and batch: "sc_batched_entries (is_cache (sp_store f)) = []"
    and comp: "get_compacted_idx (sp_store f) = c" "get_compacted_idx (sp_store l) = c"
    and idx: "c \<le> ls_sync_idx (as_log_sync a)" "ls_sync_idx (as_log_sync a) \<le> log_end (sp_store f)"
    and agree: "take (ls_sync_idx (as_log_sync a) - c) (ms_log (is_storage (sp_store f)))
      = take (ls_sync_idx (as_log_sync a) - c) (ms_log (is_storage (sp_store l)))"
    and prom: "ballot_cmp (get_promise (sp_store f)) (n_leader (sp_leader l)) = Equal"
    and st: "sp_state f = (FollowerRole, PhasePrepare)"
  shows "in_sync p l' f' \<and> get_decided_idx (sp_store f') = get_decided_idx (sp_store l)"
proof
  obtain k d s j q x where s: "create_log_sync env k d l = Some s"
    and j: "increment_seq_num_session p (sp_leader l) = Some j" and q: "next_seq_num p j = Some (q, x)"
    and l': "l' = send_to p (AcceptSync \<lparr>as_n = n_leader (sp_leader l), as_seq_num = q,
         as_decided_idx = sp_get_decided_idx l, as_log_sync = s,
         as_log_prefix_hash = accepted_prefix_hash l\<rparr>) (l\<lparr>sp_leader := x\<rparr>)"
    using send by (auto simp: send_accsync_def Let_def simp del: bind_Some split: bind_splits option.splits prod.splits)
  have a: "a = \<lparr>as_n = n_leader (sp_leader l), as_seq_num = q,
         as_decided_idx = sp_get_decided_idx l, as_log_sync = s,
         as_log_prefix_hash = accepted_prefix_hash l\<rparr>"
    using m l' by (simp add: send_to_def) (metis paxos_message.select_convs(3) paxos_msg.inject(4))
  have n: "n_leader x = n_leader (sp_leader l)"
    using next_seq_num_Some(3) [OF q] j by (auto simp: increment_seq_num_session_def)
  obtain sfx where sfx: "get_suffix k (sp_store l) = Some sfx"
    and sv: "s = \<lparr>ls_decided_snapshot = None, ls_suffix = sfx, ls_sync_idx = k,
      ls_stopsign = get_stopsign (sp_store l)\<rparr>"
    using s snap by (auto simp: create_log_sync_def Let_def)
  have k: "ls_sync_idx (as_log_sync a) = k" by (simp add: a sv)
  have suffix: "sfx = drop (k - c) (ms_log (is_storage (sp_store l)))"
    using get_suffix_wf [OF wf(1)] sfx idx(1) comp(2) k by simp
  have h: "handle_acceptsync env a (pm_from m) f = Some f'" using f' m(2) by (simp add: sp_handle_def)
  have cmp: "ballot_cmp (sp_get_promise f) (as_n a) = Equal" using prom by (simp add: a sp_get_promise_def)
  obtain i where y: "sync_log env (as_n a) (as_decided_idx a) (Some (as_log_sync a)) (sp_store f) = Some (Inr (i, sp_store f'))"
    and t: "sp_state f' = (FollowerRole, PhaseAccept)" "current_seq_num f' = as_seq_num a"
      "accepted_prefix_hash f' = as_log_prefix_hash a"
    using h
  proof (cases rule: handle_acceptsync_Some)
    case ignored
    then show thesis using h cmp st by (auto simp: handle_acceptsync_def check_valid_ballot_def Let_def
        sp_get_promise_def split_beta intro: that)
  qed (use that in blast)
  have "ls_decided_snapshot (as_log_sync a) = None" by (simp add: a sv)
  from sync_log_suffix [OF wf(2) this, of env "as_n a" "as_decided_idx a"] idx comp y
  have z: "ms_log (is_storage (sp_store f')) = take (k - c) (ms_log (is_storage (sp_store f))) @ sfx"
    "get_compacted_idx (sp_store f') = c" "get_decided_idx (sp_store f') = as_decided_idx a"
    "get_stopsign (sp_store f') = get_stopsign (sp_store l)" "get_promise (sp_store f') = get_promise (sp_store f)"
    "sc_batched_entries (is_cache (sp_store f')) = []"
    using batch k by (auto simp: a sv)
  have "pending_log (sp_store f') = ms_log (is_storage (sp_store l))"
    using z(1,6) agree suffix k by (simp add: pending_log_def)
  then show "in_sync p l' f'"
    using z t prom n next_seq_num_Some(2) [OF q] comp by (simp add: in_sync_def l' send_to_def a)
  show "get_decided_idx (sp_store f') = get_decided_idx (sp_store l)"
    using z(3) by (simp add: a sp_get_decided_idx_def)
qed

theorem send_accsync_syncs_witness:
  "\<exists>l' f'. send_accsync ex_env 2 ex_leader = Some l' \<and> in_sync 2 l' f' \<and> pending_log (sp_store f') = [7, 8]"
proof -
  let ?l = "ex_leader :: (nat, nat list) sequence_paxos" and ?f = "ex_node 2 (FollowerRole, PhasePrepare)"
  let ?a = "\<lparr>as_n = ex_ballot, as_seq_num = SequenceNumber 2 1, as_decided_idx = 1,
      as_log_sync = \<lparr>ls_decided_snapshot = None, ls_suffix = [], ls_sync_idx = 2, ls_stopsign = None\<rparr>,
      as_log_prefix_hash = 5\<rparr>"
  obtain l' m where l: "send_accsync ex_env 2 ?l = Some l'" "outgoing l' = outgoing ?l @ [SequencePaxos m]"
    "pm_msg m = AcceptSync ?a"
    by (simp add: send_accsync_def get_promise_meta_def ls_get_decided_idx_def create_log_sync_def
        increment_seq_num_session_def next_seq_num_def pid_to_idx_def vec_get_def vec_set_def
        checked_sub_def send_to_def ex_defs Let_def ex_lists numeral_2_eq_2 get_defs ms_defs sp_get_decided_idx_def)
  obtain f' where f: "sp_handle ex_env m ?f = Some f'"
    using l(3) by (simp add: ex_defs follower_evals handle_acceptsync_def sync_log_def expect_def
        sync_snapshot_def try_res_def)
  have "in_sync 2 l' f' \<and> get_decided_idx (sp_store f') = get_decided_idx (sp_store ?l)"
    by (rule send_accsync_syncs [OF l f, of 0])
      (simp_all add: ex_defs storage_wf_def get_defs log_end_def ballot_cmp_Equal)
  then show ?thesis using l(1) send_accsync_sends [OF l(1)]
    by (auto simp: in_sync_def sends_only_sel(1) ex_leader_def ex_node_def ex_storage_def)
qed

text \<open>C20: An \<^verbatim>\<open>Accepted\<close> message of the leader's round records the index of its sender; the leader
  decides the index exactly when it is above the decided one and an accept quorum has reached it,
  and changes nothing else of its log.\<close>

theorem accepted_decides_on_quorum:
  assumes "handle_accepted a p s = Some t" "acc_n a = n_leader (sp_leader s)" "sp_state s = (LeaderRole, PhaseAccept)"
  shows "accepted_indexes (sp_leader t) = (accepted_indexes (sp_leader s))[p - 1 := acc_accepted_idx a] \<and>
    sp_store t = (if get_decided_idx (sp_store s) < acc_accepted_idx a \<and>
        is_accept_quorum (ls_quorum (sp_leader s)) (card (accepted_by (acc_accepted_idx a) (sp_leader t)))
      then set_decided_idx (acc_accepted_idx a) (sp_store s) else sp_store s)"
  using handle_accepted_decides [OF assms] by (simp add: is_chosen_def accepted_by_card)

theorem accepted_decides_on_quorum_witness:
  "\<exists>t. handle_accepted \<lparr>acc_n = ex_ballot, acc_accepted_idx = 2\<rparr> 3 ex_leader = Some t \<and>
     sp_store t = set_decided_idx 2 (sp_store (ex_leader :: (nat, nat list) sequence_paxos))"
proof -
  let ?l = "ex_leader :: (nat, nat list) sequence_paxos" and ?a = "\<lparr>acc_n = ex_ballot, acc_accepted_idx = 2\<rparr>"
  obtain t where t: "handle_accepted ?a 3 ?l = Some t"
    by (simp add: handle_accepted_def ls_set_accepted_idx_def ex_defs pid_to_idx_def vec_set_def checked_sub_def
        is_chosen_def get_defs prune_accepted_map_def get_promised_followers_def decide_accepted_to_def
        get_latest_accdec_message_def get_latest_accept_meta_def vec_get_def send_decide_def
        message_seq_num_def next_seq_num_def Let_def ex_lists is_promised_def numeral_2_eq_2 numeral_3_eq_3)
  from accepted_decides_on_quorum [OF t] t show ?thesis
    by (auto simp: ex_defs get_defs accepted_by_card ex_lists)
qed

text \<open>C21: What the leader decides on the slow path survives: in a valid cluster every prepare quorum
  of a later leader contains a node that has accepted the log up to the decided index.\<close>

theorem decided_index_seen_by_prepare_quorums:
  assumes "handle_accepted a p s = Some t" "acc_n a = n_leader (sp_leader s)" "sp_state s = (LeaderRole, PhaseAccept)"
    and "get_decided_idx (sp_store s) < get_decided_idx (sp_store t)"
    and "valid_server cp" "ls_quorum (sp_leader s) = server_quorum cp"
    and "accepted_by (get_decided_idx (sp_store t)) (sp_leader t) \<subseteq> server_members cp"
    and "P \<subseteq> server_members cp" "is_prepare_quorum (server_quorum cp) (card P)"
  shows "\<exists>q \<in> P. get_decided_idx (sp_store t) \<le> accepted_indexes (sp_leader t) ! (q - 1)"
proof -
  note d = handle_accepted_decides [OF assms(1-3)]
  have "get_decided_idx (sp_store t) = acc_accepted_idx a \<and> is_chosen (acc_accepted_idx a) (sp_leader t)"
    using d(3) assms(4) by (auto simp: set_decided_idx_def get_decided_idx_def split: if_splits)
  with chosen_meets_prepare_quorum [of "acc_accepted_idx a" "sp_leader t" cp P] assms(5-9) d(2)
  show ?thesis by (auto simp: accepted_by_def)
qed

theorem decided_index_seen_by_prepare_quorums_witness:
  "\<exists>t. handle_accepted \<lparr>acc_n = ex_ballot, acc_accepted_idx = 2\<rparr> 3 (ex_leader :: (nat, nat list) sequence_paxos) = Some t \<and>
     (\<exists>q \<in> {1, 3}. 2 \<le> accepted_indexes (sp_leader t) ! (q - 1))"
proof -
  let ?l = "ex_leader :: (nat, nat list) sequence_paxos" and ?a = "\<lparr>acc_n = ex_ballot, acc_accepted_idx = 2\<rparr>"
  obtain t where t: "handle_accepted ?a 3 ?l = Some t" "get_decided_idx (sp_store t) = 2"
    "accepted_indexes (sp_leader t) = [2, 2, 2]"
    by (simp add: handle_accepted_def ls_set_accepted_idx_def ex_defs pid_to_idx_def vec_set_def checked_sub_def
        is_chosen_def get_defs prune_accepted_map_def get_promised_followers_def decide_accepted_to_def
        get_latest_accdec_message_def get_latest_accept_meta_def vec_get_def send_decide_def set_decided_idx_def ms_defs
        message_seq_num_def next_seq_num_def Let_def ex_lists is_promised_def numeral_2_eq_2 numeral_3_eq_3 send_to_def)
  have quorum: "ls_quorum (sp_leader ?l) = server_quorum (ex_cluster, Suc 0)" "get_decided_idx (sp_store ?l) < 2"
    "is_prepare_quorum (server_quorum (ex_cluster, Suc 0)) (card {1, 3::nat})"
    by (simp_all add: server_quorum_def quorum_with_def num_nodes_of_def peers_of_def ex_cluster_def ex_defs get_defs)
  have "accepted_by 2 (sp_leader t) \<subseteq> server_members (ex_cluster, Suc 0)"
    using t(3) by (auto simp: accepted_by_def)
  with decided_index_seen_by_prepare_quorums [OF t(1) _ _ _ ex_valid quorum(1), of "{1, 3}"] t quorum(2,3)
  show ?thesis by (auto simp: ex_defs)
qed

text \<open>C22: A leader adopts a log from a promise no collected promise exceeds (in accepted round, then
  accepted index), whatever the order in which the promises arrive, repeated ones included.\<close>

theorem leader_adopts_maximal_promise:
  assumes "for_each (\<lambda>(prom, from) l. map_option snd (ls_set_promise prom from True l)) ps (leader_state_with n k q) = Some l"
    and "Promised m \<in> set (promises_meta l)"
  shows "\<not> pmd_n_accepted (max_promise_meta l) < pmd_n_accepted m \<and>
    (pmd_n_accepted m = pmd_n_accepted (max_promise_meta l) \<longrightarrow> pmd_accepted_idx m \<le> pmd_accepted_idx (max_promise_meta l))"
proof -
  have "max_promise_inv l"
    by (rule for_each_invariant [OF assms(1)]) (auto intro: invar)
  with assms(2) show ?thesis by (auto simp: max_promise_inv_def promise_cmp_Greater not_le)
qed

theorem leader_adopts_maximal_promise_witness:
  "\<exists>l :: (nat, nat list) leader_state. promises_meta l = [NotPromised, ex_promised 2, ex_promised 3] \<and>
     \<not> pmd_n_accepted (max_promise_meta l) < ex_ballot"
proof -
  let ?p = "\<lparr>prom_n = Ballot 1 2 0 2, prom_n_accepted = ex_ballot, prom_decided_idx = 1, prom_accepted_idx = 2,
     prom_log_sync = None, prom_log_unsync = None, prom_log_prefix_hash = 5\<rparr>"
  obtain l :: "(nat, nat list) leader_state" where
    l: "for_each (\<lambda>(prom, from) l. map_option snd (ls_set_promise prom from True l)) [(?p, 2), (?p, 3), (?p, 2)]
      (leader_state_with (Ballot 1 2 0 2) 3 (Majority 2)) = Some l"
    "promises_meta l = [NotPromised, ex_promised 2, ex_promised 3]"
    by (simp add: ls_set_promise_def leader_state_with_def ex_promised_def Let_def pid_to_idx_def vec_set_def
        checked_sub_def ex_lists promise_cmp_def less_ballot_def ballot_cmp_def then_cmp_def cmp_def ex_ballot_def
        default_ballot_def default_promise_meta_def)
  from leader_adopts_maximal_promise [OF l(1), of "\<lparr>pmd_n_accepted = ex_ballot, pmd_accepted_idx = 2, pmd_decided_idx = 1, pmd_pid = 2\<rparr>"] l(2)
  show ?thesis by (auto simp: ex_promised_def)
qed

section \<open>The log of a node\<close>

text \<open>C23: Batching does not change the log: appending entries one by one with batching and then
  flushing gives the same storage and cache as appending them all without batching.\<close>

theorem batching_equals_direct_appends:
  "snd (flush_batch (fold (\<lambda>e s. snd (append_entry_with_batching e s)) es self)) =
   snd (append_entries_without_batching es (snd (flush_batch self)))"
  by (rule append_flush)

text \<open>C24: Reading a range shows the corresponding piece of the log: entries tagged as decided or
  undecided, a stop sign last; below the compacted index one entry stands for the compacted
  prefix; a range beyond the log is refused.\<close>

theorem reads_show_the_log:
  assumes "storage_wf self" "get_compacted_idx self \<le> get_accepted_idx self" "i < j"
  shows "read_range i j self = Some
    (if get_accepted_idx self < j then None
     else if j \<le> get_compacted_idx self then Some [create_compacted_entry (get_compacted_idx self) self]
     else if i < get_compacted_idx self then Some (create_compacted_entry (get_compacted_idx self) self #
       take (j - get_compacted_idx self) (log_view self))
     else Some (take (j - i) (drop (i - get_compacted_idx self) (log_view self))))"
  using read_range_view [OF assms(1) _ assms(3)] read_range_below [OF assms(1)] read_range_compacted [of j self i]
    read_range_out [of self j i] assms by simp

theorem reads_show_the_log_witness:
  "read_range 1 2 (ex_storage ex_ballot [7, 8] 1 :: (nat, nat list) internal_storage) = Some (Some [Undecided 8])"
  using reads_show_the_log [of "ex_storage ex_ballot [7, 8] 1 :: (nat, nat list) internal_storage" 1 2]
    log_inv_wf [OF ex_storage_inv [of 1 "[7, 8]" ex_ballot]]
  by (simp add: ex_storage_def get_defs log_view_def)

text \<open>Trimming refuses an undecided index; otherwise it moves the compacted index up to the given
  decided index and keeps everything above it readable, with the same decided and accepted index.\<close>

lemma trim_keeps_the_rest:
  assumes "log_inv self"
  shows "if get_decided_idx self < idx then try_trim idx self = Some (Inl (UndecidedIndex (get_decided_idx self)))
    else \<exists>t. try_trim idx self = Some (Inr t) \<and> log_inv t \<and> get_decided_idx t = get_decided_idx self \<and>
      get_accepted_idx t = get_accepted_idx self \<and>
      get_compacted_idx t = max (get_compacted_idx self) (compact_target idx self) \<and>
      (\<forall>i j. get_compacted_idx t \<le> i \<and> i \<le> j \<and> j \<le> log_end self \<longrightarrow> get_entries i j t = get_entries i j self)"
proof (cases "get_decided_idx self < idx")
  case True
  then show ?thesis using try_trim_undecided [OF log_inv_wf [OF assms]] by simp
next
  case False
  then have idx: "idx \<le> get_decided_idx self" by simp
  note k = compact_target_bounds [OF assms idx]
  show ?thesis
  proof (cases "get_compacted_idx self < compact_target idx self")
    case True
    with compact_to_props [OF assms less_imp_le [OF True] k] try_trim_decided [OF assms idx] idx
    show ?thesis by simp
  next
    case F: False
    with try_trim_decided [OF assms idx] idx assms show ?thesis by simp
  qed
qed

lemma trim_keeps_the_rest_witness:
  "\<exists>t :: (nat, nat list) internal_storage. try_trim 1 (ex_storage ex_ballot [7, 8] 1) = Some (Inr t) \<and>
     get_entries 1 2 t = Some [8] \<and> get_compacted_idx t = 1"
proof -
  let ?s = "ex_storage ex_ballot [7, 8] 1 :: (nat, nat list) internal_storage"
  have s: "get_decided_idx ?s = 1" "compact_target 1 ?s = 1" "get_compacted_idx ?s = 0" "log_end ?s = 2"
    "get_entries 1 2 ?s = Some [8]"
    by (simp_all add: ex_storage_def get_defs compact_target_def get_decided_idx_without_stopsign_def log_end_def
        ms_defs checked_sub_def slice_def)
  show ?thesis using trim_keeps_the_rest [OF ex_storage_inv [of 1 "[7, 8]" ex_ballot], of 1] s by auto
qed

text \<open>C25: When merging keeps the promise of \<^verbatim>\<open>Snapshot::merge\<close>, a snapshot stands for the entries it
  replaced: snapshot and stored entries together remain the same log, whose decided and accepted
  index do not change.\<close>

theorem snapshots_stand_for_the_log:
  assumes "try_snapshot env i self = Some (Inr t)" "log_inv self" "represents env h self" "merge_law env"
  shows "represents env h t \<and> log_inv t \<and> get_decided_idx t = get_decided_idx self \<and>
    get_accepted_idx t = get_accepted_idx self \<and> get_compacted_idx self \<le> get_compacted_idx t"
  by (rule try_snapshot_represents [OF assms])

theorem snapshots_stand_for_the_log_witness:
  "\<exists>t. try_snapshot ex_env (Some 1) (ex_storage ex_ballot [7, 8] 1) = Some (Inr t) \<and>
     represents ex_env [7, 8] t \<and> ms_snapshot (is_storage t) = Some [7]"
proof -
  let ?s = "ex_storage ex_ballot [7, 8] 1 :: (nat, nat list) internal_storage"
  obtain t where t: "try_snapshot ex_env (Some 1) ?s = Some (Inr t)" "ms_snapshot (is_storage t) = Some [7]"
    by (simp add: try_snapshot_def ex_storage_def get_defs get_decided_idx_without_stopsign_def create_snapshot_def
        ms_defs checked_sub_def slice_def ex_env_def try_res_def Let_def)
  have "represents ex_env [7, 8] ?s" "merge_law ex_env"
    by (simp_all add: represents_def merge_law_def ex_storage_def get_defs ex_env_def)
  from snapshots_stand_for_the_log [OF t(1) ex_storage_inv this] t show ?thesis by simp
qed

text \<open>C26: A leader trims its log only up to indexes that every node of its list has accepted.\<close>

theorem leader_trims_what_all_accepted:
  assumes "sp_trim i s = Some (None, t)" "log_inv (sp_store s)" "a \<in> set (accepted_indexes (sp_leader s))"
  shows "fst (sp_state s) = LeaderRole \<and>
    get_compacted_idx (sp_store t) \<le> max a (get_compacted_idx (sp_store s))"
proof -
  obtain m k st where m: "get_min_all_accepted_idx (sp_leader s) = Some m" and k: "k \<le> m"
    and r: "fst (sp_state s) = LeaderRole" and st: "try_trim k (sp_store s) = Some (Inr st)"
    and t: "t = send_to_peers (Compaction (CompactTrim k)) (s\<lparr>sp_store := st\<rparr>)"
    using sp_trim_None [OF assms(1)] .
  have "m \<le> a" using m assms(3) by (auto simp: get_min_all_accepted_idx_def)
  have d: "k \<le> get_decided_idx (sp_store s)"
    using st try_trim_undecided [OF log_inv_wf [OF assms(2)], of k] by (cases "get_decided_idx (sp_store s) < k") auto
  have "compact_target k (sp_store s) \<le> k"
    using compact_target_bounds(2) [OF assms(2) d] by (auto simp: compact_target_def split: if_splits)
  then have "get_compacted_idx st \<le> max a (get_compacted_idx (sp_store s))"
    using st try_trim_decided [OF assms(2) d] k \<open>m \<le> a\<close> by (auto simp: compact_to_def get_compacted_idx_def split: if_splits)
  with r t show ?thesis by (simp add: send_to_peers_outgoing)
qed

theorem leader_trims_what_all_accepted_witness:
  "\<exists>t. sp_trim (Some 1) (ex_leader :: (nat, nat list) sequence_paxos) = Some (None, t) \<and> get_compacted_idx (sp_store t) \<le> 2"
proof -
  obtain t where t: "sp_trim (Some 1) (ex_leader :: (nat, nat list) sequence_paxos) = Some (None, t)"
    by (simp add: sp_trim_def ex_defs get_min_all_accepted_idx_def iter_min_def try_trim_def get_defs
        get_decided_idx_without_stopsign_def ms_defs checked_sub_def)
  have "log_inv (sp_store (ex_leader :: (nat, nat list) sequence_paxos))"
    by (simp add: ex_leader_def ex_node_def ex_storage_inv)
  from leader_trims_what_all_accepted [OF t this, of 2] t show ?thesis by (auto simp: ex_defs get_defs)
qed

text \<open>A leader whose list has a node id no server has never trims: the index of that id stays 0,
  and every request for an index is refused.\<close>

lemma unused_node_id_blocks_trimming:
  assumes "accepted_indexes (sp_leader s) = replicate n 0"
    and "for_each (\<lambda>(p, i). ls_set_accepted_idx p i) acks (sp_leader s) = Some l"
    and "0 < k" "k \<le> n" "k \<notin> fst ` set acks" "fst (sp_state s) = LeaderRole" "0 < i"
  shows "sp_trim (Some i) (s\<lparr>sp_leader := l\<rparr>) = Some (Some (NotAllDecided 0), s\<lparr>sp_leader := l\<rparr>)"
proof -
  have other: "a \<noteq> k" if "(a, b) \<in> set acks" for a b using assms(5) that by force
  have inv: "accepted_indexes l ! (k - 1) = 0 \<and> length (accepted_indexes l) = n"
  proof (rule for_each_invariant [OF assms(2), of "\<lambda>l. accepted_indexes l ! (k - 1) = 0 \<and> length (accepted_indexes l) = n"])
    show "accepted_indexes (sp_leader s) ! (k - 1) = 0 \<and> length (accepted_indexes (sp_leader s)) = n"
      using assms(1,3,4) by simp
  next
    fix x l0 l1
    assume x: "x \<in> set acks" "(case x of (p, i) \<Rightarrow> ls_set_accepted_idx p i) l0 = Some l1"
      and l0: "accepted_indexes l0 ! (k - 1) = 0 \<and> length (accepted_indexes l0) = n"
    obtain a b where ab: "x = (a, b)" by (cases x)
    then have set: "ls_set_accepted_idx a b l0 = Some l1" using x(2) by simp
    note r = ls_set_accepted_idx_sel [OF set]
    have "a - 1 \<noteq> k - 1" using other [of a b] x(1) ab r(3) assms(3) by auto
    with r(1) l0 show "accepted_indexes l1 ! (k - 1) = 0 \<and> length (accepted_indexes l1) = n" by simp
  qed
  then have "accepted_indexes l \<noteq> []" "0 \<in> set (accepted_indexes l)"
    using assms(3,4) nth_mem [of "k - 1" "accepted_indexes l"] by auto
  moreover from this have "Min (set (accepted_indexes l)) = 0"
    using Min_le [of "set (accepted_indexes l)" 0] by simp
  ultimately have "get_min_all_accepted_idx l = Some 0" by (simp add: get_min_all_accepted_idx_def)
  then show ?thesis using assms(6,7) by (simp add: sp_trim_def)
qed

lemma unused_node_id_blocks_trimming_witness:
  "\<exists>l. for_each (\<lambda>(p, i). ls_set_accepted_idx p i) [(1, 9), (2, 9), (4, 9)]
      (leader_state_with ex_ballot 4 (Majority 2) :: (nat, nat list) leader_state) = Some l \<and>
    sp_trim (Some 1) (ex_leader\<lparr>sp_leader := l\<rparr>) = Some (Some (NotAllDecided 0), ex_leader\<lparr>sp_leader := l\<rparr>)"
proof -
  let ?l = "leader_state_with ex_ballot 4 (Majority 2) :: (nat, nat list) leader_state"
  obtain l where l: "for_each (\<lambda>(p, i). ls_set_accepted_idx p i) [(1, 9), (2, 9), (4, 9)] ?l = Some l"
    by (simp add: ls_set_accepted_idx_def leader_state_with_def pid_to_idx_def checked_sub_def vec_set_def)
  have l': "for_each (\<lambda>(p, i). ls_set_accepted_idx p i) [(1, 9), (2, 9), (4, 9)]
      (sp_leader (ex_leader\<lparr>sp_leader := ?l\<rparr>)) = Some l" using l by simp
  have "sp_trim (Some 1) ((ex_leader\<lparr>sp_leader := ?l\<rparr>)\<lparr>sp_leader := l\<rparr>) =
    Some (Some (NotAllDecided 0), (ex_leader\<lparr>sp_leader := ?l\<rparr>)\<lparr>sp_leader := l\<rparr>)"
    by (rule unused_node_id_blocks_trimming [OF _ l', of 4 3]) (simp_all add: leader_state_with_def ex_defs)
  with l show ?thesis by auto
qed

text \<open>A leader in the accept phase appends every proposal released to it at the end of its log,
  whatever its batching, unless it has recovered that proposal already.\<close>

lemma released_proposals_are_appended:
  assumes "handle_dom_release env p s = Some t" "sp_state s = (LeaderRole, PhaseAccept)"
  shows "pending_log (sp_store t) = pending_log (sp_store s) @
    (if dp_entry_id p \<in> recovered_remote_entry_ids (sp_leader s) then [] else [dp_entry p])"
  using assms release_on_leader_pending
  by (auto simp: handle_dom_release_def has_recovered_remote_entry_id_def split: if_splits)

lemma released_proposals_are_appended_witness:
  "\<exists>t. handle_dom_release ex_env (ex_prop 2 200 5000) ex_leader = Some t \<and> pending_log (sp_store t) = [7, 8, 200]"
proof -
  obtain t where t: "handle_dom_release ex_env (ex_prop 2 200 5000) ex_leader = Some t"
    by (simp add: ex_defs ex_prop_def leader_evals majority_evals send_to_def extend_hash_def)
  have "pending_log (sp_store ex_leader) = [7, 8]" "recovered_remote_entry_ids (sp_leader ex_leader) = {}"
    "sp_state ex_leader = (LeaderRole, PhaseAccept)"
    by (simp_all add: ex_defs pending_log_def)
  with released_proposals_are_appended [OF t] t show ?thesis by (simp add: ex_prop_def)
qed



text \<open>A node's decided index can go back. A leader that has decided up to 1 synchronises node 3,
  which has decided up to 2 and promised after the leader's majority: node 3 takes over 1.\<close>

lemma acceptsync_lowers_decided_index:
  "\<exists>l m f'. sp_handle ex_env \<lparr>pm_from = 3, pm_to = 1, pm_msg = Promise \<lparr>prom_n = ex_ballot,
       prom_n_accepted = ex_ballot, prom_decided_idx = 2, prom_accepted_idx = 2, prom_log_sync = None,
       prom_log_unsync = None, prom_log_prefix_hash = 5\<rparr>\<rparr> ex_leader = Some l \<and>
     outgoing l = [SequencePaxos m] \<and> pm_to m = 3 \<and>
     sp_handle ex_env m (ex_behind 2) = Some f' \<and>
     get_decided_idx (sp_store (ex_behind 2)) = 2 \<and> get_decided_idx (sp_store f') = 1"
  by (simp add: sp_handle_def handle_promise_accept_def ex_behind_def ls_set_promise_def ex_defs
      sync_evals send_to_def ex_lists)


section \<open>Deadline-ordered releases\<close>

text \<open>C30: Over any run of insertions, releases and removals the buffer releases proposals in the
  order of their deadlines (entry ids break ties), across all releases.\<close>

theorem releases_follow_deadline_order:
  assumes "eb_run b rs"
  shows "sorted (map key_of rs)"
  using eb_run_inv [OF assms] by blast

theorem releases_follow_deadline_order_witness:
  "\<exists>b. eb_run b [ex_prop 2 8 3, ex_prop 1 7 5] \<and> sorted (map key_of [ex_prop 2 8 3, ex_prop 1 7 5])"
proof -
  let ?a = "ex_prop 1 7 5" and ?b = "ex_prop 2 8 3"
  define c :: "nat early_buffer" where "c = \<lparr>eb_heap = [eb_entry_new ?a], last_released = None\<rparr>"
  have c: "eb_insert ?a eb_new = Inr c" "eb_heap c = [eb_entry_new ?a]" "last_released c = None" unfolding c_def
    by (simp_all add: eb_insert_def is_late_def eb_new_def heap_push_def)
  define d where "d = c\<lparr>eb_heap := [eb_entry_new ?b, eb_entry_new ?a]\<rparr>"
  have d: "eb_insert ?b c = Inr d" "eb_heap d = [eb_entry_new ?b, eb_entry_new ?a]" "last_released d = None"
    by (simp_all add: d_def c_def eb_insert_def is_late_def heap_push_def ex_prop_def eb_entry_new_def key_of_def
        less_eq_buffer_key_def less_buffer_key_def)
  obtain e where e: "release_loop 9 d = ([?b, ?a], e)"
    using d(2,3) by (simp add: release_loop_split ex_prop_def)
  have "eb_run e ([] @ [?b, ?a])" by (rule eb_released [OF eb_inserted [OF eb_inserted [OF eb_start c(1)] d(1)] e])
  with releases_follow_deadline_order [OF this] show ?thesis by auto
qed

text \<open>C31: Nodes whose buffers hold the same proposals release the same sequence, in whatever order
  the proposals arrived.\<close>

theorem same_proposals_same_releases:
  assumes "eb_run b rs" "eb_run c qs"
    and "mset (map eb_proposal (eb_heap b)) = mset (map eb_proposal (eb_heap c))"
    and "distinct (map (key_of \<circ> eb_proposal) (eb_heap b))"
  shows "fst (release_loop now b) = fst (release_loop now c)"
proof -
  have "map eb_proposal (eb_heap b) = map eb_proposal (eb_heap c)"
    by (rule same_heap [OF _ _ assms(3,4)]) (use eb_run_inv assms(1,2) in blast)+
  then show ?thesis by (rule same_release)
qed

theorem same_proposals_same_releases_witness:
  "\<exists>b c. eb_insert (ex_prop 1 7 5) eb_new = Inr b \<and> eb_insert (ex_prop 1 7 5) eb_new = Inr c \<and>
     fst (release_loop 9 b) = fst (release_loop 9 c)"
proof -
  define c :: "nat early_buffer" where "c = \<lparr>eb_heap = [eb_entry_new (ex_prop 1 7 5)], last_released = None\<rparr>"
  have c: "eb_insert (ex_prop 1 7 5) eb_new = Inr c" "eb_heap c = [eb_entry_new (ex_prop 1 7 5)]" unfolding c_def
    by (simp_all add: eb_insert_def is_late_def eb_new_def heap_push_def)
  have run: "eb_run c []" by (rule eb_inserted [OF eb_start c(1)])
  from same_proposals_same_releases [OF run run] c show ?thesis by auto
qed

text \<open>C32: A node that handles a proposal answers with an estimate between 0 and the configured
  maximum; a leader always buffers the proposal, moving the deadline of a late one just behind the
  last release; a follower drops exactly the late ones.\<close>

theorem proposals_buffered_and_acknowledged:
  assumes "handle_dom_propose p r d = Some (ack, d')" "owd_inv (incoming_owd d)"
  shows "0 \<le> da_estimated_owd ack \<and> da_estimated_owd ack \<le> max_owd (oe_config (incoming_owd d)) \<and>
    (if is_late (early_buffer d) p \<and> r = FollowerRole then early_buffer d' = early_buffer d
     else \<exists>dl. \<not> is_late (early_buffer d) (p\<lparr>dp_deadline := dl\<rparr>) \<and>
       (\<not> is_late (early_buffer d) p \<longrightarrow> dl = dp_deadline p) \<and>
       eb_insert (p\<lparr>dp_deadline := dl\<rparr>) (early_buffer d) = Inr (early_buffer d'))"
  using buffered_proposals [OF assms(1)] ack_bounds [OF assms(2,1)] by blast

theorem proposals_buffered_and_acknowledged_witness:
  "\<exists>ack d'. handle_dom_propose (ex_prop 1 7 5) FollowerRole (sp_dom (ex_follower 3)) = Some (ack, d') \<and>
     eb_heap (early_buffer d') = [eb_entry_new (ex_prop 1 7 5)] \<and> 0 \<le> da_estimated_owd ack"
proof -
  let ?d = "sp_dom (ex_follower 3) :: nat dom"
  obtain ack d' where h: "handle_dom_propose (ex_prop 1 7 5) FollowerRole ?d = Some (ack, d')"
    by (simp add: ex_defs ex_prop_def handle_dom_propose_def get_time_def owd_sample_new_def owd_update_def
        estimate_from_window_def buffer_proposal_def eb_insert_def is_late_def slide_window_def Let_def
        is_i64_def i64_min_def i64_max_def)
  have inv: "owd_inv (incoming_owd ?d)" by (simp add: owd_inv_def ex_defs)
  have "\<not> is_late (early_buffer ?d) q" "eb_heap (early_buffer ?d) = []" for q
    by (simp_all add: ex_defs is_late_def)
  with proposals_buffered_and_acknowledged [OF h inv]
  have "early_buffer d' = early_buffer ?d\<lparr>eb_heap := [eb_entry_new (ex_prop 1 7 5)]\<rparr>" "0 \<le> da_estimated_owd ack"
    by (auto simp: eb_insert_def heap_push_def)
  with h show ?thesis by auto
qed

section \<open>Leader election and configuration\<close>



text \<open>After a heartbeat round a node's leader is at least its previous leader, its own promise and
  every ballot reported in the round, and the replies it then counts are of the current round.\<close>

lemma heartbeat_round_raises_the_leader:
  assumes "ble_inv b" "hb_timeout st p b = Some (res, c)"
  shows "leader b \<le> leader c \<and> p \<le> leader c \<and> (\<forall>r \<in> set (heartbeat_replies b). hrep_ballot r \<le> leader c) \<and>
    ble_inv c"
  using hb_timeout_leader_le [OF assms(2)] ble_inv_hb_timeout [OF assms] by blast

lemma heartbeat_round_raises_the_leader_witness:
  "\<exists>res c. hb_timeout (FollowerRole, PhaseAccept) ex_ballot ex_candidate = Some (res, c) \<and> ex_ballot \<le> leader c"
proof -
  obtain res c where c: "hb_timeout (FollowerRole, PhaseAccept) ex_ballot ex_candidate = Some (res, c)"
    by (simp add: hb_timeout_Some check_takeover_Some ex_candidate_def ex_ballot_def ble_evals)
  have "ble_inv ex_candidate" by (simp add: ble_inv_def ex_candidate_def ex_ballot_def)
  from heartbeat_round_raises_the_leader [OF this c] c show ?thesis by blast
qed

text \<open>A message is expected exactly when its sequence number continues the current one in its
  session, outdated when it is not newer, and shows a dropped predecessor otherwise.\<close>

lemma sequence_numbers_classified:
  "check_msg_status s m =
    (if m = SequenceNumber (session s) (Suc (counter s)) then Expected
     else if m \<le> s then Outdated else DroppedPreceding)"
proof (cases "check_msg_status s m")
  case Expected
  then show ?thesis using check_msg_status_Expected [of s m] by simp
next
  case DroppedPreceding
  then show ?thesis using check_msg_status_DroppedPreceding [of s m] by auto
next
  case Outdated
  then show ?thesis using check_msg_status_Outdated [of s m] check_msg_status_Expected [of s m] by auto
qed

text \<open>A configuration passes validation exactly when it has more than one node, a configuration id,
  and, if it is flexible, quorum sizes that fit the cluster and intersect.\<close>

lemma validation_characterised:
  "cluster_config_validate c = Some (Inr ()) \<longleftrightarrow> 1 < length (nodes c) \<and> configuration_id c \<noteq> 0 \<and>
     (case flexible_quorum c of None \<Rightarrow> True
      | Some q \<Rightarrow> read_quorum_size q + write_quorum_size q < 2 ^ 64 \<and>
          length (nodes c) < read_quorum_size q + write_quorum_size q \<and>
          2 \<le> read_quorum_size q \<and> read_quorum_size q \<le> length (nodes c) \<and>
          2 \<le> write_quorum_size q \<and> write_quorum_size q \<le> length (nodes c) \<and>
          write_quorum_size q \<le> read_quorum_size q)"
  using valid_cluster_iff [of c] by (cases "flexible_quorum c") (simp_all add: valid_cluster_def)

text \<open>The fast quorum is within reach of the whole cluster for every cluster size but two: with two
  nodes three votes are asked for, so nothing is ever decided on the fast path.\<close>

lemma two_nodes_never_decide_fast:
  "0 < n \<Longrightarrow> fast_quorum n \<le> n \<longleftrightarrow> n \<noteq> 2"
proof -
  assume "0 < n"
  consider "n = 1" | "n = 2" | "n = 3" | "4 \<le> n" using \<open>0 < n\<close> by linarith
  then show ?thesis
  proof cases
    case 4
    have "n div 2 + (n div 2 + 1) div 2 + 1 \<le> n" using 4 by presburger
    with 4 show ?thesis by (simp add: fast_quorum_def Let_def)
  qed (simp_all add: fast_quorum_def)
qed

lemma two_nodes_never_decide_fast_witness: "\<not> fast_quorum 2 \<le> 2 \<and> fast_quorum 3 \<le> 3"
  using two_nodes_never_decide_fast [of 2] two_nodes_never_decide_fast [of 3] by simp

text \<open>A logical clock whose timeout is positive fires exactly once per timeout: after n ticks as
  often as the timeout divides the elapsed time.\<close>

lemma clock_fires_once_per_timeout:
  assumes "0 < lc_timeout c" "lc_time c < lc_timeout c"
  shows "firings n c = (lc_time c + n) div lc_timeout c"
  by (rule firings_div [OF assms])

lemma clock_fires_once_per_timeout_witness: "firings 10 (logical_clock_with 3) = 3"
  using clock_fires_once_per_timeout [of "logical_clock_with 3" 10] by (simp add: logical_clock_with_def)

section \<open>The benchmark's store and clock\<close>

text \<open>A snapshot of the key-value store taken from scratch is the database. Merged into an earlier
  snapshot, the snapshot of a later part of the log gives the database for every start exactly when
  no key of that part ends deleted with every deletion following a put of the same part.\<close>

lemma kv_snapshots_characterised:
  "snapshotted (kv_create es) = db (run_commands es database_new) \<and>
   ((\<forall>s. snapshotted (kv_merge s (kv_create es)) = db (run_commands es \<lparr>db = snapshotted s\<rparr>)) \<longleftrightarrow>
    (\<forall>k. \<not> lost_deletion (writes k es)))"
proof
  show "snapshotted (kv_create es) = db (run_commands es database_new)"
    using create_fold(1) [of es] by (simp add: kv_create_def Let_def)
  show "(\<forall>s. snapshotted (kv_merge s (kv_create es)) = db (run_commands es \<lparr>db = snapshotted s\<rparr>)) \<longleftrightarrow>
    (\<forall>k. \<not> lost_deletion (writes k es))" (is "?L \<longleftrightarrow> ?R")
  proof
    assume ?R
    then show ?L by (intro allI ext) (simp add: merge_at)
  next
    assume L: ?L
    show ?R
    proof
      fix k
      let ?s = "\<lparr>snapshotted = [k \<mapsto> ''x''], deleted_keys = []\<rparr> :: kv_snapshot"
      have "snapshotted (kv_merge ?s (kv_create es)) k = db (run_commands es \<lparr>db = snapshotted ?s\<rparr>) k"
        using L by metis
      then show "\<not> lost_deletion (writes k es)"
        by (auto simp: merge_at run_commands_at [of es "\<lparr>db = [k \<mapsto> ''x'']\<rparr>"] lost_deletion_def split: if_splits)
    qed
  qed
qed

lemma kv_snapshots_characterised_witness:
  "snapshotted (kv_create [ex_command (Put ''a'' ''1''), ex_command (Delete ''a'')]) = Map.empty"
  using kv_snapshots_characterised [of "[ex_command (Put ''a'' ''1''), ex_command (Delete ''a'')]"]
  by (auto simp: run_commands_def handle_command_def database_new_def ex_command_def)

text \<open>Taking a second snapshot revives a deleted key. A server puts a key, takes a snapshot, puts
  and deletes the key, and takes another one: the key is gone from its database, but its snapshot
  still holds the first value.\<close>

lemma second_snapshot_revives_deleted_key:
  "\<exists>t u. try_snapshot (kv_env env) (Some 1) ex_kv_storage = Some (Inr t) \<and>
     try_snapshot (kv_env env) (Some 3) t = Some (Inr u) \<and>
     get_compacted_idx u = 3 \<and> map_option snapshotted (ms_snapshot (is_storage u)) = Some [''a'' \<mapsto> ''1''] \<and>
     db (run_commands (ms_log (is_storage ex_kv_storage)) database_new) = Map.empty"
  by (simp add: try_snapshot_def ex_kv_storage_def ex_command_def get_defs get_decided_idx_without_stopsign_def
      create_snapshot_def ms_defs checked_sub_def slice_def kv_env_def kv_create_def kv_create_step_def
      kv_merge_def try_res_def Let_def run_commands_def handle_command_def database_new_def fun_eq_iff)

text \<open>The simulated clock never goes back and its uncertainty is honest: whatever the drift, a
  reading with its uncertainty covers the true time, and the uncertainty stays within the
  configured bound.\<close>

lemma clock_readings_cover_true_time:
  assumes "clk_get_time_with_uncertainty gen_range el c = Some ((r, u), c')" "clock_inv c"
    and "t = compute_true_time el c" "last_true_time (clk_state c) \<le> t" "t < i64_max"
    and "is_i64 (t - sync_uncertainty_us (clk_cfg c))" "is_i64 (t + sync_uncertainty_us (clk_cfg c))"
    and "\<forall>g lo hi. lo \<le> hi \<longrightarrow> lo \<le> fst (gen_range g lo hi) \<and> fst (gen_range g lo hi) \<le> hi"
  shows "last_sim_us (clk_state c) \<le> r \<and> \<bar>r - t\<bar> \<le> u \<and> u \<le> sync_uncertainty_us (clk_cfg c) \<and>
    clock_inv c' \<and> last_sim_us (clk_state c') = r \<and> last_true_time (clk_state c') = t"
proof -
  let ?e = "sync_uncertainty_us (clk_cfg c)"
  obtain s s' where s: "read_clock t (clk_cfg c) (clk_state c) = Some (r, s)"
    and u: "draw_uncertainty gen_range (clk_cfg c) s = Some (u, s')" and c': "c' = c\<lparr>clk_state := s'\<rparr>"
    using assms(1,3) by (auto simp: clk_get_time_with_uncertainty_def)
  have inv: "0 \<le> ?e" "0 < sync_period_us (clk_cfg c)" "i64_min \<le> next_resync_sim_us (clk_state c)"
    "last_sim_us (clk_state c) \<le> last_true_time (clk_state c) + ?e"
    using assms(2) by (simp_all add: clock_inv_def)
  note p = read_clock_props [OF s inv assms(4-7)]
  have err: "abs_i64 (r - t) = \<bar>r - t\<bar>" "\<bar>r - t\<bar> \<le> ?e"
    using p(2,3) assms(6,7) by (auto simp: abs_i64_def is_i64_def i64_max_def i64_min_def)
  have e: "max ?e \<bar>r - t\<bar> = ?e" using err(2) by simp
  have "u = ?e \<and> s' = s \<or> (u, rng s') = gen_range (rng s) \<bar>r - t\<bar> ?e \<and> s' = s\<lparr>rng := rng s'\<rparr>"
    using u p(5,6) err(1) e by (auto simp: draw_uncertainty_def Let_def split: if_splits prod.splits)
  then have d: "\<bar>r - t\<bar> \<le> u \<and> u \<le> ?e" "s' = s\<lparr>rng := rng s'\<rparr>"
    using assms(8) err(2) by (auto dest!: spec [of _ "rng s"] simp: prod_eq_iff)
  have "last_sim_us s' = last_sim_us s" "last_true_time s' = last_true_time s"
    "next_resync_sim_us s' = next_resync_sim_us s"
    by (subst d(2), simp)+
  then show ?thesis using p d c' inv err(2) assms(5,6) by (auto simp: clock_inv_def is_i64_def)
qed

lemma clock_readings_cover_true_time_witness:
  "\<exists>r u c'. clk_get_time_with_uncertainty (\<lambda>g lo hi. (hi, g)) (0, 1000) ex_sim_clock = Some ((r, u), c') \<and>
     \<bar>r - 2000\<bar> \<le> u \<and> u \<le> 100"
  using clock_readings_cover_true_time [OF ex_clock_reading _ ex_true_time [symmetric]] ex_clock_reading
  by (auto simp: ex_sim_clock_def clock_inv_def is_i64_def i64_min_def i64_max_def)

section \<open>The persistent storage\<close>

text \<open>C34: A transaction that the persistent storage accepts is the in-memory one. When a database represents an
  in-memory storage and every operation of the transaction fits where it is applied (indexes below
  \<open>2 ^ 64\<close>, appends at the end or within the log), the in-memory transaction succeeds and the
  new database represents its result, with the next key the operations give.\<close>

theorem persistent_transactions_refine:
  assumes "rocksdb_laws R V" "codec_laws C" "represents_db V C ps ms"
    and "txn_fits (ps_next_log_key ps) ms ops" "ps_write_atomically R C ops ps = (Inr (), ps')"
  shows "\<exists>ms'. ms_write_atomically ops ms = Some ms' \<and> represents_db V C ps' ms' \<and>
    ps_next_log_key ps' = fold key_after ops (ps_next_log_key ps)"
  using write_atomically_represents [OF assms] by metis

theorem persistent_transactions_refine_witness:
  "\<exists>ps'. ps_write_atomically ex_rocksdb ex_codec [SetPromise (Ballot 1 2 0 1), AppendOnPrefix 4 [9, 10]] ex_ps = (Inr (), ps') \<and>
    represents_db ex_views ex_codec ps' (ex_ms\<lparr>ms_n_prom := Some (Ballot 1 2 0 1), ms_log := [7, 9, 10]\<rparr>)"
proof -
  let ?ops = "[SetPromise (Ballot 1 2 0 1), AppendOnPrefix 4 [9, 10]] :: (nat, nat list) storage_op list"
  have run: "\<exists>ps'. ps_write_atomically ex_rocksdb ex_codec ?ops ex_ps = (Inr (), ps')"
    by (simp add: ex_persistent_evals)
  then obtain ps' where ps': "ps_write_atomically ex_rocksdb ex_codec ?ops ex_ps = (Inr (), ps')" by blast
  have "txn_fits (ps_next_log_key ex_ps) ex_ms ?ops"
    by (simp add: ex_ps_def ex_ms_def op_fits_def ms_log_end_def ms_defs checked_sub_def)
  from persistent_transactions_refine [OF ex_rocksdb_laws ex_codec_laws ex_represents this ps']
  show ?thesis using ps' by (auto simp: ex_ms_def ms_defs)
qed

text \<open>C35: Reads of the persistent storage give what the in-memory storage it represents gives: the entries of
  an interval above the compacted index, the suffix of the log, its length, and the stored promise,
  round, decided index, compacted index, stop sign and snapshot.\<close>

theorem persistent_reads_agree:
  assumes "rocksdb_laws R V" "represents_db V C ps ms" "answers R (ps_db ps)"
    and "ps_next_log_key ps = ms_log_end ms" "ms_compacted_idx ms = ms_trimmed_idx ms"
    and "ms_trimmed_idx ms \<le> a" "ms_trimmed_idx ms \<le> b"
  shows "map_option Inr (ms_get_entries a b ms) = Some (ps_get_entries R C a b ps) \<and>
    map_option Inr (ms_get_suffix a ms) = Some (ps_get_suffix R C a ps) \<and>
    ps_get_log_len R C ps = Some (Inr (ms_get_log_len ms)) \<and>
    ps_get_promise R C ps = Inr (ms_n_prom ms) \<and> ps_get_accepted_round R C ps = Inr (ms_acc_round ms) \<and>
    ps_get_decided_idx R C ps = Inr (ms_ld ms) \<and> ps_get_compacted_idx R C ps = Inr (ms_compacted_idx ms) \<and>
    ps_get_stopsign R C ps = Inr (ms_stopsign ms) \<and> ps_get_snapshot R C ps = Inr (ms_snapshot ms)"
proof -
  note get = get_entries_represents [OF assms(1,2,4,6)]
  have "map_option Inr (ms_get_entries a b ms) = Some (ps_get_entries R C a b ps)"
    using get(1) [OF assms(7)] get(2) by (cases "b \<le> ms_log_end ms") auto
  moreover have "map_option Inr (ms_get_suffix a ms) = Some (ps_get_suffix R C a ps)" using get(3) by auto
  ultimately show ?thesis
    using log_len_represents [OF assms(1-5)] getters_represent [OF assms(1-3)] by blast
qed

theorem persistent_reads_agree_witness:
  "ps_get_entries ex_rocksdb ex_codec 4 5 ex_ps = Inr [8] \<and> ps_get_log_len ex_rocksdb ex_codec ex_ps = Some (Inr 2) \<and>
   ps_get_promise ex_rocksdb ex_codec ex_ps = Inr (Some (Ballot 1 1 0 1))"
  using persistent_reads_agree [OF ex_rocksdb_laws ex_represents ex_answers, of 4 5]
  by (simp add: ex_ps_def ex_ms_def ms_log_end_def ms_get_log_len_def ms_get_entries_def checked_sub_def slice_def)

text \<open>C36: A restart loses nothing. Opening the database that a node has left (with an empty log at its
  compacted index) gives a storage that represents the same in-memory state, and whose next key
  follows its last entry.\<close>

theorem reopening_restores_storage:
  assumes "rocksdb_laws R V" "represents_db V C ps ms" "answers R (ps_db ps)"
    and "ms_log ms = [] \<Longrightarrow> ms_compacted_idx ms = ms_trimmed_idx ms"
  shows "\<exists>ps'. ps_recover R C (ps_db ps) = Some ps' \<and> represents_db V C ps' ms \<and>
    ps_db ps' = ps_db ps \<and> ps_next_log_key ps' = ms_log_end ms"
  by (rule recover_represents [OF assms]) blast+

theorem reopening_restores_storage_witness:
  "map_option ps_next_log_key (ps_recover ex_rocksdb ex_codec (ps_db ex_ps)) = Some 5"
  using reopening_restores_storage [OF ex_rocksdb_laws ex_represents ex_answers]
  by (auto simp: ex_ms_def ms_log_end_def)

text \<open>Synchronising a follower persists. When \<^verbatim>\<open>sync_log\<close> succeeds, there is one transaction that
  performs it in memory; a database that represents the storage before and accepts this transaction
  represents the storage after it, with a next key that follows the last entry.\<close>

lemma synchronisation_persists:
  assumes "rocksdb_laws R V" "codec_laws C"
    and "sync_log env r d (Some sync) self = Some (Inr (n, self'))"
    and "ms_trimmed_idx (is_storage self) \<le> ls_sync_idx sync"
    and "ls_decided_snapshot sync = None \<Longrightarrow> ls_sync_idx sync \<le> ms_log_end (is_storage self)"
    and "ls_sync_idx sync + length (ls_suffix sync) < 2 ^ 64" "d < 2 ^ 64"
  shows "\<exists>ops. ms_write_atomically ops (is_storage self) = Some (is_storage self') \<and>
    (\<forall>ps ps'. represents_db V C ps (is_storage self) \<longrightarrow> ps_write_atomically R C ops ps = (Inr (), ps') \<longrightarrow>
      represents_db V C ps' (is_storage self') \<and> ps_next_log_key ps' = ms_log_end (is_storage self'))"
  by (rule sync_log_represents [OF assms]) blast+

lemma synchronisation_persists_witness:
  "\<exists>n self'. sync_log ex_env ex_ballot 2 (Some \<lparr>ls_decided_snapshot = None, ls_suffix = [9], ls_sync_idx = 1, ls_stopsign = None\<rparr>)
      (ex_storage ex_ballot [7, 8] 1) = Some (Inr (n, self')) \<and>
    (\<exists>ops. ms_write_atomically ops (is_storage (ex_storage ex_ballot [7, 8] 1)) = Some (is_storage self') \<and>
      ms_log (is_storage self') = [7, 9])"
proof -
  let ?sync = "\<lparr>ls_decided_snapshot = None, ls_suffix = [9], ls_sync_idx = 1, ls_stopsign = None\<rparr> :: (nat, nat list) log_sync"
  obtain n self' where s: "sync_log ex_env ex_ballot 2 (Some ?sync) (ex_storage ex_ballot [7, 8] 1) = Some (Inr (n, self'))"
    "ms_log (is_storage self') = [7, 9]"
    by (simp add: sync_log_def sync_snapshot_def ex_storage_def ms_defs checked_sub_def Let_def)
  from synchronisation_persists [OF ex_rocksdb_laws ex_codec_laws s(1)]
  show ?thesis using s by (auto simp: ex_storage_def ms_log_end_def)
qed

text \<open>C37: A failing transaction is not rolled back. When an operation cannot be serialised, the transaction
  fails, but its earlier operations stay in the batch, and the next transaction that the database
  accepts performs them as well.\<close>

theorem failed_transaction_is_written_later:
  assumes "rocksdb_laws R V" "codec_laws C" "represents_db V C ps ms"
    and "batch_ops R C ops ps = (Inr (), ps1)" "batch_op R C op ps1 = (Inl e, ps1)"
    and "txn_fits (ps_next_log_key ps) ms (ops @ later)" "ps_write_atomically R C later ps1 = (Inr (), ps2)"
  shows "ps_write_atomically R C (ops @ op # rest) ps = (Inl e, ps1) \<and>
    (\<exists>ms'. ms_write_atomically (ops @ later) ms = Some ms' \<and> represents_db V C ps2 ms')"
proof
  note leak = next_transaction_writes_failed [OF assms(4,5)]
  show "ps_write_atomically R C (ops @ op # rest) ps = (Inl e, ps1)" by (rule leak(1))
  have "ps_write_atomically R C (ops @ later) ps = (Inr (), ps2)" using leak(2) assms(7) by simp
  from write_atomically_represents [OF assms(1-3,6) this]
  show "\<exists>ms'. ms_write_atomically (ops @ later) ms = Some ms' \<and> represents_db V C ps2 ms'" by metis
qed

theorem failed_transaction_is_written_later_witness:
  "\<exists>e ps1 ps2. ps_write_atomically ex_rocksdb ex_codec [SetPromise (Ballot 1 2 0 1), AppendEntry 300] ex_ps = (Inl e, ps1) \<and>
    ps_write_atomically ex_rocksdb ex_codec [SetDecidedIndex 4] ps1 = (Inr (), ps2) \<and>
    represents_db ex_views ex_codec ps2 (ex_ms\<lparr>ms_n_prom := Some (Ballot 1 2 0 1), ms_ld := 4\<rparr>)"
proof -
  let ?ops = "[SetPromise (Ballot 1 2 0 1)] :: (nat, nat list) storage_op list"
  let ?ps1 = "ex_ps\<lparr>ps_write_batch := [ExPut NPROM [2]]\<rparr>"
  have ps1: "batch_ops ex_rocksdb ex_codec ?ops ex_ps = (Inr (), ?ps1)"
    "batch_op ex_rocksdb ex_codec (AppendEntry 300) ?ps1 = (Inl (Foreign ()), ?ps1)"
    by (simp_all add: ex_persistent_evals)
  obtain ps2 where ps2: "ps_write_atomically ex_rocksdb ex_codec [SetDecidedIndex 4] ?ps1 = (Inr (), ps2)"
    by (simp add: ex_persistent_evals)
  have "txn_fits (ps_next_log_key ex_ps) ex_ms (?ops @ [SetDecidedIndex 4])"
    by (simp add: op_fits_def ms_defs)
  from failed_transaction_is_written_later [OF ex_rocksdb_laws ex_codec_laws ex_represents ps1 this ps2, of "[]"]
  show ?thesis using ps2 by (auto simp: ex_ms_def ms_defs)
qed

section \<open>Caches of entry fields\<close>

text \<open>C38: What a cache encodes, its counterpart decodes. Two new caches of the same size, one encoding and
  one decoding, stay in step over any sequence of values, and a clone of the encoding cache, as it
  is sent to a follower, decodes everything encoded after it was cloned.\<close>

theorem lru_caches_stay_in_step:
  assumes "lru_laws oe" "lru_laws od" "encodings_fresh eo sz" "lru_unicache_new oe od eo sz = Some E"
  shows "\<exists>ms E1 D1 F ns E2. map_state (lru_try_encode oe eo) xs E = Some (ms, E1) \<and>
    map_state (lru_decode od eo) ms E = Some (xs, D1) \<and> lru_clone oe od E1 = Some F \<and>
    map_state (lru_try_encode oe eo) ys E1 = Some (ns, E2) \<and>
    map_option fst (map_state (lru_decode od eo) ns D1) = Some ys \<and>
    map_option fst (map_state (lru_decode od eo) ns F) = Some ys"
proof -
  note step = lru_keeps_step [OF assms(1-3)]
  obtain ms E1 D1 where 1: "map_state (lru_try_encode oe eo) xs E = Some (ms, E1)"
    "map_state (lru_decode od eo) ms E = Some (xs, D1)" "lru_in_step oe od eo sz E1 D1"
    using keeps_step_run [OF step lru_new_in_step [OF assms(1,2,4)]] by blast
  obtain F where F: "lru_clone oe od E1 = Some F" "lru_in_step oe od eo sz E1 F"
    by (rule lru_clone_in_step [OF assms(1,2) 1(3)])
  obtain ns E2 D2 where 2: "map_state (lru_try_encode oe eo) ys E1 = Some (ns, E2)"
    "map_state (lru_decode od eo) ns D1 = Some (ys, D2)"
    using keeps_step_run [OF step 1(3)] by blast
  obtain F2 where "map_state (lru_decode od eo) ns F = Some (ys, F2)"
    using keeps_step_run [OF step F(2), of ys] 2(1) by auto
  with 1 2 F show ?thesis by fastforce
qed

theorem lru_caches_stay_in_step_witness:
  "\<exists>(E :: ex_string_cache) ms E1 D1. lru_unicache_new ex_lru ex_lru ex_u8 2 = Some E \<and>
     map_state (lru_try_encode ex_lru ex_u8) [''a'', ''b'', ''a'', ''c''] E = Some (ms, E1) \<and>
     map_state (lru_decode ex_lru ex_u8) ms E = Some ([''a'', ''b'', ''a'', ''c''], D1)"
proof -
  have fresh: "encodings_fresh ex_u8 2" by (simp add: ex_u8_fresh)
  obtain E :: ex_string_cache where E: "lru_unicache_new ex_lru ex_lru ex_u8 2 = Some E" by (simp add: lru_unicache_new_def)
  from lru_caches_stay_in_step [OF ex_lru_laws ex_lru_laws fresh E, of "[''a'', ''b'', ''a'', ''c'']" "[]"]
  show ?thesis using E by (simp; blast)
qed

text \<open>A promoted follower breaks the others' caches. A clone has an encoder of capacity 1; a follower
  that got it and becomes leader gives every new value a fresh encoding. After it has sent more new
  values than the configured size and repeats the last one, the encoding it sends is unknown to
  every follower that got the same clone, and decoding panics.\<close>

lemma promoted_lru_cache_breaks:
  assumes "lru_laws oe" "lru_laws od" "encodings_fresh eo sz" "lru_unicache_new oe od eo sz = Some E"
    and "map_state (lru_try_encode oe eo) ys E = Some (ns, E1)" "lru_clone oe od E1 = Some P"
    and "1 < sz" "distinct xs" "sz < length xs" "\<forall>i \<le> sz + length xs. nth_encoding eo i \<noteq> None"
    and "inj_on (nth_encoding eo) {1..sz + length xs}"
  shows "\<exists>c P'. map_state (lru_try_encode oe eo) (xs @ [last xs]) P = Some (map NotEncoded xs @ [Encoded c], P') \<and>
    map_state (lru_decode od eo) (map NotEncoded xs @ [Encoded c]) P = None"
proof -
  obtain D1 where rel1: "lru_in_step oe od eo sz E1 D1"
    using keeps_step_run [OF lru_keeps_step [OF assms(1-3)] lru_new_in_step [OF assms(1,2,4)], of ys] assms(5) by auto
  have rel: "lru_in_step oe od eo sz E1 P"
    using lru_clone_in_step [OF assms(1,2) rel1] assms(6) by (metis option.inject)
  have P: "lru_cache_encoder P = lru_new oe 1" "lru_size P = sz"
    using assms(6,7) rel1 by (auto simp: lru_clone_def lru_in_step_def split: if_splits)
  let ?n = "length (lru_iter od (lru_cache_decoder P))"
  have n: "?n \<le> sz" "nth_encoding eo ?n = Some (lru_encoding P)" "lru_decoder_ok od eo sz P"
    using rel by (auto simp: lru_in_step_def lru_decoder_ok_def image_image)
  have xs: "xs \<noteq> []" using assms(9) by auto
  have "\<exists>P' c. map_state (lru_try_encode oe eo) xs P = Some (map NotEncoded xs, P') \<and>
      nth_encoding eo (?n + length xs) = Some c \<and> lru_iter oe (lru_cache_encoder P') = [(last xs, c)]"
    by (rule lru_promoted_run [OF assms(1,8) xs])
      (use P n(1,2) assms(7,10) lru_lawsD(1,2) [OF assms(1), of 1] in auto)
  then obtain P1 c where P1: "map_state (lru_try_encode oe eo) xs P = Some (map NotEncoded xs, P1)"
    "nth_encoding eo (?n + length xs) = Some c" "lru_iter oe (lru_cache_encoder P1) = [(last xs, c)]" by blast
  obtain le where "lru_get oe (last xs) (lru_cache_encoder P1) = (Some c, le)"
    by (rule lru_get_hit [OF assms(1), of "lru_cache_encoder P1" "last xs" c]) (use P1(3) in auto)
  then have "map_state (lru_try_encode oe eo) [last xs] P1 = Some ([Encoded c], P1\<lparr>lru_cache_encoder := le\<rparr>)"
    by (simp add: lru_try_encode_def)
  note enc = map_state_append [OF P1(1) this]
  obtain D where D: "map_state (lru_decode od eo) (map NotEncoded xs) P = Some (xs, D)" "lru_decoder_ok od eo sz D"
    using lru_decode_plains [OF assms(2,3) n(3)] by blast
  have "lru_decode od eo (Encoded c) D = None"
    by (rule lru_decode_unknown [OF assms(2) D(2) P1(2)])
      (use assms(9) n(1) inj_on_subset [OF assms(11)] in auto)
  then have "map_state (lru_decode od eo) (map NotEncoded xs @ [Encoded c]) P = None"
    using map_state_fails [OF D(1)] by simp
  with enc show ?thesis by blast
qed

lemma promoted_lru_cache_breaks_witness:
  "\<exists>(P :: ex_string_cache) c P'. lru_size P = 2 \<and>
     map_state (lru_try_encode ex_lru ex_u8) [''a'', ''b'', ''c'', ''c''] P =
       Some ([NotEncoded ''a'', NotEncoded ''b'', NotEncoded ''c'', Encoded c], P') \<and>
     map_state (lru_decode ex_lru ex_u8) [NotEncoded ''a'', NotEncoded ''b'', NotEncoded ''c'', Encoded c] P = None"
proof -
  have fresh: "encodings_fresh ex_u8 2" by (simp add: ex_u8_fresh)
  obtain E :: ex_string_cache where E: "lru_unicache_new ex_lru ex_lru ex_u8 2 = Some E" "lru_size E = 2"
    by (simp add: lru_unicache_new_def)
  then obtain P :: ex_string_cache where P: "lru_clone ex_lru ex_lru E = Some P" "lru_size P = 2" by (simp add: lru_clone_def)
  have run: "map_state (lru_try_encode ex_lru ex_u8) [] E = Some ([], E)" by simp
  have nth: "\<forall>i \<le> 2 + length [''a'', ''b'', ''c'']. nth_encoding ex_u8 i \<noteq> None" by (simp add: ex_u8_nth)
  have inj: "inj_on (nth_encoding ex_u8) {1..2 + length [''a'', ''b'', ''c'']}"
    using ex_u8_fresh [of 5] by (simp add: encodings_fresh_def)
  from promoted_lru_cache_breaks [OF ex_lru_laws ex_lru_laws fresh E(1) run P(1) _ _ _ nth inj]
  show ?thesis using P(2) by fastforce
qed

text \<open>C39: A least-frequently-used cache stays well-formed and evicts what it should. Lookups and
  insertions keep the invariant: the bins hold exactly the cached keys under their frequencies, the
  recorded minimum is the least frequency in use, and the capacity is not exceeded. A lookup finds
  the value set last and counts; inserting into a full cache removes the oldest of the entries with
  the least frequency and nothing else.\<close>

theorem lfu_cache_well_formed:
  assumes "lhs_laws ops" "lfu_inv ops c" "0 < lfu_capacity c"
  shows "(\<exists>c'. lfu_get ops k c = Some (map_option vc_value (map_of (lfu_values c) k), c') \<and> lfu_inv ops c' \<and>
      map_of (lfu_values c') = (case map_of (lfu_values c) k of None \<Rightarrow> map_of (lfu_values c)
        | Some vc \<Rightarrow> (map_of (lfu_values c))(k \<mapsto> vc_inc vc))) \<and>
    (\<exists>c'. lfu_set ops k v c = Some c' \<and> lfu_inv ops c' \<and> map_option vc_value (map_of (lfu_values c') k) = Some v) \<and>
    (map_of (lfu_values c) k = None \<and> length (lfu_values c) = lfu_capacity c \<longrightarrow>
      (\<exists>q w ps c'. lfu_set ops k v c = Some c' \<and> lfu_bins ops c (min_frequency c) = (q, w) # ps \<and>
        map_of (lfu_values c') = (map_of (lfu_values c))(q := None, k \<mapsto> \<lparr>vc_value = v, vc_count = 1\<rparr>)))"
proof (intro conjI impI)
  show "\<exists>c'. lfu_get ops k c = Some (map_option vc_value (map_of (lfu_values c) k), c') \<and> lfu_inv ops c' \<and>
      map_of (lfu_values c') = (case map_of (lfu_values c) k of None \<Rightarrow> map_of (lfu_values c)
        | Some vc \<Rightarrow> (map_of (lfu_values c))(k \<mapsto> vc_inc vc))"
    by (rule lfu_get_ok [OF assms(1,2), of k]) blast
  show "\<exists>c'. lfu_set ops k v c = Some c' \<and> lfu_inv ops c' \<and> map_option vc_value (map_of (lfu_values c') k) = Some v"
    by (rule lfu_set_ok [OF assms, of k v]) blast
  assume "map_of (lfu_values c) k = None \<and> length (lfu_values c) = lfu_capacity c"
  then have "map_of (lfu_values c) k = None" "length (lfu_values c) = lfu_capacity c" by simp_all
  from lfu_set_full [OF assms this, of v]
  show "\<exists>q w ps c'. lfu_set ops k v c = Some c' \<and> lfu_bins ops c (min_frequency c) = (q, w) # ps \<and>
      map_of (lfu_values c') = (map_of (lfu_values c))(q := None, k \<mapsto> \<lparr>vc_value = v, vc_count = 1\<rparr>)"
    by metis
qed

theorem lfu_cache_well_formed_witness:
  "lfu_inv ex_set (empty_lfu 2 :: (string, nat, string list) lfu_cache) \<and>
   (\<exists>c'. lfu_set ex_set ''a'' (7::nat) (empty_lfu 2) = Some c' \<and> lfu_inv ex_set c' \<and>
     map_option vc_value (map_of (lfu_values c') ''a'') = Some 7)"
proof -
  have "lfu_inv ex_set (empty_lfu 2 :: (string, nat, string list) lfu_cache)"
    by (rule lfu_stateD(1) [OF empty_state])
  then show ?thesis using lfu_cache_well_formed [OF ex_set_laws, of "empty_lfu 2" "''a''" "7::nat"] by simp
qed

text \<open>A cloned cache forgets the frequencies. When a full cache of size 2 has been hit on one value and
  its hash map iterates over that value first, a clone of it, as it is sent to a follower, evicts
  another entry than the cache does: the next new value followed by the hit value is decoded as
  the new value twice, silently.\<close>

lemma lfu_clone_forgets_frequencies:
  assumes "lhs_laws oe" "lhs_laws od" "encodings_fresh eo 2" "lfu_unicache_new eo 2 = Some E0"
    and "x \<noteq> y" "z \<noteq> x" "z \<noteq> y" "w = x \<or> w = y" "\<forall>xs. mset (hm_order xs) = mset xs"
    and "map_state (lfu_try_encode oe eo) [x, y, w] E0 = Some (ns, E)"
    and "fst (hd (lfu_iter hm_order (lfu_cache_encoder E))) = w"
  shows "\<exists>F ms E' F'. lfu_clone od hm_order E = Some F \<and>
    map_state (lfu_try_encode oe eo) [z, w] E = Some (ms, E') \<and>
    map_state (lfu_decode od eo) ms F = Some ([z, z], F')"
proof -
  define u where "u = (if w = x then y else x)"
  have u: "(w, u) = (x, y) \<or> (w, u) = (y, x)" "w \<noteq> u" "z \<noteq> w" "z \<noteq> u" using assms(5-8) by (auto simp: u_def)
  obtain cw cu where e: "lfu_state oe (lfu_cache_encoder E) ((\<lambda>_. [])(1 := [(u, cu)], 2 := [(w, cw)])) 2 2"
    "min_frequency (lfu_cache_encoder E) = 1" "cw \<noteq> cu" "lfu_size E = 2"
    by (rule lfu_encoder_after_hit [OF assms(1,3,4,5) u(1)]) (use assms(10) in auto)
  let ?it = "lfu_iter hm_order (lfu_cache_encoder E)"
  have order: "mset (hm_order xs) = mset xs" for xs using assms(9) by blast
  note it = lfu_iter_bins [where hm_order = hm_order, OF e(1) order refl]
  let ?B = "(\<lambda>_::nat. [])(1 := [(u, cu)], 2 := [(w, cw)])"
  have "(\<exists>i. (k, v) \<in> set (?B i)) \<longleftrightarrow> (k, v) = (w, cw) \<or> (k, v) = (u, cu)" for k v
  proof
    assume "(k, v) = (w, cw) \<or> (k, v) = (u, cu)"
    then have "(k, v) \<in> set (?B 2) \<or> (k, v) \<in> set (?B 1)" by auto
    then show "\<exists>i. (k, v) \<in> set (?B i)" by blast
  qed (auto split: if_splits)
  then have "set ?it = {(w, cw), (u, cu)}" unfolding it(1) by auto
  moreover have "hd ?it = (w, cw)"
    using it(2) calculation assms(11) u(2) hd_in_set [of ?it] by (cases ?it) auto
  ultimately have order2: "?it = [(w, cw), (u, cu)]" using it(2) e(3) by (intro two_element_list) auto
  obtain F where F: "lfu_clone od hm_order E = Some F" "lfu_size F = 2"
    "lfu_state od (lfu_cache_decoder F) ((\<lambda>_. [])(1 := [(cw, w), (cu, u)])) 2 2"
    "min_frequency (lfu_cache_decoder F) = 1"
    by (rule lfu_clone_two [OF assms(2) e(4) order2 e(3)])
  obtain E' F' where "map_state (lfu_try_encode oe eo) [z, w] E = Some ([NotEncoded z, Encoded cw], E')"
    "map_state (lfu_decode od eo) [NotEncoded z, Encoded cw] F = Some ([z, z], F')"
    by (rule lfu_clone_diverges [OF assms(1,2) e(1,2,4) F(3,4,2) e(3) u(3,4,2)])
  with F(1) show ?thesis by blast
qed

lemma lfu_clone_forgets_frequencies_witness:
  "\<exists>(E :: (string, 8 word, string list, 8 word list) lfu_unicache) F ms E' F'.
     lfu_clone ex_set id E = Some F \<and> map_state (lfu_try_encode ex_set ex_u8) [''z'', ''x''] E = Some (ms, E') \<and>
     map_state (lfu_decode ex_set ex_u8) ms F = Some ([''z'', ''z''], F')"
proof -
  have fresh: "encodings_fresh ex_u8 2" by (simp add: ex_u8_fresh)
  obtain E0 :: "(string, 8 word, string list, 8 word list) lfu_unicache"
    where E0: "lfu_unicache_new ex_u8 2 = Some E0" by (simp add: lfu_unicache_new_def with_capacity_def)
  obtain ns E where E: "map_state (lfu_try_encode ex_set ex_u8) [''x'', ''y'', ''x''] E0 = Some (ns, E)"
    "fst (hd (lfu_iter id (lfu_cache_encoder E))) = ''x''"
    using E0 by (auto simp: ex_lfu_evals)
  obtain F ms E' F' where "lfu_clone ex_set id E = Some F"
    "map_state (lfu_try_encode ex_set ex_u8) [''z'', ''x''] E = Some (ms, E')"
    "map_state (lfu_decode ex_set ex_u8) ms F = Some ([''z'', ''z''], F')"
    using lfu_clone_forgets_frequencies [OF ex_set_laws ex_set_laws fresh E0 _ _ _ _ _ E, of "''z''"]
    by (auto simp del: map_state.simps)
  then show ?thesis by blast
qed

text \<open>C40: The generated caches return the entries. For a struct the derive macro accepts, with sizes its
  encodings suffice for, the generated cache can be created, and two new ones stay in step over
  any sequence of entries: decoding what the one encodes with the other gives the entries back,
  whatever mix of the two kinds of caches the fields use.\<close>

theorem derived_entries_come_back:
  assumes "cache_laws co" "unicache_entry_derive (Struct fs) = Some g" "distinct (map fld_ident fs)"
    and "\<forall>s \<in> set (cache_sizes g). 0 < size_of_cache s \<and> encodings_fresh (co_encoded co) (size_of_cache s)"
    and "\<forall>entry \<in> set es. dom entry = set (field_names g)"
  shows "\<exists>caches ts E D. generated_new (field_new co) g = Some caches \<and>
    map_state (generated_try_encode (field_encode co) g) es caches = Some (ts, E) \<and>
    map_state (generated_decode (field_decode co) g) ts caches = Some (es, D)"
proof -
  have ok: "names_ok g" by (rule derived_names_ok [OF assms(2,3)])
  obtain caches where new: "generated_new (field_new co) g = Some caches"
    "caches_in_step (field_in_step co) (set (encodable_field_names g)) caches caches"
    by (rule generated_new_in_step [OF assms(1) ok]) (use assms(4) in auto)
  from entries_come_back [OF field_keeps_step [OF assms(1)] ok new(2) assms(5)] new(1)
  show ?thesis by blast
qed

theorem derived_entries_come_back_witness:
  "\<exists>g caches ts E D. unicache_entry_derive (Struct ex_struct) = Some g \<and> generated_new (field_new ex_cache_ops) g = Some caches \<and>
     map_state (generated_try_encode (field_encode ex_cache_ops) g) [ex_entry, ex_entry] caches = Some (ts, E) \<and>
     map_state (generated_decode (field_decode ex_cache_ops) g) ts caches = Some ([ex_entry, ex_entry], D)"
proof -
  obtain g where g: "unicache_entry_derive (Struct ex_struct) = Some g" "cache_sizes g = [CacheSize 2, U8Max]"
    "set (field_names g) = {''id'', ''key'', ''table''}"
    by (auto simp: ex_derive_evals)
  have sizes: "\<forall>s \<in> set (cache_sizes g). 0 < size_of_cache s \<and> encodings_fresh (co_encoded ex_cache_ops) (size_of_cache s)"
    by (simp add: g(2) size_of_cache_def ex_cache_ops_def ex_u8_fresh)
  have dom: "\<forall>entry \<in> set [ex_entry, ex_entry]. dom entry = set (field_names g)"
    by (auto simp: g(3) ex_entry_def)
  have "distinct (map fld_ident ex_struct)" by (simp add: ex_struct_def)
  from derived_entries_come_back [OF ex_cache_laws g(1) this sizes dom] g(1) show ?thesis by blast
qed

text \<open>The kind of cache of a field without \<^verbatim>\<open>cache\<close> attribute is the one of the annotated field
  before it, and least recently used only for the first one.\<close>

lemma cache_kind_carries_over:
  "unicache_entry_derive (Struct fs) = Some g \<Longrightarrow> cache_types g = carried None fs"
  using derive_cache_types [of fs derived_empty g] by (simp add: unicache_entry_derive_def derived_empty_def)

lemma cache_kind_carried:
  "map_option cache_types (unicache_entry_derive (Struct ex_struct)) = Some [LFUniCache, LFUniCache]"
  by (simp add: ex_derive_evals)

end
